(* ===== verification/Prelude.thy ===== *)
theory Prelude
  imports Complex_Main "HOL-Library.AList" "HOL-Library.Word"
begin

section \<open>Shared vocabulary of the model\<close>

text \<open>
  What every other theory builds on: the types that stand for Python's values, dictionaries
  that keep their insertion order, the numbers of a binary header, and the generic machine
  whose invariants the components prove once.

  Python's floats are rationals here: every finite float is one, and no component relies on
  rounding. The float \<open>-inf\<close>, which the source uses for "never", is \<open>None\<close>. Identifiers
  (node names, UUIDs, hexadecimal digests) are strings.
\<close>

subsection \<open>Values\<close>

type_synonym seconds = rat
type_synonym byte = "8 word"
type_synonym ('k, 'v) dict = "('k \<times> 'v) list"

text \<open>A value as JSON carries it: what a reading, an option or a field may hold.\<close>

datatype json_value = JNull | JBool bool | JInt int | JFloat rat | JStr string

named_theorems model_defs
named_theorems invariants

subsection \<open>Dictionaries\<close>

text \<open>
  A \<open>dict\<close> is a list of pairs with distinct keys. Storing under a key that is there already
  keeps its place, storing under a new key appends, as Python's dictionaries do.
\<close>

abbreviation dict_get :: "('k, 'v) dict \<Rightarrow> 'k \<Rightarrow> 'v option" where
  "dict_get d k \<equiv> map_of d k"

abbreviation dict_set :: "'k \<Rightarrow> 'v \<Rightarrow> ('k, 'v) dict \<Rightarrow> ('k, 'v) dict" where
  "dict_set k v d \<equiv> AList.update k v d"

abbreviation dict_pop :: "'k \<Rightarrow> ('k, 'v) dict \<Rightarrow> ('k, 'v) dict" where
  "dict_pop k d \<equiv> AList.delete k d"

abbreviation dict_values :: "('k, 'v) dict \<Rightarrow> 'v list" where
  "dict_values d \<equiv> map snd d"

abbreviation wf_dict :: "('k, 'v) dict \<Rightarrow> bool" where
  "wf_dict d \<equiv> distinct (map fst d)"

lemma dict_get_set [simp]: "dict_get (dict_set k v d) k' = (if k' = k then Some v else dict_get d k')"
  by (simp add: update_conv)

lemma dict_get_pop [simp]: "dict_get (dict_pop k d) k' = (if k' = k then None else dict_get d k')"
  by (simp add: delete_conv)

lemma wf_dict_set [simp, intro]: "wf_dict d \<Longrightarrow> wf_dict (dict_set k v d)"
  by (rule distinct_update)

lemma wf_dict_pop [simp, intro]: "wf_dict d \<Longrightarrow> wf_dict (dict_pop k d)"
  by (rule distinct_delete)

lemma dict_get_in: "dict_get d k = Some v \<Longrightarrow> (k, v) \<in> set d"
  by (rule map_of_SomeD)

lemma dict_in_get: "wf_dict d \<Longrightarrow> (k, v) \<in> set d \<Longrightarrow> dict_get d k = Some v"
  by simp

declare map_of_eq_Some_iff [simp del] Some_eq_map_of_iff [simp del]

lemma dict_set_in: "(k', v') \<in> set (dict_set k v d) \<Longrightarrow> (k', v') = (k, v) \<or> (k', v') \<in> set d"
  by (induction d) (auto split: if_splits)

lemma dict_pop_in: "(k', v') \<in> set (dict_pop k d) \<Longrightarrow> (k', v') \<in> set d \<and> k' \<noteq> k"
  by (auto simp: AList.delete_eq)

lemma length_dict_set:
  "length (dict_set k v d) = (if k \<in> set (map fst d) then length d else Suc (length d))"
  by (induction d) auto

subsection \<open>Strings\<close>

text \<open>\<open>str.partition\<close> for one separator: what is before it, and what follows it, if it is there.\<close>

definition py_partition :: "char \<Rightarrow> string \<Rightarrow> string \<times> string option" where
  "py_partition c s =
     (takeWhile (\<lambda>x. x \<noteq> c) s,
      case dropWhile (\<lambda>x. x \<noteq> c) s of [] \<Rightarrow> None | _ # rest \<Rightarrow> Some rest)"

lemma py_partition_none:
  assumes "c \<notin> set s"
  shows "py_partition c s = (s, None)"
proof -
  have all: "\<forall>x \<in> set s. x \<noteq> c" using assms by auto
  then have "takeWhile (\<lambda>x. x \<noteq> c) s = s" by (simp add: takeWhile_eq_all_conv)
  moreover from all have "dropWhile (\<lambda>x. x \<noteq> c) s = []" by (simp only: dropWhile_eq_Nil_conv)
  ultimately show ?thesis unfolding py_partition_def by (simp only: list.case)
qed

lemma py_partition_some:
  assumes "c \<notin> set a"
  shows "py_partition c (a @ c # b) = (a, Some b)"
proof -
  have "\<And>x. x \<in> set a \<Longrightarrow> x \<noteq> c" using assms by auto
  then show ?thesis
    by (simp add: py_partition_def takeWhile_append2 dropWhile_append2)
qed

lemma py_partition_join:
  "s = fst (py_partition c s) @
     (case snd (py_partition c s) of None \<Rightarrow> [] | Some b \<Rightarrow> c # b) \<and>
   c \<notin> set (fst (py_partition c s))"
proof (cases "c \<in> set s")
  case True
  then obtain a b where "s = a @ c # b" "c \<notin> set a" by (metis split_list_first)
  then show ?thesis by (simp add: py_partition_some)
next
  case False
  then show ?thesis by (simp add: py_partition_none)
qed

text \<open>A whole number in decimal, and padded with zeros to a width.\<close>

fun nat_text :: "nat \<Rightarrow> string" where
  "nat_text n =
     (if n < 10 then [char_of (48 + n)] else nat_text (n div 10) @ [char_of (48 + n mod 10)])"

declare nat_text.simps [simp del]

definition int_text :: "int \<Rightarrow> string" where
  "int_text i = (if i < 0 then ''-'' @ nat_text (nat (- i)) else nat_text (nat i))"

definition padded :: "nat \<Rightarrow> nat \<Rightarrow> string" where
  "padded w n = replicate (w - length (nat_text n)) (CHR ''0'') @ nat_text n"

text \<open>\<open>a or b\<close> on optional strings: an empty string counts as nothing.\<close>

definition py_or :: "string option \<Rightarrow> string option \<Rightarrow> string option" where
  "py_or a b = (case a of None \<Rightarrow> b | Some x \<Rightarrow> if x = '''' then b else Some x)"

subsection \<open>Moments\<close>

text \<open>
  An aware \<open>datetime\<close>: an instant in microseconds of UTC since the epoch, and the offset in
  seconds it is written with. \<open>isoformat\<close> works out the civil date of the Gregorian calendar.
\<close>

record moment =
  mom_us :: int
  mom_offset :: int

definition civil :: "int \<Rightarrow> int \<times> int \<times> int" where
  "civil days =
     (let z = days + 719468;
          era = z div 146097;
          doe = z mod 146097;
          yoe = (doe - doe div 1460 + doe div 36524 - doe div 146096) div 365;
          doy = doe - (365 * yoe + yoe div 4 - yoe div 100);
          mp = (5 * doy + 2) div 153;
          d = doy - (153 * mp + 2) div 5 + 1;
          m = (if mp < 10 then mp + 3 else mp - 9)
      in (yoe + era * 400 + (if m \<le> 2 then 1 else 0), m, d))"

definition isoformat :: "moment \<Rightarrow> string" where
  "isoformat t =
     (let local = mom_us t + mom_offset t * 1000000;
          (y, m, d) = civil (local div 86400000000);
          us = local mod 86400000000;
          s = us div 1000000;
          frac = us mod 1000000;
          off = abs (mom_offset t);
          two = (\<lambda>n. padded 2 (nat n))
      in padded 4 (nat y) @ ''-'' @ two m @ ''-'' @ two d @ ''T'' @
         two (s div 3600) @ '':'' @ two (s div 60 mod 60) @ '':'' @ two (s mod 60) @
         (if frac = 0 then '''' else ''.'' @ padded 6 (nat frac)) @
         (if mom_offset t < 0 then ''-'' else ''+'') @ two (off div 3600) @ '':'' @
         two (off div 60 mod 60) @
         (if off mod 60 = 0 then '''' else '':'' @ two (off mod 60)))"

definition timestamp :: "moment \<Rightarrow> seconds" where
  "timestamp t = of_int (mom_us t) / 1000000"

text \<open>The library states this predicate by its set; the equations below compute it.\<close>

lemma pred_option_code [code]:
  "pred_option P None = True" "pred_option P (Some x) = P x"
  by simp_all

subsection \<open>Numbers of a binary header\<close>

text \<open>Little-endian fields, as \<open>struct\<close> packs and unpacks them.\<close>

fun le_bytes :: "nat \<Rightarrow> nat \<Rightarrow> byte list" where
  "le_bytes 0 x = []"
| "le_bytes (Suc n) x = word_of_nat (x mod 256) # le_bytes n (x div 256)"

fun le_nat :: "byte list \<Rightarrow> nat" where
  "le_nat [] = 0"
| "le_nat (b # bs) = unat b + 256 * le_nat bs"

lemma length_le_bytes [simp]: "length (le_bytes n x) = n"
  by (induction n arbitrary: x) auto

lemma le_nat_le_bytes: "x < 256 ^ n \<Longrightarrow> le_nat (le_bytes n x) = x"
proof (induction n arbitrary: x)
  case 0
  then show ?case by simp
next
  case (Suc n)
  then have "x div 256 < 256 ^ n" by (simp add: less_mult_imp_div_less mult.commute)
  with Suc.IH have "le_nat (le_bytes n (x div 256)) = x div 256" by blast
  moreover have "unat (word_of_nat (x mod 256) :: byte) = x mod 256"
    by (simp add: unat_of_nat)
  ultimately show ?case by simp
qed

lemma le_nat_bound: "le_nat bs < 256 ^ length bs"
proof (induction bs)
  case Nil
  then show ?case by simp
next
  case (Cons b bs)
  have "unat b < 256" using unsigned_less [of b, where ?'a = nat] by simp
  with Cons show ?case by simp
qed

subsection \<open>Steps that may raise\<close>

text \<open>A call that raises ends its caller there; the state it left stays.\<close>

definition try_then ::
  "('e + 'a) \<times> 's \<Rightarrow> ('a \<Rightarrow> 's \<Rightarrow> ('e + 'b) \<times> 's) \<Rightarrow> ('e + 'b) \<times> 's" where
  "try_then r f = (case r of (Inl e, s) \<Rightarrow> (Inl e, s) | (Inr x, s) \<Rightarrow> f x s)"

lemma try_then_simps [simp]:
  "try_then (Inl e, s) f = (Inl e, s)" "try_then (Inr x, s) f = f x s"
  by (simp_all add: try_then_def)

lemma try_then_inr:
  "try_then r f = (Inr y, t) \<longleftrightarrow> (\<exists>x s. r = (Inr x, s) \<and> f x s = (Inr y, t))"
  by (cases r; cases "fst r") (auto simp: try_then_def)

lemma snd_try_then:
  "snd (try_then r f) = (case fst r of Inl _ \<Rightarrow> snd r | Inr x \<Rightarrow> snd (f x (snd r)))"
  by (cases r; cases "fst r") auto

subsection \<open>Machines\<close>

text \<open>
  A component is a step function that answers and moves its state. A run plays a list of
  inputs through it. An invariant that one step keeps holds after every run.
\<close>

fun run :: "('s \<Rightarrow> 'e \<Rightarrow> 'o \<times> 's) \<Rightarrow> 's \<Rightarrow> 'e list \<Rightarrow> 'o list \<times> 's" where
  "run step s [] = ([], s)"
| "run step s (e # es) =
     (fst (step s e) # fst (run step (snd (step s e)) es), snd (run step (snd (step s e)) es))"

lemma run_append:
  "run step s (es @ fs) =
     (fst (run step s es) @ fst (run step (snd (run step s es)) fs),
      snd (run step (snd (run step s es)) fs))"
  by (induction es arbitrary: s) auto

lemma length_run [simp]: "length (fst (run step s es)) = length es"
  by (induction es arbitrary: s) auto

locale guarded_machine =
  fixes step :: "'s \<Rightarrow> 'e \<Rightarrow> 'o \<times> 's"
    and inv :: "'s \<Rightarrow> bool"
    and allowed :: "'e \<Rightarrow> bool"
  assumes step_keeps: "inv s \<Longrightarrow> allowed e \<Longrightarrow> inv (snd (step s e))"
begin

lemma run_keeps: "inv s \<Longrightarrow> \<forall>e \<in> set es. allowed e \<Longrightarrow> inv (snd (run step s es))"
proof (induction es arbitrary: s)
  case Nil
  then show ?case by simp
next
  case (Cons e es)
  then have "inv (snd (step s e))" by (intro step_keeps) auto
  with Cons.IH Cons.prems(2) show ?case by simp
qed

end

locale machine =
  fixes step :: "'s \<Rightarrow> 'e \<Rightarrow> 'o \<times> 's"
    and inv :: "'s \<Rightarrow> bool"
  assumes step_inv: "inv s \<Longrightarrow> inv (snd (step s e))"

sublocale machine \<subseteq> guarded_machine step inv "\<lambda>e. True"
  by unfold_locales (rule step_inv)

context machine
begin

lemma run_inv: "inv s \<Longrightarrow> inv (snd (run step s es))"
  by (rule run_keeps) simp_all

end

text \<open>
  The contract of a component with a level that only rises: what it hands out lies above the
  level it had and not above the one it has then, as long as only allowed inputs arrive. Used
  for sequence numbers, epochs and positions in a stream.
\<close>

locale rising = machine step inv
  for step :: "'s \<Rightarrow> 'e \<Rightarrow> 'o \<times> 's" and inv :: "'s \<Rightarrow> bool" +
  fixes allowed :: "'e \<Rightarrow> bool"
    and level :: "'s \<Rightarrow> 'r::linorder"
    and rank :: "'o \<Rightarrow> 'r option"
  assumes level_rises: "inv s \<Longrightarrow> allowed e \<Longrightarrow> level s \<le> level (snd (step s e))"
    and rank_above: "inv s \<Longrightarrow> allowed e \<Longrightarrow> rank (fst (step s e)) = Some r \<Longrightarrow>
      level s < r \<and> r \<le> level (snd (step s e))"
begin

lemma run_above:
  "inv s \<Longrightarrow> \<forall>e \<in> set es. allowed e \<Longrightarrow>
     level s \<le> level (snd (run step s es)) \<and>
     (\<forall>r \<in> set (List.map_filter rank (fst (run step s es))).
        level s < r \<and> r \<le> level (snd (run step s es)))"
proof (induction es arbitrary: s)
  case Nil
  then show ?case by (simp add: List.map_filter_simps)
next
  case (Cons e es)
  from Cons.prems have e: "allowed e" and rest: "inv (snd (step s e))" by (auto intro: step_inv)
  with Cons.IH [of "snd (step s e)"] Cons.prems(2)
  have tail: "level (snd (step s e)) \<le> level (snd (run step (snd (step s e)) es))"
    "\<forall>r \<in> set (List.map_filter rank (fst (run step (snd (step s e)) es))).
       level (snd (step s e)) < r \<and> r \<le> level (snd (run step (snd (step s e)) es))" by auto
  with level_rises [OF Cons.prems(1) e] rank_above [OF Cons.prems(1) e] show ?case
    by (cases "rank (fst (step s e))") (fastforce simp: List.map_filter_simps)+
qed

lemma run_strictly_rising:
  "inv s \<Longrightarrow> \<forall>e \<in> set es. allowed e \<Longrightarrow>
     sorted_wrt (<) (List.map_filter rank (fst (run step s es)))"
proof (induction es arbitrary: s)
  case Nil
  then show ?case by (simp add: List.map_filter_simps)
next
  case (Cons e es)
  from Cons.prems have e: "allowed e" and rest: "inv (snd (step s e))" by (auto intro: step_inv)
  have "sorted_wrt (<) (List.map_filter rank (fst (run step (snd (step s e)) es)))"
    using Cons rest by auto
  moreover have "\<forall>r \<in> set (List.map_filter rank (fst (run step (snd (step s e)) es))).
      level (snd (step s e)) < r"
    using run_above [OF rest, of es] Cons.prems(2) by auto
  ultimately show ?case
    using rank_above [OF Cons.prems(1) e]
    by (cases "rank (fst (step s e))") (fastforce simp: List.map_filter_simps)+
qed

end

subsection \<open>What happened so far\<close>

text \<open>
  A trace pairs each input with its answer. A component whose state remembers something of its
  history is described by a relation between the two; what the relation says of one more answer
  holds of every answer in every trace.
\<close>

definition trace :: "('s \<Rightarrow> 'e \<Rightarrow> 'o \<times> 's) \<Rightarrow> 's \<Rightarrow> 'e list \<Rightarrow> ('e \<times> 'o) list" where
  "trace step s es = zip es (fst (run step s es))"

lemma trace_nil [simp]: "trace step s [] = []"
  by (simp add: trace_def)

lemma trace_snoc: "trace step s (es @ [e]) =
    trace step s es @ [(e, fst (step (snd (run step s es)) e))]"
  by (simp add: trace_def run_append)

lemma trace_append: "trace step s (es @ fs) = trace step s es @ trace step (snd (run step s es)) fs"
  by (simp add: trace_def run_append)

lemma length_trace [simp]: "length (trace step s es) = length es"
  by (simp add: trace_def)

lemma trace_inputs [simp]: "map fst (trace step s es) = es"
  by (simp add: trace_def)

lemma trace_split:
  assumes "trace step s es = h @ (e, out) # t"
  obtains es1 es2 where "es = es1 @ e # es2" "h = trace step s es1"
    "out = fst (step (snd (run step s es1)) e)"
proof -
  define es1 where "es1 = map fst h"
  have es: "es = es1 @ e # map fst t" using assms by (metis es1_def fst_conv list.simps(9) map_append trace_inputs)
  have "h @ [(e, out)] = take (length h + 1) (trace step s es)" using assms by simp
  also have "\<dots> = trace step s (es1 @ [e])"
    unfolding es trace_append [of step s "es1 @ [e]" "map fst t", simplified] by (simp add: es1_def)
  finally have "h @ [(e, out)] = trace step s (es1 @ [e])" .
  then have "h = trace step s es1" "out = fst (step (snd (run step s es1)) e)"
    by (simp_all add: trace_snoc)
  with es show thesis by (rule that)
qed

locale remembering =
  fixes step :: "'s \<Rightarrow> 'e \<Rightarrow> 'o \<times> 's"
    and start :: 's
    and knows :: "'s \<Rightarrow> ('e \<times> 'o) list \<Rightarrow> bool"
    and good :: "('e \<times> 'o) list \<Rightarrow> 'e \<Rightarrow> 'o \<Rightarrow> bool"
  assumes knows_start: "knows start []"
    and knows_step: "knows s h \<Longrightarrow> knows (snd (step s e)) (h @ [(e, fst (step s e))])"
    and answer_good: "knows s h \<Longrightarrow> good h e (fst (step s e))"
begin

lemma run_knows: "knows (snd (run step start es)) (trace step start es)"
proof (induction es rule: rev_induct)
  case Nil
  then show ?case by (simp add: knows_start)
next
  case (snoc e es)
  then show ?case using knows_step by (simp add: trace_snoc run_append)
qed

lemma trace_good: "trace step start es = h @ (e, out) # t \<Longrightarrow> good h e out"
  by (erule trace_split) (use answer_good run_knows in blast)

end

subsection \<open>Taking a key once\<close>

text \<open>
  The contract of a deduplicating component: what it takes was not seen before, is seen from
  then on, and nothing seen is forgotten while it runs.
\<close>

locale once_only =
  fixes step :: "'s \<Rightarrow> 'm \<Rightarrow> 'o \<times> 's"
    and seen :: "'s \<Rightarrow> 'k set"
    and taken :: "'o \<Rightarrow> 'k option"
  assumes taken_fresh: "taken (fst (step s m)) = Some k \<Longrightarrow> k \<notin> seen s"
    and taken_seen: "taken (fst (step s m)) = Some k \<Longrightarrow> k \<in> seen (snd (step s m))"
    and seen_kept: "seen s \<subseteq> seen (snd (step s m))"
begin

lemma run_fresh: "set (List.map_filter taken (fst (run step s ms))) \<inter> seen s = {}"
proof (induction ms arbitrary: s)
  case Nil
  then show ?case by (simp add: List.map_filter_simps)
next
  case (Cons m ms)
  from Cons.IH [of "snd (step s m)"] seen_kept [of s m]
  have "set (List.map_filter taken (fst (run step (snd (step s m)) ms))) \<inter> seen s = {}" by blast
  with taken_fresh [of s m] show ?case
    by (cases "taken (fst (step s m))") (auto simp: List.map_filter_simps)
qed

lemma run_once: "distinct (List.map_filter taken (fst (run step s ms)))"
proof (induction ms arbitrary: s)
  case Nil
  then show ?case by (simp add: List.map_filter_simps)
next
  case (Cons m ms)
  from run_fresh [of "snd (step s m)" ms] taken_seen [of s m] Cons.IH [of "snd (step s m)"]
  show ?case by (cases "taken (fst (step s m))") (auto simp: List.map_filter_simps)
qed

end

subsection \<open>Budgets refilled by the clock\<close>

text \<open>
  The contract of a token bucket: what it holds grows with the clock at a rate and no faster,
  and what passes is paid for. Hence a bound on what passes over any stretch of time.
\<close>

locale token_bucket =
  fixes step :: "'s \<Rightarrow> 'e \<Rightarrow> 'o \<times> 's"
    and time_of :: "'e \<Rightarrow> rat"
    and held :: "'s \<Rightarrow> rat \<Rightarrow> rat"
    and ok :: "'s \<Rightarrow> rat \<Rightarrow> bool"
    and spent :: "'e \<Rightarrow> 'o \<Rightarrow> bool"
    and rate :: rat
  assumes refill: "ok s t \<Longrightarrow> t \<le> t' \<Longrightarrow> held s t' \<le> held s t + (t' - t) * rate"
    and never_negative: "ok s t \<Longrightarrow> 0 \<le> held s t"
    and paid: "ok s (time_of e) \<Longrightarrow>
      held (snd (step s e)) (time_of e) + (if spent e (fst (step s e)) then 1 else 0)
        \<le> held s (time_of e)"
    and ok_step: "ok s (time_of e) \<Longrightarrow> ok (snd (step s e)) (time_of e)"
    and ok_later: "ok s t \<Longrightarrow> t \<le> t' \<Longrightarrow> ok s t'"
begin

definition spendings :: "'s \<Rightarrow> 'e list \<Rightarrow> nat" where
  "spendings s es = length (filter (\<lambda>(e, a). spent e a) (zip es (fst (run step s es))))"

lemma spendings_bound:
  "ok s t \<Longrightarrow> sorted (t # map time_of es) \<Longrightarrow>
     rat_of_nat (spendings s es) \<le> held s t + (last (t # map time_of es) - t) * rate"
proof (induction es arbitrary: s t)
  case Nil
  then show ?case using never_negative by (simp add: spendings_def)
next
  case (Cons e es)
  let ?u = "time_of e" and ?s = "snd (step s e)"
  let ?l = "last (?u # map time_of es)"
  have u: "ok s ?u" "t \<le> ?u" using Cons.prems ok_later by auto
  have "rat_of_nat (spendings ?s es) \<le> held ?s ?u + (?l - ?u) * rate"
    using Cons.prems by (intro Cons.IH ok_step u) auto
  moreover have "rat_of_nat (spendings s (e # es)) =
      rat_of_nat (spendings ?s es) + (if spent e (fst (step s e)) then 1 else 0)"
    by (simp add: spendings_def)
  ultimately have "rat_of_nat (spendings s (e # es)) \<le> held s ?u + (?l - ?u) * rate"
    using paid [OF u(1)] by (auto split: if_splits)
  also have "\<dots> \<le> held s t + (?u - t) * rate + (?l - ?u) * rate"
    using refill [OF Cons.prems(1) u(2)] by simp
  also have "\<dots> = held s t + (?l - t) * rate" by (simp add: algebra_simps)
  finally show ?case by simp
qed

end

end
