(* ===== verification/Names.thy ===== *)
theory Names
  imports Prelude
begin

section \<open>Names and kinds of sources\<close>

text \<open>
  \<open>src/sentry_mode/sources/models.py\<close>: the grammar of names, the identifier of a source and
  the record the hub keeps of it; and the satellite's own copy of the grammar,
  \<open>satellite/src/sentry_satellite/names.py\<close>. The regular expressions are written as
  predicates on the characters; a value Pydantic or the agent refuses is an error value.
\<close>

subsection \<open>The grammar\<close>

definition lower :: string where "lower = ''abcdefghijklmnopqrstuvwxyz''"
definition upper :: string where "upper = ''ABCDEFGHIJKLMNOPQRSTUVWXYZ''"
definition digits :: string where "digits = ''0123456789''"

text \<open>\<open>NAME = ^[a-z0-9](?:[a-z0-9-]{0,38}[a-z0-9])?$\<close>\<close>

definition valid_name :: "string \<Rightarrow> bool" where
  "valid_name s \<longleftrightarrow>
     s \<noteq> [] \<and> length s \<le> 40 \<and> hd s \<in> set (lower @ digits) \<and> last s \<in> set (lower @ digits) \<and>
     list_all (\<lambda>c. c \<in> set (lower @ digits @ ''-'')) s"

text \<open>\<open>KIND = ^[a-z][a-z0-9]*\.[a-z][a-z0-9_]*$\<close>: a family and a name.\<close>

definition valid_kind :: "string \<Rightarrow> bool" where
  "valid_kind s =
     (case py_partition (CHR ''.'') s of
        (_, None) \<Rightarrow> False
      | (family, Some name) \<Rightarrow>
          family \<noteq> [] \<and> hd family \<in> set lower \<and>
          list_all (\<lambda>c. c \<in> set (lower @ digits)) family \<and>
          name \<noteq> [] \<and> hd name \<in> set lower \<and>
          list_all (\<lambda>c. c \<in> set (lower @ digits @ ''_'')) name)"

lemma valid_name_chars: "valid_name s \<Longrightarrow> c \<in> set s \<Longrightarrow> c \<in> set (lower @ digits @ ''-'')"
  by (auto simp: valid_name_def list_all_iff)

lemma valid_name_no_dot: "valid_name s \<Longrightarrow> CHR ''.'' \<notin> set s"
  using valid_name_chars [of s "CHR ''.''"] by (auto simp: lower_def digits_def)

lemma valid_name_nonempty: "valid_name s \<Longrightarrow> s \<noteq> []"
  by (simp add: valid_name_def)

text \<open>The predicate is the expression: one character, or a first, a middle and a last one.\<close>

lemma valid_name_regex:
  "valid_name s \<longleftrightarrow>
     (\<exists>a. s = [a] \<and> a \<in> set (lower @ digits)) \<or>
     (\<exists>a mid b. s = a # mid @ [b] \<and> a \<in> set (lower @ digits) \<and> b \<in> set (lower @ digits) \<and>
        length mid \<le> 38 \<and> list_all (\<lambda>c. c \<in> set (lower @ digits @ ''-'')) mid)"
proof (cases s)
  case Nil
  then show ?thesis by (simp add: valid_name_def)
next
  case (Cons a t)
  then show ?thesis
    by (cases t rule: rev_cases) (auto simp: valid_name_def list_all_iff)
qed

subsection \<open>Kinds, states and qualities\<close>

datatype source_kind = Camera | Microphone | Speaker | Sensor | Presence
datatype source_state = Ready | Disabled | Degraded | Failed
datatype quality = Valid | DegradedReading | Unavailable | UnknownQuality
datatype clock_status = Synced | Unsynced | ClockUnknown
datatype origin = Local | Satellite

fun quality_value :: "quality \<Rightarrow> string" where
  "quality_value Valid = ''valid''"
| "quality_value DegradedReading = ''degraded''"
| "quality_value Unavailable = ''unavailable''"
| "quality_value UnknownQuality = ''unknown''"

fun clock_value :: "clock_status \<Rightarrow> string" where
  "clock_value Synced = ''synced''"
| "clock_value Unsynced = ''unsynced''"
| "clock_value ClockUnknown = ''unknown''"

subsection \<open>References\<close>

record source_ref =
  ref_node :: "string option"
  ref_name :: string

definition primary_camera :: string where "primary_camera = ''legacy-primary''"
definition primary_microphone :: string where "primary_microphone = ''legacy-microphone''"
definition primary_speaker :: string where "primary_speaker = ''legacy-speaker''"

definition valid_ref :: "source_ref \<Rightarrow> bool" where
  "valid_ref r \<longleftrightarrow> pred_option valid_name (ref_node r) \<and> valid_name (ref_name r)"

text \<open>Building a reference: \<open>None\<close> is the \<open>ValueError\<close> of a name outside the grammar.\<close>

definition mk_ref :: "string option \<Rightarrow> string \<Rightarrow> source_ref option" where
  "mk_ref n s =
     (let r = \<lparr>ref_node = n, ref_name = s\<rparr> in if valid_ref r then Some r else None)"

definition parse_ref :: "string \<Rightarrow> source_ref option" where
  "parse_ref s =
     (case py_partition (CHR ''.'') s of
        (n, None) \<Rightarrow> mk_ref None n
      | (n, Some rest) \<Rightarrow> mk_ref (Some n) rest)"

definition ref_id :: "source_ref \<Rightarrow> string" where
  "ref_id r = (case ref_node r of None \<Rightarrow> ref_name r | Some n \<Rightarrow> n @ ''.'' @ ref_name r)"

definition is_local :: "source_ref \<Rightarrow> bool" where
  "is_local r \<longleftrightarrow> ref_node r = None"

lemma mk_ref_some: "mk_ref n s = Some r \<longleftrightarrow> r = \<lparr>ref_node = n, ref_name = s\<rparr> \<and> valid_ref r"
  by (auto simp: mk_ref_def Let_def)

lemma parse_ref_id: "valid_ref r \<Longrightarrow> parse_ref (ref_id r) = Some r"
  by (cases r)
    (auto simp: valid_ref_def ref_id_def parse_ref_def mk_ref_def Let_def
       py_partition_none py_partition_some valid_name_no_dot split: option.splits)

lemma parse_ref_sound: "parse_ref s = Some r \<Longrightarrow> ref_id r = s \<and> valid_ref r"
  using py_partition_join [of s "CHR ''.''"]
  by (auto simp: parse_ref_def ref_id_def mk_ref_some split: prod.splits option.splits)

lemma ref_id_inj: "valid_ref r \<Longrightarrow> valid_ref q \<Longrightarrow> ref_id r = ref_id q \<Longrightarrow> r = q"
  by (metis option.inject parse_ref_id)

text \<open>
  An identifier is read back to the reference it was written from, and whatever is read
  writes back to the text it came from: the spelling of a source is unique.
\<close>

lemma source_ref_roundtrip:
  "(valid_ref r \<longrightarrow> parse_ref (ref_id r) = Some r) \<and>
   (parse_ref s = Some q \<longrightarrow> ref_id q = s \<and> valid_ref q)"
  by (simp add: parse_ref_id parse_ref_sound)

lemma source_ref_roundtrip_witness:
  "parse_ref ''zero-entrance.pir-1'' =
     Some \<lparr>ref_node = Some ''zero-entrance'', ref_name = ''pir-1''\<rparr> \<and>
   ref_id \<lparr>ref_node = Some ''zero-entrance'', ref_name = ''pir-1''\<rparr> = ''zero-entrance.pir-1''"
proof -
  let ?r = "\<lparr>ref_node = Some ''zero-entrance'', ref_name = ''pir-1''\<rparr>"
  have v: "valid_ref ?r"
    by (simp add: valid_ref_def valid_name_def lower_def digits_def)
  then have "parse_ref (ref_id ?r) = Some ?r"
    using source_ref_roundtrip [of ?r "ref_id ?r" ?r] by blast
  moreover have "ref_id ?r = ''zero-entrance.pir-1''" by (simp add: ref_id_def)
  ultimately show ?thesis by simp
qed

subsection \<open>Records\<close>

record source_record =
  rec_ref :: source_ref
  rec_kind :: source_kind
  display_name :: string
  rec_zone :: "string option"
  rec_origin :: origin
  rec_state :: source_state
  address :: json_value
  rec_unit :: "string option"

definition rec_id :: "source_record \<Rightarrow> string" where
  "rec_id r = ref_id (rec_ref r)"

text \<open>The limits of the fields, and \<open>check_origin_matches_ref\<close>.\<close>

definition origin_matches :: "source_record \<Rightarrow> bool" where
  "origin_matches r \<longleftrightarrow>
     \<not> (rec_origin r = Local \<and> \<not> is_local (rec_ref r)) \<and>
     \<not> (rec_origin r = Satellite \<and> is_local (rec_ref r))"

definition valid_record :: "source_record \<Rightarrow> bool" where
  "valid_record r \<longleftrightarrow>
     valid_ref (rec_ref r) \<and>
     1 \<le> length (display_name r) \<and> length (display_name r) \<le> 120 \<and>
     pred_option valid_name (rec_zone r) \<and>
     (case address r of JInt _ \<Rightarrow> True | JStr _ \<Rightarrow> True | JNull \<Rightarrow> True | _ \<Rightarrow> False) \<and>
     pred_option (\<lambda>u. length u \<le> 16) (rec_unit r) \<and>
     origin_matches r"

subsection \<open>The satellite's copy\<close>

datatype name_error = InvalidName string

definition check_name :: "string \<Rightarrow> name_error + string" where
  "check_name v = (if valid_name v then Inr v else Inl (InvalidName v))"

definition check_kind :: "string \<Rightarrow> name_error + string" where
  "check_kind v = (if valid_kind v then Inr v else Inl (InvalidName v))"

text \<open>\<open>pir-1\<close> or \<open>zero-entrance.pir-1\<close>, to the local half; the node half has to be this node.\<close>

definition local_name :: "string \<Rightarrow> string \<Rightarrow> name_error + string" where
  "local_name v node_id =
     (case py_partition (CHR ''.'') v of
        (_, None) \<Rightarrow> check_name v
      | (n, Some s) \<Rightarrow> if n \<noteq> node_id then Inl (InvalidName v) else check_name s)"

text \<open>
  A name the agent takes for its own node is one the hub's grammar joins back to a source of
  that node: no spelling lets a board name another board's source.
\<close>

lemma local_name_on_node:
  assumes "valid_name node_id" and "local_name v node_id = Inr s"
  shows "mk_ref (Some node_id) s = Some \<lparr>ref_node = Some node_id, ref_name = s\<rparr> \<and>
    (v = s \<or> v = node_id @ ''.'' @ s)"
  using assms py_partition_join [of v "CHR ''.''"]
  by (auto simp: local_name_def check_name_def mk_ref_some valid_ref_def
      split: prod.splits option.splits if_splits)

end
