(* ===== verification/Registry.thy ===== *)
theory Registry
  imports Names
begin

section \<open>The registry of sources\<close>

text \<open>
  \<open>src/sentry_mode/sources/registry.py\<close>: a table of records keyed by an identifier that never
  changes. Its lock makes each operation atomic, so an operation is a function of the table.
  The node's own devices (\<open>sources/legacy.py\<close>) are the first to be registered.
\<close>

type_synonym registry = "(string, source_record) dict"

datatype registry_error = UnknownSource string | AlreadyRegistered string

definition reg_get :: "registry \<Rightarrow> string \<Rightarrow> source_record option" where
  "reg_get t k = dict_get t k"

definition reg_require :: "registry \<Rightarrow> string \<Rightarrow> registry_error + source_record" where
  "reg_require t k = (case reg_get t k of None \<Rightarrow> Inl (UnknownSource k) | Some r \<Rightarrow> Inr r)"

definition reg_register :: "registry \<Rightarrow> source_record \<Rightarrow> (registry_error + source_record) \<times> registry" where
  "reg_register t r =
     (case dict_get t (rec_id r) of
        Some existing \<Rightarrow>
          if rec_kind existing \<noteq> rec_kind r \<or> rec_origin existing \<noteq> rec_origin r
          then (Inl (AlreadyRegistered (rec_id r)), t)
          else (Inr existing, t)
      | None \<Rightarrow> (Inr r, dict_set (rec_id r) r t))"

definition reg_set_state ::
  "registry \<Rightarrow> string \<Rightarrow> source_state \<Rightarrow> (registry_error + source_record) \<times> registry" where
  "reg_set_state t k st =
     (case reg_require t k of
        Inl e \<Rightarrow> (Inl e, t)
      | Inr r \<Rightarrow>
          (let updated = r\<lparr>rec_state := st\<rparr> in (Inr updated, dict_set (rec_id updated) updated t)))"

definition reg_of_kind :: "registry \<Rightarrow> source_kind \<Rightarrow> source_record list" where
  "reg_of_kind t k = filter (\<lambda>r. rec_kind r = k) (dict_values t)"

definition reg_all :: "registry \<Rightarrow> source_record list" where
  "reg_all t = dict_values t"

definition reg_contains :: "registry \<Rightarrow> string \<Rightarrow> bool" where
  "reg_contains t k \<longleftrightarrow> reg_get t k \<noteq> None"

definition reg_len :: "registry \<Rightarrow> nat" where
  "reg_len t = length t"

subsection \<open>The invariant\<close>

text \<open>Every record is filed under its own identifier, once.\<close>

definition reg_inv :: "registry \<Rightarrow> bool" where
  "reg_inv t \<longleftrightarrow> wf_dict t \<and> (\<forall>k r. dict_get t k = Some r \<longrightarrow> rec_id r = k)"

lemma reg_inv_empty [simp]: "reg_inv []"
  by (simp add: reg_inv_def)

lemma rec_id_state [simp]: "rec_id (r\<lparr>rec_state := st\<rparr>) = rec_id r"
  by (simp add: rec_id_def)

lemma reg_inv_register: "reg_inv t \<Longrightarrow> reg_inv (snd (reg_register t r))"
  by (auto simp: reg_inv_def reg_register_def split: option.splits)

lemma reg_inv_set_state: "reg_inv t \<Longrightarrow> reg_inv (snd (reg_set_state t k st))"
  by (auto simp: reg_inv_def reg_set_state_def reg_require_def reg_get_def Let_def
      split: option.splits sum.splits)

subsection \<open>The contract its clients rely on\<close>

text \<open>
  What ingress, the planner and the engine ask of a table of sources: looking one up after a
  registration or a change of state. From these laws alone: a source once known stays known,
  and what it is never changes.
\<close>

locale source_table =
  fixes get :: "'t \<Rightarrow> string \<Rightarrow> source_record option"
    and register :: "'t \<Rightarrow> source_record \<Rightarrow> 't"
    and set_state :: "'t \<Rightarrow> string \<Rightarrow> source_state \<Rightarrow> 't"
    and ok :: "'t \<Rightarrow> bool"
  assumes ok_register: "ok t \<Longrightarrow> ok (register t r)"
    and ok_set_state: "ok t \<Longrightarrow> ok (set_state t k st)"
    and get_register: "ok t \<Longrightarrow> get (register t r) k =
          (if get t k = None \<and> k = rec_id r then Some r else get t k)"
    and get_set_state: "ok t \<Longrightarrow> get (set_state t k st) k' =
          (if k' = k then map_option (rec_state_update (\<lambda>_. st)) (get t k) else get t k')"
begin

fun apply_op :: "'t \<Rightarrow> source_record + (string \<times> source_state) \<Rightarrow> 't" where
  "apply_op t (Inl r) = register t r"
| "apply_op t (Inr (k, st)) = set_state t k st"

definition same_source :: "source_record \<Rightarrow> source_record \<Rightarrow> bool" where
  "same_source a b \<longleftrightarrow> (\<exists>st. b = a\<lparr>rec_state := st\<rparr>)"

lemma same_source_refl: "same_source a a"
  unfolding same_source_def by (rule exI [of _ "rec_state a"]) simp

lemma same_source_trans: "same_source a b \<Longrightarrow> same_source b c \<Longrightarrow> same_source a c"
  by (auto simp: same_source_def)

lemma apply_op_ok: "ok t \<Longrightarrow> ok (apply_op t p)"
  by (cases p) (auto simp: ok_register ok_set_state split_paired_all)

lemma apply_op_known:
  assumes "ok t" and "get t k = Some a"
  shows "\<exists>b. get (apply_op t p) k = Some b \<and> same_source a b"
proof (cases p)
  case (Inl r)
  with assms show ?thesis by (simp add: get_register same_source_refl)
next
  case (Inr q)
  obtain k1 st where "q = (k1, st)" by (cases q)
  with Inr assms show ?thesis
    by (auto simp: get_set_state same_source_def intro: same_source_refl)
      (metis source_record.surjective source_record.update_convs(6))
qed

lemma known_forever:
  assumes "ok t" and "get t k = Some a"
  shows "\<exists>b. get (foldl apply_op t ps) k = Some b \<and> same_source a b"
  using assms
proof (induction ps arbitrary: t a)
  case Nil
  then show ?case by (simp add: same_source_refl)
next
  case (Cons p ps)
  from Cons.prems obtain b where b: "get (apply_op t p) k = Some b" "same_source a b"
    using apply_op_known by blast
  from Cons.IH [OF apply_op_ok [OF Cons.prems(1)] b(1)] b(2)
  show ?case by (auto intro: same_source_trans)
qed

end

interpretation registry: source_table
  reg_get "\<lambda>t r. snd (reg_register t r)" "\<lambda>t k st. snd (reg_set_state t k st)" reg_inv
proof (unfold_locales, goal_cases)
  case (1 t r)
  then show ?case by (rule reg_inv_register)
next
  case (2 t k st)
  then show ?case by (rule reg_inv_set_state)
next
  case (3 t r k)
  then show ?case by (auto simp: reg_get_def reg_register_def split: option.splits)
next
  case (4 t k st k')
  then show ?case
    by (auto simp: reg_get_def reg_set_state_def reg_require_def reg_inv_def Let_def
        split: option.splits sum.splits)
qed

subsection \<open>Operations as a machine\<close>

datatype registry_op = Register source_record | SetState string source_state

fun reg_step ::
  "registry \<Rightarrow> registry_op \<Rightarrow> (registry_error + source_record) \<times> registry" where
  "reg_step t (Register r) = reg_register t r"
| "reg_step t (SetState k st) = reg_set_state t k st"

interpretation registry_machine: machine reg_step reg_inv
proof
  fix t p
  assume "reg_inv t"
  then show "reg_inv (snd (reg_step t p))"
    by (cases p) (simp_all add: reg_inv_register reg_inv_set_state)
qed

lemma reg_step_op:
  "snd (reg_step t p) =
     registry.apply_op t (case p of Register r \<Rightarrow> Inl r | SetState k st \<Rightarrow> Inr (k, st))"
  by (cases p) (simp_all add: registry.apply_op.simps)

lemma reg_run_ops:
  "snd (run reg_step t ps) =
     foldl registry.apply_op t
       (map (case_registry_op Inl (\<lambda>k st. Inr (k, st))) ps)"
  by (induction ps arbitrary: t) (simp_all add: reg_step_op)

text \<open>
  Whatever is registered or reported afterwards, a source the hub knows stays known, and
  only how it is doing can have changed: its kind, origin, zone, unit and reference are for ever
  those it was first registered with; and the table stays filed by identifier.
\<close>

lemma source_identity_never_changes:
  assumes "reg_inv t" and "reg_get t k = Some r"
  shows "reg_inv (snd (run reg_step t ops)) \<and>
    (\<exists>st. reg_get (snd (run reg_step t ops)) k = Some (r\<lparr>rec_state := st\<rparr>))"
proof -
  have "\<exists>b. reg_get (snd (run reg_step t ops)) k = Some b \<and> registry.same_source r b"
    unfolding reg_run_ops by (rule registry.known_forever [OF assms])
  moreover have "reg_inv (snd (run reg_step t ops))"
    by (rule registry_machine.run_inv [OF assms(1)])
  ultimately show ?thesis by (auto simp: registry.same_source_def)
qed

subsection \<open>The node's own devices\<close>

text \<open>\<open>sources/legacy.py\<close>: what the settings say of each device, as a record.\<close>

record device_settings =
  dev_enabled :: bool
  dev_address :: json_value

record node_settings =
  set_camera :: device_settings
  set_microphone :: device_settings
  set_speaker :: device_settings

definition legacy_state :: "bool \<Rightarrow> source_state" where
  "legacy_state enabled = (if enabled then Ready else Disabled)"

definition legacy_record :: "string \<Rightarrow> source_kind \<Rightarrow> string \<Rightarrow> device_settings \<Rightarrow> source_record" where
  "legacy_record nm k shown dev =
     \<lparr>rec_ref = \<lparr>ref_node = None, ref_name = nm\<rparr>, rec_kind = k, display_name = shown,
      rec_zone = None, rec_origin = Local, rec_state = legacy_state (dev_enabled dev),
      address = dev_address dev, rec_unit = None\<rparr>"

definition legacy_sources :: "node_settings \<Rightarrow> source_record list" where
  "legacy_sources s =
     [legacy_record primary_camera Camera ''Primary camera'' (set_camera s),
      legacy_record primary_microphone Microphone ''Primary microphone'' (set_microphone s),
      legacy_record primary_speaker Speaker ''Primary speaker'' (set_speaker s)]"

definition register_legacy :: "registry \<Rightarrow> node_settings \<Rightarrow> registry" where
  "register_legacy t s = foldl (\<lambda>t r. snd (reg_register t r)) t (legacy_sources s)"

lemma reg_inv_register_legacy: "reg_inv t \<Longrightarrow> reg_inv (register_legacy t s)"
  by (simp add: register_legacy_def legacy_sources_def reg_inv_register)

lemmas legacy_defs =
  register_legacy_def legacy_sources_def legacy_record_def legacy_state_def
  primary_camera_def primary_microphone_def primary_speaker_def

lemma register_legacy_get:
  "reg_get (register_legacy [] s) primary_camera =
     Some (legacy_record primary_camera Camera ''Primary camera'' (set_camera s))"
  by (simp add: legacy_defs reg_register_def reg_get_def rec_id_def ref_id_def)

lemma source_identity_never_changes_witness:
  "\<exists>st. reg_get
      (snd (run reg_step
        (register_legacy []
          \<lparr>set_camera = \<lparr>dev_enabled = True, dev_address = JStr ''/dev/video0''\<rparr>,
           set_microphone = \<lparr>dev_enabled = False, dev_address = JNull\<rparr>,
           set_speaker = \<lparr>dev_enabled = True, dev_address = JNull\<rparr>\<rparr>)
        [SetState primary_camera Failed, SetState ''nobody'' Ready]))
      primary_camera =
    Some (legacy_record primary_camera Camera ''Primary camera''
           \<lparr>dev_enabled = True, dev_address = JStr ''/dev/video0''\<rparr> \<lparr>rec_state := st\<rparr>)"
  (is "\<exists>st. reg_get (snd (run reg_step (register_legacy [] ?s) ?ops)) _ = _")
  using source_identity_never_changes
    [OF reg_inv_register_legacy [OF reg_inv_empty] register_legacy_get, of ?s ?ops]
  by simp

end
