(* ===== verification/Leases.thy ===== *)
theory Leases
  imports Registry
begin

section \<open>Who is using a camera\<close>

text \<open>
  \<open>src/sentry_mode/sources/manager.py\<close>: the leases held on one source, and the table of the
  cameras this hub drives. A lease is an object that knows whether it can still be given back;
  the table knows which leases it holds. The state below keeps both sides apart, as the code
  does, together with the counter that numbers leases, so that a lease given back twice, or
  late, is a run of the model.
\<close>

record lease =
  lease_source :: string
  purpose :: string
  owner :: string
  lease_params :: "(string, json_value) dict"
  lease_id :: nat

record demand_table =
  table_source :: string
  purposes :: "string list"
  leases :: "(nat, lease) dict"

text \<open>
  \<open>unreleased\<close> lists the lease objects whose \<open>_release\<close> is still set, \<open>next_lease\<close> is the
  module's \<open>itertools.count\<close>, \<open>notified\<close> counts the calls of \<open>on_change\<close>.
\<close>

record lease_state =
  demand :: demand_table
  unreleased :: "nat list"
  next_lease :: nat
  notified :: nat

datatype lease_error = UnknownPurpose string

definition all_purposes :: "string list" where
  "all_purposes = [''preview'', ''monitoring'', ''recording'']"

definition new_demand_table :: "string \<Rightarrow> string list \<Rightarrow> demand_table" where
  "new_demand_table src ps = \<lparr>table_source = src, purposes = ps, leases = []\<rparr>"

definition hold ::
  "lease_state \<Rightarrow> string \<Rightarrow> string \<Rightarrow> (string, json_value) dict \<Rightarrow>
     (lease_error + lease) \<times> lease_state" where
  "hold s p who params =
     (if p \<notin> set (purposes (demand s)) then (Inl (UnknownPurpose p), s)
      else
        (let l = \<lparr>lease_source = table_source (demand s), purpose = p, owner = who,
                  lease_params = params, lease_id = next_lease s\<rparr>
         in (Inr l,
             s\<lparr>demand := (demand s)\<lparr>leases := dict_set (lease_id l) l (leases (demand s))\<rparr>,
               unreleased := lease_id l # unreleased s,
               next_lease := next_lease s + 1,
               notified := notified s + 1\<rparr>)))"

definition drop_lease :: "lease_state \<Rightarrow> nat \<Rightarrow> bool \<times> lease_state" where
  "drop_lease s i =
     (let dropped = (dict_get (leases (demand s)) i \<noteq> None)
      in (dropped,
          s\<lparr>demand := (demand s)\<lparr>leases := dict_pop i (leases (demand s))\<rparr>,
            notified := notified s + (if dropped then 1 else 0)\<rparr>))"

text \<open>\<open>Lease.release\<close>: the handle forgets how to give itself back, then does it once.\<close>

definition release :: "lease_state \<Rightarrow> nat \<Rightarrow> bool \<times> lease_state" where
  "release s i =
     (if i \<in> set (unreleased s)
      then drop_lease (s\<lparr>unreleased := removeAll i (unreleased s)\<rparr>) i
      else (False, s))"

definition lease_active :: "lease_state \<Rightarrow> nat \<Rightarrow> bool" where
  "lease_active s i \<longleftrightarrow> i \<in> set (unreleased s)"

definition lease_count :: "lease_state \<Rightarrow> string \<Rightarrow> nat" where
  "lease_count s p = length (filter (\<lambda>l. purpose l = p) (dict_values (leases (demand s))))"

definition held_leases :: "lease_state \<Rightarrow> string option \<Rightarrow> lease list" where
  "held_leases s p =
     filter (\<lambda>l. p = None \<or> p = Some (purpose l)) (dict_values (leases (demand s)))"

definition lease_summary :: "lease_state \<Rightarrow> (string \<times> nat) list" where
  "lease_summary s = map (\<lambda>p. (p, lease_count s p)) (purposes (demand s))"

subsection \<open>The invariant\<close>

text \<open>
  The table holds exactly the leases whose handles can still be given back, each under its own
  number, all numbered below the counter, all for a known purpose.
\<close>

definition lease_inv :: "lease_state \<Rightarrow> bool" where
  "lease_inv s \<longleftrightarrow>
     wf_dict (leases (demand s)) \<and>
     (\<forall>i. (dict_get (leases (demand s)) i \<noteq> None) = (i \<in> set (unreleased s))) \<and>
     (\<forall>i \<in> set (unreleased s). i < next_lease s) \<and>
     (\<forall>i l. dict_get (leases (demand s)) i = Some l \<longrightarrow>
        lease_id l = i \<and> purpose l \<in> set (purposes (demand s)))"

lemma lease_inv_new: "lease_inv \<lparr>demand = new_demand_table src ps, unreleased = [], next_lease = n, notified = 0\<rparr>"
  by (simp add: lease_inv_def new_demand_table_def)

lemma lease_inv_hold: "lease_inv s \<Longrightarrow> lease_inv (snd (hold s p who params))"
  by (auto simp: lease_inv_def hold_def Let_def less_Suc_eq)

lemma lease_inv_release: "lease_inv s \<Longrightarrow> lease_inv (snd (release s i))"
  by (auto simp: lease_inv_def release_def drop_lease_def Let_def)

datatype lease_op =
  Hold string string "(string, json_value) dict"
| Release nat

fun lease_step :: "lease_state \<Rightarrow> lease_op \<Rightarrow> (lease_error + lease) option \<times> lease_state" where
  "lease_step s (Hold p who params) = (Some (fst (hold s p who params)), snd (hold s p who params))"
| "lease_step s (Release i) = (None, snd (release s i))"

interpretation leases: machine lease_step lease_inv
proof
  fix s p
  assume "lease_inv s"
  then show "lease_inv (snd (lease_step s p))"
    by (cases p) (simp_all add: lease_inv_hold lease_inv_release)
qed

text \<open>How many leases for a purpose the handles of a state stand for.\<close>

lemma length_filter_dict_pop:
  "wf_dict d \<Longrightarrow> dict_get d k = Some v \<Longrightarrow>
     length (filter P (dict_values d)) =
       length (filter P (dict_values (dict_pop k d))) + (if P v then 1 else 0)"
  by (induction d) (auto simp: delete_idem split: if_splits)

lemma length_filter_dict_set_new:
  "dict_get d k = None \<Longrightarrow>
     length (filter P (dict_values (dict_set k v d))) =
       length (filter P (dict_values d)) + (if P v then 1 else 0)"
  by (induction d) (auto split: if_splits)

lemma release_count:
  assumes "lease_inv s" and "dict_get (leases (demand s)) i = Some l"
  shows "lease_count s p = lease_count (snd (release s i)) p + (if purpose l = p then 1 else 0)"
proof -
  have "i \<in> set (unreleased s)" using assms by (auto simp: lease_inv_def)
  with assms show ?thesis
    using length_filter_dict_pop [of "leases (demand s)" i l "\<lambda>l. purpose l = p"]
    by (auto simp: lease_count_def release_def drop_lease_def Let_def lease_inv_def)
qed

text \<open>
  C20. A lease is given back once. Giving it back takes exactly one lease off its own purpose's
  count and none off any other; giving it back again answers False and changes nothing, so no
  late release can stop a camera that another owner still holds.
\<close>

theorem release_exactly_once:
  assumes "lease_inv s" and "dict_get (leases (demand s)) i = Some l"
  shows "fst (release s i) \<and>
    (\<forall>p. lease_count s p =
       lease_count (snd (release s i)) p + (if purpose l = p then 1 else 0)) \<and>
    release (snd (release s i)) i = (False, snd (release s i)) \<and>
    (\<forall>j. j \<noteq> i \<longrightarrow>
       dict_get (leases (demand (snd (release s i)))) j = dict_get (leases (demand s)) j)"
proof -
  have i: "i \<in> set (unreleased s)" using assms by (auto simp: lease_inv_def)
  have "fst (release s i)"
    using i assms(2) by (simp add: release_def drop_lease_def Let_def)
  moreover have "release (snd (release s i)) i = (False, snd (release s i))"
    using i by (simp add: release_def drop_lease_def Let_def)
  moreover have "\<forall>j. j \<noteq> i \<longrightarrow>
       dict_get (leases (demand (snd (release s i)))) j = dict_get (leases (demand s)) j"
    using i by (simp add: release_def drop_lease_def Let_def)
  ultimately show ?thesis using release_count [OF assms] by blast
qed

definition two_leases :: lease_state where
  "two_leases =
     snd (run lease_step
       \<lparr>demand = new_demand_table ''legacy-primary'' all_purposes, unreleased = [],
        next_lease = 1, notified = 0\<rparr>
       [Hold ''preview'' ''browser'' [], Hold ''monitoring'' ''sentry-1'' []])"

lemma release_exactly_once_witness:
  "fst (release two_leases 1) \<and> lease_count two_leases ''monitoring'' = 1 \<and>
   lease_count (snd (release two_leases 1)) ''monitoring'' = 1 \<and>
   release (snd (release two_leases 1)) 1 = (False, snd (release two_leases 1))"
proof -
  have inv: "lease_inv two_leases"
    unfolding two_leases_def by (intro leases.run_inv lease_inv_new)
  have g: "dict_get (leases (demand two_leases)) 1 =
      Some \<lparr>lease_source = ''legacy-primary'', purpose = ''preview'', owner = ''browser'',
            lease_params = [], lease_id = 1\<rparr>"
    by (simp add: two_leases_def hold_def new_demand_table_def all_purposes_def Let_def)
  have c: "lease_count two_leases ''monitoring'' = 1"
    by (simp add: two_leases_def lease_count_def hold_def new_demand_table_def all_purposes_def Let_def)
  show ?thesis using release_exactly_once [OF inv g] c by simp
qed

subsection \<open>The cameras\<close>

text \<open>
  \<open>SourceManager\<close>. A camera is what the manager needs of one: its name and what to show.
  \<open>register\<close> may fail: the name is outside the grammar, the display name outside its limits, or
  the registry knows the identifier as something else. Nothing is kept then.
\<close>

record camera_info =
  cam_id :: string
  cam_shown :: string

datatype manager_error = AlreadyManaged string | BadName string | RegistryRefused registry_error

type_synonym cameras = "(string, camera_info) dict"

definition camera_record :: "camera_info \<Rightarrow> source_record option" where
  "camera_record c =
     (case parse_ref (cam_id c) of
        None \<Rightarrow> None
      | Some r \<Rightarrow>
          (let rc = \<lparr>rec_ref = r, rec_kind = Camera, display_name = cam_shown c, rec_zone = None,
                     rec_origin = Local, rec_state = Ready, address = JNull, rec_unit = None\<rparr>
           in if valid_record rc then Some rc else None))"

definition add_camera ::
  "cameras \<times> registry \<Rightarrow> camera_info \<Rightarrow> bool \<Rightarrow> (manager_error + camera_info) \<times> cameras \<times> registry" where
  "add_camera s c do_register =
     (case s of (cs, t) \<Rightarrow>
        if dict_get cs (cam_id c) \<noteq> None then (Inl (AlreadyManaged (cam_id c)), cs, t)
        else if do_register then
          (case camera_record c of
             None \<Rightarrow> (Inl (BadName (cam_id c)), cs, t)
           | Some rc \<Rightarrow>
               (case reg_register t rc of
                  (Inl e, t') \<Rightarrow> (Inl (RegistryRefused e), cs, t')
                | (Inr _, t') \<Rightarrow> (Inr c, dict_set (cam_id c) c cs, t')))
        else (Inr c, dict_set (cam_id c) c cs, t))"

definition managed :: "cameras \<Rightarrow> string \<Rightarrow> bool" where
  "managed cs k \<longleftrightarrow> dict_get cs k \<noteq> None"

lemma camera_record_id: "camera_record c = Some rc \<Longrightarrow> rec_id rc = cam_id c \<and> valid_record rc"
  by (auto simp: camera_record_def Let_def rec_id_def dest: parse_ref_sound split: option.splits if_splits)

text \<open>A camera added with its record is driven and known under one identifier; a refusal keeps both tables.\<close>

lemma add_camera_result:
  assumes "add_camera (cs, t) c True = (res, cs', t')"
  shows "(\<exists>e. res = Inl e \<and> cs' = cs \<and> t' = t) \<or>
    (res = Inr c \<and> managed cs' (cam_id c) \<and> reg_contains t' (cam_id c))"
proof (cases "dict_get cs (cam_id c)")
  case (Some d)
  with assms show ?thesis by (auto simp: add_camera_def)
next
  case None
  show ?thesis
  proof (cases "camera_record c")
    case None
    with \<open>dict_get cs (cam_id c) = None\<close> assms show ?thesis by (auto simp: add_camera_def)
  next
    case (Some rc)
    then have "rec_id rc = cam_id c" using camera_record_id by blast
    with Some None assms show ?thesis
      by (auto simp: add_camera_def reg_register_def managed_def reg_contains_def reg_get_def
          split: option.splits if_splits)
  qed
qed

end
