(* ===== verification/Journal.thy ===== *)
theory Journal
  imports Names
begin

section \<open>The journal of satellite events\<close>

text \<open>
  \<open>src/sentry_mode/satellites/store.py\<close> with the tables of
  \<open>migrations/0001_*.sql\<close>. One connection and one lock: an operation is a function of the
  database. SQLite itself is not modelled; what the operations see of it is how it answers:
  \<open>DiskOk\<close>, a constraint that another writer's row violates (\<open>DiskClash\<close>, the
  \<open>IntegrityError\<close>), or any other \<open>sqlite3.Error\<close> with its text. A transaction that fails
  leaves the tables as they were. SHA-256 over the canonical JSON of what an event says is the
  parameter \<open>digest\<close>.
\<close>

subsection \<open>Rows\<close>

datatype time_state = TimeOk | TimeUncertain

record mark =
  mark_node :: string
  mark_source :: string
  mark_boot :: string
  high_water :: int
  baseline_taken :: bool
  mark_time :: time_state
  last_occurred_at :: "string option"

definition fresh_mark :: "string \<Rightarrow> string \<Rightarrow> string \<Rightarrow> mark" where
  "fresh_mark n s b =
     \<lparr>mark_node = n, mark_source = s, mark_boot = b, high_water = -1, baseline_taken = False,
      mark_time = TimeOk, last_occurred_at = None\<rparr>"

definition source_key :: "string \<Rightarrow> string \<Rightarrow> string" where
  "source_key n s = n @ ''.'' @ s"

definition mark_key :: "mark \<Rightarrow> string" where
  "mark_key m = source_key (mark_node m) (mark_source m)"

record entry =
  en_node :: string
  en_source :: string
  en_event :: string
  en_boot :: string
  en_sequence :: int
  en_kind :: string
  en_value :: json_value
  en_unit :: "string option"
  en_quality :: string
  en_clock :: string
  en_zone :: "string option"
  en_occurred :: string
  en_received :: seconds
  en_monotonic :: seconds
  en_queued_ms :: int
  en_epoch :: int
  en_connection :: "string option"
  en_class :: string
  en_eligible :: bool
  en_reason :: "string option"

type_synonym event_body =
  "string \<times> string \<times> int \<times> string \<times> json_value \<times> string option \<times> string \<times> string"

text \<open>What an event says, apart from how it travelled.\<close>

definition event_body :: "entry \<Rightarrow> event_body" where
  "event_body e =
     (en_source e, en_boot e, en_sequence e, en_kind e, en_value e, en_unit e, en_quality e,
      en_occurred e)"

definition fingerprint :: "(event_body \<Rightarrow> string) \<Rightarrow> entry \<Rightarrow> string" where
  "fingerprint digest e = digest (event_body e)"

record receipt_row =
  rc_node :: string
  rc_event :: string
  rc_boot :: string
  rc_source :: string
  rc_sequence :: int
  rc_fingerprint :: string
  rc_received :: seconds

record journal_row =
  jr_id :: nat
  jr_entry :: entry
  jr_outcome :: string

record store =
  connected :: bool
  store_error :: "string option"
  receipts :: "receipt_row list"
  journal :: "journal_row list"
  marks :: "(string, mark \<times> seconds) dict"
  next_row :: nat

datatype disk = DiskOk | DiskClash string | DiskFails string
datatype store_failure = StoreUnavailable string | SqliteError string | IntegerOverflow
datatype admitted = Stored | Duplicate | IdReused | SequenceReused

subsection \<open>Writing\<close>

definition id_key :: "receipt_row \<Rightarrow> string \<times> string" where
  "id_key r = (rc_node r, rc_event r)"

definition stream_key :: "receipt_row \<Rightarrow> string \<times> string \<times> string \<times> int" where
  "stream_key r = (rc_node r, rc_boot r, rc_source r, rc_sequence r)"

definition entry_stream :: "entry \<Rightarrow> string \<times> string \<times> string \<times> int" where
  "entry_stream e = (en_node e, en_boot e, en_source e, en_sequence e)"

definition receipt_of :: "(event_body \<Rightarrow> string) \<Rightarrow> entry \<Rightarrow> receipt_row" where
  "receipt_of digest e =
     \<lparr>rc_node = en_node e, rc_event = en_event e, rc_boot = en_boot e, rc_source = en_source e,
      rc_sequence = en_sequence e, rc_fingerprint = fingerprint digest e,
      rc_received = en_received e\<rparr>"

definition unavailable :: "store \<Rightarrow> store_failure" where
  "unavailable s =
     StoreUnavailable
       (case store_error s of
          None \<Rightarrow> ''the journal is not open''
        | Some e \<Rightarrow> if e = '''' then ''the journal is not open'' else e)"

definition unwritten :: "string \<Rightarrow> store_failure" where
  "unwritten msg = StoreUnavailable (''the journal could not be written: '' @ msg)"

text \<open>
  A whole number SQLite can hold; binding a larger one raises Python's \<open>OverflowError\<close>, which is
  not an \<open>sqlite3.Error\<close>.
\<close>

definition sqlite_int :: "int \<Rightarrow> bool" where
  "sqlite_int i \<longleftrightarrow> - (2 ^ 63) \<le> i \<and> i < 2 ^ 63"

definition entry_fits :: "entry \<Rightarrow> bool" where
  "entry_fits e \<longleftrightarrow> sqlite_int (en_sequence e) \<and> sqlite_int (en_queued_ms e) \<and> sqlite_int (en_epoch e)"

definition write_journal :: "entry \<Rightarrow> store \<Rightarrow> store" where
  "write_journal e s =
     s\<lparr>journal := journal s @ [\<lparr>jr_id = next_row s, jr_entry = e, jr_outcome = ''recorded''\<rparr>],
       next_row := next_row s + 1\<rparr>"

text \<open>The upsert: on a key that is there, everything but the two names is replaced.\<close>

definition write_mark :: "seconds \<Rightarrow> mark \<Rightarrow> store \<Rightarrow> store" where
  "write_mark now m s =
     s\<lparr>marks := dict_set (mark_key m)
        (case dict_get (marks s) (mark_key m) of
           None \<Rightarrow> (m, now)
         | Some (old, _) \<Rightarrow>
             (m\<lparr>mark_node := mark_node old, mark_source := mark_source old\<rparr>, now))
        (marks s)\<rparr>"

definition admit ::
  "(event_body \<Rightarrow> string) \<Rightarrow> seconds \<Rightarrow> disk \<Rightarrow> store \<Rightarrow> entry \<Rightarrow> mark option \<Rightarrow>
     (store_failure + admitted) \<times> store" where
  "admit digest now d s e m =
     (if \<not> connected s then (Inl (unavailable s), s)
      else case d of
        DiskFails msg \<Rightarrow> (Inl (unwritten msg), s\<lparr>store_error := Some msg\<rparr>)
      | DiskClash _ \<Rightarrow> (Inr Duplicate, s)
      | DiskOk \<Rightarrow>
          (case List.find (\<lambda>r. id_key r = (en_node e, en_event e)) (receipts s) of
             Some r \<Rightarrow>
               (Inr (if rc_fingerprint r = fingerprint digest e then Duplicate else IdReused), s)
           | None \<Rightarrow>
               (if \<not> sqlite_int (en_sequence e) then (Inl IntegerOverflow, s)
                else if \<exists>r \<in> set (receipts s). stream_key r = entry_stream e
                then (Inr SequenceReused, s)
                else if \<not> entry_fits e \<or> \<not> pred_option (\<lambda>mk. sqlite_int (high_water mk)) m
                then (Inl IntegerOverflow, s)
                else
                  (let s1 = s\<lparr>receipts := receipts s @ [receipt_of digest e]\<rparr>;
                       s2 = write_journal e s1;
                       s3 = (case m of None \<Rightarrow> s2 | Some mk \<Rightarrow> write_mark now mk s2)
                   in (Inr Stored, s3)))))"

definition record_refusal :: "disk \<Rightarrow> store \<Rightarrow> entry \<Rightarrow> (store_failure + unit) \<times> store" where
  "record_refusal d s e =
     (if \<not> connected s then (Inl (unavailable s), s)
      else case d of
        DiskOk \<Rightarrow>
          if \<not> entry_fits e then (Inl IntegerOverflow, s)
          else (Inr (), write_journal (e\<lparr>en_eligible := False\<rparr>) s)
      | DiskClash msg \<Rightarrow> (Inl (unwritten msg), s\<lparr>store_error := Some msg\<rparr>)
      | DiskFails msg \<Rightarrow> (Inl (unwritten msg), s\<lparr>store_error := Some msg\<rparr>))"

definition remember :: "seconds \<Rightarrow> disk \<Rightarrow> store \<Rightarrow> mark \<Rightarrow> (store_failure + unit) \<times> store" where
  "remember now d s m =
     (if \<not> connected s then (Inl (unavailable s), s)
      else case d of
        DiskOk \<Rightarrow>
          if \<not> sqlite_int (high_water m) then (Inl IntegerOverflow, s)
          else (Inr (), write_mark now m s)
      | DiskClash msg \<Rightarrow> (Inl (unwritten msg), s\<lparr>store_error := Some msg\<rparr>)
      | DiskFails msg \<Rightarrow> (Inl (unwritten msg), s\<lparr>store_error := Some msg\<rparr>))"

definition set_outcome ::
  "disk \<Rightarrow> store \<Rightarrow> string \<Rightarrow> string \<Rightarrow> string \<Rightarrow> (store_failure + unit) \<times> store" where
  "set_outcome d s n ev out =
     (if \<not> connected s then (Inl (unavailable s), s)
      else case d of
        DiskOk \<Rightarrow>
          (Inr (),
           s\<lparr>journal := map (\<lambda>r. if en_node (jr_entry r) = n \<and> en_event (jr_entry r) = ev
                                then r\<lparr>jr_outcome := out\<rparr> else r) (journal s)\<rparr>)
      | DiskClash msg \<Rightarrow> (Inl (SqliteError msg), s)
      | DiskFails msg \<Rightarrow> (Inl (SqliteError msg), s))"

subsection \<open>Reading\<close>

text \<open>A query answers, or fails with the error of SQLite, which is not wrapped here.\<close>

definition query :: "disk \<Rightarrow> store \<Rightarrow> 'a \<Rightarrow> store_failure + 'a" where
  "query d s answer =
     (if \<not> connected s then Inl (unavailable s)
      else case d of
        DiskOk \<Rightarrow> Inr answer
      | DiskClash msg \<Rightarrow> Inl (SqliteError msg)
      | DiskFails msg \<Rightarrow> Inl (SqliteError msg))"

definition get_mark :: "disk \<Rightarrow> store \<Rightarrow> string \<Rightarrow> string \<Rightarrow> store_failure + mark option" where
  "get_mark d s n src = query d s (map_option fst (dict_get (marks s) (source_key n src)))"

definition recent :: "disk \<Rightarrow> store \<Rightarrow> nat \<Rightarrow> string option \<Rightarrow> store_failure + journal_row list" where
  "recent d s limit n =
     query d s
       (take limit
          (rev (filter (\<lambda>r. n = None \<or> n = Some (en_node (jr_entry r))) (journal s))))"

definition wait_bands :: "int list" where
  "wait_bands = [10, 50, 100, 250, 500, 1000, 2000, 5000, 10000, 30000, 60000]"

text \<open>One band of waiting: from its lower end up to, not including, its upper end, if it has one.\<close>

definition band_count :: "int list \<Rightarrow> int \<times> int option \<Rightarrow> nat" where
  "band_count ws b =
     length (filter (\<lambda>w. fst b \<le> w \<and> (case snd b of None \<Rightarrow> True | Some h \<Rightarrow> w < h)) ws)"

definition bands :: "int list \<Rightarrow> (int \<times> int option) list" where
  "bands bs = zip (0 # bs) (map Some bs @ [None])"

text \<open>The wait at a fraction of the sorted column; the fractions are exact here.\<close>

definition wait_at :: "int list \<Rightarrow> rat \<Rightarrow> int option" where
  "wait_at ws fraction =
     (if ws = [] then None
      else Some (sort ws ! nat (min (int (length ws) - 1) \<lfloor>rat_of_nat (length ws) * fraction\<rfloor>)))"

record wait_report =
  wait_total :: nat
  wait_counts :: "nat list"
  wait_spread :: "int option list"
  wait_max :: "int option"
  wait_nodes :: "(string \<times> nat \<times> int) list"

definition waits :: "disk \<Rightarrow> store \<Rightarrow> string option \<Rightarrow> store_failure + wait_report" where
  "waits d s n =
     (let rows = map jr_entry (journal s);
          mine = filter (\<lambda>e. n = None \<or> n = Some (en_node e)) rows;
          ws = map en_queued_ms mine
      in query d s
           \<lparr>wait_total = length ws,
            wait_counts = map (band_count ws) (bands wait_bands),
            wait_spread = map (wait_at ws) [1 / 2, 9 / 10, 99 / 100, 999 / 1000],
            wait_max = (if ws = [] then None else Some (Max (set ws))),
            wait_nodes =
              (if n \<noteq> None then []
               else map (\<lambda>k. let own = map en_queued_ms (filter (\<lambda>e. en_node e = k) rows)
                            in (k, length own, Max (set own)))
                      (remdups (map en_node rows)))\<rparr>)"

text \<open>How many rows each table has, and how often each reason of a refusal was written.\<close>

definition counts :: "disk \<Rightarrow> store \<Rightarrow> store_failure + nat \<times> nat \<times> (string \<times> nat) list" where
  "counts d s =
     (let rs = List.map_filter (\<lambda>r. en_reason (jr_entry r)) (journal s)
      in query d s (length (journal s), length (receipts s),
           map (\<lambda>x. (x, count_list rs x)) (remdups rs)))"

subsection \<open>Keeping it small\<close>

definition forget_events :: "seconds \<Rightarrow> disk \<Rightarrow> store \<Rightarrow> seconds \<Rightarrow> (store_failure + nat) \<times> store" where
  "forget_events now d s older =
     (if \<not> connected s then (Inl (unavailable s), s)
      else case d of
        DiskClash msg \<Rightarrow> (Inl (SqliteError msg), s)
      | DiskFails msg \<Rightarrow> (Inl (SqliteError msg), s)
      | DiskOk \<Rightarrow>
        (let cutoff = now - older;
             gone = filter (\<lambda>r. en_received (jr_entry r) < cutoff) (journal s)
         in (Inr (length gone),
             s\<lparr>journal := filter (\<lambda>r. \<not> en_received (jr_entry r) < cutoff) (journal s)\<rparr>)))"

definition forget_receipts :: "seconds \<Rightarrow> disk \<Rightarrow> store \<Rightarrow> seconds \<Rightarrow> (store_failure + nat) \<times> store" where
  "forget_receipts now d s older =
     (if \<not> connected s then (Inl (unavailable s), s)
      else case d of
        DiskClash msg \<Rightarrow> (Inl (SqliteError msg), s)
      | DiskFails msg \<Rightarrow> (Inl (SqliteError msg), s)
      | DiskOk \<Rightarrow>
        (let cutoff = now - older;
             gone = filter (\<lambda>r. rc_received r < cutoff) (receipts s)
         in (Inr (length gone),
             s\<lparr>receipts := filter (\<lambda>r. \<not> rc_received r < cutoff) (receipts s)\<rparr>)))"

subsection \<open>The invariant\<close>

text \<open>
  One receipt per identifier of a node, one per sequence number of a source within a boot; the
  marks are filed under their source; the rows of the journal are numbered upwards.
\<close>

definition store_inv :: "store \<Rightarrow> bool" where
  "store_inv s \<longleftrightarrow>
     distinct (map id_key (receipts s)) \<and> distinct (map stream_key (receipts s)) \<and>
     wf_dict (marks s) \<and>
     (\<forall>k m t. dict_get (marks s) k = Some (m, t) \<longrightarrow> mark_key m = k) \<and>
     sorted_wrt (<) (map jr_id (journal s)) \<and> (\<forall>r \<in> set (journal s). jr_id r < next_row s)"

definition new_store :: "string option \<Rightarrow> store" where
  "new_store err =
     \<lparr>connected = True, store_error = err, receipts = [], journal = [], marks = [], next_row = 1\<rparr>"

lemma store_inv_new [simp]: "store_inv (new_store err)"
  by (simp add: store_inv_def new_store_def)

lemma store_inv_error [simp]: "store_inv (s\<lparr>store_error := e\<rparr>) = store_inv s"
  by (simp add: store_inv_def)

lemma store_inv_write_journal [simp]: "store_inv s \<Longrightarrow> store_inv (write_journal e s)"
  by (auto simp: store_inv_def write_journal_def sorted_wrt_append less_Suc_eq)

lemma mark_key_kept:
  "mark_key old = mark_key m \<Longrightarrow>
     mark_key (m\<lparr>mark_node := mark_node old, mark_source := mark_source old\<rparr>) = mark_key m"
  by (simp add: mark_key_def)

lemma store_inv_write_mark [simp]: "store_inv s \<Longrightarrow> store_inv (write_mark now m s)"
  by (auto simp: store_inv_def write_mark_def mark_key_kept split: option.splits)

lemma write_frame [simp]:
  "receipts (write_journal e s) = receipts s" "marks (write_journal e s) = marks s"
  "receipts (write_mark now m s) = receipts s" "journal (write_mark now m s) = journal s"
  "connected (write_journal e s) = connected s" "connected (write_mark now m s) = connected s"
  by (simp_all add: write_journal_def write_mark_def)

lemma find_receipt_none:
  "List.find (\<lambda>r. id_key r = k) rs = None \<longleftrightarrow> k \<notin> id_key ` set rs"
  by (auto simp: find_None_iff)

lemma find_receipt_some:
  "List.find (\<lambda>r. id_key r = k) rs = Some r \<Longrightarrow> r \<in> set rs \<and> id_key r = k"
  by (auto simp: find_Some_iff)

lemma store_inv_admit: "store_inv s \<Longrightarrow> store_inv (snd (admit digest now d s e m))"
proof -
  assume s: "store_inv s"
  have "store_inv (s\<lparr>receipts := receipts s @ [receipt_of digest e]\<rparr>)"
    if "(en_node e, en_event e) \<notin> id_key ` set (receipts s)"
      and "\<forall>r \<in> set (receipts s). stream_key r \<noteq> entry_stream e"
    using s that
    by (auto simp: store_inv_def receipt_of_def id_key_def stream_key_def entry_stream_def)
  with s show ?thesis
    by (auto simp: admit_def Let_def find_receipt_none split: disk.splits option.splits)
qed

lemma store_inv_others:
  assumes "store_inv s"
  shows "store_inv (snd (record_refusal d s e))" "store_inv (snd (remember now d s m))"
    "store_inv (snd (set_outcome d s n ev out))" "store_inv (snd (forget_events now d s older))"
    "store_inv (snd (forget_receipts now d s older))"
proof -
  have ids: "map jr_id (map (\<lambda>r. if P r then r\<lparr>jr_outcome := out\<rparr> else r) rs) = map jr_id rs"
    for P rs by (induction rs) auto
  show "store_inv (snd (set_outcome d s n ev out))"
    using assms unfolding store_inv_def set_outcome_def
    by (auto simp: ids simp del: map_map split: disk.splits)
  show "store_inv (snd (record_refusal d s e))" "store_inv (snd (remember now d s m))"
    using assms by (auto simp: record_refusal_def remember_def split: disk.splits)
  show "store_inv (snd (forget_events now d s older))"
    "store_inv (snd (forget_receipts now d s older))"
    using assms
    by (auto simp: forget_events_def forget_receipts_def Let_def store_inv_def
        distinct_map_filter sorted_wrt_filter sorted_wrt_map split: disk.splits)
qed

subsection \<open>What admitting promises\<close>

text \<open>
  The three writes belong together: an event that is stored has its receipt, its journal row and
  its source's new position; an event that is not stored has left the tables untouched.
\<close>

definition same_tables :: "store \<Rightarrow> store \<Rightarrow> bool" where
  "same_tables a b \<longleftrightarrow>
     receipts a = receipts b \<and> journal a = journal b \<and> marks a = marks b \<and>
     next_row a = next_row b \<and> connected a = connected b"

lemma admit_not_stored:
  "admit digest now d s e m = (r, s') \<Longrightarrow> r \<noteq> Inr Stored \<Longrightarrow> same_tables s' s"
  by (auto simp: admit_def same_tables_def Let_def split: disk.splits option.splits if_splits)

lemma admit_stored:
  assumes "admit digest now d s e m = (Inr Stored, s')"
  shows "connected s \<and> d = DiskOk \<and> entry_fits e \<and> (en_node e, en_event e) \<notin> id_key ` set (receipts s) \<and>
    entry_stream e \<notin> stream_key ` set (receipts s) \<and>
    s' = (case m of None \<Rightarrow> id | Some mk \<Rightarrow> write_mark now mk)
           (write_journal e (s\<lparr>receipts := receipts s @ [receipt_of digest e]\<rparr>))"
  using assms
  by (auto simp: admit_def Let_def find_receipt_none split: disk.splits option.splits if_splits)

lemma admit_known:
  assumes "connected s" and "(en_node e, en_event e) \<in> id_key ` set (receipts s)"
  shows "\<exists>r \<in> set (receipts s). id_key r = (en_node e, en_event e) \<and>
    admit digest now DiskOk s e m =
      (Inr (if rc_fingerprint r = fingerprint digest e then Duplicate else IdReused), s)"
proof (cases "List.find (\<lambda>r. id_key r = (en_node e, en_event e)) (receipts s)")
  case None
  with assms(2) show ?thesis by (simp add: find_receipt_none)
next
  case (Some r)
  then have "r \<in> set (receipts s) \<and> id_key r = (en_node e, en_event e)"
    by (rule find_receipt_some)
  moreover from Some assms(1) have "admit digest now DiskOk s e m =
      (Inr (if rc_fingerprint r = fingerprint digest e then Duplicate else IdReused), s)"
    by (simp add: admit_def)
  ultimately show ?thesis by blast
qed

lemma find_none:
  "k \<notin> id_key ` set rs \<Longrightarrow> List.find (\<lambda>r. id_key r = k) rs = None"
  by (simp only: find_receipt_none) simp

lemma admit_reused:
  assumes "connected s" and "(en_node e, en_event e) \<notin> id_key ` set (receipts s)"
    and "sqlite_int (en_sequence e)" and "entry_stream e \<in> stream_key ` set (receipts s)"
  shows "admit digest now DiskOk s e m = (Inr SequenceReused, s)"
  using assms(1,3,4) find_none [OF assms(2)] by (auto simp: admit_def)

lemma admit_fresh:
  assumes "connected s" and "(en_node e, en_event e) \<notin> id_key ` set (receipts s)"
    and "entry_stream e \<notin> stream_key ` set (receipts s)"
    and "entry_fits e" and "pred_option (\<lambda>mk. sqlite_int (high_water mk)) m"
  shows "fst (admit digest now DiskOk s e m) = Inr Stored"
  using assms(1,3-) find_none [OF assms(2)]
  by (auto simp: admit_def Let_def image_iff entry_fits_def)

subsection \<open>The bands of waiting\<close>

lemma bands_partition_aux:
  assumes "sorted_wrt (<) (l # bs)" "l \<le> (w :: int)"
  shows "length (filter (\<lambda>b. fst b \<le> w \<and> (case snd b of None \<Rightarrow> True | Some h \<Rightarrow> w < h))
    (zip (l # bs) (map Some bs @ [None]))) = 1"
  using assms
proof (induction bs arbitrary: l)
  case Nil
  then show ?case by simp
next
  case (Cons b bs)
  show ?case
  proof (cases "b \<le> w")
    case True
    with Cons.prems Cons.IH [of b] show ?thesis by (simp add: not_less)
  next
    case False
    have "filter (\<lambda>x. fst x \<le> w \<and> (case snd x of None \<Rightarrow> True | Some h \<Rightarrow> w < h))
        (zip (b # bs) (map Some bs @ [None])) = []"
    proof -
      have "\<forall>a \<in> set (b # bs). w < a" using False Cons.prems by fastforce
      then show ?thesis by (fastforce simp: filter_empty_conv dest: set_zip_leftD)
    qed
    with False Cons.prems show ?thesis by simp
  qed
qed

lemma band_of_one_wait: "0 \<le> w \<Longrightarrow> sum_list (map (band_count [w]) (bands wait_bands)) = 1"
proof -
  assume w: "0 \<le> w"
  have one: "band_count [w] b =
      (if fst b \<le> w \<and> (case snd b of None \<Rightarrow> True | Some h \<Rightarrow> w < h) then 1 else 0)" for b
    by (simp add: band_count_def)
  have "sum_list (map (band_count [w]) bs) =
      length (filter (\<lambda>b. fst b \<le> w \<and> (case snd b of None \<Rightarrow> True | Some h \<Rightarrow> w < h)) bs)" for bs
    by (induction bs) (simp_all add: one)
  moreover have "length (filter (\<lambda>b. fst b \<le> w \<and> (case snd b of None \<Rightarrow> True | Some h \<Rightarrow> w < h))
      (bands wait_bands)) = 1"
    unfolding bands_def by (rule bands_partition_aux) (simp_all add: wait_bands_def w)
  ultimately show ?thesis by simp
qed

lemma band_count_Cons: "band_count (w # ws) b = band_count [w] b + band_count ws b"
  by (simp add: band_count_def)

text \<open>Every wait that is not negative falls into exactly one band.\<close>

lemma bands_count_all:
  "\<forall>w \<in> set ws. 0 \<le> w \<Longrightarrow> sum_list (map (band_count ws) (bands wait_bands)) = length ws"
proof (induction ws)
  case Nil
  have "band_count [] = (\<lambda>b. 0)" by (simp add: band_count_def fun_eq_iff)
  then show ?case by simp
next
  case (Cons w ws)
  have "sum_list (map (band_count (w # ws)) bs) =
      sum_list (map (band_count [w]) bs) + sum_list (map (band_count ws) bs)" for bs
    by (induction bs) (simp_all add: band_count_Cons [of w ws])
  with Cons band_of_one_wait [of w] show ?case by simp
qed

subsection \<open>One admission for each key\<close>

type_synonym admission = "seconds \<times> disk \<times> entry \<times> mark option"

fun admit_step ::
  "(event_body \<Rightarrow> string) \<Rightarrow> store \<Rightarrow> admission \<Rightarrow> (entry \<times> (store_failure + admitted)) \<times> store" where
  "admit_step digest s (now, d, e, m) =
     ((e, fst (admit digest now d s e m)), snd (admit digest now d s e m))"

definition admitted_id :: "entry \<times> (store_failure + admitted) \<Rightarrow> (string \<times> string) option" where
  "admitted_id a = (if snd a = Inr Stored then Some (en_node (fst a), en_event (fst a)) else None)"

definition admitted_stream ::
  "entry \<times> (store_failure + admitted) \<Rightarrow> (string \<times> string \<times> string \<times> int) option" where
  "admitted_stream a = (if snd a = Inr Stored then Some (entry_stream (fst a)) else None)"

lemma id_key_receipt [simp]: "id_key (receipt_of digest e) = (en_node e, en_event e)"
  by (simp add: id_key_def receipt_of_def)

lemma stream_key_receipt [simp]: "stream_key (receipt_of digest e) = entry_stream e"
  by (simp add: stream_key_def receipt_of_def entry_stream_def)

lemma admit_receipts:
  "receipts (snd (admit digest now d s e m)) =
     (if fst (admit digest now d s e m) = Inr Stored
      then receipts s @ [receipt_of digest e] else receipts s)"
proof (cases "admit digest now d s e m")
  case (Pair r s')
  then show ?thesis
    using admit_stored [of digest now d s e m s'] admit_not_stored [of digest now d s e m r s']
    by (auto simp: same_tables_def split: option.splits)
qed

lemma admit_keys_fresh:
  "fst (admit digest now d s e m) = Inr Stored \<Longrightarrow>
     (en_node e, en_event e) \<notin> id_key ` set (receipts s) \<and>
     entry_stream e \<notin> stream_key ` set (receipts s)"
  using admit_stored [of digest now d s e m "snd (admit digest now d s e m)"]
  by (cases "admit digest now d s e m") auto

interpretation admitted_ids: once_only
  "admit_step digest" "\<lambda>s. id_key ` set (receipts s)" admitted_id for digest
proof (unfold_locales, goal_cases)
  case (1 s m k)
  then show ?case by (cases m) (auto simp: admitted_id_def dest: admit_keys_fresh split: if_splits)
next
  case (2 s m k)
  then show ?case by (cases m) (auto simp: admitted_id_def admit_receipts split: if_splits)
next
  case (3 s m)
  then show ?case by (cases m) (auto simp: admit_receipts)
qed

interpretation admitted_streams: once_only
  "admit_step digest" "\<lambda>s. stream_key ` set (receipts s)" admitted_stream for digest
proof (unfold_locales, goal_cases)
  case (1 s m k)
  then show ?case by (cases m) (auto simp: admitted_stream_def dest: admit_keys_fresh split: if_splits)
next
  case (2 s m k)
  then show ?case by (cases m) (auto simp: admitted_stream_def admit_receipts split: if_splits)
next
  case (3 s m)
  then show ?case by (cases m) (auto simp: admit_receipts)
qed

end
