(* ===== verification/Settings.thy ===== *)
theory Settings
  imports Names
begin

section \<open>Settings of the satellite side\<close>

text \<open>
  \<open>src/sentry_mode/satellites/config.py\<close>: each section's fields with their defaults, and the
  bounds and validators as a predicate. A settings file that breaks one is refused when it is
  read, so the components take it as given.
\<close>

subsection \<open>Limits\<close>

record limits =
  event_max_bytes :: int
  events_per_minute :: int
  total_events_per_minute :: int
  queue_depth :: int
  accept_within :: int
  future_tolerance :: int
  journal_days :: int
  dedup_days :: int

definition default_limits :: limits where
  "default_limits =
     \<lparr>event_max_bytes = 8192, events_per_minute = 600, total_events_per_minute = 3000,
      queue_depth = 256, accept_within = 300, future_tolerance = 5, journal_days = 14,
      dedup_days = 7\<rparr>"

definition limits_ok :: "limits \<Rightarrow> bool" where
  "limits_ok l \<longleftrightarrow>
     event_max_bytes l \<in> {256..65536} \<and> events_per_minute l \<in> {1..60000} \<and>
     total_events_per_minute l \<in> {1..600000} \<and> queue_depth l \<in> {8..10000} \<and>
     accept_within l \<in> {5..86400} \<and> future_tolerance l \<in> {0..300} \<and>
     journal_days l \<in> {1..3650} \<and> dedup_days l \<in> {1..3650} \<and>
     events_per_minute l \<le> total_events_per_minute l"

subsection \<open>Silence, sessions, media\<close>

record health_settings =
  heartbeat_seconds :: int
  stale_after :: int
  offline_after :: int

definition health_ok :: "health_settings \<Rightarrow> bool" where
  "health_ok h \<longleftrightarrow>
     heartbeat_seconds h \<in> {1..300} \<and> stale_after h \<in> {2..900} \<and> offline_after h \<in> {3..1800} \<and>
     \<not> offline_after h \<le> stale_after h"

record session_settings =
  grant_seconds :: int
  renew_every :: int

definition sessions_ok :: "session_settings \<Rightarrow> bool" where
  "sessions_ok c \<longleftrightarrow>
     grant_seconds c \<in> {10..3600} \<and> renew_every c \<in> {5..1800} \<and> \<not> renew_every c \<ge> grant_seconds c"

record media_settings =
  media_enabled :: bool
  media_bind :: string
  media_port :: int
  stream_seconds :: int
  stream_renew :: int
  connect_timeout :: rat
  stall_seconds :: rat
  handshake_seconds :: rat
  max_streams :: int
  backlog_bytes :: int
  media_ffmpeg :: string

definition media_ok :: "media_settings \<Rightarrow> bool" where
  "media_ok m \<longleftrightarrow>
     media_bind m \<noteq> '''' \<and> media_port m \<in> {0..65535} \<and> \<not> (0 < media_port m \<and> media_port m < 1024) \<and>
     stream_seconds m \<in> {10..600} \<and> stream_renew m \<in> {2..300} \<and>
     \<not> stream_renew m * 2 > stream_seconds m \<and>
     2 \<le> connect_timeout m \<and> connect_timeout m \<le> 300 \<and> 1 \<le> stall_seconds m \<and> stall_seconds m \<le> 60 \<and>
     1 \<le> handshake_seconds m \<and> handshake_seconds m \<le> 60 \<and> max_streams m \<in> {1..32} \<and>
     backlog_bytes m \<in> {65536..67108864} \<and> media_ffmpeg m \<noteq> ''''"

definition default_health :: health_settings where
  "default_health = \<lparr>heartbeat_seconds = 15, stale_after = 45, offline_after = 60\<rparr>"

definition default_sessions :: session_settings where
  "default_sessions = \<lparr>grant_seconds = 300, renew_every = 120\<rparr>"

definition default_media :: media_settings where
  "default_media =
     \<lparr>media_enabled = True, media_bind = ''0.0.0.0'', media_port = 8555, stream_seconds = 60,
      stream_renew = 20, connect_timeout = 20, stall_seconds = 5, handshake_seconds = 5,
      max_streams = 4, backlog_bytes = 4 * 1024 * 1024, media_ffmpeg = ''ffmpeg''\<rparr>"

text \<open>The defaults are settings the validators accept.\<close>

lemma defaults_ok:
  "limits_ok default_limits" "health_ok default_health" "sessions_ok default_sessions"
  "media_ok default_media"
  by (simp_all add: limits_ok_def default_limits_def health_ok_def default_health_def
      sessions_ok_def default_sessions_def media_ok_def default_media_def)

end
