(* ===== verification/Rates.thy ===== *)
theory Rates
  imports Settings
begin

section \<open>How much a node may send\<close>

text \<open>
  \<open>RateLimiter\<close> of \<open>src/sentry_mode/satellites/ingress.py\<close>: a call carries the reading of
  the clock and the node; what it does to the buckets is a function of the limiter.
\<close>

subsection \<open>The rates\<close>

text \<open>\<open>RateLimiter\<close>: a bucket for each node and one for everybody, as a level and when it was filled.\<close>

record rate_limiter =
  per_node :: rat
  total :: rat
  buckets :: "(string, rat \<times> seconds) dict"
  shared :: "rat \<times> seconds"

definition new_limiter :: "limits \<Rightarrow> seconds \<Rightarrow> rate_limiter" where
  "new_limiter l now =
     \<lparr>per_node = of_int (events_per_minute l), total = of_int (total_events_per_minute l),
      buckets = [], shared = (of_int (total_events_per_minute l), now)\<rparr>"

definition draw :: "rat \<Rightarrow> seconds \<Rightarrow> rat \<Rightarrow> seconds \<Rightarrow> bool \<times> rat" where
  "draw level filled_at capacity now =
     (let refilled = min capacity (level + (now - filled_at) * capacity / 60)
      in if refilled < 1 then (False, refilled) else (True, refilled - 1))"

definition allow :: "rate_limiter \<Rightarrow> seconds \<times> string \<Rightarrow> string option \<times> rate_limiter" where
  "allow r call =
     (let (now, n) = call;
          (lvl, filled_at) =
            (case dict_get (buckets r) n of None \<Rightarrow> (per_node r, now) | Some b \<Rightarrow> b);
          (ok, lvl') = draw lvl filled_at (per_node r) now
      in if \<not> ok then (Some ''node'', r\<lparr>buckets := dict_set n (lvl', now) (buckets r)\<rparr>)
         else
           (let (shared_ok, shared_lvl) = draw (fst (shared r)) (snd (shared r)) (total r) now
            in if \<not> shared_ok then (Some ''hub'', r\<lparr>shared := (shared_lvl, now)\<rparr>)
               else (None, r\<lparr>buckets := dict_set n (lvl', now) (buckets r),
                             shared := (shared_lvl, now)\<rparr>)))"

definition bucket_now :: "rat \<Rightarrow> rat \<times> seconds \<Rightarrow> seconds \<Rightarrow> rat" where
  "bucket_now capacity b t = min capacity (fst b + (t - snd b) * capacity / 60)"

definition node_tokens :: "string \<Rightarrow> rate_limiter \<Rightarrow> seconds \<Rightarrow> rat" where
  "node_tokens n r t =
     (case dict_get (buckets r) n of None \<Rightarrow> per_node r | Some b \<Rightarrow> bucket_now (per_node r) b t)"

definition shared_tokens :: "rate_limiter \<Rightarrow> seconds \<Rightarrow> rat" where
  "shared_tokens r t = bucket_now (total r) (shared r) t"

definition limiter_ok :: "rat \<Rightarrow> rat \<Rightarrow> rate_limiter \<Rightarrow> seconds \<Rightarrow> bool" where
  "limiter_ok each all_nodes r t \<longleftrightarrow>
     per_node r = each \<and> total r = all_nodes \<and> 1 \<le> each \<and> 1 \<le> all_nodes \<and>
     (\<forall>n b. dict_get (buckets r) n = Some b \<longrightarrow> 0 \<le> fst b \<and> snd b \<le> t) \<and>
     0 \<le> fst (shared r) \<and> snd (shared r) \<le> t"

lemma draw_bucket:
  "draw (fst b) (snd b) c now =
     (if bucket_now c b now < 1 then (False, bucket_now c b now) else (True, bucket_now c b now - 1))"
  by (simp add: draw_def bucket_now_def Let_def)

lemma bucket_now_nonneg: "0 \<le> fst b \<Longrightarrow> snd b \<le> t \<Longrightarrow> 1 \<le> c \<Longrightarrow> 0 \<le> bucket_now c b t"
  by (simp add: bucket_now_def)

lemma bucket_now_refill:
  assumes "t \<le> t'" "0 \<le> c"
  shows "bucket_now c b t' \<le> bucket_now c b t + (t' - t) * (c / 60)"
proof -
  have "0 \<le> (t' - t) * (c / 60)" using assms by simp
  moreover have "(t' - snd b) * c / 60 = (t - snd b) * c / 60 + (t' - t) * (c / 60)"
    by (simp add: algebra_simps diff_divide_distrib add_divide_distrib)
  ultimately show ?thesis unfolding bucket_now_def by linarith
qed

lemma bucket_now_at: "x \<le> c \<Longrightarrow> bucket_now c (x, t) t = x"
  by (simp add: bucket_now_def)

lemma bucket_now_le: "bucket_now c b t \<le> c"
  by (simp add: bucket_now_def)

text \<open>The four ways a call ends, by what the two buckets hold.\<close>

lemma allow_simp:
  "allow r (now, n) =
     (if node_tokens n r now < 1
      then (Some ''node'', r\<lparr>buckets := dict_set n (node_tokens n r now, now) (buckets r)\<rparr>)
      else if shared_tokens r now < 1
      then (Some ''hub'', r\<lparr>shared := (shared_tokens r now, now)\<rparr>)
      else (None, r\<lparr>buckets := dict_set n (node_tokens n r now - 1, now) (buckets r),
                    shared := (shared_tokens r now - 1, now)\<rparr>))"
proof (cases "dict_get (buckets r) n")
  case None
  have "bucket_now (per_node r) (per_node r, now) now = per_node r" by (simp add: bucket_now_def)
  with None draw_bucket [of "(per_node r, now)" "per_node r" now] show ?thesis
    by (simp add: allow_def node_tokens_def shared_tokens_def draw_bucket)
next
  case (Some b)
  with draw_bucket [of b "per_node r" now] show ?thesis
    by (cases b) (simp add: allow_def node_tokens_def shared_tokens_def draw_bucket)
qed

lemma node_tokens_bounds:
  "limiter_ok x y r t \<Longrightarrow> 0 \<le> node_tokens n r t \<and> node_tokens n r t \<le> x"
  by (auto simp: limiter_ok_def node_tokens_def bucket_now_le intro: bucket_now_nonneg split: option.splits)

lemma shared_tokens_bounds:
  "limiter_ok x y r t \<Longrightarrow> 0 \<le> shared_tokens r t \<and> shared_tokens r t \<le> y"
  by (auto simp: limiter_ok_def shared_tokens_def bucket_now_le intro: bucket_now_nonneg)

lemma limiter_ok_allow: "limiter_ok x y r now \<Longrightarrow> limiter_ok x y (snd (allow r (now, n))) now"
  using node_tokens_bounds [of x y r now n] shared_tokens_bounds [of x y r now]
  by (auto simp: allow_simp limiter_ok_def)

lemma node_tokens_update [simp]:
  "node_tokens k (r\<lparr>shared := b\<rparr>) now = node_tokens k r now"
  "node_tokens k (r\<lparr>buckets := dict_set n v (buckets r)\<rparr>) now =
     (if k = n then bucket_now (per_node r) v now else node_tokens k r now)"
  by (simp_all add: node_tokens_def split: option.splits)

lemma shared_tokens_update [simp]:
  "shared_tokens (r\<lparr>buckets := d\<rparr>) now = shared_tokens r now"
  "shared_tokens (r\<lparr>shared := b\<rparr>) now = bucket_now (total r) b now"
  by (simp_all add: shared_tokens_def)

lemma node_paid:
  assumes "limiter_ok x y r now"
  shows "node_tokens k (snd (allow r (now, n))) now +
      (if fst (allow r (now, n)) = None \<and> n = k then 1 else 0) \<le> node_tokens k r now"
  using node_tokens_bounds [OF assms, of n] assms
  by (auto simp: allow_simp bucket_now_at limiter_ok_def)

lemma shared_paid:
  assumes "limiter_ok x y r now"
  shows "shared_tokens (snd (allow r (now, n))) now +
      (if fst (allow r (now, n)) = None then 1 else 0) \<le> shared_tokens r now"
  using shared_tokens_bounds [OF assms] assms
  by (auto simp: allow_simp bucket_now_at limiter_ok_def)

lemma limiter_ok_later: "limiter_ok x y r t \<Longrightarrow> t \<le> u \<Longrightarrow> limiter_ok x y r u"
  by (fastforce simp: limiter_ok_def)

interpretation node_budget: token_bucket allow fst "node_tokens n" "limiter_ok x y"
  "\<lambda>call a. a = None \<and> snd call = n" "x / 60" for n x y
proof (unfold_locales, goal_cases)
  case (1 r t u)
  then have "0 \<le> per_node r" "per_node r = x" by (auto simp: limiter_ok_def)
  with 1 bucket_now_refill [of t u "per_node r"] show ?case
    by (auto simp: node_tokens_def split: option.splits)
next
  case (2 r t)
  then show ?case using node_tokens_bounds by blast
next
  case (3 r call)
  then show ?case using node_paid [of x y r "fst call" n "snd call"] by simp
next
  case (4 r call)
  then show ?case using limiter_ok_allow [of x y r "fst call" "snd call"] by simp
next
  case (5 r t u)
  then show ?case by (rule limiter_ok_later)
qed

interpretation hub_budget: token_bucket allow fst shared_tokens "limiter_ok x y"
  "\<lambda>call a. a = None" "y / 60" for x y
proof (unfold_locales, goal_cases)
  case (1 r t u)
  then have "0 \<le> total r" "total r = y" by (auto simp: limiter_ok_def)
  with 1 bucket_now_refill [of t u "total r"] show ?case by (auto simp: shared_tokens_def)
next
  case (2 r t)
  then show ?case using shared_tokens_bounds by blast
next
  case (3 r call)
  then show ?case using shared_paid [of x y r "fst call" "snd call"] by simp
next
  case (4 r call)
  then show ?case using limiter_ok_allow [of x y r "fst call" "snd call"] by simp
next
  case (5 r t u)
  then show ?case by (rule limiter_ok_later)
qed

text \<open>How many calls of a run were let through, for one node and for all of them.\<close>

definition passed :: "rate_limiter \<Rightarrow> (seconds \<times> string) list \<Rightarrow> string option \<Rightarrow> nat" where
  "passed r calls n =
     length (filter (\<lambda>(call, a). a = None \<and> (n = None \<or> n = Some (snd call)))
       (zip calls (fst (run allow r calls))))"

lemma limiter_ok_new:
  "limits_ok l \<Longrightarrow>
     limiter_ok (of_int (events_per_minute l)) (of_int (total_events_per_minute l)) (new_limiter l t) t"
  by (auto simp: limiter_ok_def new_limiter_def limits_ok_def)



end
