(* ===== verification/Events.thy ===== *)
theory Events
  imports Names
begin

section \<open>Events\<close>

text \<open>
  What a satellite publishes (the wire models of \<open>src/sentry_mode/satellites/protocol.py\<close>, with
  the bounds and patterns they declare) and what the hub makes of it (\<open>NormalizedEvent\<close> of
  \<open>satellites/ingress.py\<close>), which the door produces and the rules look at.
\<close>

subsection \<open>What is published\<close>

record satellite_event =
  ev_id :: string
  ev_node :: string
  ev_source :: string
  ev_boot :: string
  ev_sequence :: int
  ev_kind :: string
  ev_occurred :: moment
  ev_clock :: clock_status
  ev_value :: json_value
  ev_unit :: "string option"
  ev_quality :: quality

record delivery =
  dl_connection :: string
  dl_epoch :: int
  dl_grant :: "string option"
  dl_queued :: int
  dl_replayed :: bool
  dl_initial :: bool

record envelope =
  env_version :: int
  env_event :: satellite_event
  env_delivery :: delivery

definition event_ok :: "satellite_event \<Rightarrow> bool" where
  "event_ok e \<longleftrightarrow>
     valid_name (ev_node e) \<and> valid_name (ev_source e) \<and> 0 \<le> ev_sequence e \<and>
     valid_kind (ev_kind e) \<and> pred_option (\<lambda>u. length u \<le> 16) (ev_unit e)"

definition delivery_ok :: "delivery \<Rightarrow> bool" where
  "delivery_ok d \<longleftrightarrow> 0 \<le> dl_epoch d \<and> 0 \<le> dl_queued d"

definition envelope_ok :: "envelope \<Rightarrow> bool" where
  "envelope_ok v \<longleftrightarrow> env_version v = 1 \<and> event_ok (env_event v) \<and> delivery_ok (env_delivery v)"

subsection \<open>What the hub knows of an event\<close>

record normalized =
  no_ref :: source_ref
  no_event :: string
  no_boot :: string
  no_sequence :: int
  no_kind :: string
  no_value :: json_value
  no_unit :: "string option"
  no_quality :: string
  no_clock :: string
  no_zone :: "string option"
  no_occurred :: moment
  no_received :: seconds
  no_monotonic :: seconds
  no_queued :: int
  no_epoch :: int
  no_connection :: "string option"
  no_class :: string
  no_eligible :: bool
  no_reason :: "string option"

definition no_node :: "normalized \<Rightarrow> string" where
  "no_node e = (case ref_node (no_ref e) of None \<Rightarrow> '''' | Some n \<Rightarrow> n)"

definition no_source :: "normalized \<Rightarrow> string" where
  "no_source e = ref_name (no_ref e)"

end
