(* ===== verification/Ingress.thy ===== *)
theory Ingress
  imports Registry Journal Settings Events
begin

section \<open>The door events come in by\<close>

text \<open>
  \<open>src/sentry_mode/satellites/ingress.py\<close>, with the wire models of
  \<open>satellites/protocol.py\<close>. What Pydantic makes
  of a document (types, coercions, unknown fields) is the parameter \<open>in_decode\<close>; the bounds
  and patterns the models declare are \<open>envelope_ok\<close>. A message carries the readings of both
  clocks and how the disk answers its two accesses, so a run of the door is a list of messages.
\<close>

definition model_validate :: "('doc \<Rightarrow> envelope option) \<Rightarrow> 'doc \<Rightarrow> envelope option" where
  "model_validate decode doc =
     (case decode doc of None \<Rightarrow> None | Some v \<Rightarrow> if envelope_ok v then Some v else None)"

subsection \<open>The decision\<close>

record receipt =
  rp_class :: string
  rp_eligible :: bool
  rp_stored :: bool
  rp_reason :: "string option"
  rp_event :: "normalized option"
  rp_waited :: "int option"
  rp_settle :: bool

definition set_aside :: "string \<Rightarrow> string \<Rightarrow> receipt" where
  "set_aside c why =
     \<lparr>rp_class = c, rp_eligible = False, rp_stored = False, rp_reason = Some why,
      rp_event = None, rp_waited = None, rp_settle = True\<rparr>"

definition live :: string where "live = ''live''"
definition initial :: string where "initial = ''initial''"
definition historic :: string where "historic = ''historic''"
definition rejected :: string where "rejected = ''rejected''"

record 'doc door =
  in_decode :: "'doc \<Rightarrow> envelope option"
  in_digest :: "event_body \<Rightarrow> string"
  in_sources :: registry
  in_limits :: limits
  in_zone_of :: "string \<Rightarrow> string option"

record 'doc message =
  msg_node :: string
  msg_doc :: 'doc
  msg_retained :: bool
  msg_now :: seconds
  msg_mono :: seconds
  msg_read :: disk
  msg_write :: disk

definition position ::
  "disk \<Rightarrow> store \<Rightarrow> string \<Rightarrow> string \<Rightarrow> string \<Rightarrow> store_failure + mark" where
  "position d st n s b =
     (case get_mark d st n s of
        Inl f \<Rightarrow> Inl f
      | Inr None \<Rightarrow> Inr (fresh_mark n s b)
      | Inr (Some known) \<Rightarrow>
          Inr (if mark_boot known \<noteq> b then fresh_mark n s b else known))"

definition age_of :: "seconds \<Rightarrow> satellite_event \<Rightarrow> seconds" where
  "age_of now e = now - timestamp (ev_occurred e)"

definition clock_bad :: "limits \<Rightarrow> seconds \<Rightarrow> satellite_event \<Rightarrow> bool" where
  "clock_bad l now e \<longleftrightarrow>
     ev_clock e \<noteq> Synced \<or> age_of now e < - of_int (future_tolerance l)"

definition classify ::
  "limits \<Rightarrow> satellite_event \<Rightarrow> delivery \<Rightarrow> mark \<Rightarrow> bool \<Rightarrow> seconds \<Rightarrow>
     string \<times> string option \<times> mark" where
  "classify l e d m retained now =
     (let bad = clock_bad l now e;
          uncertain = (bad \<or> mark_time m = TimeUncertain);
          ahead = max (high_water m) (ev_sequence e);
          seen = m\<lparr>high_water := ahead, last_occurred_at := Some (isoformat (ev_occurred e))\<rparr>;
          fresh = seen\<lparr>baseline_taken := True,
                       mark_time := (if bad then TimeUncertain else TimeOk)\<rparr>;
          moved = seen\<lparr>mark_time := (if uncertain then TimeUncertain else mark_time m)\<rparr>
      in if retained then (historic, Some ''retained'', m)
         else if dl_initial d then (initial, Some ''initial_state'', fresh)
         else if dl_replayed d then (historic, Some ''replayed'', moved)
         else if uncertain then (historic, Some ''time_uncertain'', moved)
         else if age_of now e > of_int (accept_within l) then (historic, Some ''expired'', moved)
         else if ev_sequence e \<le> high_water m then (historic, Some ''out_of_order'', moved)
         else (live, None, moved))"

definition entry_of :: "normalized \<Rightarrow> entry" where
  "entry_of e =
     \<lparr>en_node = no_node e, en_source = no_source e, en_event = no_event e, en_boot = no_boot e,
      en_sequence = no_sequence e, en_kind = no_kind e, en_value = no_value e,
      en_unit = no_unit e, en_quality = no_quality e, en_clock = no_clock e,
      en_zone = no_zone e, en_occurred = isoformat (no_occurred e),
      en_received = no_received e, en_monotonic = no_monotonic e, en_queued_ms = no_queued e,
      en_epoch = no_epoch e, en_connection = no_connection e, en_class = no_class e,
      en_eligible = no_eligible e, en_reason = no_reason e\<rparr>"

fun refusal :: "admitted \<Rightarrow> string" where
  "refusal Stored = ''''"
| "refusal Duplicate = ''duplicate''"
| "refusal IdReused = ''id_reused''"
| "refusal SequenceReused = ''sequence_reused''"

definition unsettled :: receipt where
  "unsettled = (set_aside rejected ''store_unavailable'')\<lparr>rp_settle := False\<rparr>"

text \<open>
  \<open>_write\<close>: committed before anything is acknowledged. Only \<open>StoreUnavailable\<close> is caught; any
  other error reaches the caller.
\<close>

definition write_down ::
  "'doc door \<Rightarrow> 'doc message \<Rightarrow> store \<Rightarrow> normalized \<Rightarrow> mark \<Rightarrow>
     (store_failure + receipt) \<times> store" where
  "write_down g msg st e m =
     (case admit (in_digest g) (msg_now msg) (msg_write msg) st (entry_of e) (Some m) of
        (Inl (StoreUnavailable _), st') \<Rightarrow> (Inr unsettled, st')
      | (Inl f, st') \<Rightarrow> (Inl f, st')
      | (Inr Stored, st') \<Rightarrow>
          (Inr \<lparr>rp_class = no_class e, rp_eligible = no_eligible e, rp_stored = True,
                rp_reason = no_reason e, rp_event = (if no_eligible e then Some e else None),
                rp_waited = Some (no_queued e), rp_settle = True\<rparr>, st')
      | (Inr a, st') \<Rightarrow> (Inr (set_aside historic (refusal a)), st'))"

definition normalize ::
  "'doc door \<Rightarrow> 'doc message \<Rightarrow> source_ref \<Rightarrow> source_record \<Rightarrow> envelope \<Rightarrow>
     string \<Rightarrow> string option \<Rightarrow> normalized" where
  "normalize g msg ref rec v cls why =
     (let e = env_event v; d = env_delivery v in
      \<lparr>no_ref = ref, no_event = ev_id e, no_boot = ev_boot e, no_sequence = ev_sequence e,
       no_kind = ev_kind e, no_value = ev_value e, no_unit = ev_unit e,
       no_quality = quality_value (ev_quality e), no_clock = clock_value (ev_clock e),
       no_zone = py_or (rec_zone rec) (in_zone_of g (msg_node msg)),
       no_occurred = ev_occurred e, no_received = msg_now msg, no_monotonic = msg_mono msg,
       no_queued = dl_queued d, no_epoch = dl_epoch d,
       no_connection = Some (dl_connection d), no_class = cls, no_eligible = (why = None),
       no_reason = why\<rparr>)"

definition accept ::
  "'doc door \<Rightarrow> store \<Rightarrow> 'doc message \<Rightarrow> (store_failure + receipt) \<times> store" where
  "accept g st msg =
     (case model_validate (in_decode g) (msg_doc msg) of
        None \<Rightarrow> (Inr (set_aside rejected ''invalid_envelope''), st)
      | Some v \<Rightarrow>
          (let e = env_event v; n = msg_node msg in
           if ev_node e \<noteq> n then (Inr (set_aside rejected ''identity_mismatch''), st)
           else case mk_ref (Some n) (ev_source e) of
             None \<Rightarrow> (Inr (set_aside rejected ''unregistered_source''), st)
           | Some ref \<Rightarrow>
               (case reg_get (in_sources g) (ref_id ref) of
                  None \<Rightarrow> (Inr (set_aside rejected ''unregistered_source''), st)
                | Some rec \<Rightarrow>
                    if rec_state rec = Disabled
                    then (Inr (set_aside rejected ''source_disabled''), st)
                    else (case position (msg_read msg) st n (ev_source e) (ev_boot e) of
                       Inl (StoreUnavailable _) \<Rightarrow> (Inr unsettled, st)
                     | Inl f \<Rightarrow> (Inl f, st)
                     | Inr m \<Rightarrow>
                         (case classify (in_limits g) e (env_delivery v) m (msg_retained msg)
                                 (msg_now msg) of
                            (cls, why, m') \<Rightarrow>
                              write_down g msg st (normalize g msg ref rec v cls why) m')))))"

subsection \<open>One message\<close>

lemma mk_ref_valid: "valid_name n \<Longrightarrow> valid_name s \<Longrightarrow> mk_ref (Some n) s = Some \<lparr>ref_node = Some n, ref_name = s\<rparr>"
  by (simp add: mk_ref_def valid_ref_def)

lemma ref_id_on [simp]: "ref_id \<lparr>ref_node = Some n, ref_name = s\<rparr> = source_key n s"
  by (simp add: ref_id_def source_key_def)

lemma model_validate_ok: "model_validate dec doc = Some v \<Longrightarrow> envelope_ok v"
  by (auto simp: model_validate_def split: option.splits if_splits)

text \<open>Who may speak: the document is sound, names the node it came from and a source in use.\<close>

definition admissible ::
  "'doc door \<Rightarrow> 'doc message \<Rightarrow> envelope \<Rightarrow> source_record \<Rightarrow> bool" where
  "admissible g msg v rec \<longleftrightarrow>
     model_validate (in_decode g) (msg_doc msg) = Some v \<and>
     ev_node (env_event v) = msg_node msg \<and>
     reg_get (in_sources g) (source_key (msg_node msg) (ev_source (env_event v))) = Some rec \<and>
     rec_state rec \<noteq> Disabled"

definition on_node :: "string \<Rightarrow> string \<Rightarrow> source_ref" where
  "on_node n s = \<lparr>ref_node = Some n, ref_name = s\<rparr>"

lemma accept_admissible:
  assumes "admissible g msg v rec"
  shows "accept g st msg =
    (case position (msg_read msg) st (msg_node msg) (ev_source (env_event v))
        (ev_boot (env_event v)) of
       Inl (StoreUnavailable _) \<Rightarrow> (Inr unsettled, st)
     | Inl f \<Rightarrow> (Inl f, st)
     | Inr m \<Rightarrow>
         (case classify (in_limits g) (env_event v) (env_delivery v) m (msg_retained msg)
                 (msg_now msg) of
            (cls, why, m') \<Rightarrow>
              write_down g msg st
                (normalize g msg (on_node (msg_node msg) (ev_source (env_event v))) rec v cls why)
                m'))"
proof -
  have "valid_name (msg_node msg)" "valid_name (ev_source (env_event v))"
    using assms model_validate_ok [of "in_decode g" "msg_doc msg" v]
    by (auto simp: admissible_def envelope_ok_def event_ok_def)
  then show ?thesis
    using assms unfolding on_node_def by (simp add: admissible_def accept_def Let_def mk_ref_valid)
qed

lemma accept_inadmissible:
  assumes "\<And>v rec. \<not> admissible g msg v rec"
  shows "\<exists>why. accept g st msg = (Inr (set_aside rejected why), st)"
proof (cases "model_validate (in_decode g) (msg_doc msg)")
  case None
  then show ?thesis by (auto simp: accept_def)
next
  case (Some v)
  then have ok: "valid_name (ev_node (env_event v))" "valid_name (ev_source (env_event v))"
    using model_validate_ok [OF Some] by (auto simp: envelope_ok_def event_ok_def)
  show ?thesis
  proof (cases "ev_node (env_event v) = msg_node msg")
    case False
    with Some show ?thesis by (auto simp: accept_def Let_def)
  next
    case True
    with ok have r: "mk_ref (Some (msg_node msg)) (ev_source (env_event v)) =
        Some \<lparr>ref_node = Some (msg_node msg), ref_name = ev_source (env_event v)\<rparr>"
      by (simp add: mk_ref_valid)
    show ?thesis
      using assms [of v] Some True r
      by (cases "reg_get (in_sources g) (source_key (msg_node msg) (ev_source (env_event v)))")
        (auto simp: admissible_def accept_def Let_def)
  qed
qed

lemma set_aside_simps [simp]:
  "\<not> rp_eligible (set_aside c w)" "\<not> rp_stored (set_aside c w)" "rp_settle (set_aside c w)"
  "rp_event (set_aside c w) = None" "rp_class (set_aside c w) = c"
  "rp_reason (set_aside c w) = Some w"
  by (simp_all add: set_aside_def)

lemma unsettled_simps [simp]:
  "\<not> rp_eligible unsettled" "\<not> rp_stored unsettled" "\<not> rp_settle unsettled"
  "rp_event unsettled = None" "rp_class unsettled = rejected"
  "rp_reason unsettled = Some ''store_unavailable''"
  by (simp_all add: unsettled_def)

lemma normalize_simps [simp]:
  "no_node (normalize g msg (on_node n s) rec v cls why) = n"
  "no_source (normalize g msg (on_node n s) rec v cls why) = s"
  "no_event (normalize g msg ref rec v cls why) = ev_id (env_event v)"
  "no_boot (normalize g msg ref rec v cls why) = ev_boot (env_event v)"
  "no_sequence (normalize g msg ref rec v cls why) = ev_sequence (env_event v)"
  "no_class (normalize g msg ref rec v cls why) = cls"
  "no_eligible (normalize g msg ref rec v cls why) = (why = None)"
  "no_reason (normalize g msg ref rec v cls why) = why"
  "no_queued (normalize g msg ref rec v cls why) = dl_queued (env_delivery v)"
  "no_received (normalize g msg ref rec v cls why) = msg_now msg"
  "no_epoch (normalize g msg ref rec v cls why) = dl_epoch (env_delivery v)"
  by (simp_all add: normalize_def Let_def no_node_def no_source_def on_node_def)

lemma entry_of_simps [simp]:
  "en_node (entry_of e) = no_node e" "en_event (entry_of e) = no_event e"
  "en_source (entry_of e) = no_source e" "en_boot (entry_of e) = no_boot e"
  "en_sequence (entry_of e) = no_sequence e" "en_received (entry_of e) = no_received e"
  "en_eligible (entry_of e) = no_eligible e" "en_class (entry_of e) = no_class e"
  "en_reason (entry_of e) = no_reason e" "en_queued_ms (entry_of e) = no_queued e"
  "en_epoch (entry_of e) = no_epoch e"
  by (simp_all add: entry_of_def)

text \<open>Only the answer \<open>live\<close> comes without a reason to set the event aside.\<close>

lemma classify_live:
  "fst (snd (classify l e d m retained now)) = None \<longleftrightarrow>
     \<not> retained \<and> \<not> dl_initial d \<and> \<not> dl_replayed d \<and> ev_clock e = Synced \<and>
     - of_int (future_tolerance l) \<le> age_of now e \<and> age_of now e \<le> of_int (accept_within l) \<and>
     mark_time m = TimeOk \<and> high_water m < ev_sequence e"
  by (cases "mark_time m") (auto simp: classify_def clock_bad_def Let_def)

lemma classify_mark [simp]:
  "mark_node (snd (snd (classify l e d m retained now))) = mark_node m"
  "mark_source (snd (snd (classify l e d m retained now))) = mark_source m"
  "mark_boot (snd (snd (classify l e d m retained now))) = mark_boot m"
  by (auto simp: classify_def Let_def)

lemma classify_ahead:
  "high_water m \<le> high_water (snd (snd (classify l e d m retained now))) \<and>
   (\<not> retained \<longrightarrow> ev_sequence e \<le> high_water (snd (snd (classify l e d m retained now))))"
  by (auto simp: classify_def Let_def)

text \<open>How a written message ends.\<close>

lemma write_down_cases:
  obtains (stored) st' where
      "admit (in_digest g) (msg_now msg) (msg_write msg) st (entry_of e) (Some m) = (Inr Stored, st')"
      "write_down g msg st e m =
        (Inr \<lparr>rp_class = no_class e, rp_eligible = no_eligible e, rp_stored = True,
              rp_reason = no_reason e, rp_event = (if no_eligible e then Some e else None),
              rp_waited = Some (no_queued e), rp_settle = True\<rparr>, st')"
  | (known) a st' where "a \<noteq> Stored" "same_tables st' st"
      "write_down g msg st e m = (Inr (set_aside historic (refusal a)), st')"
  | (failed) st' where "same_tables st' st" "write_down g msg st e m = (Inr unsettled, st')"
  | (error) f st' where "same_tables st' st" "write_down g msg st e m = (Inl f, st')"
proof (cases "admit (in_digest g) (msg_now msg) (msg_write msg) st (entry_of e) (Some m)")
  case (Pair r st')
  show thesis
  proof (cases r)
    case (Inl f)
    with Pair admit_not_stored [OF Pair] failed [of st'] error [of st'] show thesis
      by (cases f) (simp_all add: write_down_def)
  next
    case (Inr a)
    show thesis
    proof (cases "a = Stored")
      case True
      with Inr Pair stored [of st'] show thesis by (simp add: write_down_def)
    next
      case False
      with Inr Pair admit_not_stored [OF Pair] known [of a st'] show thesis
        by (cases a) (simp_all add: write_down_def)
    qed
  qed
qed

text \<open>
  The four ways a message ends: set aside, put back because the journal failed, an error of the
  database that reaches the caller, or stored.
\<close>

definition stored_as ::
  "'doc door \<Rightarrow> 'doc message \<Rightarrow> store \<Rightarrow> normalized \<Rightarrow> mark \<Rightarrow> mark \<Rightarrow> store \<Rightarrow> bool" where
  "stored_as g msg st e m m' st' \<longleftrightarrow>
     (\<exists>v rec cls why.
        admissible g msg v rec \<and>
        position (msg_read msg) st (msg_node msg) (ev_source (env_event v))
          (ev_boot (env_event v)) = Inr m \<and>
        classify (in_limits g) (env_event v) (env_delivery v) m (msg_retained msg) (msg_now msg) =
          (cls, why, m') \<and>
        e = normalize g msg (on_node (msg_node msg) (ev_source (env_event v))) rec v cls why \<and>
        admit (in_digest g) (msg_now msg) (msg_write msg) st (entry_of e) (Some m') =
          (Inr Stored, st'))"

definition stored_receipt :: "normalized \<Rightarrow> receipt" where
  "stored_receipt e =
     \<lparr>rp_class = no_class e, rp_eligible = no_eligible e, rp_stored = True,
      rp_reason = no_reason e, rp_event = (if no_eligible e then Some e else None),
      rp_waited = Some (no_queued e), rp_settle = True\<rparr>"

lemma stored_receipt_simps [simp]:
  "rp_stored (stored_receipt e)" "rp_settle (stored_receipt e)"
  "rp_eligible (stored_receipt e) = no_eligible e"
  "rp_event (stored_receipt e) = (if no_eligible e then Some e else None)"
  "rp_reason (stored_receipt e) = no_reason e" "rp_class (stored_receipt e) = no_class e"
  by (simp_all add: stored_receipt_def)

lemma same_tables_refl [simp]: "same_tables st st"
  by (simp add: same_tables_def)

lemma accept_cases:
  obtains (aside) c w st' where
      "accept g st msg = (Inr (set_aside c w), st')" "same_tables st' st"
  | (failed) st' where "accept g st msg = (Inr unsettled, st')" "same_tables st' st"
  | (error) f st' where "accept g st msg = (Inl f, st')" "same_tables st' st"
  | (stored) e m m' st' where
      "accept g st msg = (Inr (stored_receipt e), st')" "stored_as g msg st e m m' st'"
proof (cases "\<exists>v rec. admissible g msg v rec")
  case False
  with accept_inadmissible [of g msg st] aside show thesis by auto
next
  case True
  then obtain v rec where adm: "admissible g msg v rec" by blast
  let ?p = "position (msg_read msg) st (msg_node msg) (ev_source (env_event v))
    (ev_boot (env_event v))"
  show thesis
  proof (cases ?p)
    case (Inl f)
    with accept_admissible [OF adm, of st] failed [of st] error [of _ st] show thesis
      by (cases f) simp_all
  next
    case (Inr m)
    obtain cls why m' where c: "classify (in_limits g) (env_event v) (env_delivery v) m
        (msg_retained msg) (msg_now msg) = (cls, why, m')"
      by (metis prod_cases3)
    let ?e = "normalize g msg (on_node (msg_node msg) (ev_source (env_event v))) rec v cls why"
    have acc: "accept g st msg = write_down g msg st ?e m'"
      using accept_admissible [OF adm, of st] Inr c by simp
    show thesis
    proof (cases rule: write_down_cases [where g = g and msg = msg and st = st and e = ?e and m = m'])
      case (stored st')
      have "stored_as g msg st ?e m m' st'"
        unfolding stored_as_def using adm Inr c stored(1) by blast
      moreover have "accept g st msg = (Inr (stored_receipt ?e), st')"
        using acc stored(2) by (simp only: stored_receipt_def)
      ultimately show thesis using that(4) by blast
    next
      case (known a st')
      with acc aside show thesis by simp
    next
      case (failed st')
      with acc that(2) show thesis by simp
    next
      case (error f st')
      with acc that(3) show thesis by simp
    qed
  qed
qed

lemma stored_as_facts:
  assumes "stored_as g msg st e m m' st'"
  shows "connected st" "msg_write msg = DiskOk" "entry_fits (entry_of e)"
    "(no_node e, no_event e) \<notin> id_key ` set (receipts st)"
    "(no_node e, no_boot e, no_source e, no_sequence e) \<notin> stream_key ` set (receipts st)"
    "receipts st' = receipts st @ [receipt_of (in_digest g) (entry_of e)]"
    "journal st' = journal st @ [\<lparr>jr_id = next_row st, jr_entry = entry_of e,
       jr_outcome = ''recorded''\<rparr>]"
    "no_node e = msg_node msg"
proof -
  from assms obtain v rec cls why where
    e: "e = normalize g msg (on_node (msg_node msg) (ev_source (env_event v))) rec v cls why" and
    adm: "admit (in_digest g) (msg_now msg) (msg_write msg) st (entry_of e) (Some m') =
      (Inr Stored, st')"
    by (auto simp: stored_as_def)
  note a = admit_stored [OF adm]
  show "connected st" "msg_write msg = DiskOk" "entry_fits (entry_of e)"
    "(no_node e, no_event e) \<notin> id_key ` set (receipts st)"
    "(no_node e, no_boot e, no_source e, no_sequence e) \<notin> stream_key ` set (receipts st)"
    using a by (simp_all add: entry_stream_def)
  show "receipts st' = receipts st @ [receipt_of (in_digest g) (entry_of e)]" using a by simp
  show "journal st' = journal st @ [\<lparr>jr_id = next_row st, jr_entry = entry_of e,
       jr_outcome = ''recorded''\<rparr>]" using a by (simp add: write_journal_def)
  show "no_node e = msg_node msg" using e by simp
qed

lemma admit_fails:
  "(\<exists>x. fst (admit digest now d st e m) = Inl (StoreUnavailable x)) \<longleftrightarrow>
     \<not> connected st \<or> (\<exists>x. d = DiskFails x)"
  by (auto simp: admit_def unavailable_def unwritten_def Let_def split: disk.splits option.splits)

lemma write_down_settles:
  assumes "write_down g msg st e m = (Inr r, st')"
  shows "rp_settle r \<longleftrightarrow> connected st \<and> (\<forall>x. msg_write msg \<noteq> DiskFails x)"
proof -
  let ?a = "admit (in_digest g) (msg_now msg) (msg_write msg) st (entry_of e) (Some m)"
  have "rp_settle r \<longleftrightarrow> (\<forall>x. fst ?a \<noteq> Inl (StoreUnavailable x))"
    using assms
    by (auto simp: write_down_def split: prod.splits sum.splits store_failure.splits admitted.splits)
  also have "\<dots> \<longleftrightarrow> connected st \<and> (\<forall>x. msg_write msg \<noteq> DiskFails x)"
    using admit_fails [of "in_digest g" "msg_now msg" "msg_write msg" st "entry_of e" "Some m"] by auto
  finally show ?thesis .
qed

lemma position_read: "position DiskOk st n s b = Inl f \<longleftrightarrow> \<not> connected st \<and> f = unavailable st"
  by (auto simp: position_def get_mark_def query_def split: option.splits)

lemma accept_settles:
  assumes "accept g st msg = (Inr r, st')" and "admissible g msg v rec" and "msg_read msg = DiskOk"
  shows "rp_settle r \<longleftrightarrow> connected st \<and> (\<forall>x. msg_write msg \<noteq> DiskFails x)"
proof (cases "connected st")
  case True
  then obtain m where
    "position (msg_read msg) st (msg_node msg) (ev_source (env_event v)) (ev_boot (env_event v)) = Inr m"
    using position_read assms(3) by (metis sum.exhaust)
  moreover obtain cls why m' where "classify (in_limits g) (env_event v) (env_delivery v) m
      (msg_retained msg) (msg_now msg) = (cls, why, m')"
    by (metis prod_cases3)
  ultimately have "accept g st msg = write_down g msg st (normalize g msg
      (on_node (msg_node msg) (ev_source (env_event v))) rec v cls why) m'"
    using accept_admissible [OF assms(2), of st] by simp
  with assms(1) show ?thesis by (intro write_down_settles) simp
next
  case False
  have "position (msg_read msg) st (msg_node msg) (ev_source (env_event v)) (ev_boot (env_event v))
      = Inl (unavailable st)"
    using False assms(3) position_read by metis
  with False accept_admissible [OF assms(2), of st] assms(1) show ?thesis
    by (auto simp: unavailable_def)
qed

text \<open>
  C12. What an answer means. An event is stored exactly when the receipts and the journal have
  each grown by its one row; otherwise no table has changed. An eligible event is a stored one
  that carries itself, without a reason. Of a message that may speak, the sender is told to keep
  its copy exactly when the journal was not open or could not be written.
\<close>

theorem accept_answers:
  assumes "accept g st msg = (Inr r, st')"
  shows "(if rp_stored r
      then \<exists>e. receipts st' = receipts st @ [receipt_of (in_digest g) e] \<and>
             map jr_entry (journal st') = map jr_entry (journal st) @ [e] \<and>
             en_node e = msg_node msg \<and> en_eligible e = rp_eligible r \<and>
             en_reason e = rp_reason r \<and> rp_settle r
      else same_tables st' st) \<and>
    (rp_eligible r \<longleftrightarrow> rp_event r \<noteq> None) \<and>
    (rp_eligible r \<longrightarrow> rp_stored r \<and> rp_reason r = None) \<and>
    (\<forall>v rec. admissible g msg v rec \<and> msg_read msg = DiskOk \<longrightarrow>
       (rp_settle r \<longleftrightarrow> connected st \<and> (\<forall>x. msg_write msg \<noteq> DiskFails x)))"
proof (intro conjI)
  show "\<forall>v rec. admissible g msg v rec \<and> msg_read msg = DiskOk \<longrightarrow>
       (rp_settle r \<longleftrightarrow> connected st \<and> (\<forall>x. msg_write msg \<noteq> DiskFails x))"
    using accept_settles [OF assms] by blast
next
  have "no_eligible e \<longleftrightarrow> no_reason e = None" if "stored_as g msg st e m m' st'" for e m m'
    using that by (auto simp: stored_as_def)
  then show "rp_eligible r \<longrightarrow> rp_stored r \<and> rp_reason r = None"
    using assms by (cases rule: accept_cases [of g st msg]) auto
next
  show "rp_eligible r \<longleftrightarrow> rp_event r \<noteq> None"
    using assms by (cases rule: accept_cases [of g st msg]) (auto split: if_splits)
next
  show "if rp_stored r
      then \<exists>e. receipts st' = receipts st @ [receipt_of (in_digest g) e] \<and>
             map jr_entry (journal st') = map jr_entry (journal st) @ [e] \<and>
             en_node e = msg_node msg \<and> en_eligible e = rp_eligible r \<and>
             en_reason e = rp_reason r \<and> rp_settle r
      else same_tables st' st"
  proof (cases rule: accept_cases [of g st msg])
    case (stored e m m' s2)
    with assms have "r = stored_receipt e" "s2 = st'" by auto
    with stored_as_facts [OF stored(2)] show ?thesis
      by (auto intro!: exI [of _ "entry_of e"])
  qed (use assms in auto)
qed

subsection \<open>At most once\<close>

definition eligible_event :: "store_failure + receipt \<Rightarrow> normalized option" where
  "eligible_event a = (case a of Inl _ \<Rightarrow> None | Inr r \<Rightarrow> rp_event r)"

definition eligible_events :: "(store_failure + receipt) list \<Rightarrow> normalized list" where
  "eligible_events as = List.map_filter eligible_event as"

definition event_key :: "normalized \<Rightarrow> string \<times> string" where
  "event_key e = (no_node e, no_event e)"

definition event_stream :: "normalized \<Rightarrow> string \<times> string \<times> string \<times> int" where
  "event_stream e = (no_node e, no_boot e, no_source e, no_sequence e)"

lemma eligible_stored:
  assumes "eligible_event (fst (accept g st msg)) = Some e"
  obtains m m' where "stored_as g msg st e m m' (snd (accept g st msg))" "no_eligible e"
    "fst (accept g st msg) = Inr (stored_receipt e)"
  using assms
  by (cases rule: accept_cases [of g st msg]) (auto simp: eligible_event_def split: if_splits)

lemma accept_receipts_grow: "set (receipts st) \<subseteq> set (receipts (snd (accept g st msg)))"
proof (cases rule: accept_cases [of g st msg])
  case (stored e m m' st')
  with stored_as_facts [OF stored(2)] show ?thesis by auto
qed (auto simp: same_tables_def)

lemma eligible_keys:
  assumes "eligible_event (fst (accept g st msg)) = Some e"
  shows "event_key e \<notin> id_key ` set (receipts st)" "event_stream e \<notin> stream_key ` set (receipts st)"
    "event_key e \<in> id_key ` set (receipts (snd (accept g st msg)))"
    "event_stream e \<in> stream_key ` set (receipts (snd (accept g st msg)))"
proof -
  obtain m m' where "stored_as g msg st e m m' (snd (accept g st msg))"
    using assms by (rule eligible_stored)
  from stored_as_facts [OF this]
  show "event_key e \<notin> id_key ` set (receipts st)" "event_stream e \<notin> stream_key ` set (receipts st)"
    "event_key e \<in> id_key ` set (receipts (snd (accept g st msg)))"
    "event_stream e \<in> stream_key ` set (receipts (snd (accept g st msg)))"
    by (auto simp: event_key_def event_stream_def entry_stream_def)
qed

interpretation door_ids: once_only "accept g" "\<lambda>st. id_key ` set (receipts st)"
  "\<lambda>a. map_option event_key (eligible_event a)" for g
proof (unfold_locales, goal_cases)
  case (1 st msg k)
  then show ?case by (auto dest: eligible_keys(1))
next
  case (2 st msg k)
  then show ?case by (auto dest: eligible_keys(3))
next
  case (3 st msg)
  then show ?case by (rule image_mono [OF accept_receipts_grow])
qed

interpretation door_streams: once_only "accept g" "\<lambda>st. stream_key ` set (receipts st)"
  "\<lambda>a. map_option event_stream (eligible_event a)" for g
proof (unfold_locales, goal_cases)
  case (1 st msg k)
  then show ?case by (auto dest: eligible_keys(2) simp del: split_paired_Ex)
next
  case (2 st msg k)
  then show ?case by (auto dest: eligible_keys(4) simp del: split_paired_Ex)
next
  case (3 st msg)
  then show ?case by (rule image_mono [OF accept_receipts_grow])
qed

lemma map_filter_option: "List.map_filter (\<lambda>a. map_option f (g a)) xs = map f (List.map_filter g xs)"
  by (induction xs) (auto simp: List.map_filter_simps split: option.splits)

text \<open>
  C5. Whatever a run of messages holds (retries, replays, copies that raced each other, failures
  of the disk), no event becomes eligible to reach a rule twice: neither under its identifier
  nor under its place in its source's stream, and never when an earlier receipt has either.
\<close>

theorem eligible_at_most_once:
  "distinct (map event_key (eligible_events (fst (run (accept g) st msgs)))) \<and>
   distinct (map event_stream (eligible_events (fst (run (accept g) st msgs)))) \<and>
   event_key ` set (eligible_events (fst (run (accept g) st msgs))) \<inter> id_key ` set (receipts st) = {}"
  using door_ids.run_once [of g st msgs] door_streams.run_once [of g st msgs]
    door_ids.run_fresh [of g st msgs]
  by (simp add: map_filter_option eligible_events_def)

subsection \<open>In order within a boot\<close>

lemma store_inv_same: "same_tables a b \<Longrightarrow> store_inv a = store_inv b"
  by (simp add: same_tables_def store_inv_def)

lemma store_inv_accept: "store_inv st \<Longrightarrow> store_inv (snd (accept g st msg))"
proof (cases rule: accept_cases [of g st msg])
  case (stored e m m' st')
  assume "store_inv st"
  with stored store_inv_admit [of st "in_digest g" "msg_now msg" "msg_write msg" "entry_of e" "Some m'"]
  show ?thesis by (auto simp: stored_as_def)
qed (auto simp: store_inv_same)

interpretation door: machine "accept g" store_inv for g
  by unfold_locales (rule store_inv_accept)

definition reached :: "string \<Rightarrow> string \<Rightarrow> string \<Rightarrow> store \<Rightarrow> int" where
  "reached n s b st =
     (case dict_get (marks st) (source_key n s) of
        None \<Rightarrow> -1
      | Some (m, _) \<Rightarrow> if mark_boot m = b then high_water m else -1)"

lemma source_key_inj:
  assumes "valid_name n" "valid_name n'"
  shows "source_key n s = source_key n' s' \<longleftrightarrow> n = n' \<and> s = s'"
proof
  assume k: "source_key n s = source_key n' s'"
  have "(n, Some s) = py_partition (CHR ''.'') (source_key n s)"
    using valid_name_no_dot [OF assms(1)] by (simp add: py_partition_some source_key_def)
  also have "\<dots> = (n', Some s')"
    unfolding k using valid_name_no_dot [OF assms(2)] by (simp add: py_partition_some source_key_def)
  finally show "n = n' \<and> s = s'" by simp
qed simp

lemma reached_marks: "marks st' = marks st \<Longrightarrow> reached n s b st' = reached n s b st"
  by (simp add: reached_def)

lemma get_mark_some: "get_mark d st n s = Inr x \<Longrightarrow> x = map_option fst (dict_get (marks st) (source_key n s))"
  by (auto simp: get_mark_def query_def split: if_splits disk.splits)

lemma position_some:
  assumes pos: "position d st n s b = Inr m" and inv: "store_inv st"
  shows "mark_boot m = b \<and> mark_key m = source_key n s \<and> high_water m = reached n s b st"
proof -
  from pos obtain x where x: "get_mark d st n s = Inr x"
    by (cases "get_mark d st n s") (auto simp: position_def)
  show ?thesis
  proof (cases "dict_get (marks st) (source_key n s)")
    case None
    with get_mark_some [OF x] x pos show ?thesis
      by (auto simp: position_def reached_def fresh_mark_def mark_key_def)
  next
    case (Some k)
    obtain known t where k: "k = (known, t)" by (cases k)
    with Some inv have "mark_key known = source_key n s" by (auto simp: store_inv_def)
    moreover have "m = (if mark_boot known \<noteq> b then fresh_mark n s b else known)"
      using get_mark_some [OF x] x pos Some k by (simp add: position_def)
    ultimately show ?thesis using Some k by (simp add: reached_def fresh_mark_def mark_key_def)
  qed
qed

lemma marks_write_mark:
  "dict_get (marks (write_mark now m s)) k =
     (if k = mark_key m
      then Some (case dict_get (marks s) (mark_key m) of
           None \<Rightarrow> (m, now)
         | Some (old, _) \<Rightarrow> (m\<lparr>mark_node := mark_node old, mark_source := mark_source old\<rparr>, now))
      else dict_get (marks s) k)"
  by (simp add: write_mark_def)

lemma reached_write_mark:
  "reached n s b (write_mark now m st) =
     (if source_key n s = mark_key m then (if mark_boot m = b then high_water m else -1)
      else reached n s b st)"
  by (auto simp: reached_def marks_write_mark split: option.splits)

text \<open>Every message that may speak for the source names the boot \<open>b\<close>.\<close>

definition within_boot ::
  "'doc door \<Rightarrow> string \<Rightarrow> string \<Rightarrow> string \<Rightarrow> 'doc message \<Rightarrow> bool" where
  "within_boot g n s b msg \<longleftrightarrow>
     (\<forall>v rec. admissible g msg v rec \<and> msg_node msg = n \<and> ev_source (env_event v) = s \<longrightarrow>
        ev_boot (env_event v) = b)"

lemma stored_reached:
  assumes st: "stored_as g msg st e m m' st'" and inv: "store_inv st" and n: "valid_name n"
    and w: "within_boot g n s b msg"
  shows "reached n s b st \<le> reached n s b st' \<and>
    (no_node e = n \<and> no_source e = s \<and> no_eligible e \<longrightarrow>
       reached n s b st < no_sequence e \<and> no_sequence e \<le> reached n s b st')"
proof -
  from st obtain v rec cls why where
    adm: "admissible g msg v rec" and
    pos: "position (msg_read msg) st (msg_node msg) (ev_source (env_event v))
      (ev_boot (env_event v)) = Inr m" and
    cl: "classify (in_limits g) (env_event v) (env_delivery v) m (msg_retained msg) (msg_now msg) =
      (cls, why, m')" and
    e: "e = normalize g msg (on_node (msg_node msg) (ev_source (env_event v))) rec v cls why" and
    a: "admit (in_digest g) (msg_now msg) (msg_write msg) st (entry_of e) (Some m') = (Inr Stored, st')"
    unfolding stored_as_def by blast
  note p = position_some [OF pos inv]
  have m': "mark_key m' = source_key (msg_node msg) (ev_source (env_event v))"
    "mark_boot m' = ev_boot (env_event v)"
    using p classify_mark [of "in_limits g" "env_event v" "env_delivery v" m "msg_retained msg" "msg_now msg"]
    by (simp_all add: cl mark_key_def)
  have "marks (write_journal (entry_of e)
      (st\<lparr>receipts := receipts st @ [receipt_of (in_digest g) (entry_of e)]\<rparr>)) = marks st" by simp
  from reached_marks [OF this]
  have re: "reached n s b st' = (if source_key n s = mark_key m'
      then (if mark_boot m' = b then high_water m' else -1) else reached n s b st)"
    using admit_stored [OF a] by (simp add: reached_write_mark)
  have vn: "valid_name (msg_node msg)"
    using adm model_validate_ok [of "in_decode g" "msg_doc msg" v]
    by (auto simp: admissible_def envelope_ok_def event_ok_def)
  show ?thesis
  proof (cases "msg_node msg = n \<and> ev_source (env_event v) = s")
    case True
    with w adm have b: "ev_boot (env_event v) = b" by (auto simp: within_boot_def)
    have ahead: "high_water m \<le> high_water m' \<and>
        (\<not> msg_retained msg \<longrightarrow> ev_sequence (env_event v) \<le> high_water m')"
      using classify_ahead [of m "in_limits g" "env_event v" "env_delivery v" "msg_retained msg" "msg_now msg"]
      unfolding cl snd_conv .
    have "why = None \<longrightarrow> \<not> msg_retained msg \<and> high_water m < ev_sequence (env_event v)"
      using classify_live [of "in_limits g" "env_event v" "env_delivery v" m "msg_retained msg" "msg_now msg"]
      unfolding cl snd_conv fst_conv by blast
    with ahead have "no_eligible e \<longrightarrow> high_water m < no_sequence e \<and> no_sequence e \<le> high_water m'"
      by (simp add: e)
    moreover from ahead have "high_water m \<le> high_water m'" by simp
    ultimately show ?thesis using True b p m' re by simp
  next
    case False
    then have "source_key n s \<noteq> mark_key m'" using source_key_inj [OF n vn] m' by auto
    with re False e show ?thesis by auto
  qed
qed

definition rank_for :: "string \<Rightarrow> string \<Rightarrow> store_failure + receipt \<Rightarrow> int option" where
  "rank_for n s a =
     (case eligible_event a of
        None \<Rightarrow> None
      | Some e \<Rightarrow> if no_node e = n \<and> no_source e = s then Some (no_sequence e) else None)"

lemma accept_reached:
  assumes "store_inv st" "valid_name n" "within_boot g n s b msg"
  shows "reached n s b st \<le> reached n s b (snd (accept g st msg))"
    "rank_for n s (fst (accept g st msg)) = Some r \<Longrightarrow>
       reached n s b st < r \<and> r \<le> reached n s b (snd (accept g st msg))"
proof -
  have same: "reached n s b st' = reached n s b st" if "same_tables st' st" for st'
    using that by (intro reached_marks) (simp add: same_tables_def)
  show "reached n s b st \<le> reached n s b (snd (accept g st msg))"
  proof (cases rule: accept_cases [of g st msg])
    case (stored e m m' st')
    with stored_reached [OF stored(2) assms] show ?thesis by simp
  next
    case (aside c w st')
    show ?thesis unfolding aside(1) snd_conv same [OF aside(2)] by (rule order.refl)
  next
    case (failed st')
    show ?thesis unfolding failed(1) snd_conv same [OF failed(2)] by (rule order.refl)
  next
    case (error f st')
    show ?thesis unfolding error(1) snd_conv same [OF error(2)] by (rule order.refl)
  qed
  show "reached n s b st < r \<and> r \<le> reached n s b (snd (accept g st msg))"
    if "rank_for n s (fst (accept g st msg)) = Some r"
  proof -
    from that obtain e where e: "eligible_event (fst (accept g st msg)) = Some e"
      "no_node e = n" "no_source e = s" "r = no_sequence e"
      by (auto simp: rank_for_def split: option.splits if_splits)
    obtain m m' where "stored_as g msg st e m m' (snd (accept g st msg))" "no_eligible e"
      using e(1) by (rule eligible_stored)
    with stored_reached [OF this(1) assms] e show ?thesis by simp
  qed
qed

interpretation eligible_ranks: rising "accept g" "\<lambda>st. store_inv st \<and> valid_name n"
  "within_boot g n s b" "reached n s b" "rank_for n s" for g n s b
proof (unfold_locales, goal_cases)
  case (1 st msg)
  then show ?case by (simp add: store_inv_accept)
next
  case (2 st msg)
  then show ?case by (simp add: accept_reached)
next
  case (3 st msg r)
  then show ?case using accept_reached by blast
qed

text \<open>
  C10. Within one boot of a node, the events of one source that become eligible come in the order
  the source counted them, however the messages arrived: their sequence numbers rise strictly.
\<close>

theorem eligible_in_order:
  assumes "store_inv st" and "valid_name n" and "\<forall>msg \<in> set msgs. within_boot g n s b msg"
  shows "sorted_wrt (<) (map no_sequence
    (filter (\<lambda>e. no_node e = n \<and> no_source e = s) (eligible_events (fst (run (accept g) st msgs)))))"
proof -
  have "map no_sequence (filter (\<lambda>e. no_node e = n \<and> no_source e = s) (eligible_events as)) =
      List.map_filter (rank_for n s) as" for as
    by (induction as)
      (auto simp: eligible_events_def List.map_filter_simps rank_for_def split: option.splits)
  with eligible_ranks.run_strictly_rising [where s = st and es = msgs] assms show ?thesis by simp
qed

text \<open>A node with one sensor, and the messages it sends after starting.\<close>

definition sample_event :: "string \<Rightarrow> string \<Rightarrow> nat \<Rightarrow> int \<Rightarrow> satellite_event" where
  "sample_event i b q t =
     \<lparr>ev_id = i, ev_node = ''hall'', ev_source = ''pir'', ev_boot = b, ev_sequence = int q,
      ev_kind = ''sensor.motion'', ev_occurred = \<lparr>mom_us = t * 1000000, mom_offset = 0\<rparr>,
      ev_clock = Synced, ev_value = JBool True, ev_unit = None, ev_quality = Valid\<rparr>"

definition sample_message :: "bool \<Rightarrow> seconds \<Rightarrow> satellite_event \<Rightarrow> envelope message" where
  "sample_message replayed now e =
     \<lparr>msg_node = ''hall'',
      msg_doc = \<lparr>env_version = 1, env_event = e,
                 env_delivery = \<lparr>dl_connection = ''c'', dl_epoch = 1, dl_grant = None,
                   dl_queued = 0, dl_replayed = replayed, dl_initial = False\<rparr>\<rparr>,
      msg_retained = False, msg_now = now, msg_mono = now, msg_read = DiskOk, msg_write = DiskOk\<rparr>"

definition sample_source :: source_record where
  "sample_source =
     \<lparr>rec_ref = on_node ''hall'' ''pir'', rec_kind = Sensor, display_name = ''Hall'',
      rec_zone = None, rec_origin = Satellite, rec_state = Ready, address = JNull,
      rec_unit = None\<rparr>"

definition sample_door :: "limits \<Rightarrow> envelope door" where
  "sample_door l =
     \<lparr>in_decode = Some, in_digest = (\<lambda>b. ''digest''),
      in_sources = [(source_key ''hall'' ''pir'', sample_source)], in_limits = l,
      in_zone_of = (\<lambda>n. None)\<rparr>"

lemma sample_admissible:
  "admissible (sample_door l) (sample_message r now (sample_event i b q t))
     \<lparr>env_version = 1, env_event = sample_event i b q t,
      env_delivery = \<lparr>dl_connection = ''c'', dl_epoch = 1, dl_grant = None, dl_queued = 0,
        dl_replayed = r, dl_initial = False\<rparr>\<rparr> sample_source"
  by (simp add: admissible_def sample_door_def sample_message_def sample_event_def
      sample_source_def model_validate_def envelope_ok_def event_ok_def delivery_ok_def
      valid_name_def valid_kind_def py_partition_def lower_def digits_def reg_get_def)

lemmas sample_accept = accept_admissible [OF sample_admissible]

lemmas sample_run =
  position_def get_mark_def query_def fresh_mark_def
  classify_def clock_bad_def age_of_def timestamp_def Let_def write_down_def admit_def
  write_journal_def write_mark_def receipt_of_def id_key_def stream_key_def entry_stream_def
  normalize_def no_node_def no_source_def entry_of_def on_node_def mark_key_def source_key_def
  set_aside_def sample_door_def sample_message_def sample_event_def new_store_def
  fingerprint_def event_body_def entry_fits_def sqlite_int_def

lemma sample_within: "within_boot (sample_door l) ''hall'' ''pir'' b (sample_message r now (sample_event i b q t))"
  by (auto simp: within_boot_def admissible_def sample_message_def sample_event_def sample_door_def
      model_validate_def split: if_splits)

definition two_events :: "envelope message list" where
  "two_events =
     [sample_message False 100 (sample_event ''a'' ''b'' 1 100),
      sample_message False 101 (sample_event ''b'' ''b'' 2 101)]"

lemma eligible_in_order_witness:
  "sorted_wrt (<) (map no_sequence (filter (\<lambda>e. no_node e = ''hall'' \<and> no_source e = ''pir'')
     (eligible_events (fst (run (accept (sample_door default_limits)) (new_store None) two_events))))) \<and>
   map no_sequence
     (eligible_events (fst (run (accept (sample_door default_limits)) (new_store None) two_events)))
   = [1, 2]"
proof
  have "valid_name ''hall''" by (simp add: valid_name_def lower_def digits_def)
  moreover have "\<forall>msg \<in> set two_events.
      within_boot (sample_door default_limits) ''hall'' ''pir'' ''b'' msg"
    by (simp add: two_events_def sample_within)
  ultimately show "sorted_wrt (<) (map no_sequence
      (filter (\<lambda>e. no_node e = ''hall'' \<and> no_source e = ''pir'')
     (eligible_events (fst (run (accept (sample_door default_limits)) (new_store None) two_events)))))"
    by (intro eligible_in_order store_inv_new)
  show "map no_sequence
     (eligible_events (fst (run (accept (sample_door default_limits)) (new_store None) two_events)))
   = [1, 2]"
    unfolding two_events_def
    by (simp only: run.simps sample_accept)
      (simp add: sample_run default_limits_def eligible_events_def eligible_event_def
        List.map_filter_simps)
qed

lemma accept_answers_witness:
  "case accept (sample_door default_limits) (new_store None)
      (sample_message True 100 (sample_event ''a'' ''b'' 1 100)) of
     (Inl _, _) \<Rightarrow> False
   | (Inr r, st') \<Rightarrow>
       rp_stored r \<and> \<not> rp_eligible r \<and> rp_reason r = Some ''replayed'' \<and>
       length (receipts st') = 1"
proof -
  obtain r st' where a: "accept (sample_door default_limits) (new_store None)
      (sample_message True 100 (sample_event ''a'' ''b'' 1 100)) = (Inr r, st')"
    "rp_stored r" "rp_reason r = Some ''replayed''"
    by (simp only: sample_accept) (simp add: sample_run default_limits_def)
  from accept_answers [OF a(1)] a show ?thesis by (auto simp: new_store_def)
qed

subsection \<open>Exactly when\<close>

text \<open>
  C11. An event becomes eligible exactly when everything speaks for it: the document is sound
  and names the node it came from, the source is registered and not disabled, it is neither
  retained nor a snapshot nor a replay, its clock is synchronised and neither ahead of the hub
  by more than the tolerance nor older than the window, its source is not under suspicion, it
  comes after everything the source has sent in this boot, its numbers fit the columns, no
  receipt has its identifier or its place in the stream, and it was written down.
\<close>

theorem eligible_exactly_when:
  "(\<exists>e. eligible_event (fst (accept g st msg)) = Some e) \<longleftrightarrow>
     (\<exists>v rec m. admissible g msg v rec \<and>
        position (msg_read msg) st (msg_node msg) (ev_source (env_event v))
          (ev_boot (env_event v)) = Inr m \<and>
        \<not> msg_retained msg \<and> \<not> dl_initial (env_delivery v) \<and> \<not> dl_replayed (env_delivery v) \<and>
        ev_clock (env_event v) = Synced \<and>
        - of_int (future_tolerance (in_limits g)) \<le> age_of (msg_now msg) (env_event v) \<and>
        age_of (msg_now msg) (env_event v) \<le> of_int (accept_within (in_limits g)) \<and>
        mark_time m = TimeOk \<and> high_water m < ev_sequence (env_event v) \<and>
        connected st \<and> msg_write msg = DiskOk \<and> sqlite_int (ev_sequence (env_event v)) \<and>
        sqlite_int (dl_queued (env_delivery v)) \<and> sqlite_int (dl_epoch (env_delivery v)) \<and>
        (msg_node msg, ev_id (env_event v)) \<notin> id_key ` set (receipts st) \<and>
        (msg_node msg, ev_boot (env_event v), ev_source (env_event v), ev_sequence (env_event v))
          \<notin> stream_key ` set (receipts st))" (is "?left \<longleftrightarrow> (\<exists>v rec m. ?right v rec m)")
proof
  assume ?left
  then obtain e where "eligible_event (fst (accept g st msg)) = Some e" by blast
  then obtain m m' where s: "stored_as g msg st e m m' (snd (accept g st msg))" "no_eligible e"
    by (rule eligible_stored)
  from s(1) obtain v rec cls why where
    adm: "admissible g msg v rec" and
    pos: "position (msg_read msg) st (msg_node msg) (ev_source (env_event v))
      (ev_boot (env_event v)) = Inr m" and
    cl: "classify (in_limits g) (env_event v) (env_delivery v) m (msg_retained msg) (msg_now msg) =
      (cls, why, m')" and
    e: "e = normalize g msg (on_node (msg_node msg) (ev_source (env_event v))) rec v cls why"
    unfolding stored_as_def by blast
  from e s(2) have "why = None" by simp
  with classify_live [of "in_limits g" "env_event v" "env_delivery v" m "msg_retained msg" "msg_now msg"]
  have "?right v rec m"
    unfolding cl using stored_as_facts [OF s(1)] adm pos e by (simp add: entry_fits_def)
  then show "\<exists>v rec m. ?right v rec m" by blast
next
  assume "\<exists>v rec m. ?right v rec m"
  then obtain v rec m where r: "?right v rec m" by blast
  obtain cls why m' where c: "classify (in_limits g) (env_event v) (env_delivery v) m
      (msg_retained msg) (msg_now msg) = (cls, why, m')"
    by (metis prod_cases3)
  have why: "why = None"
    using r classify_live [of "in_limits g" "env_event v" "env_delivery v" m "msg_retained msg" "msg_now msg"]
    unfolding c by simp
  let ?e = "normalize g msg (on_node (msg_node msg) (ev_source (env_event v))) rec v cls why"
  have "fst (admit (in_digest g) (msg_now msg) DiskOk st (entry_of ?e) (Some m')) = Inr Stored"
  proof (intro admit_fresh)
    have "high_water m' = max (high_water m) (ev_sequence (env_event v))"
      using r arg_cong [OF c, of "\<lambda>x. high_water (snd (snd x))"]
      by (simp add: classify_def Let_def split: if_splits)
    with r show "pred_option (\<lambda>mk. sqlite_int (high_water mk)) (Some m')" by simp
  qed (use r in \<open>simp_all add: entry_stream_def entry_fits_def\<close>)
  then have "fst (accept g st msg) = Inr (stored_receipt ?e)"
    using accept_admissible [of g msg v rec st] r c
    by (auto simp: write_down_def stored_receipt_def split: prod.splits)
  with why show ?left by (simp add: eligible_event_def)
qed

subsection \<open>How long a receipt is needed\<close>

text \<open>
  When receipts are forgotten after \<open>dedup_days\<close>, one that could still be needed is kept if
  the replay window and the tolerance for clocks that are ahead fit into that time together.
\<close>

lemma receipt_outlives_window:
  assumes then_ok: "- of_int (future_tolerance l) \<le> age_of t0 e"
    and now_ok: "age_of now e \<le> of_int (accept_within l)"
    and fits: "accept_within l + future_tolerance l \<le> dedup_days l * 86400"
  shows "now - of_int (dedup_days l) * 86400 \<le> t0"
proof -
  have "now - t0 \<le> of_int (accept_within l) + of_int (future_tolerance l)"
    using then_ok now_ok by (simp add: age_of_def)
  also have "\<dots> \<le> of_int (dedup_days l * 86400)" using fits by (simp flip: of_int_add)
  finally show ?thesis by simp
qed

text \<open>
  The settings the validators accept do not imply that. With a window of a day, receipts kept
  for a day and a clock that ran within the tolerance of five minutes ahead, an event is acted
  on a second time: the node has restarted in between, so its position starts again, and the
  receipt was forgotten while the event was still young enough to be taken as live.
\<close>

definition wide_limits :: limits where
  "wide_limits = default_limits\<lparr>accept_within := 86400, future_tolerance := 300, dedup_days := 1\<rparr>"

definition day_later :: "store \<Rightarrow> store" where
  "day_later st = snd (forget_receipts 86401 DiskOk st (of_int (dedup_days wide_limits) * 86400))"

definition ahead_event :: "envelope message list" where
  "ahead_event = [sample_message False 0 (sample_event ''a'' ''old'' 1 300)]"

definition again :: "envelope message list" where
  "again =
     [sample_message False 86402 (sample_event ''n'' ''new'' 1 86402),
      sample_message False 86402 (sample_event ''a'' ''old'' 1 300)]"

lemma receipts_forgotten_too_soon:
  "limits_ok wide_limits \<and>
   (let (first, st) = run (accept (sample_door wide_limits)) (new_store None) ahead_event;
        second = fst (run (accept (sample_door wide_limits)) (day_later st) again)
    in map event_key (eligible_events first) = [(''hall'', ''a'')] \<and>
       map event_key (eligible_events second) = [(''hall'', ''n''), (''hall'', ''a'')])"
  unfolding ahead_event_def again_def
  by (simp only: run.simps sample_accept day_later_def)
    (simp add: sample_run wide_limits_def default_limits_def limits_ok_def forget_receipts_def
      eligible_events_def eligible_event_def List.map_filter_simps event_key_def)

subsection \<open>Numbers that do not fit\<close>

text \<open>
  C21. The envelope puts no upper bound on the sequence number, and SQLite has one. A well-formed
  event of a registered source whose number is beyond it is neither stored nor answered: the
  error is not the one the door catches, so no receipt comes back and the message is never
  acknowledged.
\<close>

theorem number_too_large_is_never_answered:
  assumes "admissible g msg v rec" and "connected st" and "msg_read msg = DiskOk"
    and "msg_write msg = DiskOk" and "(msg_node msg, ev_id (env_event v)) \<notin> id_key ` set (receipts st)"
    and "2 ^ 63 \<le> ev_sequence (env_event v)"
  shows "accept g st msg = (Inl IntegerOverflow, st)"
proof -
  obtain m where m: "position (msg_read msg) st (msg_node msg) (ev_source (env_event v))
      (ev_boot (env_event v)) = Inr m"
    using position_read assms(2,3) by (metis sum.exhaust)
  obtain cls why m' where c: "classify (in_limits g) (env_event v) (env_delivery v) m
      (msg_retained msg) (msg_now msg) = (cls, why, m')"
    by (metis prod_cases3)
  let ?e = "normalize g msg (on_node (msg_node msg) (ev_source (env_event v))) rec v cls why"
  have "\<not> sqlite_int (ev_sequence (env_event v))" using assms(6) by (simp add: sqlite_int_def)
  then have "admit (in_digest g) (msg_now msg) DiskOk st (entry_of ?e) (Some m') =
      (Inl IntegerOverflow, st)"
    using assms(2) find_none [OF assms(5)] by (simp add: admit_def)
  with accept_admissible [OF assms(1), of st] m c assms(4) show ?thesis
    by (simp add: write_down_def)
qed

lemma number_too_large_is_never_answered_witness:
  "accept (sample_door default_limits) (new_store None)
     (sample_message False 100 (sample_event ''a'' ''b'' (2 ^ 63) 100)) =
   (Inl IntegerOverflow, new_store None)"
  by (rule number_too_large_is_never_answered [OF sample_admissible])
    (simp_all add: new_store_def sample_message_def sample_event_def)

end
