(* ===== verification/Platforms.thy ===== *)
theory Platforms
  imports Prelude
begin

section \<open>Kinds of satellite\<close>

text \<open>
  \<open>src/sentry_mode/satellites/platforms.py\<close>: the catalogue of machines and the check of a
  configuration against the kind a node is registered as. A complaint keeps what its sentence
  is about instead of the sentence; an option's value is a scalar of JSON. The size of the
  configuration as compact JSON is the parameter \<open>size_of\<close>.
\<close>

record platform =
  pf_name :: string
  architecture :: string
  drivers :: "string list"
  max_sources :: nat
  max_config_bytes :: nat
  streams :: "string list"
  manual_tests :: bool
  experimental :: bool
  board_fields :: "string list"

definition linux_agent :: platform where
  "linux_agent =
     \<lparr>pf_name = ''linux-agent'', architecture = ''linux'',
      drivers = [''gpio'', ''onewire'', ''bme280'', ''adc'', ''csi'', ''microphone'', ''ble'',
                 ''board'', ''dummy''],
      max_sources = 32, max_config_bytes = 65536, streams = [''video'', ''audio''],
      manual_tests = True, experimental = False,
      board_fields = [''uptime_seconds'', ''temperature_c'', ''load1'',
                      ''memory_available_kb'', ''throttled'']\<rparr>"

definition pico_w :: platform where
  "pico_w =
     \<lparr>pf_name = ''pico-w-sensor'', architecture = ''rp2040'',
      drivers = [''gpio'', ''onewire'', ''adc'', ''ble'', ''microphone'', ''board''],
      max_sources = 8, max_config_bytes = 2048, streams = [''audio''],
      manual_tests = False, experimental = True,
      board_fields = [''uptime_seconds'', ''temperature_c'', ''memory_available_kb'', ''reset'']\<rparr>"

definition pico_2w :: platform where
  "pico_2w = pico_w\<lparr>pf_name := ''pico-2w-sensor'', architecture := ''rp2350''\<rparr>"

definition pico_wired :: platform where
  "pico_wired =
     pico_w\<lparr>pf_name := ''pico-wired'',
            drivers := [''gpio'', ''onewire'', ''adc'', ''microphone'', ''board''],
            streams := []\<rparr>"

definition pico_2_wired :: platform where
  "pico_2_wired = pico_wired\<lparr>pf_name := ''pico-2-wired'', architecture := ''rp2350''\<rparr>"

definition catalogue :: "(string, platform) dict" where
  "catalogue =
     map (\<lambda>p. (pf_name p, p)) [linux_agent, pico_w, pico_2w, pico_wired, pico_2_wired]"

definition platform_default :: string where
  "platform_default = pf_name linux_agent"

definition platform_named :: "string option \<Rightarrow> platform" where
  "platform_named n =
     (case n of
        None \<Rightarrow> linux_agent
      | Some k \<Rightarrow> (case dict_get catalogue k of None \<Rightarrow> linux_agent | Some p \<Rightarrow> p))"

definition known_platform :: "string \<Rightarrow> bool" where
  "known_platform n \<longleftrightarrow> dict_get catalogue n \<noteq> None"

definition max_firmware_options :: nat where "max_firmware_options = 8"

text \<open>What each driver of the firmware cannot start without, and what it has a place for.\<close>

definition firmware_options :: "(string, string list \<times> string list) dict" where
  "firmware_options =
     [(''board'', [], [''measure'', ''interval_seconds'']),
      (''gpio'', [''pin''],
        [''pin'', ''active_high'', ''bias'', ''debounce_ms'', ''settle_seconds'', ''event_kind'']),
      (''adc'', [''pin''], [''pin'', ''output'', ''event_kind'', ''interval_seconds'']),
      (''onewire'', [''pin''], [''pin'', ''device'', ''event_kind'', ''interval_seconds'']),
      (''ble'', [],
        [''address'', ''ibeacon_uuid'', ''ibeacon_major'', ''ibeacon_minor'', ''rssi_min'',
         ''enter_sightings'', ''enter_window_seconds'', ''absent_after_seconds'', ''event_kind'']),
      (''microphone'', [''pin'', ''clock_pin''],
        [''pin'', ''clock_pin'', ''channel'', ''activity_threshold_dbfs'',
         ''activity_min_seconds'', ''activity_hold_seconds'', ''event_kind''])]"

definition linux_only_options :: "string list" where
  "linux_only_options =
     [''device'', ''path'', ''command'', ''alsa_device'', ''video_device'', ''process'']"

fun looks_like_a_linux_thing :: "json_value \<Rightarrow> bool" where
  "looks_like_a_linux_thing (JStr v) =
     (take 1 v = ''/'' \<or> take 3 v = ''hw:'' \<or>
      (\<exists>i \<in> {..<length v}. take 5 (drop i v) = ''/dev/''))"
| "looks_like_a_linux_thing _ = False"

type_synonym config_entry = "(string, json_value) dict"

datatype complaint =
  TooManySources nat
| NoDriver json_value json_value
| TooManyOptions json_value nat
| Needs json_value string
| SecondMicrophone json_value json_value
| NotOneDevice json_value bool
| BeaconPartsOfAddress json_value
| NoFilesystem json_value string
| NoSuchOption json_value string
| TooLarge nat

fun truthy :: "json_value \<Rightarrow> bool" where
  "truthy JNull = False"
| "truthy (JBool b) = b"
| "truthy (JInt i) = (i \<noteq> 0)"
| "truthy (JFloat q) = (q \<noteq> 0)"
| "truthy (JStr s) = (s \<noteq> '''')"

definition given :: "config_entry \<Rightarrow> string \<Rightarrow> bool" where
  "given e k \<longleftrightarrow> (case dict_get e k of None \<Rightarrow> False | Some v \<Rightarrow> v \<noteq> JNull)"

definition entry_name :: "config_entry \<Rightarrow> json_value" where
  "entry_name e = (case dict_get e ''id'' of None \<Rightarrow> JStr ''a source'' | Some v \<Rightarrow> v)"

definition entry_kind :: "config_entry \<Rightarrow> json_value" where
  "entry_kind e = (case dict_get e ''kind'' of None \<Rightarrow> JNull | Some v \<Rightarrow> v)"

definition driver_in :: "json_value \<Rightarrow> string list \<Rightarrow> bool" where
  "driver_in k ds \<longleftrightarrow> (case k of JStr s \<Rightarrow> s \<in> set ds | _ \<Rightarrow> False)"

definition options_of :: "json_value \<Rightarrow> (string list \<times> string list) option" where
  "options_of k = (case k of JStr s \<Rightarrow> dict_get firmware_options s | _ \<Rightarrow> None)"

definition carried :: "config_entry \<Rightarrow> string list" where
  "carried e = filter (\<lambda>k. k \<notin> {''id'', ''kind''}) (map fst e)"

definition listens :: "config_entry \<Rightarrow> bool" where
  "listens e \<longleftrightarrow>
     entry_kind e = JStr ''microphone'' \<and>
     (case dict_get e ''enabled'' of None \<Rightarrow> True | Some v \<Rightarrow> truthy v)"

definition ble_named :: "config_entry \<Rightarrow> string list" where
  "ble_named e = filter (given e) [''address'', ''ibeacon_uuid'']"

definition every_source :: "string list" where
  "every_source = [''id'', ''kind'', ''enabled'']"

definition option_complaints :: "config_entry \<Rightarrow> complaint list" where
  "option_complaints e =
     (let name = entry_name e; kind = entry_kind e;
          known = (case options_of kind of None \<Rightarrow> [] | Some (_, k) \<Rightarrow> k)
      in List.map_filter
           (\<lambda>(opt, v).
              if opt \<in> set every_source \<or> opt \<in> set known then None
              else if opt \<in> set linux_only_options \<or> looks_like_a_linux_thing v
              then Some (NoFilesystem name opt)
              else if options_of kind \<noteq> None then Some (NoSuchOption name opt)
              else None)
           e)"

text \<open>One entry: the complaints about it, and the microphone that is listening after it.\<close>

definition check_entry ::
  "platform \<Rightarrow> json_value option \<Rightarrow> config_entry \<Rightarrow> complaint list \<times> json_value option" where
  "check_entry p listening e =
     (let name = entry_name e; kind = entry_kind e;
          driver = (if driver_in kind (drivers p) then [] else [NoDriver name kind])
      in if architecture p = ''linux'' then (driver, listening)
         else
           (let needed = (case options_of kind of None \<Rightarrow> [] | Some (n, _) \<Rightarrow> n);
                crowded = (if length (carried e) > max_firmware_options
                           then [TooManyOptions name (length (carried e))] else []);
                missing = map (Needs name) (filter (\<lambda>k. \<not> given e k) needed);
                mic = (if listens e
                       then (case listening of None \<Rightarrow> [] | Some l \<Rightarrow> [SecondMicrophone name l])
                       else []);
                ble = (if kind = JStr ''ble''
                       then (if length (ble_named e) \<noteq> 1
                             then [NotOneDevice name (ble_named e \<noteq> [])] else []) @
                            (if ''address'' \<in> set (ble_named e) \<and>
                                (given e ''ibeacon_major'' \<or> given e ''ibeacon_minor'')
                             then [BeaconPartsOfAddress name] else [])
                       else [])
            in (driver @ crowded @ missing @ mic @ ble @ option_complaints e,
                if listens e then Some name else listening)))"

fun check_entries :: "platform \<Rightarrow> json_value option \<Rightarrow> config_entry list \<Rightarrow> complaint list" where
  "check_entries p listening [] = []"
| "check_entries p listening (e # es) =
     fst (check_entry p listening e) @ check_entries p (snd (check_entry p listening e)) es"

definition check_configuration ::
  "(config_entry list \<Rightarrow> nat) \<Rightarrow> platform \<Rightarrow> config_entry list \<Rightarrow> complaint list" where
  "check_configuration size_of p es =
     (if length es > max_sources p then [TooManySources (length es)] else []) @
     check_entries p None es @
     (if size_of es > max_config_bytes p then [TooLarge (size_of es)] else [])"

definition visible_board :: "platform \<Rightarrow> (string, json_value) dict \<Rightarrow> (string, json_value) dict" where
  "visible_board p b = filter (\<lambda>kv. fst kv \<in> set (board_fields p)) b"

subsection \<open>What an accepted configuration is\<close>

definition firmware_ok :: "config_entry \<Rightarrow> bool" where
  "firmware_ok e \<longleftrightarrow>
     length (carried e) \<le> max_firmware_options \<and>
     (case options_of (entry_kind e) of
        None \<Rightarrow> (\<forall>(k, v) \<in> set e. k \<in> set every_source \<or>
          k \<notin> set linux_only_options \<and> \<not> looks_like_a_linux_thing v)
      | Some (needed, known) \<Rightarrow>
          list_all (given e) needed \<and>
          (\<forall>k \<in> set (map fst e). k \<in> set every_source \<or> k \<in> set known)) \<and>
     (entry_kind e = JStr ''ble'' \<longrightarrow>
        given e ''address'' \<noteq> given e ''ibeacon_uuid'' \<and>
        (given e ''address'' \<longrightarrow> \<not> given e ''ibeacon_major'' \<and> \<not> given e ''ibeacon_minor''))"

lemma map_filter_empty: "List.map_filter f xs = [] \<longleftrightarrow> (\<forall>x \<in> set xs. f x = None)"
  by (induction xs) (auto simp: List.map_filter_simps split: option.splits)

lemma option_complaints_empty:
  "option_complaints e = [] \<longleftrightarrow>
     (case options_of (entry_kind e) of
        None \<Rightarrow> (\<forall>(k, v) \<in> set e. k \<in> set every_source \<or>
          k \<notin> set linux_only_options \<and> \<not> looks_like_a_linux_thing v)
      | Some (needed, known) \<Rightarrow>
          (\<forall>k \<in> set (map fst e). k \<in> set every_source \<or> k \<in> set known))"
proof (cases "options_of (entry_kind e)")
  case None
  then show ?thesis
    unfolding option_complaints_def map_filter_empty Let_def by (auto split: if_splits)
next
  case (Some nk)
  obtain n k where "nk = (n, k)" by (cases nk)
  with Some show ?thesis
    unfolding option_complaints_def map_filter_empty Let_def by (force split: if_splits)
qed

lemma check_entry_linux:
  "architecture p = ''linux'' \<Longrightarrow> check_entry p l e =
     (if driver_in (entry_kind e) (drivers p) then [] else [NoDriver (entry_name e) (entry_kind e)], l)"
  by (simp add: check_entry_def)

lemma ble_named_single: "length (ble_named e) = 1 \<longleftrightarrow> given e ''address'' \<noteq> given e ''ibeacon_uuid''"
  by (simp add: ble_named_def)

lemma ble_named_address: "''address'' \<in> set (ble_named e) \<longleftrightarrow> given e ''address''"
  by (simp add: ble_named_def)

lemma missing_empty: "filter (\<lambda>k. \<not> P k) xs = [] \<longleftrightarrow> list_all P xs"
  by (simp add: filter_empty_conv list_all_iff)

lemma check_entry_board:
  assumes "architecture p \<noteq> ''linux''"
  shows "fst (check_entry p l e) = [] \<longleftrightarrow>
    driver_in (entry_kind e) (drivers p) \<and> firmware_ok e \<and> (listens e \<longrightarrow> l = None)"
    "snd (check_entry p l e) = (if listens e then Some (entry_name e) else l)"
proof -
  show "snd (check_entry p l e) = (if listens e then Some (entry_name e) else l)"
    using assms by (simp add: check_entry_def Let_def)
  have n: "(case options_of (entry_kind e) of None \<Rightarrow> [] | Some (n, _) \<Rightarrow> n) =
      (case options_of (entry_kind e) of None \<Rightarrow> [] | Some nk \<Rightarrow> fst nk)"
    by (simp split: option.splits prod.splits)
  show "fst (check_entry p l e) = [] \<longleftrightarrow>
    driver_in (entry_kind e) (drivers p) \<and> firmware_ok e \<and> (listens e \<longrightarrow> l = None)"
    using assms ble_named_single [of e]
    by (cases "options_of (entry_kind e)"; cases l)
      (auto simp: check_entry_def firmware_ok_def Let_def option_complaints_empty missing_empty
        ble_named_address)
qed

lemma check_entries_linux:
  "architecture p = ''linux'' \<Longrightarrow>
     check_entries p l es = [] \<longleftrightarrow> (\<forall>e \<in> set es. driver_in (entry_kind e) (drivers p))"
  by (induction es) (auto simp: check_entry_linux)

lemma check_entries_board:
  "architecture p \<noteq> ''linux'' \<Longrightarrow>
     check_entries p l es = [] \<longleftrightarrow>
       (\<forall>e \<in> set es. driver_in (entry_kind e) (drivers p) \<and> firmware_ok e) \<and>
       length (filter listens es) \<le> (if l = None then 1 else 0)"
proof (induction es arbitrary: l)
  case Nil
  then show ?case by simp
next
  case (Cons e es)
  with check_entry_board [OF Cons.prems, of l e] show ?case by (cases l) auto
qed

text \<open>
  C36. The hub lets a configuration go exactly when the kind of node can hold it: few enough
  sources of kinds it drives and small enough in all; and on a microcontroller every source has
  what its driver needs, no option the firmware has no place for, at most eight of them, a
  device named one way only, and one microphone at most that listens.
\<close>

theorem configuration_accepted_exactly_when:
  "check_configuration size_of p es = [] \<longleftrightarrow>
     length es \<le> max_sources p \<and> size_of es \<le> max_config_bytes p \<and>
     (\<forall>e \<in> set es. driver_in (entry_kind e) (drivers p)) \<and>
     (architecture p \<noteq> ''linux'' \<longrightarrow>
        (\<forall>e \<in> set es. firmware_ok e) \<and> length (filter listens es) \<le> 1)"
  by (cases "architecture p = ''linux''")
    (auto simp: check_configuration_def check_entries_linux check_entries_board)

lemma configuration_accepted_exactly_when_witness:
  "check_configuration (\<lambda>es. 100) pico_w
     [[(''id'', JStr ''pir''), (''kind'', JStr ''gpio''), (''pin'', JInt 4)]] = []"
proof -
  let ?e = "[(''id'', JStr ''pir''), (''kind'', JStr ''gpio''), (''pin'', JInt 4)]"
  have "firmware_ok ?e"
    by (simp add: firmware_ok_def carried_def max_firmware_options_def options_of_def
        entry_kind_def firmware_options_def given_def every_source_def)
  moreover have "driver_in (entry_kind ?e) (drivers pico_w)"
    by (simp add: driver_in_def entry_kind_def pico_w_def)
  ultimately show ?thesis
    using configuration_accepted_exactly_when [of "\<lambda>es. 100" pico_w "[?e]"]
    by (simp add: pico_w_def)
qed

text \<open>Every kind in the catalogue is known under its own name; anything else is the agent.\<close>

lemma platform_known: "known_platform n \<Longrightarrow> pf_name (platform_named (Some n)) = n"
  by (auto simp: known_platform_def platform_named_def catalogue_def linux_agent_def pico_w_def
      pico_2w_def pico_wired_def pico_2_wired_def split: if_splits)

end
