(* ===== verification/Nodes.thy ===== *)
theory Nodes
  imports Names Platforms "HOL-Library.List_Lexorder"
begin

section \<open>Which nodes may speak\<close>

text \<open>
  \<open>src/sentry_mode/satellites/identity.py\<close>: the registry of nodes, in memory and in its file.
  The file is its stamp (modification time and size) and what it holds: something that does not
  parse, or a document, which is validated when it is read. Writing takes the stamp the new file
  gets, or fails. The fingerprint of a certificate (PEM, base64, SHA-256) is the parameter
  \<open>fp\<close>, without a value for text that is no certificate; times are what the clock said.
\<close>

datatype node_status = Pending | Approved | Revoked

record node_record =
  nd_id :: string
  nd_display :: string
  nd_profile :: string
  nd_platform :: string
  nd_zone :: "string option"
  nd_status :: node_status
  nd_fingerprint :: "string option"
  nd_serial :: "string option"
  nd_version :: "string option"
  nd_protocol :: int
  nd_registered :: seconds
  nd_approved :: "seconds option"
  nd_revoked :: "seconds option"
  nd_reason :: "string option"

definition hex_digest :: "string \<Rightarrow> bool" where
  "hex_digest s \<longleftrightarrow> length s = 64 \<and> list_all (\<lambda>c. c \<in> set ''0123456789abcdef'') s"

definition node_ok :: "node_record \<Rightarrow> bool" where
  "node_ok r \<longleftrightarrow>
     valid_name (nd_id r) \<and> 1 \<le> length (nd_display r) \<and> length (nd_display r) \<le> 120 \<and>
     1 \<le> length (nd_profile r) \<and> length (nd_profile r) \<le> 40 \<and>
     1 \<le> length (nd_platform r) \<and> length (nd_platform r) \<le> 40 \<and>
     pred_option valid_name (nd_zone r) \<and> pred_option hex_digest (nd_fingerprint r) \<and>
     pred_option (\<lambda>s. length s \<le> 64) (nd_serial r) \<and>
     pred_option (\<lambda>s. length s \<le> 32) (nd_version r) \<and>
     pred_option (\<lambda>s. length s \<le> 200) (nd_reason r)"

definition may_publish :: "node_record \<Rightarrow> bool" where
  "may_publish r \<longleftrightarrow> nd_status r = Approved"

record node_document =
  revision :: int
  hub_epoch :: int
  nodes :: "(string, node_record) dict"

definition empty_document :: node_document where
  "empty_document = \<lparr>revision = 0, hub_epoch = 0, nodes = []\<rparr>"

definition document_ok :: "node_document \<Rightarrow> bool" where
  "document_ok d \<longleftrightarrow> list_all node_ok (dict_values (nodes d))"

datatype file_content = Garbage | Document node_document

record node_registry =
  doc :: node_document
  read_at :: "nat option"
  on_disk :: "(nat \<times> file_content) option"

datatype node_error =
  UnknownNode string | NotApproved string | WrongCertificate string | NodeValueError | BadFile | OsError

subsection \<open>The file\<close>

definition load :: "node_registry \<Rightarrow> (node_error + unit) \<times> node_registry" where
  "load r =
     (case on_disk r of
        None \<Rightarrow> (Inr (), r\<lparr>read_at := None, doc := empty_document\<rparr>)
      | Some (_, Garbage) \<Rightarrow> (Inl BadFile, r)
      | Some (stamp, Document d) \<Rightarrow>
          if document_ok d then (Inr (), r\<lparr>doc := d, read_at := Some stamp\<rparr>)
          else (Inl BadFile, r))"

definition refresh :: "node_registry \<Rightarrow> (node_error + unit) \<times> node_registry" where
  "refresh r =
     (case on_disk r of
        None \<Rightarrow> if read_at r \<noteq> None then load r else (Inr (), r)
      | Some (stamp, _) \<Rightarrow> if read_at r \<noteq> Some stamp then load r else (Inr (), r))"

definition persist :: "nat option \<Rightarrow> node_registry \<Rightarrow> (node_error + unit) \<times> node_registry" where
  "persist w r =
     (let d = (doc r)\<lparr>revision := revision (doc r) + 1\<rparr>; r' = r\<lparr>doc := d\<rparr> in
      case w of
        None \<Rightarrow> (Inl OsError, r')
      | Some stamp \<Rightarrow> (Inr (), r'\<lparr>on_disk := Some (stamp, Document d)\<rparr>))"

definition next_epoch :: "nat option \<Rightarrow> node_registry \<Rightarrow> (node_error + int) \<times> node_registry" where
  "next_epoch w r =
     try_then (refresh r) (\<lambda>_ r.
       try_then (persist w (r\<lparr>doc := (doc r)\<lparr>hub_epoch := hub_epoch (doc r) + 1\<rparr>\<rparr>)) (\<lambda>_ r.
         (Inr (hub_epoch (doc r)), r)))"

subsection \<open>The life of a record\<close>

definition get_node :: "node_registry \<Rightarrow> string \<Rightarrow> node_record option" where
  "get_node r n = dict_get (nodes (doc r)) n"

definition require_node :: "string \<Rightarrow> node_registry \<Rightarrow> (node_error + node_record) \<times> node_registry" where
  "require_node n r =
     (case get_node r n of None \<Rightarrow> (Inl (UnknownNode n), r) | Some x \<Rightarrow> (Inr x, r))"

definition keep_node ::
  "nat option \<Rightarrow> string \<Rightarrow> node_record \<Rightarrow> node_registry \<Rightarrow> (node_error + node_record) \<times> node_registry" where
  "keep_node w n x r =
     try_then (persist w (r\<lparr>doc := (doc r)\<lparr>nodes := dict_set n x (nodes (doc r))\<rparr>\<rparr>))
       (\<lambda>_ r. (Inr x, r))"

record registration =
  rg_display :: "string option"
  rg_profile :: string
  rg_platform :: string
  rg_zone :: "string option"
  rg_certificate :: "string option"

definition register_node ::
  "(string \<Rightarrow> string option) \<Rightarrow> seconds \<Rightarrow> nat option \<Rightarrow> string \<Rightarrow> registration \<Rightarrow> node_registry \<Rightarrow>
     (node_error + node_record) \<times> node_registry" where
  "register_node fp now w n a r =
     (if \<not> known_platform (rg_platform a) then (Inl NodeValueError, r)
      else try_then (refresh r) (\<lambda>_ r.
        if get_node r n \<noteq> None then (Inl NodeValueError, r)
        else
          (let cert = (case rg_certificate a of
                 None \<Rightarrow> Inr None
               | Some c \<Rightarrow> if c = '''' then Inr None
                           else (case fp c of None \<Rightarrow> Inl NodeValueError | Some f \<Rightarrow> Inr (Some f)))
           in case cert of
                Inl e \<Rightarrow> (Inl e, r)
              | Inr f \<Rightarrow>
                  (let x = \<lparr>nd_id = n,
                            nd_display = (case py_or (rg_display a) (Some n) of None \<Rightarrow> n | Some d \<Rightarrow> d),
                            nd_profile = rg_profile a, nd_platform = rg_platform a,
                            nd_zone = rg_zone a, nd_status = Pending, nd_fingerprint = f,
                            nd_serial = None, nd_version = None, nd_protocol = 5,
                            nd_registered = now, nd_approved = None, nd_revoked = None,
                            nd_reason = None\<rparr>
                   in if node_ok x then keep_node w n x r else (Inl NodeValueError, r)))))"

definition approve_node ::
  "(string \<Rightarrow> string option) \<Rightarrow> seconds \<Rightarrow> nat option \<Rightarrow> string \<Rightarrow> string option \<Rightarrow> string option \<Rightarrow>
     node_registry \<Rightarrow> (node_error + node_record) \<times> node_registry" where
  "approve_node fp now w n certificate pinned r =
     try_then (refresh r) (\<lambda>_ r. try_then (require_node n r) (\<lambda>x r.
       (case (case certificate of
                None \<Rightarrow> Inr pinned
              | Some c \<Rightarrow> (case fp c of None \<Rightarrow> Inl NodeValueError | Some f \<Rightarrow> Inr (Some f))) of
          Inl e \<Rightarrow> (Inl e, r)
        | Inr p \<Rightarrow>
            (case py_or p (nd_fingerprint x) of
               None \<Rightarrow> (Inl NodeValueError, r)
             | Some f \<Rightarrow>
                 keep_node w n
                   (x\<lparr>nd_status := Approved, nd_fingerprint := Some f, nd_approved := Some now,
                      nd_revoked := None, nd_reason := None\<rparr>) r))))"

definition revoke_node ::
  "seconds \<Rightarrow> nat option \<Rightarrow> string \<Rightarrow> string option \<Rightarrow> node_registry \<Rightarrow>
     (node_error + node_record) \<times> node_registry" where
  "revoke_node now w n reason r =
     try_then (refresh r) (\<lambda>_ r. try_then (require_node n r) (\<lambda>x r.
       keep_node w n (x\<lparr>nd_status := Revoked, nd_revoked := Some now, nd_reason := reason\<rparr>) r))"

definition forget_node ::
  "nat option \<Rightarrow> string \<Rightarrow> node_registry \<Rightarrow> (node_error + unit) \<times> node_registry" where
  "forget_node w n r =
     try_then (refresh r) (\<lambda>_ r. try_then (require_node n r) (\<lambda>x r.
       persist w (r\<lparr>doc := (doc r)\<lparr>nodes := dict_pop n (nodes (doc r))\<rparr>\<rparr>)))"

datatype node_change =
  DisplayName string
| ZoneIs "string option"
| ProfileIs string
| PlatformIs string
| VersionIs "string option"
| SerialIs "string option"
| OtherField string

fun describes :: "node_change \<Rightarrow> bool" where
  "describes (OtherField _) = False"
| "describes _ = True"

fun change_platform_ok :: "node_change \<Rightarrow> bool" where
  "change_platform_ok (PlatformIs p) = known_platform p"
| "change_platform_ok _ = True"

fun apply_change :: "node_change \<Rightarrow> node_record \<Rightarrow> node_record" where
  "apply_change (DisplayName s) x = x\<lparr>nd_display := s\<rparr>"
| "apply_change (ZoneIs z) x = x\<lparr>nd_zone := z\<rparr>"
| "apply_change (ProfileIs s) x = x\<lparr>nd_profile := s\<rparr>"
| "apply_change (PlatformIs s) x = x\<lparr>nd_platform := s\<rparr>"
| "apply_change (VersionIs v) x = x\<lparr>nd_version := v\<rparr>"
| "apply_change (SerialIs v) x = x\<lparr>nd_serial := v\<rparr>"
| "apply_change (OtherField _) x = x"

definition describe_node ::
  "nat option \<Rightarrow> string \<Rightarrow> node_change list \<Rightarrow> node_registry \<Rightarrow>
     (node_error + node_record) \<times> node_registry" where
  "describe_node w n changes r =
     (if \<not> list_all describes changes then (Inl NodeValueError, r)
      else if \<not> list_all change_platform_ok changes then (Inl NodeValueError, r)
      else try_then (refresh r) (\<lambda>_ r. try_then (require_node n r) (\<lambda>x r.
        keep_node w n (fold apply_change changes x) r)))"

subsection \<open>Questions\<close>

definition all_nodes :: "node_registry \<Rightarrow> node_record list" where
  "all_nodes r = sort_key (\<lambda>x. map (of_char :: char \<Rightarrow> nat) (nd_id x)) (dict_values (nodes (doc r)))"

definition of_status :: "node_registry \<Rightarrow> node_status \<Rightarrow> node_record list" where
  "of_status r st = filter (\<lambda>x. nd_status x = st) (all_nodes r)"

record credentials =
  cr_username :: "string option"
  cr_client :: "string option"
  cr_fingerprint :: "string option"

definition authenticate ::
  "string \<Rightarrow> credentials \<Rightarrow> node_registry \<Rightarrow> (node_error + node_record) \<times> node_registry" where
  "authenticate n c r =
     try_then (refresh r) (\<lambda>_ r. try_then (require_node n r) (\<lambda>x r.
       (if \<not> may_publish x then (Inl (NotApproved n), r)
        else if \<not> pred_option (\<lambda>u. u = n) (cr_username c) then (Inl (WrongCertificate n), r)
        else if \<not> pred_option (\<lambda>u. u = n) (cr_client c) then (Inl (WrongCertificate n), r)
        else case nd_fingerprint x of
          None \<Rightarrow> (Inl (WrongCertificate n), r)
        | Some f \<Rightarrow>
            if \<not> pred_option (\<lambda>u. u = f) (cr_fingerprint c) then (Inl (WrongCertificate n), r)
            else (Inr x, r))))"

subsection \<open>The registry as a machine\<close>

text \<open>
  What the hub's process does, and what a shell does: \<open>satellite_admin.py\<close> is another process,
  which reads the file, does one thing and writes it.
\<close>

datatype node_admin =
  RegisterNode seconds "nat option" string registration
| ApproveNode seconds "nat option" string "string option" "string option"
| RevokeNode seconds "nat option" string "string option"
| ForgetNode "nat option" string
| DescribeNode "nat option" string "node_change list"

datatype node_step =
  NextEpoch "nat option"
| Authenticate string credentials
| RefreshNodes
| Hub node_admin
| Shell node_admin

datatype node_answer = Epoch int | Node node_record | Done

definition answer :: "('a \<Rightarrow> node_answer) \<Rightarrow> (node_error + 'a) \<times> node_registry \<Rightarrow>
    (node_error + node_answer) \<times> node_registry" where
  "answer f x = (map_sum id f (fst x), snd x)"

fun do_admin :: "(string \<Rightarrow> string option) \<Rightarrow> node_registry \<Rightarrow> node_admin \<Rightarrow>
    (node_error + node_answer) \<times> node_registry" where
  "do_admin fp r (RegisterNode now w n a) = answer Node (register_node fp now w n a r)"
| "do_admin fp r (ApproveNode now w n c p) = answer Node (approve_node fp now w n c p r)"
| "do_admin fp r (RevokeNode now w n why) = answer Node (revoke_node now w n why r)"
| "do_admin fp r (ForgetNode w n) = answer (\<lambda>_. Done) (forget_node w n r)"
| "do_admin fp r (DescribeNode w n cs) = answer Node (describe_node w n cs r)"

fun do_node :: "(string \<Rightarrow> string option) \<Rightarrow> node_registry \<Rightarrow> node_step \<Rightarrow>
    (node_error + node_answer) \<times> node_registry" where
  "do_node fp r (NextEpoch w) = answer Epoch (next_epoch w r)"
| "do_node fp r (Authenticate n c) = answer Node (authenticate n c r)"
| "do_node fp r RefreshNodes = answer (\<lambda>_. Done) (refresh r)"
| "do_node fp r (Hub a) = do_admin fp r a"
| "do_node fp r (Shell a) =
     (case load \<lparr>doc = empty_document, read_at = None, on_disk = on_disk r\<rparr> of
        (Inl e, _) \<Rightarrow> (Inl e, r)
      | (Inr _, other) \<Rightarrow>
          (fst (do_admin fp other a), r\<lparr>on_disk := on_disk (snd (do_admin fp other a))\<rparr>))"

lemma snd_answer [simp]: "snd (answer f x) = snd x"
  by (simp add: answer_def)

lemma refresh_on_disk [simp]: "on_disk (snd (refresh r)) = on_disk r"
  by (auto simp: refresh_def load_def split: option.splits file_content.splits prod.splits)

lemma load_on_disk [simp]: "on_disk (snd (load r)) = on_disk r"
  by (auto simp: load_def split: option.splits file_content.splits prod.splits)

lemma refresh_doc:
  "doc (snd (refresh r)) = doc r \<or> (on_disk r = None \<and> doc (snd (refresh r)) = empty_document) \<or>
   (\<exists>st. on_disk r = Some (st, Document (doc (snd (refresh r)))))"
  by (auto simp: refresh_def load_def split: option.splits file_content.splits prod.splits)

subsection \<open>Epochs only count up\<close>

definition disk_epoch :: "node_registry \<Rightarrow> int" where
  "disk_epoch r = (case on_disk r of Some (_, Document d) \<Rightarrow> hub_epoch d | _ \<Rightarrow> 0)"

definition epoch_inv :: "node_registry \<Rightarrow> bool" where
  "epoch_inv r \<longleftrightarrow> 0 \<le> disk_epoch r \<and> disk_epoch r \<le> hub_epoch (doc r)"

text \<open>What every call but \<open>next_epoch\<close> does to the epochs: the file's never falls, memory's never rises.\<close>

definition epoch_steady :: "node_registry \<Rightarrow> node_registry \<Rightarrow> bool" where
  "epoch_steady r s \<longleftrightarrow>
     (epoch_inv r \<longrightarrow>
        epoch_inv s \<and> disk_epoch r \<le> disk_epoch s \<and> hub_epoch (doc s) \<le> hub_epoch (doc r))"

lemma epoch_steady_refl [simp]: "epoch_steady r r"
  by (simp add: epoch_steady_def)

lemma epoch_steady_try:
  assumes "epoch_steady r (snd a)" and "\<And>x s. a = (Inr x, s) \<Longrightarrow> epoch_steady s (snd (f x s))"
  shows "epoch_steady r (snd (try_then a f))"
proof (cases "fst a")
  case (Inl e)
  with assms(1) show ?thesis by (simp add: snd_try_then)
next
  case (Inr x)
  with assms(2) [of x "snd a"] have "epoch_steady (snd a) (snd (f x (snd a)))"
    by (metis prod.collapse)
  with assms(1) Inr show ?thesis by (auto simp: snd_try_then epoch_steady_def)
qed

lemma epoch_steady_refresh: "epoch_steady r (snd (refresh r))"
  using refresh_doc [of r]
  by (auto simp: epoch_steady_def epoch_inv_def disk_epoch_def empty_document_def)

lemma epoch_steady_persist:
  assumes "hub_epoch (doc s) = hub_epoch (doc r)" "on_disk s = on_disk r"
  shows "epoch_steady r (snd (persist w s))"
  using assms by (auto simp: epoch_steady_def epoch_inv_def persist_def disk_epoch_def Let_def
      split: option.splits)

lemma epoch_steady_keep: "epoch_steady r (snd (keep_node w n x r))"
  unfolding keep_node_def by (intro epoch_steady_try epoch_steady_persist) simp_all

lemma epoch_steady_require: "epoch_steady r (snd (require_node n r))"
  by (simp add: require_node_def split: option.splits)

lemma require_some: "require_node n r = (Inr x, s) \<longleftrightarrow> s = r \<and> get_node r n = Some x"
  by (auto simp: require_node_def split: option.splits)

lemmas epoch_steady_intros =
  epoch_steady_refresh epoch_steady_keep epoch_steady_require epoch_steady_refl

lemma epoch_steady_admin: "epoch_steady r (snd (do_admin fp r a))"
proof (cases a)
  case (RegisterNode now w n g)
  have "epoch_steady s (snd (if get_node s n \<noteq> None then (Inl NodeValueError, s)
        else (case c of Inl e \<Rightarrow> (Inl e, s)
           | Inr f \<Rightarrow> if ok f then keep_node w n (rec f) s else (Inl NodeValueError, s))))"
    for s and c :: "node_error + string option" and ok rec
    by (simp add: epoch_steady_keep split: sum.splits)
  then show ?thesis
    unfolding RegisterNode do_admin.simps snd_answer register_node_def Let_def
    by (auto intro!: epoch_steady_try epoch_steady_refresh)
next
  case (ApproveNode now w n c p)
  have "epoch_steady s (snd (case q of Inl e \<Rightarrow> (Inl e, s) | Inr p \<Rightarrow>
      (case py_or p z of None \<Rightarrow> (Inl NodeValueError, s) | Some f \<Rightarrow> keep_node w n (rec f) s)))"
    for s and q :: "node_error + string option" and z rec
    by (simp add: epoch_steady_keep split: sum.splits option.splits)
  then show ?thesis
    unfolding ApproveNode do_admin.simps snd_answer approve_node_def
    by (intro epoch_steady_try epoch_steady_intros)
next
  case (RevokeNode now w n why)
  show ?thesis
    unfolding RevokeNode do_admin.simps snd_answer revoke_node_def
    by (intro epoch_steady_try epoch_steady_intros)
next
  case (ForgetNode w n)
  show ?thesis
    unfolding ForgetNode do_admin.simps snd_answer forget_node_def
    by (intro epoch_steady_try epoch_steady_intros epoch_steady_persist) simp_all
next
  case (DescribeNode w n cs)
  show ?thesis
    unfolding DescribeNode do_admin.simps snd_answer describe_node_def
    by (auto intro!: epoch_steady_try epoch_steady_intros)
qed

lemma epoch_steady_authenticate: "epoch_steady r (snd (authenticate n c r))"
  unfolding authenticate_def
  by (intro epoch_steady_try epoch_steady_intros) (simp split: option.splits)

lemma persist_result:
  "persist w r =
     (case w of
        None \<Rightarrow> (Inl OsError, r\<lparr>doc := (doc r)\<lparr>revision := revision (doc r) + 1\<rparr>\<rparr>)
      | Some st \<Rightarrow>
          (Inr (), r\<lparr>doc := (doc r)\<lparr>revision := revision (doc r) + 1\<rparr>,
                     on_disk := Some (st, Document ((doc r)\<lparr>revision := revision (doc r) + 1\<rparr>))\<rparr>))"
  by (simp add: persist_def Let_def split: option.splits)

lemma next_epoch_rises:
  assumes "epoch_inv r"
  shows "epoch_inv (snd (next_epoch w r))" "disk_epoch r \<le> disk_epoch (snd (next_epoch w r))"
    "fst (next_epoch w r) = Inr n \<Longrightarrow>
       disk_epoch r < n \<and> n = disk_epoch (snd (next_epoch w r))"
proof -
  have s: "epoch_inv (snd (refresh r)) \<and> disk_epoch r \<le> disk_epoch (snd (refresh r))"
    using epoch_steady_refresh [of r] assms by (auto simp: epoch_steady_def)
  have e: "next_epoch w r =
      (case fst (refresh r) of Inl e \<Rightarrow> (Inl e, snd (refresh r))
       | Inr _ \<Rightarrow> try_then (persist w (snd (refresh r)
           \<lparr>doc := (doc (snd (refresh r)))\<lparr>hub_epoch := hub_epoch (doc (snd (refresh r))) + 1\<rparr>\<rparr>))
           (\<lambda>_ r. (Inr (hub_epoch (doc r)), r)))"
    unfolding next_epoch_def by (cases "refresh r"; cases "fst (refresh r)") auto
  show "epoch_inv (snd (next_epoch w r))" "disk_epoch r \<le> disk_epoch (snd (next_epoch w r))"
    "fst (next_epoch w r) = Inr n \<Longrightarrow>
       disk_epoch r < n \<and> n = disk_epoch (snd (next_epoch w r))"
    using s unfolding e
    by (auto simp: persist_result epoch_inv_def disk_epoch_def split: sum.splits option.splits)
qed

definition epoch_of :: "node_error + node_answer \<Rightarrow> int option" where
  "epoch_of a = (case a of Inr (Epoch n) \<Rightarrow> Some n | _ \<Rightarrow> None)"

lemma epoch_of_answer [simp]:
  "epoch_of (fst (answer Node x)) = None" "epoch_of (fst (answer (\<lambda>_. Done) y)) = None"
  "epoch_of (fst (answer Epoch z)) = (case fst z of Inl _ \<Rightarrow> None | Inr n \<Rightarrow> Some n)"
  by (cases "fst x"; cases "fst y"; cases "fst z"; simp add: epoch_of_def answer_def)+

lemma epoch_of_Inl [simp]: "epoch_of (Inl e) = None"
  by (simp add: epoch_of_def)

lemma epoch_of_admin [simp]: "epoch_of (fst (do_admin fp r a)) = None"
  by (cases a) simp_all

lemma shell_level:
  assumes "epoch_inv r" and "load \<lparr>doc = empty_document, read_at = None, on_disk = on_disk r\<rparr> = (Inr u, s)"
  shows "disk_epoch (snd (do_admin fp s a)) = disk_epoch r"
proof -
  have s: "on_disk s = on_disk r" "hub_epoch (doc s) = disk_epoch r"
    using assms(2) by (auto simp: load_def disk_epoch_def empty_document_def
        split: option.splits file_content.splits prod.splits if_splits)
  then have "epoch_inv s" "disk_epoch s = disk_epoch r"
    using assms(1) by (simp_all add: epoch_inv_def disk_epoch_def)
  with epoch_steady_admin [of s fp a] s show ?thesis
    by (auto simp: epoch_steady_def epoch_inv_def)
qed

interpretation epochs: rising "do_node fp" epoch_inv "\<lambda>e. True" disk_epoch epoch_of for fp
proof -
  have steady: "epoch_inv (snd (do_node fp r e)) \<and> disk_epoch r \<le> disk_epoch (snd (do_node fp r e))"
    if "epoch_inv r" for r e
  proof (cases e)
    case (Shell a)
    show ?thesis
    proof (cases "load \<lparr>doc = empty_document, read_at = None, on_disk = on_disk r\<rparr>")
      case (Pair u s)
      with shell_level [OF that, of "the (Some ())" s fp a] that Shell show ?thesis
        by (cases u) (auto simp: epoch_inv_def disk_epoch_def)
    qed
  qed (use that next_epoch_rises epoch_steady_authenticate epoch_steady_admin epoch_steady_refresh
       in \<open>auto simp: epoch_steady_def\<close>)
  show "rising (do_node fp) epoch_inv (\<lambda>e. True) disk_epoch epoch_of"
  proof (unfold_locales, goal_cases)
    case (1 r e)
    then show ?case using steady by blast
  next
    case (2 r e)
    then show ?case using steady by blast
  next
    case (3 r e n)
    show ?case
    proof (cases e)
      case (NextEpoch w)
      with 3 next_epoch_rises [OF 3(1), of w] show ?thesis by (auto split: sum.splits)
    next
      case (Shell a)
      with 3 show ?thesis by (auto split: prod.splits sum.splits)
    qed (use 3 in simp_all)
  qed
qed


definition hub_registry :: "node_record list \<Rightarrow> node_registry" where
  "hub_registry xs =
     \<lparr>doc = \<lparr>revision = 1, hub_epoch = 7, nodes = map (\<lambda>x. (nd_id x, x)) xs\<rparr>, read_at = Some 1,
      on_disk = Some (1, Document \<lparr>revision = 1, hub_epoch = 7, nodes = map (\<lambda>x. (nd_id x, x)) xs\<rparr>)\<rparr>"


subsection \<open>Taking permission away\<close>

text \<open>Neither in memory nor in the file is there an approved record under this name.\<close>

definition barred :: "string \<Rightarrow> node_registry \<Rightarrow> bool" where
  "barred n r \<longleftrightarrow>
     (\<forall>x. dict_get (nodes (doc r)) n = Some x \<longrightarrow> nd_status x \<noteq> Approved) \<and>
     (\<forall>st d x. on_disk r = Some (st, Document d) \<and> dict_get (nodes d) n = Some x \<longrightarrow>
        nd_status x \<noteq> Approved)"

lemma barred_try:
  assumes "barred n (snd a)" and "\<And>x s. a = (Inr x, s) \<Longrightarrow> barred n s \<Longrightarrow> barred n (snd (f x s))"
  shows "barred n (snd (try_then a f))"
proof (cases "fst a")
  case (Inl e)
  with assms(1) show ?thesis by (simp add: snd_try_then)
next
  case (Inr x)
  with assms(2) [of x "snd a"] assms(1) have "barred n (snd (f x (snd a)))"
    by (metis prod.collapse)
  with Inr show ?thesis by (simp add: snd_try_then)
qed

lemma barred_refresh: "barred n r \<Longrightarrow> barred n (snd (refresh r))"
  using refresh_doc [of r] by (auto simp: barred_def empty_document_def)

lemma barred_load: "barred n r \<Longrightarrow> barred n (snd (load r))"
  by (auto simp: barred_def load_def empty_document_def
      split: option.splits file_content.splits prod.splits)

lemma barred_persist:
  "\<lbrakk>barred n r; on_disk s = on_disk r;
    \<forall>x. dict_get (nodes (doc s)) n = Some x \<longrightarrow> nd_status x \<noteq> Approved\<rbrakk> \<Longrightarrow>
     barred n (snd (persist w s))"
  by (auto simp: barred_def persist_result split: option.splits)

lemma barred_keep:
  "barred n r \<Longrightarrow> (m = n \<Longrightarrow> nd_status x \<noteq> Approved) \<Longrightarrow> barred n (snd (keep_node w m x r))"
  unfolding keep_node_def
  by (intro barred_try barred_persist [of n r]) (auto simp: barred_def)

lemma barred_pop:
  "barred n r \<Longrightarrow> barred n (snd (persist w (r\<lparr>doc := (doc r)\<lparr>nodes := dict_pop m (nodes (doc r))\<rparr>\<rparr>)))"
  by (rule barred_persist [of n r]) (auto simp: barred_def)

lemma barred_get: "barred n r \<Longrightarrow> get_node r n = Some x \<Longrightarrow> nd_status x \<noteq> Approved"
  by (simp add: barred_def get_node_def)

lemma barred_require: "barred n r \<Longrightarrow> barred n (snd (require_node m r))"
  by (simp add: require_node_def split: option.splits)

lemma apply_change_status: "nd_status (fold apply_change cs x) = nd_status x"
proof (induction cs arbitrary: x)
  case (Cons c cs)
  then show ?case by (cases c) simp_all
qed simp

fun approves :: "string \<Rightarrow> node_admin \<Rightarrow> bool" where
  "approves n (ApproveNode now w m c p) = (m = n)"
| "approves n _ = False"

fun step_approves :: "string \<Rightarrow> node_step \<Rightarrow> bool" where
  "step_approves n (Hub a) = approves n a"
| "step_approves n (Shell a) = approves n a"
| "step_approves n _ = False"

lemma barred_admin:
  assumes "barred n r" and "\<not> approves n a"
  shows "barred n (snd (do_admin fp r a))"
proof (cases a)
  case (RegisterNode now w m g)
  have "barred n (snd (if get_node s m \<noteq> None then (Inl NodeValueError, s)
        else (case c of Inl e \<Rightarrow> (Inl e, s)
           | Inr f \<Rightarrow> if ok f then keep_node w m (rec f) s else (Inl NodeValueError, s))))"
    if "barred n s" "\<And>f. nd_status (rec f) = Pending"
    for s and c :: "node_error + string option" and ok rec
    using that by (auto simp: barred_keep split: sum.splits)
  with assms show ?thesis
    unfolding RegisterNode do_admin.simps snd_answer register_node_def Let_def
    by (auto intro!: barred_try barred_refresh)
next
  case (ApproveNode now w m c p)
  with assms have "m \<noteq> n" by simp
  then have "barred n (snd (case q of Inl e \<Rightarrow> (Inl e, s) | Inr p \<Rightarrow>
      (case py_or p z of None \<Rightarrow> (Inl NodeValueError, s) | Some f \<Rightarrow> keep_node w m (rec f) s)))"
    if "barred n s" for s and q :: "node_error + string option" and z rec
    using that by (auto intro!: barred_keep split: sum.splits option.splits)
  with assms show ?thesis
    unfolding ApproveNode do_admin.simps snd_answer approve_node_def
    by (auto intro!: barred_try barred_refresh barred_require)
next
  case (RevokeNode now w m why)
  with assms show ?thesis
    unfolding RevokeNode do_admin.simps snd_answer revoke_node_def
    by (auto intro!: barred_try barred_refresh barred_require barred_keep)
next
  case (ForgetNode w m)
  with assms show ?thesis
    unfolding ForgetNode do_admin.simps snd_answer forget_node_def
    by (auto intro!: barred_try barred_refresh barred_require barred_pop)
next
  case (DescribeNode w m cs)
  with assms show ?thesis
    unfolding DescribeNode do_admin.simps snd_answer describe_node_def
    by (auto intro!: barred_try barred_refresh barred_require barred_keep
        simp: apply_change_status require_some dest: barred_get)
qed

lemma barred_authenticate:
  assumes "barred n r"
  shows "barred n (snd (authenticate m c r))" and "fst (authenticate n c r) \<noteq> Inr x"
proof -
  show "barred n (snd (authenticate m c r))"
    unfolding authenticate_def using assms
    by (intro barred_try barred_refresh barred_require) (auto split: option.splits)
  have "barred n (snd (refresh r))" using assms by (rule barred_refresh)
  then have "\<not> may_publish x" if "get_node (snd (refresh r)) n = Some x" for x
    using that by (auto simp: barred_def get_node_def may_publish_def)
  then show "fst (authenticate n c r) \<noteq> Inr x"
    unfolding authenticate_def
    by (cases "refresh r"; cases "fst (refresh r)")
      (auto simp: require_node_def split: option.splits)
qed

lemma barred_next_epoch:
  assumes "barred n r"
  shows "barred n (snd (next_epoch w r))"
  unfolding next_epoch_def
proof (rule barred_try [OF barred_refresh [OF assms]])
  fix u s
  assume s: "barred n s"
  let ?s = "s\<lparr>doc := (doc s)\<lparr>hub_epoch := hub_epoch (doc s) + 1\<rparr>\<rparr>"
  have "barred n (snd (persist w ?s))"
    using s by (intro barred_persist [OF s]) (auto simp: barred_def)
  then show "barred n (snd (try_then (persist w ?s) (\<lambda>_ r. (Inr (hub_epoch (doc r)), r))))"
    by (intro barred_try) auto
qed

interpretation permission: guarded_machine "do_node fp" "barred n" "\<lambda>e. \<not> step_approves n e" for fp n
proof (unfold_locales, goal_cases)
  case (1 r e)
  show ?case
  proof (cases e)
    case (Shell a)
    have l: "barred n (snd (load \<lparr>doc = empty_document, read_at = None, on_disk = on_disk r\<rparr>))"
      using 1(1) by (intro barred_load) (auto simp: barred_def empty_document_def)
    show ?thesis
    proof (cases "load \<lparr>doc = empty_document, read_at = None, on_disk = on_disk r\<rparr>")
      case (Pair u s)
      with l have "barred n s" by simp
      with barred_admin [of n s a fp] 1(2) Shell have "barred n (snd (do_admin fp s a))" by simp
      with 1(1) Pair Shell show ?thesis by (cases u) (auto simp: barred_def)
    qed
  qed (use 1 in \<open>simp_all add: barred_next_epoch barred_authenticate barred_refresh barred_admin\<close>)
qed

lemma revoke_bars:
  assumes "revoke_node now (Some st) n why r = (Inr x, r')"
  shows "barred n r'"
  using assms
  by (auto simp: revoke_node_def try_then_inr keep_node_def persist_result barred_def require_some)

text \<open>
  Once a node's permission has been taken away, no connection is taken for that node again,
  whatever is presented and whatever else happens to the registry, from the hub or from a shell,
  until somebody approves that node.
\<close>

lemma revoked_until_approved:
  assumes "revoke_node now (Some st) n why r = (Inr x, r')"
    and "\<forall>e \<in> set es. \<not> step_approves n e"
  shows "fst (authenticate n c (snd (run (do_node fp) r' es))) \<noteq> Inr y"
  using permission.run_keeps [OF revoke_bars [OF assms(1)] assms(2), of fp]
  by (rule barred_authenticate(2))

definition hall_node :: node_record where
  "hall_node =
     \<lparr>nd_id = ''hall'', nd_display = ''Hall'', nd_profile = ''sensor-presence'',
      nd_platform = ''linux-agent'', nd_zone = None, nd_status = Approved,
      nd_fingerprint = Some (replicate 64 (CHR ''a'')), nd_serial = None, nd_version = None,
      nd_protocol = 5, nd_registered = 0, nd_approved = Some 1, nd_revoked = None,
      nd_reason = None\<rparr>"

definition no_credentials :: credentials where
  "no_credentials = \<lparr>cr_username = None, cr_client = None, cr_fingerprint = None\<rparr>"

lemma revoked_until_approved_witness:
  "fst (authenticate ''hall'' no_credentials (hub_registry [hall_node])) = Inr hall_node \<and>
   fst (authenticate ''hall'' no_credentials
     (snd (run (do_node Some) (snd (revoke_node 5 (Some 2) ''hall'' None (hub_registry [hall_node])))
        [RefreshNodes, Shell (DescribeNode (Some 3) ''hall'' [ZoneIs None])]))) \<noteq> Inr hall_node"
proof
  show "fst (authenticate ''hall'' no_credentials (hub_registry [hall_node])) = Inr hall_node"
    by (simp add: authenticate_def hub_registry_def refresh_def require_node_def get_node_def
        hall_node_def may_publish_def no_credentials_def)
  obtain x where "revoke_node 5 (Some 2) ''hall'' None (hub_registry [hall_node]) =
      (Inr x, snd (revoke_node 5 (Some 2) ''hall'' None (hub_registry [hall_node])))"
    by (simp add: revoke_node_def hub_registry_def refresh_def require_node_def get_node_def
        hall_node_def keep_node_def persist_result)
  then show "fst (authenticate ''hall'' no_credentials
     (snd (run (do_node Some) (snd (revoke_node 5 (Some 2) ''hall'' None (hub_registry [hall_node])))
        [RefreshNodes, Shell (DescribeNode (Some 3) ''hall'' [ZoneIs None])]))) \<noteq> Inr hall_node"
    by (rule revoked_until_approved) simp
qed

subsection \<open>A record the file cannot hold\<close>

text \<open>
  Revoking checks nothing about the reason it writes down, and reading the file does: with a
  reason of more than 200 characters the call succeeds, and from then on the hub cannot read its
  own registry. Every node is refused, and no connection can be given an epoch.
\<close>

lemma long_reason_locks_everybody_out:
  assumes "revoke_node now (Some st) n (Some why) r = (Inr x, r')"
    and "200 < length why" and "read_at (snd (refresh r)) \<noteq> Some st"
  shows "fst (authenticate m c r') = Inl BadFile \<and> fst (next_epoch w r') = Inl BadFile"
proof -
  from assms(1) obtain s y where s: "refresh r = (Inr (), s)" and
    r': "on_disk r' = Some (st, Document (doc r'))" "read_at r' = read_at s"
      "nodes (doc r') = dict_set n (y\<lparr>nd_status := Revoked, nd_revoked := Some now,
         nd_reason := Some why\<rparr>) (nodes (doc s))"
    by (auto simp: revoke_node_def try_then_inr keep_node_def persist_result require_some)
  have "\<not> document_ok (doc r')"
  proof
    assume "document_ok (doc r')"
    moreover have "dict_get (nodes (doc r')) n = Some (y\<lparr>nd_status := Revoked,
        nd_revoked := Some now, nd_reason := Some why\<rparr>)" by (simp add: r'(3))
    ultimately have "node_ok (y\<lparr>nd_status := Revoked, nd_revoked := Some now, nd_reason := Some why\<rparr>)"
      unfolding document_ok_def list_all_iff by (metis dict_get_in imageI set_map snd_conv)
    with assms(2) show False by (simp add: node_ok_def)
  qed
  then have "refresh r' = (Inl BadFile, r')"
    using r' assms(3) s by (simp add: refresh_def load_def)
  then show ?thesis by (simp add: authenticate_def next_epoch_def)
qed

lemma long_reason_locks_everybody_out_witness:
  "fst (authenticate ''garden'' no_credentials
     (snd (revoke_node 5 (Some 2) ''hall'' (Some (replicate 201 (CHR ''x'')))
        (hub_registry [hall_node])))) = Inl BadFile"
proof -
  obtain x where r: "revoke_node 5 (Some 2) ''hall'' (Some (replicate 201 (CHR ''x'')))
      (hub_registry [hall_node]) =
      (Inr x, snd (revoke_node 5 (Some 2) ''hall'' (Some (replicate 201 (CHR ''x'')))
        (hub_registry [hall_node])))"
    by (simp add: revoke_node_def hub_registry_def refresh_def require_node_def get_node_def
        hall_node_def keep_node_def persist_result)
  have s: "read_at (snd (refresh (hub_registry [hall_node]))) \<noteq> Some 2"
    by (simp add: hub_registry_def refresh_def)
  show ?thesis using long_reason_locks_everybody_out [OF r _ s] by simp
qed

end
