(* ===== verification/Sessions.thy ===== *)
theory Sessions
  imports Settings
begin

section \<open>Connections, epochs and grants\<close>

text \<open>
  \<open>src/sentry_mode/satellites/sessions.py\<close>. The clock, the next epoch and the new identifier a
  call draws are its arguments; a session is replaced in the dictionary where the code changes
  the object that is in it.
\<close>

datatype broker_state = BrokerStopped | BrokerConnected | BrokerUnavailable
datatype freshness = IsLive | IsStale | IsOffline | LinkUnavailable | NeverSeen

definition capabilities :: "string list" where
  "capabilities = [''events'', ''video'', ''audio'']"

record grant =
  gr_id :: string
  gr_node :: string
  gr_capability :: string
  gr_epoch :: int
  gr_issued :: seconds
  gr_expires :: seconds
  gr_sequence :: int

definition grant_live :: "grant \<Rightarrow> seconds \<Rightarrow> bool" where
  "grant_live g now \<longleftrightarrow> now < gr_expires g"

record session =
  se_node :: string
  se_connection :: string
  se_boot :: "string option"
  se_epoch :: int
  se_opened :: seconds
  se_seen :: seconds
  se_version :: "string option"
  se_closed :: bool
  se_reason :: "string option"
  se_grants :: "(string, grant) dict"

definition grant_for :: "session \<Rightarrow> string \<Rightarrow> seconds \<Rightarrow> grant option" where
  "grant_for s cap now =
     (case dict_get (se_grants s) cap of
        None \<Rightarrow> None
      | Some g \<Rightarrow> if grant_live g now then Some g else None)"

record comings =
  co_connections :: nat
  co_boots :: nat
  co_last_boot :: "string option"
  co_restarted :: "seconds option"

definition no_comings :: comings where
  "no_comings = \<lparr>co_connections = 0, co_boots = 0, co_last_boot = None, co_restarted = None\<rparr>"

definition restarts :: "comings \<Rightarrow> nat" where
  "restarts c = co_boots c - 1"

record session_manager =
  sm_health :: health_settings
  sm_settings :: session_settings
  sm_comings :: "(string, comings) dict"
  sm_sessions :: "(string, session) dict"
  sm_broker :: broker_state

datatype session_error = NoOpenSession string | NewerConnection string | NoGrant string | BadCapability

definition broker_connected :: "session_manager \<Rightarrow> session_manager" where
  "broker_connected m = m\<lparr>sm_broker := BrokerConnected\<rparr>"

definition broker_unavailable :: "session_manager \<Rightarrow> session_manager" where
  "broker_unavailable m = m\<lparr>sm_broker := BrokerUnavailable\<rparr>"

definition broker_stopped :: "session_manager \<Rightarrow> session_manager" where
  "broker_stopped m = m\<lparr>sm_broker := BrokerStopped, sm_sessions := []\<rparr>"

definition note_coming :: "seconds \<Rightarrow> string option \<Rightarrow> comings \<Rightarrow> comings" where
  "note_coming now boot c =
     (let c1 = c\<lparr>co_connections := co_connections c + 1\<rparr> in
      case boot of
        None \<Rightarrow> c1
      | Some b \<Rightarrow>
          if Some b \<noteq> co_last_boot c1
          then c1\<lparr>co_boots := co_boots c1 + 1,
                  co_restarted := (if co_last_boot c1 \<noteq> None then Some now else co_restarted c1),
                  co_last_boot := Some b\<rparr>
          else c1)"

definition open_session ::
  "seconds \<Rightarrow> int \<Rightarrow> string \<Rightarrow> string \<Rightarrow> string option \<Rightarrow> string option \<Rightarrow> session_manager \<Rightarrow>
     session \<times> session_manager" where
  "open_session now epoch n conn boot version m =
     (let s = \<lparr>se_node = n, se_connection = conn, se_boot = boot, se_epoch = epoch,
               se_opened = now, se_seen = now, se_version = version, se_closed = False,
               se_reason = None, se_grants = []\<rparr>;
          c = (case dict_get (sm_comings m) n of None \<Rightarrow> no_comings | Some c \<Rightarrow> c)
      in (s, m\<lparr>sm_sessions := dict_set n s (sm_sessions m),
               sm_comings := dict_set n (note_coming now boot c) (sm_comings m)\<rparr>))"

definition current_session :: "session_manager \<Rightarrow> string \<Rightarrow> session option" where
  "current_session m n =
     (case dict_get (sm_sessions m) n of
        None \<Rightarrow> None
      | Some s \<Rightarrow> if se_closed s then None else Some s)"

definition require_session ::
  "string \<Rightarrow> string option \<Rightarrow> session_manager \<Rightarrow> session_error + session" where
  "require_session n conn m =
     (case dict_get (sm_sessions m) n of
        None \<Rightarrow> Inl (NoOpenSession n)
      | Some s \<Rightarrow>
          if se_closed s then Inl (NoOpenSession n)
          else if \<not> pred_option (\<lambda>c. c = se_connection s) conn then Inl (NewerConnection n)
          else Inr s)"

definition put_session :: "string \<Rightarrow> session \<Rightarrow> session_manager \<Rightarrow> session_manager" where
  "put_session n s m = m\<lparr>sm_sessions := dict_set n s (sm_sessions m)\<rparr>"

definition heartbeat ::
  "seconds \<Rightarrow> string \<Rightarrow> string option \<Rightarrow> session_manager \<Rightarrow>
     (session_error + session) \<times> session_manager" where
  "heartbeat now n conn m =
     (case require_session n conn m of
        Inl e \<Rightarrow> (Inl e, m)
      | Inr s \<Rightarrow> (let s' = s\<lparr>se_seen := now\<rparr> in (Inr s', put_session n s' m)))"

definition close_session ::
  "string \<Rightarrow> string option \<Rightarrow> string \<Rightarrow> session_manager \<Rightarrow> bool \<times> session_manager" where
  "close_session n conn reason m =
     (case dict_get (sm_sessions m) n of
        None \<Rightarrow> (False, m)
      | Some s \<Rightarrow>
          if \<not> pred_option (\<lambda>c. c = se_connection s) conn then (False, m)
          else (True, put_session n
                  (s\<lparr>se_closed := True, se_reason := Some reason, se_grants := []\<rparr>) m))"

definition is_current :: "session_manager \<Rightarrow> string \<Rightarrow> string \<Rightarrow> int option \<Rightarrow> bool" where
  "is_current m n conn epoch =
     (case current_session m n of
        None \<Rightarrow> False
      | Some s \<Rightarrow> if se_connection s \<noteq> conn then False else epoch = None \<or> epoch = Some (se_epoch s))"

subsection \<open>Grants\<close>

definition lasting :: "session_manager \<Rightarrow> rat option \<Rightarrow> rat" where
  "lasting m secs = (case secs of None \<Rightarrow> of_int (grant_seconds (sm_settings m)) | Some q \<Rightarrow> q)"

definition grant_capability ::
  "seconds \<Rightarrow> string \<Rightarrow> string \<Rightarrow> string \<Rightarrow> rat option \<Rightarrow> session_manager \<Rightarrow>
     (session_error + grant) \<times> session_manager" where
  "grant_capability now new_id n cap secs m =
     (if cap \<notin> set capabilities then (Inl BadCapability, m)
      else case require_session n None m of
        Inl e \<Rightarrow> (Inl e, m)
      | Inr s \<Rightarrow>
          (let g = \<lparr>gr_id = new_id, gr_node = n, gr_capability = cap, gr_epoch = se_epoch s,
                    gr_issued = now, gr_expires = now + lasting m secs, gr_sequence = 0\<rparr>
           in (Inr g, put_session n (s\<lparr>se_grants := dict_set cap g (se_grants s)\<rparr>) m)))"

definition renew_grant ::
  "seconds \<Rightarrow> string \<Rightarrow> string \<Rightarrow> rat option \<Rightarrow> session_manager \<Rightarrow>
     (session_error + grant) \<times> session_manager" where
  "renew_grant now n cap secs m =
     (case require_session n None m of
        Inl e \<Rightarrow> (Inl e, m)
      | Inr s \<Rightarrow>
          (case dict_get (se_grants s) cap of
             None \<Rightarrow> (Inl (NoGrant n), m)
           | Some held \<Rightarrow>
               (let g = \<lparr>gr_id = gr_id held, gr_node = n, gr_capability = cap,
                         gr_epoch = se_epoch s, gr_issued = now,
                         gr_expires = now + lasting m secs, gr_sequence = gr_sequence held + 1\<rparr>
                in (Inr g, put_session n (s\<lparr>se_grants := dict_set cap g (se_grants s)\<rparr>) m))))"

definition revoke_grants ::
  "string \<Rightarrow> string option \<Rightarrow> session_manager \<Rightarrow> string list \<times> session_manager" where
  "revoke_grants n cap m =
     (case dict_get (sm_sessions m) n of
        None \<Rightarrow> ([], m)
      | Some s \<Rightarrow>
          (let taken = (case py_or cap None of None \<Rightarrow> map fst (se_grants s) | Some c \<Rightarrow> [c])
           in (taken, put_session n (s\<lparr>se_grants := fold dict_pop taken (se_grants s)\<rparr>) m)))"

definition granted :: "session_manager \<Rightarrow> seconds \<Rightarrow> string \<Rightarrow> string \<Rightarrow> grant option" where
  "granted m now n cap =
     (case current_session m n of None \<Rightarrow> None | Some s \<Rightarrow> grant_for s cap now)"

definition grant_is_current ::
  "session_manager \<Rightarrow> seconds \<Rightarrow> string \<Rightarrow> string \<Rightarrow> string \<Rightarrow> bool" where
  "grant_is_current m now n gid cap =
     (case current_session m n of
        None \<Rightarrow> False
      | Some s \<Rightarrow> (case grant_for s cap now of None \<Rightarrow> False | Some g \<Rightarrow> gr_id g = gid))"

definition due_for_renewal :: "session_manager \<Rightarrow> seconds \<Rightarrow> grant list" where
  "due_for_renewal m now =
     concat (map (\<lambda>s. if se_closed s then []
                      else filter (\<lambda>g. gr_expires g - now \<le> of_int (renew_every (sm_settings m)))
                             (dict_values (se_grants s)))
               (dict_values (sm_sessions m)))"

definition freshness_of :: "session_manager \<Rightarrow> seconds \<Rightarrow> string \<Rightarrow> freshness" where
  "freshness_of m now n =
     (if sm_broker m \<noteq> BrokerConnected then LinkUnavailable
      else case dict_get (sm_sessions m) n of
        None \<Rightarrow> NeverSeen
      | Some s \<Rightarrow>
          if se_closed s then IsOffline
          else if now - se_seen s \<ge> of_int (offline_after (sm_health m)) then IsOffline
          else if now - se_seen s \<ge> of_int (stale_after (sm_health m)) then IsStale
          else IsLive)"

subsection \<open>The manager as a machine\<close>

datatype session_step =
  Open seconds int string string "string option" "string option"
| Heartbeat seconds string "string option"
| Close string "string option" string
| GrantTo seconds string string string "rat option"
| Renew seconds string string "rat option"
| Revoke string "string option"
| LinkUp
| LinkDown
| LinkStopped

fun do_session :: "session_manager \<Rightarrow> session_step \<Rightarrow> unit \<times> session_manager" where
  "do_session m (Open now ep n c b v) = ((), snd (open_session now ep n c b v m))"
| "do_session m (Heartbeat now n c) = ((), snd (heartbeat now n c m))"
| "do_session m (Close n c why) = ((), snd (close_session n c why m))"
| "do_session m (GrantTo now i n cap q) = ((), snd (grant_capability now i n cap q m))"
| "do_session m (Renew now n cap q) = ((), snd (renew_grant now n cap q m))"
| "do_session m (Revoke n cap) = ((), snd (revoke_grants n cap m))"
| "do_session m LinkUp = ((), broker_connected m)"
| "do_session m LinkDown = ((), broker_unavailable m)"
| "do_session m LinkStopped = ((), broker_stopped m)"

text \<open>
  Every grant belongs to its session: it is filed under its capability, names the session's node
  and carries its epoch. A closed session holds none, and a session is filed under its node.
\<close>

definition session_ok :: "string \<Rightarrow> session \<Rightarrow> bool" where
  "session_ok n s \<longleftrightarrow>
     se_node s = n \<and> (se_closed s \<longrightarrow> se_grants s = []) \<and>
     (\<forall>cap g. dict_get (se_grants s) cap = Some g \<longrightarrow>
        gr_capability g = cap \<and> gr_node g = n \<and> gr_epoch g = se_epoch s)"

definition sessions_inv :: "session_manager \<Rightarrow> bool" where
  "sessions_inv m \<longleftrightarrow> (\<forall>n s. dict_get (sm_sessions m) n = Some s \<longrightarrow> session_ok n s)"

lemma dict_get_fold_pop:
  "dict_get (fold dict_pop ks d) k = (if k \<in> set ks then None else dict_get d k)"
  by (induction ks arbitrary: d) auto

lemma fold_pop_empty [simp]: "fold dict_pop ks [] = []"
  by (induction ks) auto

lemma require_session_some:
  "require_session n c m = Inr s \<Longrightarrow>
     dict_get (sm_sessions m) n = Some s \<and> \<not> se_closed s \<and> pred_option (\<lambda>c. c = se_connection s) c"
  by (auto simp: require_session_def split: option.splits if_splits)

lemma sessions_put [simp]: "sm_sessions (put_session n s m) = dict_set n s (sm_sessions m)"
  by (simp add: put_session_def)

text \<open>The session of a node after one step: what can have become of it.\<close>

lemma sessions_inv_step: "sessions_inv m \<Longrightarrow> sessions_inv (snd (do_session m e))"
proof (cases e)
  case (Open now ep n c b v)
  then show "sessions_inv m \<Longrightarrow> ?thesis"
    by (auto simp: sessions_inv_def open_session_def session_ok_def Let_def)
next
  case (Heartbeat now n c)
  then show "sessions_inv m \<Longrightarrow> ?thesis"
    by (auto simp: sessions_inv_def heartbeat_def session_ok_def Let_def split: sum.splits
        dest!: require_session_some)
next
  case (Close n c why)
  then show "sessions_inv m \<Longrightarrow> ?thesis"
    by (auto simp: sessions_inv_def close_session_def session_ok_def split: option.splits)
next
  case (GrantTo now i n cap q)
  then show "sessions_inv m \<Longrightarrow> ?thesis"
    by (auto simp: sessions_inv_def grant_capability_def session_ok_def Let_def split: sum.splits
        dest!: require_session_some)
next
  case (Renew now n cap q)
  then show "sessions_inv m \<Longrightarrow> ?thesis"
    by (auto simp: sessions_inv_def renew_grant_def session_ok_def Let_def
        split: sum.splits option.splits dest!: require_session_some)
next
  case (Revoke n cap)
  then show "sessions_inv m \<Longrightarrow> ?thesis"
    by (auto simp: sessions_inv_def revoke_grants_def session_ok_def Let_def dict_get_fold_pop
        split: option.splits if_splits)
qed (auto simp: sessions_inv_def broker_connected_def broker_unavailable_def broker_stopped_def)

interpretation session_machine: machine do_session sessions_inv
  by unfold_locales (rule sessions_inv_step)

subsection \<open>Only the newest connection counts\<close>

definition only_connection :: "string \<Rightarrow> string \<Rightarrow> int \<Rightarrow> session_manager \<Rightarrow> bool" where
  "only_connection n c ep m \<longleftrightarrow>
     (\<forall>s. dict_get (sm_sessions m) n = Some s \<longrightarrow> se_connection s = c \<and> se_epoch s = ep)"

fun opens :: "string \<Rightarrow> session_step \<Rightarrow> bool" where
  "opens n (Open now ep k c b v) = (k = n)"
| "opens n _ = False"

lemmas session_step_defs =
  open_session_def heartbeat_def close_session_def grant_capability_def renew_grant_def
  revoke_grants_def broker_connected_def broker_unavailable_def broker_stopped_def Let_def

fun extends :: "string \<Rightarrow> string \<Rightarrow> session_step \<Rightarrow> bool" where
  "extends n cap (GrantTo now i k c q) = (k = n \<and> c = cap)"
| "extends n cap (Renew now k c q) = (k = n \<and> c = cap)"
| "extends n cap _ = False"

text \<open>What can have become of the session of a node after one step.\<close>

definition comes_from :: "string \<Rightarrow> session_step \<Rightarrow> session \<Rightarrow> session \<Rightarrow> bool" where
  "comes_from n e s s' \<longleftrightarrow>
     se_connection s' = se_connection s \<and> se_epoch s' = se_epoch s \<and>
     (\<forall>cap g. dict_get (se_grants s') cap = Some g \<longrightarrow>
        dict_get (se_grants s) cap = Some g \<or> extends n cap e)"

lemma comes_from_same [simp]: "comes_from n e s s"
  by (simp add: comes_from_def)

lemma session_after:
  assumes "dict_get (sm_sessions (snd (do_session m e))) n = Some s'"
  shows "(opens n e \<and> se_grants s' = []) \<or>
    (\<exists>s. dict_get (sm_sessions m) n = Some s \<and> comes_from n e s s')"
proof (cases e)
  case (Open now ep k c b v)
  with assms show ?thesis by (auto simp: open_session_def Let_def split: if_splits)
next
  case (Heartbeat now k c)
  with assms show ?thesis
    by (cases "require_session k c m")
      (auto simp: heartbeat_def Let_def comes_from_def split: if_splits dest!: require_session_some)
next
  case (Close k c why)
  with assms show ?thesis
    by (cases "dict_get (sm_sessions m) k")
      (auto simp: close_session_def comes_from_def split: if_splits)
next
  case (GrantTo now i k cap q)
  with assms show ?thesis
    by (cases "require_session k None m")
      (auto simp: grant_capability_def Let_def comes_from_def split: if_splits
        dest!: require_session_some)
next
  case (Renew now k cap q)
  show ?thesis
  proof (cases "require_session k None m")
    case (Inr s)
    with Renew assms show ?thesis
      by (cases "dict_get (se_grants s) cap")
        (auto simp: renew_grant_def Let_def comes_from_def split: if_splits
          dest!: require_session_some)
  qed (use Renew assms in \<open>simp add: renew_grant_def\<close>)
next
  case (Revoke k cap)
  with assms show ?thesis
    by (cases "dict_get (sm_sessions m) k")
      (auto simp: revoke_grants_def Let_def comes_from_def dict_get_fold_pop split: if_splits)
qed (use assms in \<open>simp_all add: broker_connected_def broker_unavailable_def broker_stopped_def\<close>)

interpretation newest: guarded_machine do_session "only_connection n c ep" "\<lambda>e. \<not> opens n e" for n c ep
  by unfold_locales (auto simp: only_connection_def comes_from_def dest!: session_after)

text \<open>
  C32. After a node has connected, and until it connects again, nothing but that connection
  counts: what names any other connection, or another epoch, is old, a message about an older
  connection neither ends the session nor keeps it alive, and no other node's doings change that.
\<close>

theorem only_the_newest_connection_counts:
  assumes "open_session now ep n c b v m = (s, m0)" and "\<forall>e \<in> set es. \<not> opens n e"
    and "m' = snd (run do_session m0 es)"
  shows "(is_current m' n c' ep' \<longrightarrow> c' = c \<and> (ep' = None \<or> ep' = Some ep)) \<and>
    (c' \<noteq> c \<longrightarrow> close_session n (Some c') why m' = (False, m') \<and>
      snd (heartbeat t n (Some c') m') = m')"
proof -
  have "only_connection n c ep m0"
    using assms(1) by (auto simp: open_session_def only_connection_def Let_def)
  then have i: "only_connection n c ep m'"
    unfolding assms(3) using assms(2) by (rule newest.run_keeps)
  show ?thesis
  proof (cases "dict_get (sm_sessions m') n")
    case None
    then show ?thesis
      by (simp add: is_current_def current_session_def close_session_def heartbeat_def
          require_session_def)
  next
    case (Some s)
    with i have "se_connection s = c" "se_epoch s = ep" by (simp_all add: only_connection_def)
    with Some show ?thesis
      by (simp add: is_current_def current_session_def close_session_def heartbeat_def
          require_session_def)
  qed
qed

definition idle_manager :: session_manager where
  "idle_manager =
     \<lparr>sm_health = default_health, sm_settings = default_sessions, sm_comings = [],
      sm_sessions = [], sm_broker = BrokerConnected\<rparr>"

lemma only_the_newest_connection_counts_witness:
  "is_current (snd (run do_session (snd (open_session 0 8 ''hall'' ''new'' None None idle_manager))
      [Heartbeat 5 ''hall'' None])) ''hall'' ''new'' (Some 8) \<and>
   \<not> is_current (snd (run do_session (snd (open_session 0 8 ''hall'' ''new'' None None idle_manager))
      [Heartbeat 5 ''hall'' None])) ''hall'' ''old'' None"
proof -
  let ?o = "open_session 0 8 ''hall'' ''new'' None None idle_manager"
  let ?m = "snd (run do_session (snd ?o) [Heartbeat 5 ''hall'' None])"
  have "is_current ?m ''hall'' ''old'' None \<longrightarrow> ''old'' = ''new''"
    using only_the_newest_connection_counts
      [of 0 8 "''hall''" "''new''" None None idle_manager "fst ?o" "snd ?o"
        "[Heartbeat 5 ''hall'' None]" ?m "''old''" None] by simp
  then have "\<not> is_current ?m ''hall'' ''old'' None" by simp
  moreover have "is_current ?m ''hall'' ''new'' (Some 8)"
    by (simp add: idle_manager_def session_step_defs require_session_def put_session_def
        is_current_def current_session_def)
  ultimately show ?thesis by blast
qed

subsection \<open>Permission runs out by itself\<close>

definition lapses_by :: "string \<Rightarrow> string \<Rightarrow> seconds \<Rightarrow> session_manager \<Rightarrow> bool" where
  "lapses_by n cap t m \<longleftrightarrow>
     (\<forall>s g. dict_get (sm_sessions m) n = Some s \<and> dict_get (se_grants s) cap = Some g \<longrightarrow>
        gr_expires g \<le> t)"

interpretation lapse: guarded_machine do_session "lapses_by n cap t" "\<lambda>e. \<not> extends n cap e" for n cap t
proof (unfold_locales, goal_cases)
  case (1 m e)
  then show ?case
    unfolding lapses_by_def by (fastforce simp: comes_from_def dest!: session_after)
qed

lemma grant_is_current_facts:
  "grant_is_current m now n gid cap \<Longrightarrow>
     \<exists>s g. dict_get (sm_sessions m) n = Some s \<and> \<not> se_closed s \<and>
       dict_get (se_grants s) cap = Some g \<and> gr_id g = gid \<and> now < gr_expires g"
  by (auto simp: grant_is_current_def current_session_def grant_for_def grant_live_def
      split: option.splits if_splits)

text \<open>
  C33. Permission runs out by itself. When every grant a node holds for a capability ends by some
  time, then whatever happens (reconnections and renewals of other capabilities included), as
  long as nobody grants or renews this one, no grant for it is current from that time on. While
  one is current it was issued in the session that is open, under that session's epoch.
\<close>

theorem permission_runs_out:
  assumes "sessions_inv m" and "lapses_by n cap t m" and "\<forall>e \<in> set es. \<not> extends n cap e"
    and "m' = snd (run do_session m es)"
  shows "(t \<le> now \<longrightarrow> \<not> grant_is_current m' now n gid cap) \<and>
    (grant_is_current m' now n gid cap \<longrightarrow>
       (\<exists>s g. current_session m' n = Some s \<and> granted m' now n cap = Some g \<and> gr_id g = gid \<and>
          gr_epoch g = se_epoch s \<and> gr_node g = n \<and> now < gr_expires g))"
proof (intro conjI impI)
  assume "t \<le> now"
  have "lapses_by n cap t m'"
    unfolding assms(4) using assms(2,3) by (rule lapse.run_keeps)
  with \<open>t \<le> now\<close> show "\<not> grant_is_current m' now n gid cap"
    by (fastforce simp: lapses_by_def dest!: grant_is_current_facts)
next
  assume c: "grant_is_current m' now n gid cap"
  have "sessions_inv m'"
    unfolding assms(4) using assms(1) by (rule session_machine.run_inv)
  with grant_is_current_facts [OF c]
  show "\<exists>s g. current_session m' n = Some s \<and> granted m' now n cap = Some g \<and> gr_id g = gid \<and>
          gr_epoch g = se_epoch s \<and> gr_node g = n \<and> now < gr_expires g"
    by (fastforce simp: sessions_inv_def session_ok_def current_session_def granted_def
        grant_for_def grant_live_def)
qed

definition granted_hall :: session_manager where
  "granted_hall =
     snd (run do_session idle_manager
       [Open 0 8 ''hall'' ''c'' None None, GrantTo 1 ''g'' ''hall'' ''events'' None])"

lemma granted_hall_inv: "sessions_inv granted_hall" "lapses_by ''hall'' ''events'' 301 granted_hall"
proof -
  have "sessions_inv idle_manager" by (simp add: sessions_inv_def idle_manager_def)
  then show "sessions_inv granted_hall"
    unfolding granted_hall_def by (rule session_machine.run_inv)
  show "lapses_by ''hall'' ''events'' 301 granted_hall"
    by (simp add: granted_hall_def lapses_by_def session_step_defs idle_manager_def
        require_session_def put_session_def capabilities_def lasting_def default_sessions_def)
qed

lemma permission_runs_out_witness:
  "grant_is_current granted_hall 300 ''hall'' ''g'' ''events'' \<and>
   \<not> grant_is_current (snd (run do_session granted_hall [Heartbeat 200 ''hall'' None])) 301
        ''hall'' ''g'' ''events''"
proof
  show "grant_is_current granted_hall 300 ''hall'' ''g'' ''events''"
    by (simp add: granted_hall_def grant_is_current_def current_session_def grant_for_def
        grant_live_def session_step_defs idle_manager_def require_session_def put_session_def
        capabilities_def lasting_def default_sessions_def)
  have "\<forall>e \<in> set [Heartbeat 200 ''hall'' None]. \<not> extends ''hall'' ''events'' e" by simp
  from permission_runs_out [OF granted_hall_inv this refl, of 301 "''g''"]
  show "\<not> grant_is_current (snd (run do_session granted_hall [Heartbeat 200 ''hall'' None])) 301
        ''hall'' ''g'' ''events''" by simp
qed

end
