(* ===== verification/Health.thy ===== *)
theory Health
  imports Prelude
begin

section \<open>What each node reports about itself\<close>

text \<open>
  \<open>src/sentry_mode/satellites/health.py\<close>: one entry per node, replaced rather than appended.
  A heartbeat's document is what \<open>document.get\<close> finds in it; a value that is not a dictionary
  where one is expected counts as absent.
\<close>

type_synonym fields = "(string, json_value) dict"

record node_health =
  heartbeats :: nat
  last_seen :: "seconds option"
  agent_uptime :: "json_value option"
  clock_says :: "json_value option"
  health_queue :: fields
  board :: fields
  health_sources :: "(string, fields) dict"
  accepted_count :: nat
  refused_count :: nat
  reason_counts :: "(string, nat) dict"
  waited_ms :: "int option"
  worst_ms :: "int option"
  worst_at :: "seconds option"
  behind :: bool

definition new_health :: node_health where
  "new_health =
     \<lparr>heartbeats = 0, last_seen = None, agent_uptime = None, clock_says = None,
      health_queue = [], board = [], health_sources = [], accepted_count = 0, refused_count = 0,
      reason_counts = [], waited_ms = None, worst_ms = None, worst_at = None, behind = False\<rparr>"

definition behind_ms :: int where "behind_ms = 2000"
definition worst_for_seconds :: seconds where "worst_for_seconds = 300"

record heartbeat_document =
  hb_uptime :: "json_value option"
  hb_clock :: "json_value option"
  hb_queue :: "fields option"
  hb_board :: "fields option"
  hb_sources :: "(string, fields) dict option"

type_synonym health_board = "(string, node_health) dict"

definition health_entry :: "health_board \<Rightarrow> string \<Rightarrow> node_health" where
  "health_entry b n = (case dict_get b n of None \<Rightarrow> new_health | Some h \<Rightarrow> h)"

definition or_keep :: "'a option \<Rightarrow> 'a \<Rightarrow> 'a" where
  "or_keep new old = (case new of None \<Rightarrow> old | Some x \<Rightarrow> x)"

definition present :: "json_value option \<Rightarrow> json_value option \<Rightarrow> json_value option" where
  "present new old = (case new of None \<Rightarrow> old | Some JNull \<Rightarrow> old | Some x \<Rightarrow> Some x)"

definition take_heartbeat :: "seconds \<Rightarrow> string \<Rightarrow> heartbeat_document \<Rightarrow> health_board \<Rightarrow> health_board" where
  "take_heartbeat now n d b =
     (let h = health_entry b n
      in dict_set n
           (h\<lparr>heartbeats := heartbeats h + 1, last_seen := Some now,
              agent_uptime := present (hb_uptime d) (agent_uptime h),
              clock_says := present (hb_clock d) (clock_says h),
              health_queue := or_keep (hb_queue d) (health_queue h),
              board := or_keep (hb_board d) (board h),
              health_sources := or_keep (hb_sources d) (health_sources h)\<rparr>) b)"

definition waited_on :: "seconds \<Rightarrow> int \<Rightarrow> node_health \<Rightarrow> node_health" where
  "waited_on now ms h =
     (let stale = (case worst_at h of None \<Rightarrow> True | Some t \<Rightarrow> now - t > worst_for_seconds);
          worst = (stale \<or> (case worst_ms h of None \<Rightarrow> True | Some x \<Rightarrow> ms \<ge> x));
          h1 = h\<lparr>waited_ms := Some ms\<rparr>;
          h2 = (if worst then h1\<lparr>worst_ms := Some ms, worst_at := Some now\<rparr> else h1)
      in h2\<lparr>behind := ms > behind_ms\<rparr>)"

definition note_waited :: "seconds \<Rightarrow> string \<Rightarrow> int option \<Rightarrow> health_board \<Rightarrow> health_board" where
  "note_waited now n w b =
     (case w of None \<Rightarrow> b | Some ms \<Rightarrow> dict_set n (waited_on now ms (health_entry b n)) b)"

definition note_accepted :: "string \<Rightarrow> health_board \<Rightarrow> health_board" where
  "note_accepted n b =
     (let h = health_entry b n in dict_set n (h\<lparr>accepted_count := accepted_count h + 1\<rparr>) b)"

definition count_up :: "string \<Rightarrow> (string, nat) dict \<Rightarrow> (string, nat) dict" where
  "count_up k d = dict_set k ((case dict_get d k of None \<Rightarrow> 0 | Some c \<Rightarrow> c) + 1) d"

definition note_refused :: "string \<Rightarrow> string \<Rightarrow> health_board \<Rightarrow> health_board" where
  "note_refused n why b =
     (let h = health_entry b n
      in dict_set n
           (h\<lparr>refused_count := refused_count h + 1,
              reason_counts := count_up why (reason_counts h)\<rparr>) b)"

definition forget_health :: "string \<Rightarrow> health_board \<Rightarrow> health_board" where
  "forget_health n b = dict_pop n b"

datatype health_step =
  TakeHeartbeat seconds string heartbeat_document
| NoteWaited seconds string "int option"
| NoteAccepted string
| NoteRefused string string
| ForgetHealth string

fun do_health :: "health_board \<Rightarrow> health_step \<Rightarrow> unit \<times> health_board" where
  "do_health b (TakeHeartbeat now n d) = ((), take_heartbeat now n d b)"
| "do_health b (NoteWaited now n w) = ((), note_waited now n w b)"
| "do_health b (NoteAccepted n) = ((), note_accepted n b)"
| "do_health b (NoteRefused n why) = ((), note_refused n why b)"
| "do_health b (ForgetHealth n) = ((), forget_health n b)"

subsection \<open>The numbers add up\<close>

definition health_adds_up :: "node_health \<Rightarrow> bool" where
  "health_adds_up h \<longleftrightarrow>
     wf_dict (reason_counts h) \<and> refused_count h = sum_list (dict_values (reason_counts h)) \<and>
     (waited_ms h = None \<longrightarrow> worst_ms h = None \<and> \<not> behind h) \<and>
     (\<forall>w. waited_ms h = Some w \<longrightarrow>
        (\<exists>x. worst_ms h = Some x \<and> w \<le> x) \<and> behind h = (w > behind_ms)) \<and>
     (worst_ms h = None) = (worst_at h = None)"

definition board_inv :: "health_board \<Rightarrow> bool" where
  "board_inv b \<longleftrightarrow> (\<forall>n h. dict_get b n = Some h \<longrightarrow> health_adds_up h)"

lemma sum_count_up:
  "wf_dict d \<Longrightarrow> sum_list (dict_values (count_up k d)) = sum_list (dict_values d) + 1"
proof (induction d)
  case Nil
  then show ?case by (simp add: count_up_def)
next
  case (Cons x d)
  then show ?case by (cases x) (auto simp: count_up_def split: option.splits)
qed

lemma new_health_ok: "health_adds_up new_health"
  by (simp add: health_adds_up_def new_health_def)

lemma health_entry_ok: "board_inv b \<Longrightarrow> health_adds_up (health_entry b n)"
  by (cases "dict_get b n") (simp_all add: board_inv_def health_entry_def new_health_ok)

lemma board_inv_set: "board_inv b \<Longrightarrow> health_adds_up h \<Longrightarrow> board_inv (dict_set n h b)"
  by (auto simp: board_inv_def)

lemma health_adds_up_waited: "health_adds_up h \<Longrightarrow> health_adds_up (waited_on now ms h)"
  by (cases "worst_ms h"; cases "worst_at h") (auto simp: health_adds_up_def waited_on_def Let_def)

interpretation health: machine do_health board_inv
proof (unfold_locales, goal_cases)
  case (1 b e)
  show ?case
  proof (cases e)
    case (TakeHeartbeat now n d)
    with 1 health_entry_ok [OF 1, of n] show ?thesis
      by (auto intro!: board_inv_set simp: take_heartbeat_def Let_def health_adds_up_def)
  next
    case (NoteWaited now n w)
    with 1 health_entry_ok [OF 1, of n] show ?thesis
      by (cases w) (auto intro!: board_inv_set health_adds_up_waited simp: note_waited_def)
  next
    case (NoteAccepted n)
    with 1 health_entry_ok [OF 1, of n] show ?thesis
      by (auto intro!: board_inv_set simp: note_accepted_def Let_def health_adds_up_def)
  next
    case (NoteRefused n why)
    have "wf_dict (count_up why d)" if "wf_dict d" for d using that by (simp add: count_up_def)
    with NoteRefused 1 health_entry_ok [OF 1, of n] show ?thesis
      by (auto intro!: board_inv_set simp: note_refused_def Let_def health_adds_up_def sum_count_up)
  next
    case (ForgetHealth n)
    with 1 show ?thesis by (auto simp: forget_health_def board_inv_def split: if_splits)
  qed
qed

text \<open>
  Whatever has arrived from a node, its page adds up: the refusals are the sum of the reasons
  given for them, the worst wait is not better than the last one, and the node is called behind
  exactly when its last reading waited longer than two seconds.
\<close>

lemma health_page_adds_up:
  assumes "dict_get (snd (run do_health [] es)) n = Some h"
  shows "refused_count h = sum_list (dict_values (reason_counts h)) \<and>
    (behind h \<longleftrightarrow> (\<exists>w. waited_ms h = Some w \<and> behind_ms < w)) \<and>
    (\<forall>w x. waited_ms h = Some w \<and> worst_ms h = Some x \<longrightarrow> w \<le> x)"
proof -
  have "board_inv (snd (run do_health [] es))"
    by (rule health.run_inv) (simp add: board_inv_def)
  with assms have "health_adds_up h" by (simp add: board_inv_def)
  then show ?thesis by (cases "waited_ms h") (auto simp: health_adds_up_def)
qed

lemma health_page_adds_up_witness:
  "case dict_get (snd (run do_health []
       [NoteRefused ''hall'' ''expired'', NoteWaited 1 ''hall'' (Some 2500),
        NoteRefused ''hall'' ''duplicate'', NoteRefused ''hall'' ''expired''])) ''hall'' of
     None \<Rightarrow> False
   | Some h \<Rightarrow> refused_count h = sum_list (dict_values (reason_counts h)) \<and> behind h \<and>
       refused_count h = 3"
proof -
  let ?es = "[NoteRefused ''hall'' ''expired'', NoteWaited 1 ''hall'' (Some 2500),
        NoteRefused ''hall'' ''duplicate'', NoteRefused ''hall'' ''expired'']"
  obtain h where h: "dict_get (snd (run do_health [] ?es)) ''hall'' = Some h" "behind h"
      "refused_count h = 3"
    by (simp add: note_refused_def note_waited_def waited_on_def Let_def health_entry_def behind_ms_def
        new_health_def)
  with health_page_adds_up [OF h(1)] show ?thesis by simp
qed

end
