(* ===== verification/Decoder.thy ===== *)
theory Decoder
  imports Prelude
begin

section \<open>Streams that arrive in pieces\<close>

text \<open>
  What the two byte-stream readers of the hub have in common: the USB link of a board and the
  sound of a satellite. A reader keeps what it has not used; it is given bytes in whatever sizes
  they arrive, and takes one item after another until it has to wait for more or refuses.
\<close>

text \<open>A field of a header: so many bytes from an offset.\<close>

definition field :: "nat \<Rightarrow> nat \<Rightarrow> byte list \<Rightarrow> nat" where
  "field from n bs = le_nat (take n (drop from bs))"

lemma field_append: "from + n \<le> length p \<Longrightarrow> field from n (p @ d) = field from n p"
  by (simp add: field_def)

lemma field_at: "length a = from \<Longrightarrow> x < 256 ^ n \<Longrightarrow> field from n (a @ le_bytes n x @ rest) = x"
  by (simp add: field_def le_nat_le_bytes)

datatype ('f, 'e) pulled = Stall | Item 'f | Refuse 'e

text \<open>
  Taking items until the reader waits or refuses: what came out, whether it refused, and the
  reader after that. The first argument bounds the number of items.
\<close>

fun drain :: "('s \<Rightarrow> ('f, 'e) pulled \<times> 's) \<Rightarrow> nat \<Rightarrow> 's \<Rightarrow> 'f list \<times> 'e option \<times> 's" where
  "drain pull 0 s = ([], None, s)"
| "drain pull (Suc n) s =
     (case pull s of
        (Stall, s') \<Rightarrow> ([], None, s')
      | (Refuse e, s') \<Rightarrow> ([], Some e, s')
      | (Item f, s') \<Rightarrow>
          (let (fs, e, t) = drain pull n s' in (f # fs, e, t)))"

text \<open>
  The contract of such a reader. An item or a refusal does not depend on what follows it; a
  reader that waits may already have thrown away what cannot begin an item, and that makes no
  difference to what comes next; an item uses up something.
\<close>

locale chunked_decoder =
  fixes pull :: "'s \<Rightarrow> ('f, 'e) pulled \<times> 's"
    and push :: "'b list \<Rightarrow> 's \<Rightarrow> 's"
    and room :: "'s \<Rightarrow> nat"
  assumes push_nil: "push [] s = s"
    and push_push: "push b (push a s) = push (a @ b) s"
    and push_room: "room (push d s) = room s + length d"
    and item_stable: "pull s = (Item f, s') \<Longrightarrow> pull (push d s) = (Item f, push d s')"
    and refuse_stable: "pull s = (Refuse e, s') \<Longrightarrow> pull (push d s) = (Refuse e, push d s')"
    and stall_early: "pull s = (Stall, s') \<Longrightarrow> pull (push d s) = pull (push d s')"
    and item_shrinks: "pull s = (Item f, s') \<Longrightarrow> room s' < room s"
    and stall_shrinks: "pull s = (Stall, s') \<Longrightarrow> room s' \<le> room s"
begin

definition feeding :: "'b list \<Rightarrow> 's \<Rightarrow> 'f list \<times> 'e option \<times> 's" where
  "feeding d s = drain pull (Suc (room (push d s))) (push d s)"

lemma drain_enough: "room s < n \<Longrightarrow> room s < m \<Longrightarrow> drain pull n s = drain pull m s"
proof (induction n arbitrary: s m)
  case 0
  then show ?case by simp
next
  case (Suc n)
  then obtain m' where m: "m = Suc m'" by (cases m) auto
  obtain r s' where p: "pull s = (r, s')" by (cases "pull s")
  show ?case
  proof (cases r)
    case (Item f)
    with p have "room s' < room s" by (simp add: item_shrinks)
    with Suc.prems m have "drain pull n s' = drain pull m' s'" by (intro Suc.IH) simp_all
    with p Item m show ?thesis by simp
  qed (use p m in simp_all)
qed

lemma drain_more:
  assumes "drain pull n s = (fs, e, s1)" and "room s < n" and "room (push b s) < m"
    and "room (push b s1) < k"
  shows "drain pull m (push b s) =
    (case e of
       Some x \<Rightarrow> (fs, Some x, push b s1)
     | None \<Rightarrow> (let (gs, e2, s2) = drain pull k (push b s1) in (fs @ gs, e2, s2)))"
  using assms
proof (induction n arbitrary: s fs m)
  case 0
  then show ?case by simp
next
  case (Suc n)
  then obtain m' where m: "m = Suc m'" by (cases m) auto
  obtain r s' where p: "pull s = (r, s')" by (cases "pull s")
  show ?case
  proof (cases r)
    case Stall
    with p Suc.prems have s: "fs = []" "e = None" "s1 = s'" by auto
    have "drain pull m (push b s) = drain pull m (push b s')"
      using m p Stall stall_early [of s s' b] by simp
    also have "\<dots> = drain pull k (push b s')"
      using Suc.prems(3,4) s stall_shrinks [of s s'] p Stall by (intro drain_enough) (auto simp: push_room)
    finally show ?thesis using s by (simp add: split_beta)
  next
    case (Refuse x)
    with p Suc.prems have "fs = []" "e = Some x" "s1 = s'" by auto
    with p Refuse m show ?thesis by (simp add: refuse_stable)
  next
    case (Item f)
    with p have less: "room s' < room s" by (simp add: item_shrinks)
    obtain fs' where fs: "drain pull n s' = (fs', e, s1)" "fs = f # fs'"
      using Suc.prems(1) p Item by (auto split: prod.splits)
    have "drain pull m' (push b s') =
      (case e of
         Some x \<Rightarrow> (fs', Some x, push b s1)
       | None \<Rightarrow> (let (gs, e2, s2) = drain pull k (push b s1) in (fs' @ gs, e2, s2)))"
      using less Suc.prems m by (intro Suc.IH [OF fs(1)]) (auto simp: push_room)
    with p Item m fs show ?thesis
      by (cases e) (simp_all add: item_stable split_beta)
  qed
qed

text \<open>Cutting what is fed in two changes nothing.\<close>

lemma feeding_append:
  "feeding (a @ b) s =
     (let (fs, e, s1) = feeding a s
      in case e of
           Some x \<Rightarrow> (fs, Some x, push b s1)
         | None \<Rightarrow> (let (gs, e2, s2) = feeding b s1 in (fs @ gs, e2, s2)))"
proof -
  obtain fs e s1 where a: "feeding a s = (fs, e, s1)" by (cases "feeding a s")
  have "feeding (a @ b) s =
    (case e of
       Some x \<Rightarrow> (fs, Some x, push b s1)
     | None \<Rightarrow> (let (gs, e2, s2) = drain pull (Suc (room (push b s1))) (push b s1)
                in (fs @ gs, e2, s2)))"
    unfolding feeding_def push_push [symmetric]
    by (rule drain_more [OF a [unfolded feeding_def]]) simp_all
  then show ?thesis
    unfolding a by (cases e) (simp_all add: feeding_def [of b s1] del: drain.simps)
qed

fun feeds :: "'b list list \<Rightarrow> 's \<Rightarrow> 'f list \<times> 'e option \<times> 's" where
  "feeds [] s = ([], None, s)"
| "feeds (d # ds) s =
     (let (fs, e, s1) = feeding d s
      in case e of
           Some x \<Rightarrow> (fs, Some x, s1)
         | None \<Rightarrow> (let (gs, e2, s2) = feeds ds s1 in (fs @ gs, e2, s2)))"

text \<open>
  However a stream is cut into pieces: as long as nothing is refused, the pieces give the items
  of the whole and leave the reader where the whole leaves it. The first piece has to be taken
  from a reader that had already drained what it held.
\<close>

lemma feeds_concat:
  assumes "feeding [] s = ([], None, s)" and "feeding (concat ds) s = (fs, None, t)"
  shows "feeds ds s = (fs, None, t)"
  using assms
proof (induction ds arbitrary: s fs)
  case Nil
  then show ?case by simp
next
  case (Cons d ds)
  obtain gs e s1 where d: "feeding d s = (gs, e, s1)" by (cases "feeding d s")
  with Cons.prems(2) have e: "e = None"
    using feeding_append [of d "concat ds" s] by (cases e) (auto simp: split_beta)
  obtain hs e2 s2 where c: "feeding (concat ds) s1 = (hs, e2, s2)"
    by (cases "feeding (concat ds) s1")
  with Cons.prems(2) d e have w: "fs = gs @ hs" "e2 = None" "s2 = t"
    using feeding_append [of d "concat ds" s] by simp_all
  have "feeding [] s1 = ([], None, s1)"
    using feeding_append [of d "[]" s] d e by (auto split: prod.splits option.splits)
  with c w have "feeds ds s1 = (hs, None, t)" by (intro Cons.IH) simp_all
  with d e w show ?case by simp
qed

end

end
