(* ===== verification/Link.thy ===== *)
theory Link
  imports Decoder
begin

section \<open>Frames over a USB cable\<close>

text \<open>
  \<open>src/sentry_mode/satellites/link.py\<close>: packing a frame, and the reader that finds frames in
  whatever the port delivers. Bytes are 8-bit words; the header is \<open>struct\<close>'s
  \<open><4sBBBIH\<close>, 13 bytes little-endian. CRC-32 is written out bit by bit (polynomial
  \<open>EDB88320\<close>), as \<open>zlib.crc32\<close> computes it.
\<close>

unbundle bit_operations_syntax

definition link_magic :: "byte list" where
  "link_magic = [0x53, 0x4D, 0x42, 0x31]"

definition link_version :: nat where "link_version = 1"
definition header_size :: nat where "header_size = 13"
definition trailer_size :: nat where "trailer_size = 4"
definition max_payload :: nat where "max_payload = 2048"

datatype carries =
  Nothing | Events | State | HealthReport | Acks | Commands | Time | Hello | Said | Typed

fun carries_code :: "carries \<Rightarrow> nat" where
  "carries_code Nothing = 0"
| "carries_code Events = 1"
| "carries_code State = 2"
| "carries_code HealthReport = 3"
| "carries_code Acks = 4"
| "carries_code Commands = 5"
| "carries_code Time = 6"
| "carries_code Hello = 7"
| "carries_code Said = 8"
| "carries_code Typed = 9"

definition all_carries :: "carries list" where
  "all_carries =
     [Nothing, Events, State, HealthReport, Acks, Commands, Time, Hello, Said, Typed]"

text \<open>\<open>Carries(n)\<close>: the member with that number; \<open>None\<close> is the \<open>ValueError\<close>.\<close>

definition carries_of :: "nat \<Rightarrow> carries option" where
  "carries_of n = List.find (\<lambda>c. carries_code c = n) all_carries"

definition from_the_node :: "carries list" where
  "from_the_node = [Events, State, HealthReport, Acks, Said]"

definition to_the_node :: "carries list" where
  "to_the_node = [Commands, Time, Hello, Typed]"

definition link_channels :: "(carries, string) dict" where
  "link_channels =
     [(Events, ''events''), (State, ''state''), (HealthReport, ''health''), (Acks, ''acks''),
      (Commands, ''commands'')]"

datatype link_error = TooLong nat | CarriesNothing nat | NotFromThisSide carries | BadCounter

record frame =
  fr_carries :: carries
  fr_counter :: nat
  fr_payload :: "byte list"

definition frame_channel :: "frame \<Rightarrow> string option" where
  "frame_channel f = dict_get link_channels (fr_carries f)"

subsection \<open>The checksum\<close>

definition crc_bit :: "32 word \<Rightarrow> 32 word" where
  "crc_bit c = (if bit c 0 then drop_bit 1 c XOR 0xEDB88320 else drop_bit 1 c)"

definition crc_byte :: "byte \<Rightarrow> 32 word \<Rightarrow> 32 word" where
  "crc_byte b c = (crc_bit ^^ 8) (c XOR ucast b)"

definition checksum :: "byte list \<Rightarrow> 32 word" where
  "checksum bs = NOT (fold crc_byte bs (NOT 0))"

subsection \<open>Packing\<close>

definition frame_head :: "carries \<Rightarrow> nat \<Rightarrow> nat \<Rightarrow> byte list" where
  "frame_head c counter len =
     link_magic @ le_bytes 1 link_version @ le_bytes 1 (carries_code c) @ le_bytes 1 0 @
     le_bytes 4 counter @ le_bytes 2 len"

definition pack_frame :: "frame \<Rightarrow> link_error + byte list" where
  "pack_frame f =
     (if length (fr_payload f) > max_payload then Inl (TooLong (length (fr_payload f)))
      else if fr_counter f \<ge> 2 ^ 32 then Inl BadCounter
      else
        (let body = frame_head (fr_carries f) (fr_counter f) (length (fr_payload f)) @ fr_payload f
         in Inr (body @ le_bytes 4 (unat (checksum body)))))"

subsection \<open>Reading\<close>

record reader =
  expect_from_the_node :: bool
  rd_frames :: nat
  rd_discarded :: nat
  rd_missed :: nat
  rd_pending :: "byte list"
  rd_counter :: "nat option"

definition new_reader :: "bool \<Rightarrow> reader" where
  "new_reader node =
     \<lparr>expect_from_the_node = node, rd_frames = 0, rd_discarded = 0, rd_missed = 0,
      rd_pending = [], rd_counter = None\<rparr>"

definition discard :: "nat \<Rightarrow> reader \<Rightarrow> reader" where
  "discard n r = r\<lparr>rd_discarded := rd_discarded r + n, rd_pending := drop n (rd_pending r)\<rparr>"

text \<open>\<open>bytes.find\<close>.\<close>

fun find_bytes :: "byte list \<Rightarrow> byte list \<Rightarrow> nat option" where
  "find_bytes m [] = (if m = [] then Some 0 else None)"
| "find_bytes m (b # bs) =
     (if take (length m) (b # bs) = m then Some 0 else map_option Suc (find_bytes m bs))"

definition accept_frame ::
  "nat \<Rightarrow> nat \<Rightarrow> byte list \<Rightarrow> reader \<Rightarrow> (frame, link_error) pulled \<times> reader" where
  "accept_frame code counter payload r =
     (case carries_of code of
        None \<Rightarrow> (Refuse (CarriesNothing code), r)
      | Some what \<Rightarrow>
          if what \<notin> set (if expect_from_the_node r then from_the_node else to_the_node)
          then (Refuse (NotFromThisSide what), r)
          else
            (let missed = (case rd_counter r of
                   None \<Rightarrow> 0
                 | Some c \<Rightarrow> nat ((int counter - int c - 1) mod 2 ^ 32))
             in (Item \<lparr>fr_carries = what, fr_counter = counter, fr_payload = payload\<rparr>,
                 r\<lparr>rd_missed := rd_missed r + missed, rd_counter := Some counter,
                   rd_frames := rd_frames r + 1\<rparr>)))"

function take_frame :: "reader \<Rightarrow> (frame, link_error) pulled \<times> reader" where
  "take_frame r0 =
     (case find_bytes link_magic (rd_pending r0) of
        None \<Rightarrow>
          (Stall, if length (rd_pending r0) > 3 then discard (length (rd_pending r0) - 3) r0 else r0)
      | Some start \<Rightarrow>
          (let r = discard start r0; p = rd_pending r in
           if length p < header_size then (Stall, r)
           else
             (let len = field 11 2 p; end_at = header_size + len + trailer_size in
              if field 4 1 p \<noteq> link_version \<or> field 6 1 p \<noteq> 0 \<or> len > max_payload
              then take_frame (discard 4 r)
              else if length p < end_at then (Stall, r)
              else if field (header_size + len) 4 p \<noteq> unat (checksum (take (header_size + len) p))
              then take_frame (discard 4 r)
              else
                accept_frame (field 5 1 p) (field 7 4 p) (take len (drop header_size p))
                  (r\<lparr>rd_pending := drop end_at p\<rparr>))))"
  by pat_completeness auto
termination
  by (relation "measure (\<lambda>r. length (rd_pending r))") (auto simp: discard_def header_size_def)

declare take_frame.simps [simp del]

definition push_bytes :: "byte list \<Rightarrow> reader \<Rightarrow> reader" where
  "push_bytes d r = r\<lparr>rd_pending := rd_pending r @ d\<rparr>"

text \<open>\<open>feed\<close>: what is raised replaces the frames that were already taken in the same call.\<close>

definition feed_link :: "byte list \<Rightarrow> reader \<Rightarrow> (link_error + frame list) \<times> reader" where
  "feed_link d r =
     (let r1 = push_bytes d r in
      case drain take_frame (Suc (length (rd_pending r1))) r1 of
        (fs, None, r2) \<Rightarrow> (Inr fs, r2)
      | (fs, Some e, r2) \<Rightarrow> (Inl e, r2))"

subsection \<open>What follows an item does not matter\<close>

declare One_nat_def [simp del]

lemma find_bytes_bound: "find_bytes m bs = Some k \<Longrightarrow> k + length m \<le> length bs"
proof (induction bs arbitrary: k)
  case Nil
  then show ?case by (simp split: if_splits)
next
  case (Cons b bs)
  show ?case
  proof (cases "take (length m) (b # bs) = m")
    case True
    then have "length m \<le> length (b # bs)" by (metis nat_le_linear take_all length_take min.absorb_iff2)
    with True Cons.prems show ?thesis by simp
  next
    case False
    with Cons show ?thesis by auto
  qed
qed

lemma find_bytes_at: "find_bytes m bs = Some k \<Longrightarrow> find_bytes m (drop k bs) = Some 0"
proof (induction bs arbitrary: k)
  case (Cons b bs)
  then show ?case by (cases "take (length m) (b # bs) = m") auto
qed (simp split: if_splits)

lemma find_bytes_append: "find_bytes m bs = Some k \<Longrightarrow> find_bytes m (bs @ d) = Some k"
proof (induction bs arbitrary: k)
  case Nil
  then show ?case by (cases d) (auto split: if_splits)
next
  case (Cons b bs)
  have "length m \<le> length (b # bs)" using find_bytes_bound [OF Cons.prems] by simp
  then have t: "take (length m) (b # bs @ d) = take (length m) (b # bs)"
    using take_append [of "length m" "b # bs" d] by simp
  show ?case
  proof (cases "take (length m) (b # bs) = m")
    case True
    with Cons.prems t show ?thesis by simp
  next
    case False
    with Cons.prems obtain j where "find_bytes m bs = Some j" "k = Suc j" by auto
    with Cons.IH [of j] False t show ?thesis by simp
  qed
qed

lemma find_bytes_tail:
  assumes "length m = 4" "find_bytes m bs = None" "3 \<le> length bs"
  shows "find_bytes m (bs @ d) =
    map_option (\<lambda>k. k + (length bs - 3)) (find_bytes m (drop (length bs - 3) bs @ d))"
  using assms(2,3)
proof (induction bs)
  case Nil
  then show ?case by simp
next
  case (Cons b bs)
  show ?case
  proof (cases "length bs = 2")
    case True
    then show ?thesis by (simp add: option.map_ident)
  next
    case False
    with Cons.prems have l: "3 \<le> length bs" by simp
    with Cons.prems assms(1) have n: "take (length m) (b # bs @ d) \<noteq> m" "find_bytes m bs = None"
      by (auto split: if_splits)
    with Cons.IH l have "find_bytes m ((b # bs) @ d) = map_option Suc
      (map_option (\<lambda>k. k + (length bs - 3)) (find_bytes m (drop (length bs - 3) bs @ d)))" by simp
    moreover have "length (b # bs) - 3 = Suc (length bs - 3)" using l by simp
    ultimately show ?thesis by (simp add: option.map_comp comp_def)
  qed
qed

lemma link_magic_length [simp]: "length link_magic = 4"
  by (simp add: link_magic_def)

lemma discard_simps [simp]:
  "rd_pending (discard n r) = drop n (rd_pending r)" "discard 0 r = r"
  by (simp_all add: discard_def)

lemma discard_discard: "discard m (discard n r) = discard (n + m) r"
  by (simp add: discard_def ac_simps)

lemma push_simps [simp]: "rd_pending (push_bytes d r) = rd_pending r @ d"
  by (simp add: push_bytes_def)

lemma discard_push: "n \<le> length (rd_pending r) \<Longrightarrow> discard n (push_bytes d r) = push_bytes d (discard n r)"
  by (simp add: discard_def push_bytes_def)

lemma take_aligned:
  assumes "find_bytes link_magic (rd_pending r) = Some 0"
  shows "take_frame r =
     (let p = rd_pending r in
      if length p < header_size then (Stall, r)
      else
        (let len = field 11 2 p; end_at = header_size + len + trailer_size in
         if field 4 1 p \<noteq> link_version \<or> field 6 1 p \<noteq> 0 \<or> len > max_payload
         then take_frame (discard 4 r)
         else if length p < end_at then (Stall, r)
         else if field (header_size + len) 4 p \<noteq> unat (checksum (take (header_size + len) p))
         then take_frame (discard 4 r)
         else
           accept_frame (field 5 1 p) (field 7 4 p) (take len (drop header_size p))
             (r\<lparr>rd_pending := drop end_at p\<rparr>)))"
  by (subst take_frame.simps) (simp add: assms Let_def)

lemma take_seek:
  assumes "find_bytes link_magic (rd_pending r) = Some k"
  shows "take_frame r = take_frame (discard k r)"
proof -
  have "find_bytes link_magic (rd_pending (discard k r)) = Some 0"
    using find_bytes_at [OF assms] by simp
  then show ?thesis
    using assms by (subst (1 2) take_frame.simps) (simp add: Let_def)
qed

lemma accept_push:
  "accept_frame code c payload (push_bytes d r) =
     (fst (accept_frame code c payload r), push_bytes d (snd (accept_frame code c payload r)))"
  by (simp add: accept_frame_def push_bytes_def Let_def split: option.splits)

lemma accept_not_stall: "fst (accept_frame code c payload r) \<noteq> Stall"
  by (simp add: accept_frame_def Let_def split: option.splits)

definition stable :: "byte list \<Rightarrow> reader \<Rightarrow> bool" where
  "stable d r \<longleftrightarrow>
     (if fst (take_frame r) = Stall
      then take_frame (push_bytes d r) = take_frame (push_bytes d (snd (take_frame r)))
      else take_frame (push_bytes d r) = (fst (take_frame r), push_bytes d (snd (take_frame r))))"

lemma stable_aligned:
  assumes a: "find_bytes link_magic (rd_pending r) = Some 0"
    and ih: "4 \<le> length (rd_pending r) \<Longrightarrow> stable d (discard 4 r)"
  shows "stable d r"
proof -
  let ?p = "rd_pending r" and ?r = "push_bytes d r"
  let ?len = "field 11 2 ?p"
  have four: "4 \<le> length ?p" using find_bytes_bound [OF a] by simp
  have skip: "take_frame (discard 4 ?r) = take_frame (push_bytes d (discard 4 r))"
    using four by (simp add: discard_push)
  have a': "find_bytes link_magic (rd_pending ?r) = Some 0"
    using find_bytes_append [OF a] by simp
  show ?thesis
  proof (cases "length ?p < header_size")
    case True
    then show ?thesis by (simp add: stable_def take_aligned [OF a] Let_def)
  next
    case hs: False
    then have h: "13 \<le> length ?p" by (simp add: header_size_def)
    have f: "field 11 2 (?p @ d) = ?len" "field 4 1 (?p @ d) = field 4 1 ?p"
      "field 6 1 (?p @ d) = field 6 1 ?p" "field 5 1 (?p @ d) = field 5 1 ?p"
      "field 7 4 (?p @ d) = field 7 4 ?p" using h by (simp_all add: field_append)
    show ?thesis
    proof (cases "field 4 1 ?p \<noteq> link_version \<or> field 6 1 ?p \<noteq> 0 \<or> ?len > max_payload")
      case True
      then have "take_frame r = take_frame (discard 4 r)" "take_frame ?r = take_frame (discard 4 ?r)"
        using hs by (simp_all add: take_aligned [OF a] take_aligned [OF a'] f Let_def)
      with ih [OF four] skip show ?thesis by (simp add: stable_def)
    next
      case ok: False
      show ?thesis
      proof (cases "length ?p < header_size + ?len + trailer_size")
        case True
        with ok hs show ?thesis by (simp add: stable_def take_aligned [OF a] Let_def)
      next
        case long: False
        have g: "field (header_size + ?len) 4 (?p @ d) = field (header_size + ?len) 4 ?p"
          "take (header_size + ?len) (?p @ d) = take (header_size + ?len) ?p"
          "take ?len (drop header_size (?p @ d)) = take ?len (drop header_size ?p)"
          "drop (header_size + ?len + trailer_size) (?p @ d) =
             drop (header_size + ?len + trailer_size) ?p @ d"
          using long h by (simp_all add: field_append trailer_size_def header_size_def)
        show ?thesis
        proof (cases "field (header_size + ?len) 4 ?p = unat (checksum (take (header_size + ?len) ?p))")
          case False
          then have "take_frame r = take_frame (discard 4 r)"
            "take_frame ?r = take_frame (discard 4 ?r)"
            using hs ok long
            by (simp_all add: take_aligned [OF a] take_aligned [OF a'] f g Let_def)
          with ih [OF four] skip show ?thesis by (simp add: stable_def)
        next
          case True
          let ?r1 = "r\<lparr>rd_pending := drop (header_size + ?len + trailer_size) ?p\<rparr>"
          have t: "take_frame r =
              accept_frame (field 5 1 ?p) (field 7 4 ?p) (take ?len (drop header_size ?p)) ?r1"
            using True ok long hs by (simp add: take_aligned [OF a] Let_def)
          have "take_frame ?r =
              accept_frame (field 5 1 ?p) (field 7 4 ?p) (take ?len (drop header_size ?p))
                (push_bytes d ?r1)"
            using True ok long hs
            by (simp add: take_aligned [OF a'] f g Let_def) (simp add: push_bytes_def)
          with t show ?thesis by (simp add: stable_def accept_push accept_not_stall)
        qed
      qed
    qed
  qed
qed

lemma stable_all: "stable d r"
proof (induction "length (rd_pending r)" arbitrary: r rule: less_induct)
  case less
  show ?case
  proof (cases "find_bytes link_magic (rd_pending r)")
    case (Some k)
    let ?r = "discard k r"
    have k: "k + 4 \<le> length (rd_pending r)" using find_bytes_bound [OF Some] by simp
    have "stable d ?r"
    proof (rule stable_aligned)
      show "find_bytes link_magic (rd_pending ?r) = Some 0" using find_bytes_at [OF Some] by simp
      show "stable d (discard 4 ?r)" using k by (intro less) simp
    qed
    moreover have "take_frame (push_bytes d r) = take_frame (push_bytes d ?r)"
      using take_seek [of "push_bytes d r" k] find_bytes_append [OF Some] k
      by (simp add: discard_push)
    ultimately show ?thesis using take_seek [OF Some] by (simp add: stable_def)
  next
    case None
    let ?l = "length (rd_pending r)"
    show ?thesis
    proof (cases "?l > 3")
      case False
      then have "take_frame r = (Stall, r)" using None by (subst take_frame.simps) simp
      then show ?thesis by (simp add: stable_def)
    next
      case True
      let ?r = "discard (?l - 3) r"
      have t: "take_frame r = (Stall, ?r)" using None True by (subst take_frame.simps) simp
      have f: "find_bytes link_magic (rd_pending (push_bytes d r)) =
          map_option (\<lambda>k. k + (?l - 3)) (find_bytes link_magic (rd_pending (push_bytes d ?r)))"
        using find_bytes_tail [of link_magic "rd_pending r" d] None True by simp
      have dp: "discard (k + (?l - 3)) (push_bytes d r) = discard k (push_bytes d ?r)" for k
      proof -
        have "discard (k + (?l - 3)) (push_bytes d r) = discard k (discard (?l - 3) (push_bytes d r))"
          by (simp add: discard_discard add.commute)
        then show ?thesis by (simp add: discard_push)
      qed
      have "take_frame (push_bytes d r) = take_frame (push_bytes d ?r)"
      proof (cases "find_bytes link_magic (rd_pending (push_bytes d ?r))")
        case (Some k)
        with f take_seek [of "push_bytes d r" "k + (?l - 3)"] take_seek [of "push_bytes d ?r" k] dp
        show ?thesis by simp
      next
        case n: None
        have "take_frame (push_bytes d ?r) =
            (Stall, if length d > 0 then discard (length d) (push_bytes d ?r) else push_bytes d ?r)"
          using n True by (subst take_frame.simps) simp
        moreover have "take_frame (push_bytes d r) =
            (Stall, discard (length d + (?l - 3)) (push_bytes d r))"
          using n f True by (subst take_frame.simps) (simp add: add.commute)
        ultimately show ?thesis using dp [of "length d"] by (cases d) simp_all
      qed
      with t show ?thesis by (simp add: stable_def)
    qed
  qed
qed

lemma take_frame_room:
  "length (rd_pending (snd (take_frame r))) \<le> length (rd_pending r) \<and>
   (fst (take_frame r) = Item f \<longrightarrow> length (rd_pending (snd (take_frame r))) < length (rd_pending r))"
proof (induction "length (rd_pending r)" arbitrary: r rule: less_induct)
  case less
  show ?case
  proof (cases "find_bytes link_magic (rd_pending r)")
    case None
    then show ?thesis by (subst (1 2 3) take_frame.simps) simp
  next
    case (Some k)
    let ?r = "discard k r" and ?p = "drop k (rd_pending r)"
    have a: "find_bytes link_magic (rd_pending ?r) = Some 0" using find_bytes_at [OF Some] by simp
    have k: "k + 4 \<le> length (rd_pending r)" using find_bytes_bound [OF Some] by simp
    have ih: "length (rd_pending (snd (take_frame (discard 4 ?r)))) < length (rd_pending r)"
    proof -
      have l: "length (rd_pending (discard 4 ?r)) < length (rd_pending r)" using k by simp
      from less [OF l] l show ?thesis by linarith
    qed
    have ac: "rd_pending (snd (accept_frame c n q s)) = rd_pending s" for c n q s
      by (simp add: accept_frame_def Let_def split: option.splits)
    show ?thesis
      unfolding take_seek [OF Some] take_aligned [OF a] Let_def
      using ih k by (auto simp: ac header_size_def trailer_size_def)
  qed
qed

interpretation link: chunked_decoder take_frame push_bytes "\<lambda>r. length (rd_pending r)"
proof (unfold_locales, goal_cases)
  case (1 s)
  then show ?case by (simp add: push_bytes_def)
next
  case (2 b a s)
  then show ?case by (simp add: push_bytes_def)
next
  case (3 d s)
  then show ?case by simp
next
  case (4 s f s' d)
  with stable_all [of d s] show ?case by (simp add: stable_def)
next
  case (5 s e s' d)
  with stable_all [of d s] show ?case by (simp add: stable_def)
next
  case (6 s s' d)
  with stable_all [of d s] show ?case by (simp add: stable_def)
next
  case (7 s f s')
  with take_frame_room [of s f] show ?case by simp
next
  case (8 s s')
  with take_frame_room [of s] show ?case by simp
qed

subsection \<open>Frames that were packed come out\<close>

lemma carries_of_code [simp]: "carries_of (carries_code c) = Some c"
  by (cases c) (simp_all add: carries_of_def all_carries_def)

lemma carries_code_bound: "carries_code c < 256"
  by (cases c) simp_all

definition sendable :: "bool \<Rightarrow> frame \<Rightarrow> bool" where
  "sendable node f \<longleftrightarrow>
     length (fr_payload f) \<le> max_payload \<and> fr_counter f < 2 ^ 32 \<and>
     fr_carries f \<in> set (if node then from_the_node else to_the_node)"

definition packed :: "frame \<Rightarrow> byte list" where
  "packed f =
     (let body = frame_head (fr_carries f) (fr_counter f) (length (fr_payload f)) @ fr_payload f
      in body @ le_bytes 4 (unat (checksum body)))"

lemma pack_frame_packed: "sendable node f \<Longrightarrow> pack_frame f = Inr (packed f)"
  by (simp add: sendable_def pack_frame_def packed_def Let_def)

text \<open>What the reader has become when a frame was taken.\<close>

definition received :: "frame \<Rightarrow> reader \<Rightarrow> reader" where
  "received f r =
     r\<lparr>rd_missed := rd_missed r +
         (case rd_counter r of
            None \<Rightarrow> 0
          | Some c \<Rightarrow> nat ((int (fr_counter f) - int c - 1) mod 2 ^ 32)),
       rd_counter := Some (fr_counter f), rd_frames := rd_frames r + 1\<rparr>"

lemma take_packed_accept:
  assumes ok: "length (fr_payload f) \<le> max_payload" "fr_counter f < 2 ^ 32"
    and p: "rd_pending r = packed f @ rest"
  shows "take_frame r =
    accept_frame (carries_code (fr_carries f)) (fr_counter f) (fr_payload f) (r\<lparr>rd_pending := rest\<rparr>)"
proof -
  let ?c = "fr_carries f" and ?n = "fr_counter f" and ?len = "length (fr_payload f)"
  let ?head = "frame_head ?c ?n ?len"
  let ?body = "?head @ fr_payload f"
  let ?p = "packed f @ rest"
  have len: "length ?head = header_size"
    by (simp add: frame_head_def header_size_def)
  have l: "?len < 256 ^ 2" "?len \<le> max_payload" "?n < 256 ^ 4"
    using ok by (simp_all add: max_payload_def)
  have u: "unat (checksum ?body) < 256 ^ 4"
    using unsigned_less [of "checksum ?body", where ?'a = nat] by simp
  have shape: "?p = link_magic @ le_bytes 1 link_version @ le_bytes 1 (carries_code ?c) @
      le_bytes 1 0 @ le_bytes 4 ?n @ le_bytes 2 ?len @ fr_payload f @
      le_bytes 4 (unat (checksum ?body)) @ rest"
    by (simp add: packed_def Let_def frame_head_def)
  have f4: "field 4 1 ?p = link_version"
    unfolding shape by (rule field_at) (simp_all add: link_version_def)
  have f5: "field 5 1 ?p = carries_code ?c"
    using field_at [of "link_magic @ le_bytes 1 link_version" 5 "carries_code ?c" 1] carries_code_bound
    unfolding shape by simp
  have f6: "field 6 1 ?p = 0"
    using field_at [of "link_magic @ le_bytes 1 link_version @ le_bytes 1 (carries_code ?c)" 6 0 1]
    unfolding shape by simp
  have f7: "field 7 4 ?p = ?n"
    using field_at [of "link_magic @ le_bytes 1 link_version @ le_bytes 1 (carries_code ?c) @
      le_bytes 1 0" 7 ?n 4] l(3)
    unfolding shape by simp
  have f11: "field 11 2 ?p = ?len"
    using field_at [of "link_magic @ le_bytes 1 link_version @ le_bytes 1 (carries_code ?c) @
      le_bytes 1 0 @ le_bytes 4 ?n" 11 ?len 2] l(1)
    unfolding shape by simp
  have split: "?p = ?head @ fr_payload f @ le_bytes 4 (unat (checksum ?body)) @ rest"
    by (simp add: packed_def Let_def)
  have crc: "field (header_size + ?len) 4 ?p = unat (checksum (take (header_size + ?len) ?p))"
    using field_at [of ?body "header_size + ?len" "unat (checksum ?body)" 4 rest] u len
    unfolding split by simp
  have pay: "take ?len (drop header_size ?p) = fr_payload f"
    "drop (header_size + ?len + trailer_size) ?p = rest"
    "\<not> length ?p < header_size + ?len + trailer_size"
    using len unfolding split by (simp_all add: trailer_size_def)
  have m: "find_bytes link_magic (rd_pending r) = Some 0"
    unfolding p shape by (simp add: link_magic_def)
  show ?thesis
    unfolding take_aligned [OF m] p f4 f5 f6 f7 f11 Let_def crc pay
    using pay(3) l(2) by simp
qed

lemma take_packed:
  assumes "sendable (expect_from_the_node r) f" and "rd_pending r = packed f @ rest"
  shows "take_frame r = (Item f, received f (r\<lparr>rd_pending := rest\<rparr>))"
  using assms take_packed_accept [of f r rest]
  by (simp add: sendable_def accept_frame_def received_def Let_def)

lemma take_empty: "rd_pending r = [] \<Longrightarrow> take_frame r = (Stall, r)"
  by (subst take_frame.simps) (simp add: link_magic_def)

lemma feeding_packed:
  assumes "sendable (expect_from_the_node r) f" and "rd_pending r = []"
  shows "link.feeding (packed f) r = ([f], None, received f r)"
proof -
  have "take_frame (push_bytes (packed f) r) = (Item f, received f (push_bytes (packed f) r\<lparr>rd_pending := []\<rparr>))"
    using assms by (intro take_packed) (simp_all add: push_bytes_def)
  moreover have "push_bytes (packed f) r\<lparr>rd_pending := []\<rparr> = r"
    using assms(2) by (simp add: push_bytes_def)
  moreover have "take_frame (received f r) = (Stall, received f r)"
    using assms(2) by (intro take_empty) (simp add: received_def)
  moreover have "length (rd_pending (push_bytes (packed f) r)) = Suc (length (packed f) - 1)"
    using assms(2) by (simp add: packed_def Let_def frame_head_def)
  ultimately show ?thesis unfolding link.feeding_def by (simp split: nat.splits)
qed

lemma feeding_nothing: "rd_pending r = [] \<Longrightarrow> link.feeding [] r = ([], None, r)"
  unfolding link.feeding_def link.push_nil by (simp add: take_empty)

lemma feeding_all_packed:
  assumes "\<forall>f \<in> set fs. sendable (expect_from_the_node r) f" and "rd_pending r = []"
  shows "link.feeding (concat (map packed fs)) r = (fs, None, fold received fs r)"
  using assms
proof (induction fs arbitrary: r)
  case Nil
  then show ?case by (simp add: feeding_nothing)
next
  case (Cons f fs)
  have "link.feeding (concat (map packed fs)) (received f r) = (fs, None, fold received fs (received f r))"
    using Cons.prems by (intro Cons.IH) (simp_all add: received_def)
  with Cons.prems feeding_packed [of r f] show ?case by (simp add: link.feeding_append)
qed

text \<open>The calls of \<open>feed\<close> one after another.\<close>

lemma feeds_as_calls:
  "link.feeds ds r = (fs, None, t) \<Longrightarrow>
     \<exists>outs. run (\<lambda>r d. feed_link d r) r ds = (map Inr outs, t) \<and> concat outs = fs"
proof (induction ds arbitrary: r fs)
  case Nil
  then show ?case by simp
next
  case (Cons d ds)
  obtain gs e s1 where d: "link.feeding d r = (gs, e, s1)" by (cases "link.feeding d r")
  with Cons.prems have e: "e = None" by (cases e) simp_all
  obtain hs e2 s2 where r: "link.feeds ds s1 = (hs, e2, s2)" by (cases "link.feeds ds s1")
  with Cons.prems d e have w: "fs = gs @ hs" "e2 = None" "s2 = t" by simp_all
  from Cons.IH [of s1 hs] r w obtain outs where
    "run (\<lambda>r d. feed_link d r) s1 ds = (map Inr outs, t)" "concat outs = hs" by auto
  moreover have "feed_link d r = (Inr gs, s1)"
    using d e unfolding feed_link_def link.feeding_def Let_def by simp
  ultimately show ?case using w by (auto intro: exI [of _ "gs # outs"])
qed

lemma pack_all:
  assumes "map pack_frame fs = map Inr parts"
    and "\<forall>f \<in> set fs. fr_carries f \<in> set (if node then from_the_node else to_the_node)"
  shows "parts = map packed fs \<and> (\<forall>f \<in> set fs. sendable node f)"
  using assms
proof (induction fs arbitrary: parts)
  case (Cons f fs)
  then obtain p ps where "parts = p # ps" "pack_frame f = Inr p" "map pack_frame fs = map Inr ps"
    by (cases parts) auto
  with Cons show ?case
    by (auto simp: pack_frame_def packed_def sendable_def Let_def split: if_splits)
qed simp

text \<open>
  C34. Whatever one side packs and is allowed to send, the other side reads, however the cable
  cuts the bytes: all frames come out, in order and with their payloads, none twice, and no byte
  is counted as thrown away.
\<close>

theorem frames_survive_any_cut:
  assumes "map pack_frame fs = map Inr parts"
    and "\<forall>f \<in> set fs. fr_carries f \<in> set (if node then from_the_node else to_the_node)"
    and "concat pieces = concat parts"
  shows "\<exists>outs r'. run (\<lambda>r d. feed_link d r) (new_reader node) pieces = (map Inr outs, r') \<and>
    concat outs = fs \<and> rd_frames r' = length fs \<and> rd_discarded r' = 0 \<and> rd_pending r' = []"
proof -
  let ?r = "new_reader node"
  from pack_all [OF assms(1,2)] have parts: "parts = map packed fs" "\<forall>f \<in> set fs. sendable node f"
    by auto
  have "link.feeding (concat pieces) ?r = (fs, None, fold received fs ?r)"
    unfolding assms(3) parts(1) using parts(2) by (intro feeding_all_packed) (simp_all add: new_reader_def)
  moreover have "link.feeding [] ?r = ([], None, ?r)"
    by (rule feeding_nothing) (simp add: new_reader_def)
  ultimately have "link.feeds pieces ?r = (fs, None, fold received fs ?r)"
    by (intro link.feeds_concat)
  then obtain outs where
    "run (\<lambda>r d. feed_link d r) ?r pieces = (map Inr outs, fold received fs ?r)" "concat outs = fs"
    using feeds_as_calls by blast
  moreover have "rd_frames (fold received fs r) = rd_frames r + length fs \<and>
      rd_discarded (fold received fs r) = rd_discarded r \<and>
      rd_pending (fold received fs r) = rd_pending r" for r
    by (induction fs arbitrary: r) (simp_all add: received_def)
  ultimately show ?thesis by (simp add: new_reader_def)
qed

definition hello_frame :: frame where
  "hello_frame = \<lparr>fr_carries = Hello, fr_counter = 0, fr_payload = []\<rparr>"

lemma frames_survive_any_cut_witness:
  "\<exists>outs r'. run (\<lambda>r d. feed_link d r) (new_reader False)
      (map (\<lambda>b. [b]) (packed hello_frame @ packed hello_frame)) = (map Inr outs, r') \<and>
    concat outs = [hello_frame, hello_frame] \<and> rd_frames r' = 2"
proof -
  have "map pack_frame [hello_frame, hello_frame] = map Inr [packed hello_frame, packed hello_frame]"
    by (simp add: hello_frame_def pack_frame_def packed_def Let_def)
  moreover have "\<forall>f \<in> set [hello_frame, hello_frame].
      fr_carries f \<in> set (if False then from_the_node else to_the_node)"
    by (simp add: hello_frame_def to_the_node_def)
  moreover have "concat (map (\<lambda>b. [b]) bs) = bs" for bs :: "byte list" by (induction bs) simp_all
  ultimately show ?thesis
    using frames_survive_any_cut [of "[hello_frame, hello_frame]"
        "[packed hello_frame, packed hello_frame]" False
        "map (\<lambda>b. [b]) (packed hello_frame @ packed hello_frame)"]
    by (auto simp: numeral_2_eq_2)
qed

text \<open>
  A refused frame takes others with it. A good frame followed by one the other side has no
  business sending is delivered when the two arrive in separate reads; when they arrive in one,
  the error is all the caller gets, though the frame was counted as received.
\<close>

lemma refused_frame_takes_others_with_it:
  assumes "sendable node f" and "length (fr_payload x) \<le> max_payload" and "fr_counter x < 2 ^ 32"
    and "fr_carries x \<notin> set (if node then from_the_node else to_the_node)"
  shows "fst (run (\<lambda>r d. feed_link d r) (new_reader node) [packed f, packed x]) =
      [Inr [f], Inl (NotFromThisSide (fr_carries x))] \<and>
    fst (run (\<lambda>r d. feed_link d r) (new_reader node) [packed f @ packed x]) =
      [Inl (NotFromThisSide (fr_carries x))] \<and>
    rd_frames (snd (run (\<lambda>r d. feed_link d r) (new_reader node) [packed f @ packed x])) = 1"
proof -
  let ?r = "new_reader node" and ?e = "NotFromThisSide (fr_carries x)"
  have f: "link.feeding (packed f) ?r = ([f], None, received f ?r)"
    using assms(1) by (intro feeding_packed) (simp_all add: new_reader_def)
  have "take_frame (push_bytes (packed x) (received f ?r)) = (Refuse ?e, received f ?r)"
    using take_packed_accept [of x "push_bytes (packed x) (received f ?r)" "[]"] assms(2-)
    by (simp add: accept_frame_def push_bytes_def received_def new_reader_def)
  then have x: "link.feeding (packed x) (received f ?r) = ([], Some ?e, received f ?r)"
    by (simp add: link.feeding_def)
  have "link.feeding (packed f @ packed x) ?r = ([f], Some ?e, received f ?r)"
    using f x by (simp add: link.feeding_append)
  moreover have "feed_link d r = (case link.feeding d r of (fs, None, t) \<Rightarrow> (Inr fs, t)
      | (fs, Some e, t) \<Rightarrow> (Inl e, t))" for d r
    by (simp only: feed_link_def link.feeding_def Let_def)
  ultimately show ?thesis using f x by (simp add: received_def new_reader_def)
qed

lemma refused_frame_takes_others_with_it_witness:
  "fst (run (\<lambda>r d. feed_link d r) (new_reader False)
      [packed hello_frame @ packed (hello_frame\<lparr>fr_carries := Events\<rparr>)]) =
    [Inl (NotFromThisSide Events)]"
proof -
  have "sendable False hello_frame"
    by (simp add: sendable_def hello_frame_def to_the_node_def)
  from refused_frame_takes_others_with_it [OF this, of "hello_frame\<lparr>fr_carries := Events\<rparr>"]
  show ?thesis by (simp add: hello_frame_def to_the_node_def)
qed

end
