(* ===== verification/Blocks.thy ===== *)
theory Blocks
  imports Decoder
begin

section \<open>Sound in blocks\<close>

text \<open>
  \<open>src/sentry_mode/audio/blocks.py\<close>, the hub's half, and
  \<open>satellite/src/sentry_satellite/audio/blocks.py\<close>, which packs what the hub unpacks. The
  header is \<open>struct\<close>'s \<open><4sBBHIQQH\<close>, 30 bytes little-endian; the samples are bytes.
\<close>

declare One_nat_def [simp del]

definition block_magic :: "byte list" where
  "block_magic = [0x53, 0x4D, 0x41, 0x31]"

definition block_version :: nat where "block_version = 1"
definition block_header_size :: nat where "block_header_size = 30"
definition sound_rate :: nat where "sound_rate = 16000"
definition sample_bytes :: nat where "sample_bytes = 2"
definition block_samples :: nat where "block_samples = sound_rate div 10"
definition max_block_samples :: nat where "max_block_samples = 2 * block_samples"
definition max_fill :: nat where "max_fill = sound_rate"

datatype block_error = NotSound | UnknownBits | BadCount nat | Overlap

record block =
  bl_sequence :: nat
  bl_first :: nat
  bl_captured :: nat
  bl_flags :: nat
  bl_pcm :: "byte list"

definition samples :: "block \<Rightarrow> nat" where
  "samples b = length (bl_pcm b) div sample_bytes"

definition pack_block :: "block \<Rightarrow> byte list" where
  "pack_block b =
     block_magic @ le_bytes 1 block_version @ le_bytes 1 (bl_flags b) @ le_bytes 2 0 @
     le_bytes 4 (bl_sequence b) @ le_bytes 8 (bl_first b) @ le_bytes 8 (bl_captured b) @
     le_bytes 2 (samples b) @ bl_pcm b"

text \<open>The satellite's \<open>pack\<close>: \<open>None\<close> is what \<open>struct\<close> or the length check raises.\<close>

definition satellite_pack :: "nat \<Rightarrow> nat \<Rightarrow> nat \<Rightarrow> byte list \<Rightarrow> bool \<Rightarrow> byte list option" where
  "satellite_pack sequence first captured pcm gap =
     (if length pcm mod sample_bytes \<noteq> 0 \<or>
         \<not> (0 < length pcm \<and> length pcm \<le> 2 * (block_samples * sample_bytes)) then None
      else if 2 ^ 64 \<le> first \<or> 2 ^ 64 \<le> captured then None
      else Some (block_magic @ le_bytes 1 block_version @ le_bytes 1 (if gap then 1 else 0) @
             le_bytes 2 0 @ le_bytes 4 (sequence mod 2 ^ 32) @ le_bytes 8 first @
             le_bytes 8 captured @ le_bytes 2 (length pcm div sample_bytes) @ pcm))"

record reassembler =
  re_blocks :: nat
  re_duplicates :: nat
  re_gaps :: nat
  re_lost :: nat
  re_filled :: nat
  re_node_gaps :: nat
  re_captured :: "nat option"
  re_pending :: "byte list"
  re_sequence :: "nat option"
  re_next :: "nat option"

definition new_reassembler :: reassembler where
  "new_reassembler =
     \<lparr>re_blocks = 0, re_duplicates = 0, re_gaps = 0, re_lost = 0, re_filled = 0,
      re_node_gaps = 0, re_captured = None, re_pending = [], re_sequence = None, re_next = None\<rparr>"

definition accept_block ::
  "block \<Rightarrow> reassembler \<Rightarrow> (byte list list, block_error) pulled \<times> reassembler" where
  "accept_block b r =
     (if (case re_sequence r of None \<Rightarrow> False | Some q \<Rightarrow> bl_sequence b \<le> q)
      then (Item [], r\<lparr>re_duplicates := re_duplicates r + 1\<rparr>)
      else if (case re_next r of None \<Rightarrow> False | Some e \<Rightarrow> bl_first b < e)
      then (Refuse Overlap, r)
      else
        (let missing = (case re_next r of None \<Rightarrow> 0 | Some e \<Rightarrow> bl_first b - e);
             fill = (0 < missing \<and> missing \<le> max_fill)
         in (Item ((if fill then [replicate (missing * sample_bytes) 0] else []) @ [bl_pcm b]),
             r\<lparr>re_sequence := Some (bl_sequence b), re_next := Some (bl_first b + samples b),
               re_blocks := re_blocks r + 1, re_captured := Some (bl_captured b),
               re_node_gaps := re_node_gaps r + (if odd (bl_flags b) then 1 else 0),
               re_gaps := re_gaps r + (if 0 < missing then 1 else 0),
               re_lost := re_lost r + missing,
               re_filled := re_filled r + (if fill then missing else 0)\<rparr>)))"

definition take_block ::
  "reassembler \<Rightarrow> (byte list list, block_error) pulled \<times> reassembler" where
  "take_block r =
     (let p = re_pending r in
      if length p < block_header_size then (Stall, r)
      else
        (let count = field 28 2 p; end_at = block_header_size + count * sample_bytes in
         if take 4 p \<noteq> block_magic \<or> field 4 1 p \<noteq> block_version then (Refuse NotSound, r)
         else if field 6 2 p \<noteq> 0 \<or> field 5 1 p div 2 \<noteq> 0 then (Refuse UnknownBits, r)
         else if \<not> (0 < count \<and> count \<le> max_block_samples) then (Refuse (BadCount count), r)
         else if length p < end_at then (Stall, r)
         else
           accept_block
             \<lparr>bl_sequence = field 8 4 p, bl_first = field 12 8 p, bl_captured = field 20 8 p,
              bl_flags = field 5 1 p, bl_pcm = drop block_header_size (take end_at p)\<rparr>
             (r\<lparr>re_pending := drop end_at p\<rparr>)))"

definition push_sound :: "byte list \<Rightarrow> reassembler \<Rightarrow> reassembler" where
  "push_sound d r = r\<lparr>re_pending := re_pending r @ d\<rparr>"

definition feed_sound ::
  "byte list \<Rightarrow> reassembler \<Rightarrow> (block_error + byte list list) \<times> reassembler" where
  "feed_sound d r =
     (let r1 = push_sound d r in
      case drain take_block (Suc (length (re_pending r1))) r1 of
        (os, None, r2) \<Rightarrow> (Inr (concat os), r2)
      | (os, Some e, r2) \<Rightarrow> (Inl e, r2))"

subsection \<open>The reader's contract\<close>

lemma push_sound_simps [simp]:
  "re_pending (push_sound d r) = re_pending r @ d"
  "re_sequence (push_sound d r) = re_sequence r" "re_next (push_sound d r) = re_next r"
  by (simp_all add: push_sound_def)

lemma accept_block_push:
  "accept_block b (push_sound d r) =
     (fst (accept_block b r), push_sound d (snd (accept_block b r)))"
  by (simp add: accept_block_def push_sound_def Let_def)

lemma accept_block_pending [simp]: "re_pending (snd (accept_block b r)) = re_pending r"
  by (simp add: accept_block_def Let_def)

lemma accept_block_not_stall [simp]: "fst (accept_block b r) \<noteq> Stall"
  by (simp add: accept_block_def Let_def)

lemma take_block_push:
  assumes "fst (take_block r) \<noteq> Stall"
  shows "take_block (push_sound d r) = (fst (take_block r), push_sound d (snd (take_block r)))"
proof -
  let ?p = "re_pending r"
  have h: "block_header_size \<le> length ?p"
    using assms by (auto simp: take_block_def Let_def split: if_splits)
  then have four: "4 \<le> length ?p" by (simp add: block_header_size_def)
  from h have f: "field 28 2 (?p @ d) = field 28 2 ?p" "field 4 1 (?p @ d) = field 4 1 ?p"
    "field 6 2 (?p @ d) = field 6 2 ?p" "field 5 1 (?p @ d) = field 5 1 ?p"
    "field 8 4 (?p @ d) = field 8 4 ?p" "field 12 8 (?p @ d) = field 12 8 ?p"
    "field 20 8 (?p @ d) = field 20 8 ?p" "take 4 (?p @ d) = take 4 ?p"
    by (simp_all add: field_append block_header_size_def)
  show ?thesis
  proof (cases "length ?p < block_header_size + field 28 2 ?p * sample_bytes")
    case True
    with assms h f show ?thesis by (auto simp: take_block_def Let_def)
  next
    case False
    then have g: "take (block_header_size + field 28 2 ?p * sample_bytes) (?p @ d) =
        take (block_header_size + field 28 2 ?p * sample_bytes) ?p"
      "drop (block_header_size + field 28 2 ?p * sample_bytes) (?p @ d) =
        drop (block_header_size + field 28 2 ?p * sample_bytes) ?p @ d" by simp_all
    have a: "accept_block b (push_sound d r\<lparr>re_pending := q @ d\<rparr>) =
        (fst (accept_block b (r\<lparr>re_pending := q\<rparr>)), push_sound d (snd (accept_block b (r\<lparr>re_pending := q\<rparr>))))"
      for b q
      using accept_block_push [of b d "r\<lparr>re_pending := q\<rparr>"] by (simp add: push_sound_def)
    show ?thesis
      using False h four by (simp add: take_block_def Let_def f g a)
  qed
qed

lemma take_block_stall: "fst (take_block r) = Stall \<Longrightarrow> snd (take_block r) = r"
  by (auto simp: take_block_def Let_def split: if_splits)

lemma take_block_room:
  "fst (take_block r) = Item f \<Longrightarrow> length (re_pending (snd (take_block r))) < length (re_pending r)"
  by (auto simp: take_block_def Let_def block_header_size_def split: if_splits)

interpretation sound: chunked_decoder take_block push_sound "\<lambda>r. length (re_pending r)"
proof (unfold_locales, goal_cases)
  case (1 s)
  then show ?case by (simp add: push_sound_def)
next
  case (2 b a s)
  then show ?case by (simp add: push_sound_def)
next
  case (3 d s)
  then show ?case by simp
next
  case (4 s f s' d)
  with take_block_push [of s d] show ?case by simp
next
  case (5 s e s' d)
  with take_block_push [of s d] show ?case by simp
next
  case (6 s s' d)
  with take_block_stall [of s] show ?case by simp
next
  case (7 s f s')
  with take_block_room [of s f] show ?case by simp
next
  case (8 s s')
  with take_block_stall [of s] show ?case by simp
qed

subsection \<open>What was packed is what plays\<close>

definition block_ok :: "block \<Rightarrow> bool" where
  "block_ok b \<longleftrightarrow>
     length (bl_pcm b) = samples b * sample_bytes \<and> 0 < samples b \<and>
     samples b \<le> max_block_samples \<and> bl_sequence b < 2 ^ 32 \<and> bl_first b < 2 ^ 64 \<and>
     bl_captured b < 2 ^ 64 \<and> bl_flags b < 2"

lemma take_packed_block:
  assumes ok: "block_ok b" and p: "re_pending r = pack_block b @ rest"
  shows "take_block r = accept_block b (r\<lparr>re_pending := rest\<rparr>)"
proof -
  let ?p = "pack_block b @ rest" and ?n = "samples b"
  let ?h = "block_magic @ le_bytes 1 block_version @ le_bytes 1 (bl_flags b) @ le_bytes 2 0 @
     le_bytes 4 (bl_sequence b) @ le_bytes 8 (bl_first b) @ le_bytes 8 (bl_captured b) @
     le_bytes 2 ?n"
  have shape: "?p = block_magic @ le_bytes 1 block_version @ le_bytes 1 (bl_flags b) @
     le_bytes 2 0 @ le_bytes 4 (bl_sequence b) @ le_bytes 8 (bl_first b) @
     le_bytes 8 (bl_captured b) @ le_bytes 2 ?n @ bl_pcm b @ rest"
    by (simp add: pack_block_def)
  have m [simp]: "length block_magic = 4" by (simp add: block_magic_def)
  have b: "bl_flags b < 256 ^ 1" "bl_sequence b < 256 ^ 4" "bl_first b < 256 ^ 8"
    "bl_captured b < 256 ^ 8" "?n < 256 ^ 2"
    using ok by (simp_all add: block_ok_def max_block_samples_def block_samples_def sound_rate_def)
  have f4: "field 4 1 ?p = block_version"
    unfolding shape by (rule field_at) (simp_all add: block_version_def)
  have f5: "field 5 1 ?p = bl_flags b"
    using field_at [of "block_magic @ le_bytes 1 block_version" 5 "bl_flags b" 1] b(1)
    unfolding shape by simp
  have f6: "field 6 2 ?p = 0"
    using field_at [of "block_magic @ le_bytes 1 block_version @ le_bytes 1 (bl_flags b)" 6 0 2]
    unfolding shape by simp
  have f8: "field 8 4 ?p = bl_sequence b"
    using field_at [of "block_magic @ le_bytes 1 block_version @ le_bytes 1 (bl_flags b) @
      le_bytes 2 0" 8 "bl_sequence b" 4] b(2)
    unfolding shape by simp
  have f12: "field 12 8 ?p = bl_first b"
    using field_at [of "block_magic @ le_bytes 1 block_version @ le_bytes 1 (bl_flags b) @
      le_bytes 2 0 @ le_bytes 4 (bl_sequence b)" 12 "bl_first b" 8] b(3)
    unfolding shape by simp
  have f20: "field 20 8 ?p = bl_captured b"
    using field_at [of "block_magic @ le_bytes 1 block_version @ le_bytes 1 (bl_flags b) @
      le_bytes 2 0 @ le_bytes 4 (bl_sequence b) @ le_bytes 8 (bl_first b)" 20 "bl_captured b" 8] b(4)
    unfolding shape by simp
  have f28: "field 28 2 ?p = ?n"
    using field_at [of "block_magic @ le_bytes 1 block_version @ le_bytes 1 (bl_flags b) @
      le_bytes 2 0 @ le_bytes 4 (bl_sequence b) @ le_bytes 8 (bl_first b) @
      le_bytes 8 (bl_captured b)" 28 ?n 2] b(5)
    unfolding shape by simp
  have h: "length ?h = block_header_size" by (simp add: block_header_size_def)
  have split: "?p = ?h @ bl_pcm b @ rest" by (simp add: pack_block_def)
  have t: "take 4 ?p = block_magic" by (simp add: pack_block_def)
  have len: "length (bl_pcm b) = ?n * sample_bytes" using ok by (simp add: block_ok_def)
  have pcm: "drop block_header_size (take (block_header_size + ?n * sample_bytes) ?p) = bl_pcm b"
    "drop (block_header_size + ?n * sample_bytes) ?p = rest"
    "\<not> length ?p < block_header_size" "\<not> length ?p < block_header_size + ?n * sample_bytes"
    unfolding split h [symmetric] using len by simp_all
  have bl: "\<lparr>bl_sequence = bl_sequence b, bl_first = bl_first b, bl_captured = bl_captured b,
      bl_flags = bl_flags b, bl_pcm = bl_pcm b\<rparr> = b" by simp
  show ?thesis
    unfolding take_block_def Let_def p f4 f5 f6 f8 f12 f20 f28 t pcm(1,2) bl
    using pcm(3,4) ok by (simp add: block_ok_def)
qed

text \<open>What one block adds to what plays: silence for a gap that is not too long, then its sound.\<close>

definition piece :: "nat option \<Rightarrow> block \<Rightarrow> byte list list" where
  "piece e b =
     (let missing = (case e of None \<Rightarrow> 0 | Some x \<Rightarrow> bl_first b - x) in
      (if 0 < missing \<and> missing \<le> max_fill then [replicate (missing * sample_bytes) 0] else []) @
      [bl_pcm b])"

fun played :: "nat option \<Rightarrow> block list \<Rightarrow> byte list" where
  "played e [] = []"
| "played e (b # bs) = concat (piece e b) @ played (Some (bl_first b + samples b)) bs"

fun in_stream :: "nat option \<Rightarrow> nat option \<Rightarrow> block list \<Rightarrow> bool" where
  "in_stream q e [] = True"
| "in_stream q e (b # bs) =
     (pred_option (\<lambda>x. x < bl_sequence b) q \<and> pred_option (\<lambda>x. x \<le> bl_first b) e \<and>
      in_stream (Some (bl_sequence b)) (Some (bl_first b + samples b)) bs)"

lemma accept_in_stream:
  assumes "pred_option (\<lambda>x. x < bl_sequence b) (re_sequence r)"
    and "pred_option (\<lambda>x. x \<le> bl_first b) (re_next r)"
  shows "\<exists>r'. accept_block b r = (Item (piece (re_next r) b), r') \<and>
    re_sequence r' = Some (bl_sequence b) \<and> re_next r' = Some (bl_first b + samples b) \<and>
    re_pending r' = re_pending r \<and> re_blocks r' = re_blocks r + 1 \<and>
    re_duplicates r' = re_duplicates r"
  using assms by (auto simp: accept_block_def piece_def Let_def split: option.splits)

lemma take_no_sound: "re_pending r = [] \<Longrightarrow> take_block r = (Stall, r)"
  by (simp add: take_block_def Let_def block_header_size_def)

lemma feeding_no_sound: "re_pending r = [] \<Longrightarrow> sound.feeding [] r = ([], None, r)"
  unfolding sound.feeding_def sound.push_nil by (simp add: take_no_sound)

lemma feeding_block:
  assumes "block_ok b" "re_pending r = []"
    "pred_option (\<lambda>x. x < bl_sequence b) (re_sequence r)"
    "pred_option (\<lambda>x. x \<le> bl_first b) (re_next r)"
  shows "\<exists>r'. sound.feeding (pack_block b) r = ([piece (re_next r) b], None, r') \<and>
    re_sequence r' = Some (bl_sequence b) \<and> re_next r' = Some (bl_first b + samples b) \<and>
    re_pending r' = [] \<and> re_blocks r' = re_blocks r + 1 \<and> re_duplicates r' = re_duplicates r"
proof -
  have same: "push_sound d r\<lparr>re_pending := []\<rparr> = r" for d
    using assms(2) by (simp add: push_sound_def)
  obtain r' where r': "accept_block b r = (Item (piece (re_next r) b), r')"
    "re_sequence r' = Some (bl_sequence b)" "re_next r' = Some (bl_first b + samples b)"
    "re_pending r' = []" "re_blocks r' = re_blocks r + 1" "re_duplicates r' = re_duplicates r"
    using accept_in_stream [OF assms(3,4)] assms(2) by auto
  have "take_block (push_sound (pack_block b) r) = accept_block b (push_sound (pack_block b) r\<lparr>re_pending := []\<rparr>)"
    using assms(1,2) by (intro take_packed_block) simp_all
  then have t: "take_block (push_sound (pack_block b) r) = (Item (piece (re_next r) b), r')"
    by (simp add: same r')
  have "length (re_pending (push_sound (pack_block b) r)) = Suc (length (pack_block b) - 1)"
    using assms(2) by (simp add: pack_block_def)
  with t r' take_no_sound [of r'] show ?thesis
    unfolding sound.feeding_def by (intro exI [of _ r']) (simp split: nat.splits)
qed

lemma feeding_blocks:
  assumes "\<forall>b \<in> set bs. block_ok b" "re_pending r = []" "in_stream (re_sequence r) (re_next r) bs"
  shows "\<exists>ps r'. sound.feeding (concat (map pack_block bs)) r = (ps, None, r') \<and>
    concat (concat ps) = played (re_next r) bs \<and> re_blocks r' = re_blocks r + length bs \<and>
    re_duplicates r' = re_duplicates r"
  using assms
proof (induction bs arbitrary: r)
  case Nil
  then show ?case by (simp add: feeding_no_sound)
next
  case (Cons b bs)
  obtain r1 where r1: "sound.feeding (pack_block b) r = ([piece (re_next r) b], None, r1)"
    "re_sequence r1 = Some (bl_sequence b)" "re_next r1 = Some (bl_first b + samples b)"
    "re_pending r1 = []" "re_blocks r1 = re_blocks r + 1" "re_duplicates r1 = re_duplicates r"
    using feeding_block [of b r] Cons.prems by auto
  obtain ps r' where "sound.feeding (concat (map pack_block bs)) r1 = (ps, None, r')"
    "concat (concat ps) = played (re_next r1) bs" "re_blocks r' = re_blocks r1 + length bs"
    "re_duplicates r' = re_duplicates r1"
    using Cons.IH [of r1] Cons.prems r1 by auto
  with r1 show ?case by (simp add: sound.feeding_append)
qed

lemma sound_as_calls:
  "sound.feeds ds r = (ps, None, t) \<Longrightarrow>
     \<exists>outs. run (\<lambda>r d. feed_sound d r) r ds = (map Inr outs, t) \<and> concat outs = concat ps"
proof (induction ds arbitrary: r ps)
  case Nil
  then show ?case by simp
next
  case (Cons d ds)
  obtain gs e s1 where d: "sound.feeding d r = (gs, e, s1)" by (cases "sound.feeding d r")
  with Cons.prems have e: "e = None" by (cases e) simp_all
  obtain hs e2 s2 where r: "sound.feeds ds s1 = (hs, e2, s2)" by (cases "sound.feeds ds s1")
  with Cons.prems d e have w: "ps = gs @ hs" "e2 = None" "s2 = t" by simp_all
  from Cons.IH [of s1 hs] r w obtain outs where
    "run (\<lambda>r d. feed_sound d r) s1 ds = (map Inr outs, t)" "concat outs = concat hs" by auto
  moreover have "feed_sound d r = (Inr (concat gs), s1)"
    using d e unfolding feed_sound_def sound.feeding_def Let_def by simp
  ultimately show ?case using w by (auto intro: exI [of _ "concat gs # outs"])
qed

record capture =
  ca_sequence :: nat
  ca_first :: nat
  ca_captured :: nat
  ca_pcm :: "byte list"
  ca_gap :: bool

definition send :: "capture \<Rightarrow> byte list option" where
  "send c = satellite_pack (ca_sequence c) (ca_first c) (ca_captured c) (ca_pcm c) (ca_gap c)"

definition as_block :: "capture \<Rightarrow> block" where
  "as_block c =
     \<lparr>bl_sequence = ca_sequence c, bl_first = ca_first c, bl_captured = ca_captured c,
      bl_flags = (if ca_gap c then 1 else 0), bl_pcm = ca_pcm c\<rparr>"

lemma even_half: "xs \<noteq> [] \<Longrightarrow> even (length xs) \<Longrightarrow> 0 < length xs div 2"
  by (cases xs) (auto elim!: evenE)

lemma send_packs:
  "send c = Some p \<Longrightarrow> ca_sequence c < 2 ^ 32 \<Longrightarrow> p = pack_block (as_block c) \<and> block_ok (as_block c)"
  by (auto simp: send_def satellite_pack_def pack_block_def as_block_def samples_def block_ok_def
      sample_bytes_def max_block_samples_def even_half split: if_splits)

lemma send_all:
  "map send cs = map Some parts \<Longrightarrow> \<forall>c \<in> set cs. ca_sequence c < 2 ^ 32 \<Longrightarrow>
     parts = map pack_block (map as_block cs) \<and> (\<forall>b \<in> set (map as_block cs). block_ok b)"
proof (induction cs arbitrary: parts)
  case (Cons c cs)
  then obtain p ps where "parts = p # ps" "send c = Some p" "map send cs = map Some ps"
    by (cases parts) auto
  with Cons send_packs [of c p] show ?case by simp
qed simp

text \<open>When no gap is longer than what is filled, what plays is as long as what was captured.\<close>

fun gaps_filled :: "nat option \<Rightarrow> block list \<Rightarrow> bool" where
  "gaps_filled e [] = True"
| "gaps_filled e (b # bs) =
     (pred_option (\<lambda>x. bl_first b - x \<le> max_fill) e \<and>
      gaps_filled (Some (bl_first b + samples b)) bs)"

lemma played_length:
  "\<lbrakk>in_stream q (Some e) bs; gaps_filled (Some e) bs; \<forall>b \<in> set bs. block_ok b; bs \<noteq> []\<rbrakk> \<Longrightarrow>
     length (played (Some e) bs) + e * sample_bytes =
       (bl_first (last bs) + samples (last bs)) * sample_bytes"
proof (induction bs arbitrary: q e)
  case Nil
  then show ?case by simp
next
  case (Cons b bs)
  have p: "length (concat (piece (Some e) b)) + e * sample_bytes =
      (bl_first b + samples b) * sample_bytes"
    using Cons.prems by (auto simp: piece_def Let_def block_ok_def algebra_simps diff_mult_distrib)
  show ?case
  proof (cases "bs = []")
    case True
    with p show ?thesis by simp
  next
    case False
    with Cons.prems Cons.IH [of "Some (bl_sequence b)" "bl_first b + samples b"] p
    show ?thesis by simp
  qed
qed

text \<open>
  C35. What a satellite packs is what the hub plays, however the connection cuts it: the sound of
  every block in order, once, with silence for what was lost between two blocks up to one second.
  When no gap was longer, what plays is exactly as long as what was captured.
\<close>

theorem what_was_captured_plays:
  assumes "map send cs = map Some parts" and "\<forall>c \<in> set cs. ca_sequence c < 2 ^ 32"
    and "in_stream None None (map as_block cs)" and "concat pieces = concat parts"
  shows "\<exists>outs r'. run (\<lambda>r d. feed_sound d r) new_reassembler pieces = (map Inr outs, r') \<and>
    concat (concat outs) = played None (map as_block cs) \<and> re_blocks r' = length cs \<and>
    re_duplicates r' = 0 \<and>
    (cs \<noteq> [] \<and> gaps_filled None (map as_block cs) \<longrightarrow>
       length (concat (concat outs)) + ca_first (hd cs) * sample_bytes =
         (ca_first (last cs) + samples (as_block (last cs))) * sample_bytes)"
proof -
  let ?bs = "map as_block cs" and ?r = new_reassembler
  from send_all [OF assms(1,2)] have parts: "parts = map pack_block ?bs" "\<forall>b \<in> set ?bs. block_ok b"
    by auto
  obtain ps r' where ps: "sound.feeding (concat (map pack_block ?bs)) ?r = (ps, None, r')"
    "concat (concat ps) = played None ?bs" "re_blocks r' = length cs" "re_duplicates r' = 0"
    using feeding_blocks [of ?bs ?r] parts(2) assms(3) by (auto simp: new_reassembler_def)
  have "sound.feeding [] ?r = ([], None, ?r)"
    by (rule feeding_no_sound) (simp add: new_reassembler_def)
  moreover have "sound.feeding (concat pieces) ?r = (ps, None, r')"
    unfolding assms(4) parts(1) by (rule ps(1))
  ultimately have "sound.feeds pieces ?r = (ps, None, r')" by (rule sound.feeds_concat)
  then obtain outs where outs:
    "run (\<lambda>r d. feed_sound d r) ?r pieces = (map Inr outs, r')" "concat outs = concat ps"
    using sound_as_calls by blast
  have "length (played None ?bs) + ca_first (hd cs) * sample_bytes =
      (ca_first (last cs) + samples (as_block (last cs))) * sample_bytes"
    if ne: "cs \<noteq> []" and filled: "gaps_filled None ?bs"
  proof -
    obtain c cs' where c: "cs = c # cs'" using ne by (cases cs) auto
    have own: "length (ca_pcm c) = samples (as_block c) * sample_bytes"
      using parts(2) c by (auto simp: block_ok_def as_block_def)
    show ?thesis
    proof (cases "cs' = []")
      case True
      with own c show ?thesis by (simp add: piece_def as_block_def algebra_simps)
    next
      case False
      with played_length [of "Some (bl_sequence (as_block c))"
          "bl_first (as_block c) + samples (as_block c)" "map as_block cs'"] assms(3) filled parts(2) c own
      show ?thesis by (simp add: piece_def last_map as_block_def algebra_simps)
    qed
  qed
  with ps outs show ?thesis by auto
qed

definition two_captures :: "capture list" where
  "two_captures =
     [\<lparr>ca_sequence = 0, ca_first = 0, ca_captured = 5, ca_pcm = [1, 0], ca_gap = False\<rparr>,
      \<lparr>ca_sequence = 1, ca_first = 2, ca_captured = 9, ca_pcm = [2, 0], ca_gap = True\<rparr>]"

lemma what_was_captured_plays_witness:
  "\<exists>outs r'. run (\<lambda>r d. feed_sound d r) new_reassembler
      (map (\<lambda>b. [b]) (concat (map (pack_block \<circ> as_block) two_captures))) = (map Inr outs, r') \<and>
    concat (concat outs) = [1, 0, 0, 0, 2, 0] \<and> re_blocks r' = 2"
proof -
  let ?parts = "map (pack_block \<circ> as_block) two_captures"
  have a: "map send two_captures = map Some ?parts"
    by (simp add: two_captures_def send_def satellite_pack_def pack_block_def as_block_def
        samples_def sample_bytes_def block_samples_def sound_rate_def)
  have b: "\<forall>c \<in> set two_captures. ca_sequence c < 2 ^ 32" by (simp add: two_captures_def)
  have c: "in_stream None None (map as_block two_captures)"
    by (simp add: two_captures_def as_block_def samples_def sample_bytes_def)
  have d: "concat (map (\<lambda>b. [b]) xs) = xs" for xs :: "byte list" by (induction xs) simp_all
  have p: "played None (map as_block two_captures) = [1, 0, 0, 0, 2, 0]"
    by (simp add: two_captures_def as_block_def piece_def samples_def sample_bytes_def
        max_fill_def sound_rate_def numeral_2_eq_2 One_nat_def)
  have n: "length two_captures = 2" by (simp add: two_captures_def)
  from what_was_captured_plays [OF a b c d, unfolded p n] show ?thesis by blast
qed

end
