(* ===== verification/Rules.thy ===== *)
theory Rules
  imports Names
begin

section \<open>The rules document\<close>

text \<open>
  \<open>src/sentry_mode/sentry/config.py\<close>: what a rules file may hold, in both versions. Each model
  is a record or a datatype; its field bounds and validators are a predicate. A validator that
  rewrites a value (a name is stripped) says of the stored document that the value is already
  rewritten.
\<close>

subsection \<open>Steps\<close>

datatype if_unavailable = FailStep | SkipStep | StopSequence

datatype preset = Natural | Demon | Chipmunk | CustomVoice

record voice_effects =
  vo_preset :: preset
  vo_pitch :: rat
  vo_volume :: "int option"

datatype act =
  Wait rat
| Photo int rat string if_unavailable
| Audio int string
| Video int bool string "string option" if_unavailable
| Tts string string int voice_effects
| Tune string int int rat
| Sound string int int
| Ssh string
| Telegram string bool

record action =
  with_previous :: bool
  act :: act

definition trigger_source :: string where
  "trigger_source = ''trigger_source''"

text \<open>\<open>SourceRef.parse(value).id\<close> is the value itself, or the \<open>ValueError\<close> of a bad name.\<close>

definition source_ok :: "string \<Rightarrow> bool" where
  "source_ok s \<longleftrightarrow> 1 \<le> length s \<and> length s \<le> 81 \<and> parse_ref s \<noteq> None"

definition camera_ok :: "string \<Rightarrow> bool" where
  "camera_ok s \<longleftrightarrow> s = trigger_source \<or> source_ok s"

definition py_space :: "char \<Rightarrow> bool" where
  "py_space c \<longleftrightarrow> of_char c \<in> {9, 10, 11, 12, 13, 28, 29, 30, 31, 32, 133, 160 :: nat}"

definition blank :: "string \<Rightarrow> bool" where
  "blank s \<longleftrightarrow> list_all py_space s"

definition stripped :: "string \<Rightarrow> string" where
  "stripped s = rev (dropWhile py_space (rev (dropWhile py_space s)))"

definition chars_in :: "string \<Rightarrow> string \<Rightarrow> bool" where
  "chars_in allowed s \<longleftrightarrow> list_all (\<lambda>c. c \<in> set allowed) s"

definition tune_names :: "string list" where
  "tune_names =
     [''chime'', ''doorbell'', ''alert'', ''siren'', ''fanfare'', ''glitch'', ''neon'', ''uplink'',
      ''sentinel'', ''blackout'']"

definition effects_ok :: "voice_effects \<Rightarrow> bool" where
  "effects_ok e \<longleftrightarrow>
     -12 \<le> vo_pitch e \<and> vo_pitch e \<le> 12 \<and> pred_option (\<lambda>v. 0 \<le> v \<and> v \<le> 100) (vo_volume e)"

definition letters_digits :: string where
  "letters_digits = upper @ lower @ digits"

definition voice_ok :: "string \<Rightarrow> bool" where
  "voice_ok v \<longleftrightarrow>
     v \<noteq> [] \<and> length v \<le> 64 \<and> hd v \<in> set letters_digits \<and>
     chars_in (letters_digits @ ''_+-'') (tl v)"

text \<open>\<open>^[a-z0-9-]{1,40}-[0-9a-f]{8}$\<close>\<close>

definition sound_id_ok :: "string \<Rightarrow> bool" where
  "sound_id_ok s \<longleftrightarrow>
     10 \<le> length s \<and> length s \<le> 49 \<and>
     chars_in (lower @ digits @ ''-'') (take (length s - 9) s) \<and>
     s ! (length s - 9) = CHR ''-'' \<and> chars_in (digits @ ''abcdef'') (drop (length s - 8) s)"

definition command_id_ok :: "string \<Rightarrow> bool" where
  "command_id_ok s \<longleftrightarrow> 1 \<le> length s \<and> length s \<le> 64 \<and> chars_in (letters_digits @ ''_-'') s"

fun act_ok :: "act \<Rightarrow> bool" where
  "act_ok (Wait t) \<longleftrightarrow> 1 / 10 \<le> t \<and> t \<le> 60"
| "act_ok (Photo n t src u) \<longleftrightarrow> n \<in> {1..20} \<and> 1 / 2 \<le> t \<and> t \<le> 60 \<and> camera_ok src"
| "act_ok (Audio d mic) \<longleftrightarrow> d \<in> {1..60} \<and> source_ok mic"
| "act_ok (Video d a src mic u) \<longleftrightarrow> d \<in> {1..60} \<and> camera_ok src \<and> pred_option source_ok mic"
| "act_ok (Tts t v r e) \<longleftrightarrow>
     1 \<le> length t \<and> length t \<le> 1000 \<and> \<not> blank t \<and> voice_ok v \<and> r \<in> {80..450} \<and> effects_ok e"
| "act_ok (Tune n r v p) \<longleftrightarrow>
     n \<in> set tune_names \<and> r \<in> {1..5} \<and> v \<in> {0..100} \<and> -24 \<le> p \<and> p \<le> 24"
| "act_ok (Sound s r v) \<longleftrightarrow> sound_id_ok s \<and> r \<in> {1..5} \<and> v \<in> {0..100}"
| "act_ok (Ssh c) \<longleftrightarrow> command_id_ok c"
| "act_ok (Telegram t q) \<longleftrightarrow> 1 \<le> length t \<and> length t \<le> 4096 \<and> \<not> blank t"

text \<open>\<open>VideoAction.microphone\<close>: the microphone a clip records, or none.\<close>

definition video_microphone :: "bool \<Rightarrow> string \<Rightarrow> string option \<Rightarrow> string option" where
  "video_microphone with_sound src mic =
     (if \<not> with_sound then None
      else case mic of
        Some m \<Rightarrow> Some m
      | None \<Rightarrow> if src = primary_camera then Some primary_microphone else None)"

definition is_wait :: "act \<Rightarrow> bool" where
  "is_wait a \<longleftrightarrow> (case a of Wait _ \<Rightarrow> True | _ \<Rightarrow> False)"

definition runnable :: "action list \<Rightarrow> bool" where
  "runnable as \<longleftrightarrow> \<not> list_all (\<lambda>a. is_wait (act a)) as"

subsection \<open>Triggers\<close>

type_synonym region = "rat \<times> rat \<times> rat \<times> rat"

definition region_ok :: "region option \<Rightarrow> bool" where
  "region_ok r \<longleftrightarrow>
     (case r of None \<Rightarrow> True
      | Some (x1, y1, x2, y2) \<Rightarrow> 0 \<le> x1 \<and> x1 < x2 \<and> x2 \<le> 1 \<and> 0 \<le> y1 \<and> y1 < y2 \<and> y2 \<le> 1)"

definition classes :: "string list" where
  "classes =
     [''person'', ''bicycle'', ''car'', ''motorcycle'', ''airplane'', ''bus'', ''train'',
      ''truck'', ''boat'', ''traffic light'', ''fire hydrant'', ''stop sign'', ''parking meter'',
      ''bench'', ''bird'', ''cat'', ''dog'', ''horse'', ''sheep'', ''cow'', ''elephant'',
      ''bear'', ''zebra'', ''giraffe'', ''backpack'', ''umbrella'', ''handbag'', ''tie'',
      ''suitcase'', ''frisbee'', ''skis'', ''snowboard'', ''sports ball'', ''kite'',
      ''baseball bat'', ''baseball glove'', ''skateboard'', ''surfboard'', ''tennis racket'',
      ''bottle'', ''wine glass'', ''cup'', ''fork'', ''knife'', ''spoon'', ''bowl'', ''banana'',
      ''apple'', ''sandwich'', ''orange'', ''broccoli'', ''carrot'', ''hot dog'', ''pizza'',
      ''donut'', ''cake'', ''chair'', ''couch'', ''potted plant'', ''bed'', ''dining table'',
      ''toilet'', ''tv'', ''laptop'', ''mouse'', ''remote'', ''keyboard'', ''cell phone'',
      ''microwave'', ''oven'', ''toaster'', ''sink'', ''refrigerator'', ''book'', ''clock'',
      ''vase'', ''scissors'', ''teddy bear'', ''hair drier'', ''toothbrush'']"

record vision_trigger =
  vt_source :: string
  vt_object :: string
  vt_confidence :: rat
  vt_count :: nat
  vt_consecutive :: nat
  vt_rearm :: rat
  vt_region :: "region option"

datatype edge = Rising | Falling | AnyEdge

record sensor_trigger =
  st_source :: string
  st_kind :: string
  st_edge :: edge

record threshold_trigger =
  tt_source :: string
  tt_kind :: string
  tt_above :: "rat option"
  tt_below :: "rat option"
  tt_hysteresis :: rat
  tt_for :: rat

record audio_trigger =
  at_source :: string
  at_kind :: string
  at_level :: "rat option"

datatype device_state = Present | Absent

record presence_trigger =
  pt_source :: string
  pt_state :: device_state
  pt_kind :: string
  pt_observers :: "string list"

datatype health_state = WentStale | WentOffline | CameOnline

record health_trigger =
  ht_node :: string
  ht_state :: health_state

datatype time_basis = HubObservation | CaptureTime

record sequence_trigger =
  sq_within :: rat
  sq_basis :: time_basis
  sq_same_zone :: bool
  sq_sensor :: sensor_trigger
  sq_vision :: vision_trigger

datatype trigger =
  VisionT vision_trigger
| SensorT sensor_trigger
| ThresholdT threshold_trigger
| SequenceT sequence_trigger
| AudioT audio_trigger
| PresenceT presence_trigger
| HealthT health_trigger

definition vision_ok :: "vision_trigger \<Rightarrow> bool" where
  "vision_ok t \<longleftrightarrow>
     source_ok (vt_source t) \<and> vt_object t \<in> set classes \<and>
     1 / 10 \<le> vt_confidence t \<and> vt_confidence t \<le> 99 / 100 \<and>
     vt_count t \<in> {1..20} \<and> vt_consecutive t \<in> {1..20} \<and>
     1 \<le> vt_rearm t \<and> vt_rearm t \<le> 300 \<and> region_ok (vt_region t)"

definition sensor_ok :: "sensor_trigger \<Rightarrow> bool" where
  "sensor_ok t \<longleftrightarrow> source_ok (st_source t) \<and> valid_kind (st_kind t)"

definition threshold_ok :: "threshold_trigger \<Rightarrow> bool" where
  "threshold_ok t \<longleftrightarrow>
     source_ok (tt_source t) \<and> valid_kind (tt_kind t) \<and> 0 \<le> tt_hysteresis t \<and>
     0 \<le> tt_for t \<and> tt_for t \<le> 3600 \<and> (tt_above t = None) \<noteq> (tt_below t = None)"

fun trigger_ok :: "trigger \<Rightarrow> bool" where
  "trigger_ok (VisionT t) = vision_ok t"
| "trigger_ok (SensorT t) = sensor_ok t"
| "trigger_ok (ThresholdT t) = threshold_ok t"
| "trigger_ok (SequenceT t) \<longleftrightarrow>
     1 \<le> sq_within t \<and> sq_within t \<le> 60 \<and> sensor_ok (sq_sensor t) \<and> vision_ok (sq_vision t)"
| "trigger_ok (AudioT t) \<longleftrightarrow> source_ok (at_source t) \<and> valid_kind (at_kind t)"
| "trigger_ok (PresenceT t) \<longleftrightarrow>
     source_ok (pt_source t) \<and> valid_kind (pt_kind t) \<and> length (pt_observers t) \<le> 7 \<and>
     list_all source_ok (pt_observers t) \<and> distinct (pt_source t # pt_observers t)"
| "trigger_ok (HealthT t) = valid_name (ht_node t)"

fun trigger_type :: "trigger \<Rightarrow> string" where
  "trigger_type (VisionT _) = ''vision''"
| "trigger_type (SensorT _) = ''sensor_event''"
| "trigger_type (ThresholdT _) = ''threshold''"
| "trigger_type (SequenceT _) = ''sequence''"
| "trigger_type (AudioT _) = ''audio_event''"
| "trigger_type (PresenceT _) = ''presence_state''"
| "trigger_type (HealthT _) = ''health_event''"

definition armable_triggers :: "string list" where
  "armable_triggers =
     [''vision'', ''sensor_event'', ''threshold'', ''sequence'', ''audio_event'', ''presence_state'']"

fun trigger_camera :: "trigger \<Rightarrow> string option" where
  "trigger_camera (VisionT t) = Some (vt_source t)"
| "trigger_camera (SequenceT t) = Some (vt_source (sq_vision t))"
| "trigger_camera _ = None"

fun trigger_parts :: "trigger \<Rightarrow> trigger list" where
  "trigger_parts (SequenceT t) = [SensorT (sq_sensor t), VisionT (sq_vision t)]"
| "trigger_parts t = [t]"

subsection \<open>Rules and documents\<close>

definition rule_id_ok :: "string \<Rightarrow> bool" where
  "rule_id_ok s \<longleftrightarrow>
     s \<noteq> [] \<and> length s \<le> 64 \<and> hd s \<in> set (lower @ digits) \<and> last s \<in> set (lower @ digits) \<and>
     chars_in (lower @ digits @ ''-'') s"

definition rule_name_ok :: "string \<Rightarrow> bool" where
  "rule_name_ok n \<longleftrightarrow> \<not> blank n \<and> stripped n = n \<and> length n \<le> 64"

definition actions_ok :: "action list \<Rightarrow> bool" where
  "actions_ok as \<longleftrightarrow>
     1 \<le> length as \<and> length as \<le> 16 \<and> list_all (\<lambda>a. act_ok (act a)) as \<and> runnable as"

record rule =
  ru_id :: string
  ru_name :: string
  ru_enabled :: bool
  ru_trigger :: trigger
  ru_cooldown :: rat
  ru_actions :: "action list"

definition rule_ok :: "rule \<Rightarrow> bool" where
  "rule_ok r \<longleftrightarrow>
     rule_id_ok (ru_id r) \<and> rule_name_ok (ru_name r) \<and> trigger_ok (ru_trigger r) \<and>
     0 \<le> ru_cooldown r \<and> ru_cooldown r \<le> 3600 \<and> actions_ok (ru_actions r)"

text \<open>
  A rule of the first version: always about this node's camera. The type of its actions is open,
  because the first version of the file shows fewer fields of them than the program keeps.
\<close>

record 'a rule_v1 =
  r1_name :: string
  r1_enabled :: bool
  r1_object :: string
  r1_confidence :: rat
  r1_count :: nat
  r1_consecutive :: nat
  r1_rearm :: rat
  r1_cooldown :: rat
  r1_region :: "region option"
  r1_actions :: "'a list"

definition rule_v1_ok :: "action rule_v1 \<Rightarrow> bool" where
  "rule_v1_ok r \<longleftrightarrow>
     rule_name_ok (r1_name r) \<and> r1_object r \<in> set classes \<and>
     1 / 10 \<le> r1_confidence r \<and> r1_confidence r \<le> 99 / 100 \<and>
     r1_count r \<in> {1..20} \<and> r1_consecutive r \<in> {1..20} \<and> 1 \<le> r1_rearm r \<and> r1_rearm r \<le> 300 \<and>
     0 \<le> r1_cooldown r \<and> r1_cooldown r \<le> 3600 \<and> region_ok (r1_region r) \<and>
     actions_ok (r1_actions r)"

record ssh_command =
  ssh_host :: string
  ssh_user :: string
  ssh_port :: int
  ssh_text :: string
  ssh_identity :: string
  ssh_timeout :: int

definition ssh_ok :: "ssh_command \<Rightarrow> bool" where
  "ssh_ok c \<longleftrightarrow>
     ssh_host c \<noteq> [] \<and> length (ssh_host c) \<le> 253 \<and> hd (ssh_host c) \<in> set letters_digits \<and>
     chars_in (letters_digits @ ''_.:-'') (tl (ssh_host c)) \<and>
     length (ssh_user c) \<le> 64 \<and>
     (ssh_user c = [] \<or> hd (ssh_user c) \<in> set (letters_digits @ ''_'') \<and>
        chars_in (letters_digits @ ''_.-'') (tl (ssh_user c))) \<and>
     ssh_port c \<in> {1..65535} \<and> 1 \<le> length (ssh_text c) \<and> length (ssh_text c) \<le> 4096 \<and>
     length (ssh_identity c) \<le> 1024 \<and> ssh_timeout c \<in> {1..60} \<and>
     CHR 0x00 \<notin> set (ssh_text c) \<and> CHR 0x00 \<notin> set (ssh_identity c) \<and> \<not> blank (ssh_text c)"

record telegram_settings =
  tg_token :: string
  tg_chat :: string

definition telegram_ok :: "telegram_settings \<Rightarrow> bool" where
  "telegram_ok t \<longleftrightarrow>
     (tg_token t = [] \<or>
        (case py_partition (CHR '':'') (tg_token t) of
           (_, None) \<Rightarrow> False
         | (n, Some k) \<Rightarrow>
             1 \<le> length n \<and> length n \<le> 20 \<and> chars_in digits n \<and>
             20 \<le> length k \<and> length k \<le> 128 \<and> chars_in (letters_digits @ ''_-'') k)) \<and>
     length (tg_chat t) \<le> 128 \<and>
     (tg_chat t = [] \<or>
        (hd (tg_chat t) = CHR ''@'' \<and> tl (tg_chat t) \<noteq> [] \<and>
           chars_in (letters_digits @ ''_'') (tl (tg_chat t))) \<or>
        (let d = (if hd (tg_chat t) = CHR ''-'' then tl (tg_chat t) else tg_chat t)
         in d \<noteq> [] \<and> chars_in digits d))"

datatype fault_policy = GlobalFaults | IsolatedFaults

record config =
  cf_fps :: rat
  cf_test :: bool
  cf_ttl :: int
  cf_policy :: fault_policy
  cf_rules :: "rule list"
  cf_ssh :: "(string, ssh_command) dict"
  cf_telegram :: telegram_settings

record 'a config_v1 =
  c1_fps :: rat
  c1_test :: bool
  c1_ttl :: int
  c1_rules :: "'a rule_v1 list"
  c1_ssh :: "(string, ssh_command) dict"
  c1_telegram :: telegram_settings

definition references_ok :: "(string, ssh_command) dict \<Rightarrow> action list list \<Rightarrow> bool" where
  "references_ok ssh ass \<longleftrightarrow>
     list_all command_id_ok (map fst ssh) \<and>
     list_all (list_all (\<lambda>a. case act a of Ssh c \<Rightarrow> dict_get ssh c \<noteq> None | _ \<Rightarrow> True)) ass"

definition config_ok :: "config \<Rightarrow> bool" where
  "config_ok c \<longleftrightarrow>
     1 / 2 \<le> cf_fps c \<and> cf_fps c \<le> 5 \<and> cf_ttl c \<in> {1..120} \<and>
     length (cf_rules c) \<le> 32 \<and> list_all rule_ok (cf_rules c) \<and>
     length (cf_ssh c) \<le> 32 \<and> wf_dict (cf_ssh c) \<and> list_all (ssh_ok \<circ> snd) (cf_ssh c) \<and>
     telegram_ok (cf_telegram c) \<and>
     distinct (map ru_id (cf_rules c)) \<and> distinct (map ru_name (cf_rules c)) \<and>
     references_ok (cf_ssh c) (map ru_actions (cf_rules c))"

definition config_v1_ok :: "action config_v1 \<Rightarrow> bool" where
  "config_v1_ok c \<longleftrightarrow>
     1 / 2 \<le> c1_fps c \<and> c1_fps c \<le> 5 \<and> c1_ttl c \<in> {1..120} \<and>
     length (c1_rules c) \<le> 32 \<and> list_all rule_v1_ok (c1_rules c) \<and>
     length (c1_ssh c) \<le> 32 \<and> wf_dict (c1_ssh c) \<and> list_all (ssh_ok \<circ> snd) (c1_ssh c) \<and>
     telegram_ok (c1_telegram c) \<and> distinct (map r1_name (c1_rules c)) \<and>
     references_ok (c1_ssh c) (map r1_actions (c1_rules c))"

end
