(* ===== verification/Migration.thy ===== *)
theory Migration
  imports Rules
begin

section \<open>Between the two versions of the rules document\<close>

text \<open>
  \<open>src/sentry_mode/sentry/migration.py\<close>: identifiers for rules that had none, the conversion up
  and down, and what a saved file of either version holds. The lemmas show that going up always
  gives a valid document, that going down and up again gives back what one had, and where the
  first version of the file loses something the conversion does not mention.
\<close>

subsection \<open>Identifiers\<close>

definition plain_char :: "char \<Rightarrow> bool" where
  "plain_char c \<longleftrightarrow> c \<in> set (lower @ digits)"

definition lowered :: "char \<Rightarrow> char" where
  "lowered c = (if c \<in> set upper then char_of (of_char c + 32 :: nat) else c)"

text \<open>\<open>re.sub("[^a-z0-9]+", "-", s)\<close>: one dash for each run of other characters.\<close>

fun dashed :: "bool \<Rightarrow> string \<Rightarrow> string" where
  "dashed in_run [] = []"
| "dashed in_run (c # s) =
     (if plain_char c then c # dashed False s
      else if in_run then dashed True s else CHR ''-'' # dashed True s)"

definition rstrip_dash :: "string \<Rightarrow> string" where
  "rstrip_dash s = rev (dropWhile (\<lambda>c. c = CHR ''-'') (rev s))"

definition strip_dash :: "string \<Rightarrow> string" where
  "strip_dash s = rstrip_dash (dropWhile (\<lambda>c. c = CHR ''-'') s)"

definition slug :: "string \<Rightarrow> string" where
  "slug name =
     (let text = strip_dash (take 64 (strip_dash (dashed False (map lowered name))))
      in if text = [] then ''rule'' else text)"

definition numbered :: "string \<Rightarrow> nat \<Rightarrow> string" where
  "numbered wanted counter =
     (let suffix = CHR ''-'' # nat_text counter
      in rstrip_dash (take (64 - length suffix) wanted) @ suffix)"

lemma nat_text_digit: "c \<in> set (nat_text n) \<Longrightarrow> c \<in> set digits"
proof (induction n rule: nat_text.induct)
  case (1 n)
  have digit: "char_of (48 + m) \<in> set digits" if "m < 10" for m :: nat
  proof -
    have "m = 0 \<or> m = 1 \<or> m = 2 \<or> m = 3 \<or> m = 4 \<or> m = 5 \<or> m = 6 \<or> m = 7 \<or> m = 8 \<or> m = 9"
      using that by arith
    then show ?thesis by (elim disjE) (simp_all add: digits_def char_of_def bit_Suc_0_iff)
  qed
  from 1 digit [of n] digit [of "n mod 10"] show ?case
    by (subst (asm) nat_text.simps) (auto split: if_splits)
qed

lemma nat_text_nonempty: "nat_text n \<noteq> []"
  by (subst nat_text.simps) simp

lemma nat_text_inj: "nat_text m = nat_text n \<Longrightarrow> m = n"
proof (induction m arbitrary: n rule: nat_text.induct)
  case (1 m)
  have eq: "nat_text m = nat_text n" by (rule 1)
  have code: "char_of (48 + a) = (char_of (48 + b) :: char) \<Longrightarrow> a < 10 \<Longrightarrow> b < 10 \<Longrightarrow> a = b"
    for a b :: nat
    by (drule arg_cong [where f = "of_char :: char \<Rightarrow> nat"]) simp
  show ?case
  proof (cases "m < 10"; cases "n < 10")
    assume "m < 10" "n < 10"
    then show ?thesis using eq code by (subst (asm) (1 2) nat_text.simps) simp
  next
    assume "m < 10" "\<not> n < 10"
    then show ?thesis using eq nat_text_nonempty [of "n div 10"]
      by (subst (asm) (1 2) nat_text.simps) (auto simp: Cons_eq_append_conv)
  next
    assume "\<not> m < 10" "n < 10"
    then show ?thesis using eq nat_text_nonempty [of "m div 10"]
      by (subst (asm) (1 2) nat_text.simps) (auto simp: append_eq_Cons_conv)
  next
    assume big: "\<not> m < 10" "\<not> n < 10"
    then have parts: "nat_text (m div 10) = nat_text (n div 10)"
      "char_of (48 + m mod 10) = (char_of (48 + n mod 10) :: char)"
      using eq by (subst (asm) (1 2) nat_text.simps, simp)+
    have "m div 10 = n div 10" using "1.IH" [OF big(1) parts(1)] .
    moreover have "m mod 10 = n mod 10" using code [OF parts(2)] by simp
    ultimately show ?thesis by (metis div_mult_mod_eq)
  qed
qed

lemma after_last_dash:
  assumes "a @ CHR ''-'' # u = b @ CHR ''-'' # v" "CHR ''-'' \<notin> set u" "CHR ''-'' \<notin> set v"
  shows "u = v"
  using assms
  by (auto simp: append_eq_append_conv2 Cons_eq_append_conv append_eq_Cons_conv)

lemma no_dash_in_number: "CHR ''-'' \<notin> set (nat_text n)"
  using nat_text_digit [of "CHR ''-''" n] by (auto simp: digits_def)

lemma numbered_inj: "inj (numbered wanted)"
proof (rule injI)
  fix m n
  assume "numbered wanted m = numbered wanted n"
  then have "nat_text m = nat_text n"
    unfolding numbered_def Let_def by (rule after_last_dash) (rule no_dash_in_number)+
  then show "m = n" by (rule nat_text_inj)
qed

text \<open>The counters that are still in the way are finitely many and lose one with each turn.\<close>

definition in_the_way :: "string list \<Rightarrow> string \<Rightarrow> nat \<Rightarrow> nat set" where
  "in_the_way taken wanted counter = {k. counter \<le> k \<and> numbered wanted k \<in> set taken}"

lemma in_the_way_finite: "finite (in_the_way taken wanted counter)"
proof -
  have "finite (numbered wanted -` set taken)" by (intro finite_vimageI numbered_inj) simp
  then show ?thesis by (rule rev_finite_subset) (auto simp: in_the_way_def)
qed

lemma in_the_way_shrinks:
  assumes "numbered wanted counter \<in> set taken"
  shows "card (in_the_way taken wanted (Suc counter)) < card (in_the_way taken wanted counter)"
proof (intro psubset_card_mono in_the_way_finite psubsetI)
  show "in_the_way taken wanted (Suc counter) \<subseteq> in_the_way taken wanted counter"
    by (auto simp: in_the_way_def)
  have "counter \<in> in_the_way taken wanted counter" using assms by (simp add: in_the_way_def)
  moreover have "counter \<notin> in_the_way taken wanted (Suc counter)" by (simp add: in_the_way_def)
  ultimately show "in_the_way taken wanted (Suc counter) \<noteq> in_the_way taken wanted counter"
    by blast
qed

function free_id :: "string list \<Rightarrow> string \<Rightarrow> nat \<Rightarrow> string" where
  "free_id taken wanted counter =
     (if numbered wanted counter \<in> set taken then free_id taken wanted (Suc counter)
      else numbered wanted counter)"
  by auto
termination
  by (relation "measure (\<lambda>(taken, wanted, counter). card (in_the_way taken wanted counter))")
    (use in_the_way_shrinks in auto)

declare free_id.simps [simp del]

definition wanted_id :: "(string, string) dict \<Rightarrow> string \<Rightarrow> string" where
  "wanted_id known name =
     (case dict_get known name of
        None \<Rightarrow> slug name
      | Some i \<Rightarrow> if i = [] then slug name else i)"

fun give_ids :: "string list \<Rightarrow> (string, string) dict \<Rightarrow> string list \<Rightarrow> string list" where
  "give_ids taken known [] = []"
| "give_ids taken known (n # ns) =
     (let wanted = wanted_id known n;
          i = (if wanted \<in> set taken then free_id taken wanted 2 else wanted)
      in i # give_ids (i # taken) known ns)"

definition assign_ids :: "string list \<Rightarrow> (string, string) dict \<Rightarrow> string list" where
  "assign_ids names known = give_ids [] known names"

subsection \<open>Conversion\<close>

definition rule_to_v2 :: "action rule_v1 \<Rightarrow> string \<Rightarrow> rule" where
  "rule_to_v2 r i =
     \<lparr>ru_id = i, ru_name = r1_name r, ru_enabled = r1_enabled r,
      ru_trigger = VisionT \<lparr>vt_source = primary_camera, vt_object = r1_object r,
        vt_confidence = r1_confidence r, vt_count = r1_count r,
        vt_consecutive = r1_consecutive r, vt_rearm = r1_rearm r, vt_region = r1_region r\<rparr>,
      ru_cooldown = r1_cooldown r, ru_actions = r1_actions r\<rparr>"

definition known_ids :: "config option \<Rightarrow> (string, string) dict" where
  "known_ids previous =
     (case previous of
        None \<Rightarrow> []
      | Some p \<Rightarrow> fold (\<lambda>r. dict_set (ru_name r) (ru_id r)) (cf_rules p) [])"

definition to_v2 :: "action config_v1 \<Rightarrow> config option \<Rightarrow> fault_policy \<Rightarrow> config" where
  "to_v2 c previous policy =
     \<lparr>cf_fps = c1_fps c, cf_test = c1_test c, cf_ttl = c1_ttl c,
      cf_policy = (case previous of None \<Rightarrow> policy | Some p \<Rightarrow> cf_policy p),
      cf_rules = map2 rule_to_v2 (c1_rules c)
        (assign_ids (map r1_name (c1_rules c)) (known_ids previous)),
      cf_ssh = c1_ssh c, cf_telegram = c1_telegram c\<rparr>"

datatype obstacle =
  SetOffBy string string
| WatchesCamera string string
| RecordsFrom string string
| WhenMissing string if_unavailable
| RecordsSound string string

definition trigger_obstacles :: "rule \<Rightarrow> obstacle list" where
  "trigger_obstacles r =
     (case ru_trigger r of
        VisionT t \<Rightarrow>
          if vt_source t \<noteq> primary_camera then [WatchesCamera (ru_name r) (vt_source t)] else []
      | t \<Rightarrow> [SetOffBy (ru_name r) (trigger_type t)])"

definition camera_obstacles :: "string \<Rightarrow> string \<Rightarrow> if_unavailable \<Rightarrow> obstacle list" where
  "camera_obstacles n src u =
     (if src \<noteq> primary_camera then [RecordsFrom n src] else []) @
     (if u \<noteq> FailStep then [WhenMissing n u] else [])"

definition sound_obstacles :: "string \<Rightarrow> string \<Rightarrow> obstacle list" where
  "sound_obstacles n mic = (if mic \<noteq> primary_microphone then [RecordsSound n mic] else [])"

definition or_primary :: "string option \<Rightarrow> string" where
  "or_primary mic =
     (case mic of None \<Rightarrow> primary_microphone
      | Some m \<Rightarrow> if m = [] then primary_microphone else m)"

fun action_obstacles :: "string \<Rightarrow> act \<Rightarrow> obstacle list" where
  "action_obstacles n (Photo _ _ src u) = camera_obstacles n src u"
| "action_obstacles n (Video _ a src mic u) =
     camera_obstacles n src u @
     sound_obstacles n (or_primary (if a then video_microphone a src mic else mic))"
| "action_obstacles n (Audio _ mic) = sound_obstacles n mic"
| "action_obstacles n _ = []"

definition rule_obstacles :: "rule \<Rightarrow> obstacle list" where
  "rule_obstacles r =
     trigger_obstacles r @
     concat (map (\<lambda>a. action_obstacles (ru_name r) (act a)) (ru_actions r))"

definition obstacles :: "config \<Rightarrow> obstacle list" where
  "obstacles c = concat (map rule_obstacles (cf_rules c))"

text \<open>The \<open>assert\<close> on the trigger is never reached: \<open>obstacles\<close> has refused the others.\<close>

definition rule_to_v1 :: "rule \<Rightarrow> action rule_v1 option" where
  "rule_to_v1 r =
     (case ru_trigger r of
        VisionT t \<Rightarrow>
          Some \<lparr>r1_name = ru_name r, r1_enabled = ru_enabled r, r1_object = vt_object t,
            r1_confidence = vt_confidence t, r1_count = vt_count t,
            r1_consecutive = vt_consecutive t, r1_rearm = vt_rearm t,
            r1_cooldown = ru_cooldown r, r1_region = vt_region t, r1_actions = ru_actions r\<rparr>
      | _ \<Rightarrow> None)"

definition to_v1 :: "config \<Rightarrow> obstacle list + action config_v1" where
  "to_v1 c =
     (if obstacles c \<noteq> [] then Inl (obstacles c)
      else Inr \<lparr>c1_fps = cf_fps c, c1_test = cf_test c, c1_ttl = cf_ttl c,
        c1_rules = List.map_filter rule_to_v1 (cf_rules c),
        c1_ssh = cf_ssh c, c1_telegram = cf_telegram c\<rparr>)"

subsection \<open>The saved file\<close>

text \<open>What \<open>dump_v1\<close> leaves of an action, and what a reader assumes for the rest.\<close>

datatype shown_act =
  ShownPhoto int rat
| ShownAudio int
| ShownVideo int bool
| Shown act

fun shown :: "act \<Rightarrow> shown_act" where
  "shown (Photo n t _ _) = ShownPhoto n t"
| "shown (Audio d _) = ShownAudio d"
| "shown (Video d a _ _ _) = ShownVideo d a"
| "shown a = Shown a"

fun assumed :: "shown_act \<Rightarrow> act" where
  "assumed (ShownPhoto n t) = Photo n t primary_camera FailStep"
| "assumed (ShownAudio d) = Audio d primary_microphone"
| "assumed (ShownVideo d a) = Video d a primary_camera None FailStep"
| "assumed (Shown a) = a"

type_synonym shown_action = "bool \<times> shown_act"

definition on_rule :: "('a \<Rightarrow> 'b) \<Rightarrow> 'a rule_v1 \<Rightarrow> 'b rule_v1" where
  "on_rule f r =
     \<lparr>r1_name = r1_name r, r1_enabled = r1_enabled r, r1_object = r1_object r,
      r1_confidence = r1_confidence r, r1_count = r1_count r, r1_consecutive = r1_consecutive r,
      r1_rearm = r1_rearm r, r1_cooldown = r1_cooldown r, r1_region = r1_region r,
      r1_actions = map f (r1_actions r)\<rparr>"

definition on_config :: "('a \<Rightarrow> 'b) \<Rightarrow> 'a config_v1 \<Rightarrow> 'b config_v1" where
  "on_config f c =
     \<lparr>c1_fps = c1_fps c, c1_test = c1_test c, c1_ttl = c1_ttl c,
      c1_rules = map (on_rule f) (c1_rules c), c1_ssh = c1_ssh c, c1_telegram = c1_telegram c\<rparr>"

definition dump_v1 :: "action config_v1 \<Rightarrow> shown_action config_v1" where
  "dump_v1 = on_config (\<lambda>a. (with_previous a, shown (act a)))"

definition validate_v1 :: "shown_action config_v1 \<Rightarrow> action config_v1" where
  "validate_v1 = on_config (\<lambda>(w, a). \<lparr>with_previous = w, act = assumed a\<rparr>)"

datatype body = Body1 "shown_action config_v1" | Body2 config

record stored =
  sf_version :: "int option"
  sf_revision :: int
  sf_body :: body

record document =
  doc_config :: config
  doc_revision :: int
  doc_version :: int

datatype read_error = NotValid | NewerVersion int

definition legacy_schema :: int where "legacy_schema = 1"
definition schema_version :: int where "schema_version = 2"

definition read_document :: "stored \<Rightarrow> read_error + document" where
  "read_document f =
     (let version = (case sf_version f of None \<Rightarrow> legacy_schema | Some v \<Rightarrow> v) in
      if version = schema_version then
        (case sf_body f of
           Body2 c \<Rightarrow> if config_ok c
             then Inr \<lparr>doc_config = c, doc_revision = sf_revision f, doc_version = schema_version\<rparr>
             else Inl NotValid
         | Body1 _ \<Rightarrow> Inl NotValid)
      else if version = legacy_schema then
        (case sf_body f of
           Body1 b \<Rightarrow> if config_v1_ok (validate_v1 b)
             then Inr \<lparr>doc_config = to_v2 (validate_v1 b) None GlobalFaults,
                       doc_revision = sf_revision f, doc_version = legacy_schema\<rparr>
             else Inl NotValid
         | Body2 _ \<Rightarrow> Inl NotValid)
      else Inl (NewerVersion version))"

definition write_document :: "config \<Rightarrow> int \<Rightarrow> int \<Rightarrow> obstacle list + stored" where
  "write_document c revn version =
     (if version = legacy_schema
      then (case to_v1 c of
              Inl reasons \<Rightarrow> Inl reasons
            | Inr c1 \<Rightarrow> Inr \<lparr>sf_version = None, sf_revision = revn, sf_body = Body1 (dump_v1 c1)\<rparr>)
      else Inr \<lparr>sf_version = Some schema_version, sf_revision = revn, sf_body = Body2 c\<rparr>)"

subsection \<open>Identifiers are distinct, valid and kept\<close>

lemma free_id_is_numbered: "\<exists>k\<ge>n. free_id taken w n = numbered w k \<and>
    (\<forall>j. n \<le> j \<and> j < k \<longrightarrow> numbered w j \<in> set taken)"
proof (induction taken w n rule: free_id.induct)
  case (1 taken w n)
  show ?case
  proof (cases "numbered w n \<in> set taken")
    case True
    with 1 obtain k where k: "k \<ge> Suc n" "free_id taken w (Suc n) = numbered w k"
      "\<forall>j. Suc n \<le> j \<and> j < k \<longrightarrow> numbered w j \<in> set taken" by blast
    have "free_id taken w n = numbered w k" using True k by (simp add: free_id.simps [of _ _ n])
    moreover have "\<forall>j. n \<le> j \<and> j < k \<longrightarrow> numbered w j \<in> set taken"
      using True k(3) by (metis Suc_leI le_neq_implies_less)
    ultimately show ?thesis using k(1) by (meson Suc_leD)
  next
    case False
    then show ?thesis by (auto simp: free_id.simps [of _ _ n] intro: exI [of _ n])
  qed
qed

lemma free_id_free: "free_id taken w n \<notin> set taken"
  by (induction taken w n rule: free_id.induct) (metis free_id.simps)

text \<open>By the pigeonhole principle the counter stays below the identifiers already given.\<close>

lemma free_id_counter:
  obtains k where "2 \<le> k" "k \<le> length taken + 2" "free_id taken w 2 = numbered w k"
proof -
  obtain k where k: "k \<ge> 2" "free_id taken w 2 = numbered w k"
    "\<forall>j. 2 \<le> j \<and> j < k \<longrightarrow> numbered w j \<in> set taken" using free_id_is_numbered by blast
  have "numbered w ` {2..<k} \<subseteq> set taken" using k(3) by auto
  then have "card (numbered w ` {2..<k}) \<le> length taken"
    by (meson card_length card_mono finite_set le_trans)
  moreover have "card (numbered w ` {2..<k}) = k - 2"
    by (simp add: card_image inj_on_subset [OF numbered_inj])
  ultimately show thesis using k that by auto
qed

lemma give_ids_length [simp]: "length (give_ids taken known ns) = length ns"
  by (induction ns arbitrary: taken) (simp_all add: Let_def)

lemma give_ids_distinct:
  "distinct (give_ids taken known ns) \<and> set (give_ids taken known ns) \<inter> set taken = {}"
proof (induction ns arbitrary: taken)
  case (Cons n ns)
  define i where "i = (if wanted_id known n \<in> set taken then free_id taken (wanted_id known n) 2
                       else wanted_id known n)"
  have "i \<notin> set taken" by (simp add: i_def free_id_free)
  moreover have "give_ids taken known (n # ns) = i # give_ids (i # taken) known ns"
    by (simp add: i_def Let_def)
  ultimately show ?case using Cons [of "i # taken"] by auto
qed simp

lemma nat_text_short: "n < 100 \<Longrightarrow> length (nat_text n) \<le> 2"
proof (cases "n < 10")
  case False
  assume "n < 100"
  then have "n div 10 < 10" by simp
  with False show ?thesis by (simp add: nat_text.simps [of n] nat_text.simps [of "n div 10"])
qed (simp add: nat_text.simps [of n])

lemma rstrip_dash_head: "s \<noteq> [] \<Longrightarrow> hd s \<noteq> CHR ''-'' \<Longrightarrow> rstrip_dash s \<noteq> [] \<and> hd (rstrip_dash s) = hd s"
proof -
  assume s: "s \<noteq> []" "hd s \<noteq> CHR ''-''"
  have rev: "rev s = takeWhile (\<lambda>c. c = CHR ''-'') (rev s) @ rev (rstrip_dash s)"
    by (simp add: rstrip_dash_def)
  have some: "rstrip_dash s \<noteq> []"
    using s by (cases s) (auto simp: rstrip_dash_def)
  have "s = rstrip_dash s @ rev (takeWhile (\<lambda>c. c = CHR ''-'') (rev s))"
    using rev by (metis rev_append rev_rev_ident)
  with some show ?thesis by (metis hd_append2)
qed

lemma rstrip_dash_last: "rstrip_dash s = [] \<or> last (rstrip_dash s) \<noteq> CHR ''-''"
  using hd_dropWhile [of "\<lambda>c. c = CHR ''-''" "rev s"]
  by (cases "dropWhile (\<lambda>c. c = CHR ''-'') (rev s) = []") (simp_all add: rstrip_dash_def last_rev)

lemma rstrip_dash_set: "set (rstrip_dash s) \<subseteq> set s"
  by (auto simp: rstrip_dash_def dest: set_dropWhileD)

lemma rstrip_dash_length: "length (rstrip_dash s) \<le> length s"
  by (metis length_dropWhile_le length_rev rstrip_dash_def)

lemma numbered_ok:
  assumes "rule_id_ok w" "2 \<le> k" "k < 100"
  shows "rule_id_ok (numbered w k)"
proof -
  define stem where "stem = rstrip_dash (take (63 - length (nat_text k)) w)"
  have short: "length (nat_text k) \<le> 2" using nat_text_short assms(3) by blast
  have w: "w \<noteq> []" "hd w \<in> set (lower @ digits)" "chars_in (lower @ digits @ ''-'') w"
    using assms(1) by (auto simp: rule_id_ok_def)
  have "hd w \<noteq> CHR ''-''" using w(2) by (auto simp: lower_def digits_def)
  moreover have "take (63 - length (nat_text k)) w \<noteq> []" using w(1) short by simp
  moreover have "hd (take (63 - length (nat_text k)) w) = hd w" using short by (simp add: hd_take)
  ultimately have stem: "stem \<noteq> []" "hd stem = hd w"
    using rstrip_dash_head [of "take (63 - length (nat_text k)) w"] by (simp_all add: stem_def)
  have chars: "set stem \<subseteq> set w"
    using rstrip_dash_set set_take_subset unfolding stem_def by (metis subset_trans)
  have "length stem \<le> 63 - length (nat_text k)"
    using rstrip_dash_length [of "take (63 - length (nat_text k)) w"] unfolding stem_def by simp
  then have "length (numbered w k) \<le> 64" using short
    by (simp add: numbered_def stem_def [symmetric])
  moreover have "last (nat_text k) \<in> set digits"
    using nat_text_nonempty nat_text_digit by (metis last_in_set)
  moreover have "\<forall>c \<in> set (nat_text k). c \<in> set digits" using nat_text_digit by blast
  ultimately show ?thesis
    using stem w chars nat_text_nonempty [of k]
    by (auto simp: rule_id_ok_def numbered_def stem_def [symmetric] chars_in_def list_all_iff)
qed

lemma dashed_set: "set (dashed b s) \<subseteq> set (lower @ digits @ ''-'')"
  by (induction b s rule: dashed.induct) (auto simp: plain_char_def)

lemma strip_dash_head: "strip_dash s = [] \<or> hd (strip_dash s) \<noteq> CHR ''-''"
proof -
  let ?t = "dropWhile (\<lambda>c. c = CHR ''-'') s"
  show ?thesis
  proof (cases "?t = []")
    case True
    have "strip_dash s = rstrip_dash ?t" by (simp add: strip_dash_def)
    also have "\<dots> = []" by (simp only: True rstrip_dash_def) simp
    finally show ?thesis by simp
  next
    case False
    then have "hd ?t \<noteq> CHR ''-''" using hd_dropWhile by (metis (mono_tags))
    then show ?thesis using False rstrip_dash_head [of ?t] by (simp add: strip_dash_def)
  qed
qed

lemma strip_dash_last: "strip_dash s = [] \<or> last (strip_dash s) \<noteq> CHR ''-''"
  by (simp add: strip_dash_def rstrip_dash_last)

lemma strip_dash_set: "set (strip_dash s) \<subseteq> set s"
  using rstrip_dash_set set_dropWhileD unfolding strip_dash_def by (metis subset_iff)

lemma strip_dash_length: "length (strip_dash s) \<le> length s"
  using rstrip_dash_length length_dropWhile_le unfolding strip_dash_def by (metis le_trans)

lemma slug_ok: "rule_id_ok (slug n)"
proof -
  define t where "t = strip_dash (take 64 (strip_dash (dashed False (map lowered n))))"
  show ?thesis
  proof (cases "t = []")
    case True
    then have "slug n = ''rule''" by (simp add: slug_def t_def [symmetric])
    then show ?thesis by (simp add: rule_id_ok_def chars_in_def lower_def digits_def)
  next
    case False
    have "set t \<subseteq> set (dashed False (map lowered n))"
      using strip_dash_set set_take_subset unfolding t_def by (metis subset_trans)
    then have chars: "set t \<subseteq> set (lower @ digits @ ''-'')" using dashed_set by blast
    have ends: "hd t \<noteq> CHR ''-''" "last t \<noteq> CHR ''-''"
      using strip_dash_head strip_dash_last False unfolding t_def by blast+
    have "length t \<le> 64"
      using strip_dash_length [of "take 64 (strip_dash (dashed False (map lowered n)))"]
      unfolding t_def by simp
    moreover have "hd t \<in> set (lower @ digits)" "last t \<in> set (lower @ digits)"
      using hd_in_set [OF False] last_in_set [OF False] chars ends by auto
    moreover have "slug n = t" using False by (simp add: slug_def t_def [symmetric])
    ultimately show ?thesis using chars False
      by (simp add: rule_id_ok_def chars_in_def list_all_iff subset_iff)
  qed
qed

lemma wanted_id_ok: "(\<forall>i \<in> snd ` set known. rule_id_ok i) \<Longrightarrow> rule_id_ok (wanted_id known n)"
  by (force simp: wanted_id_def slug_ok dest: dict_get_in split: option.splits)

lemma give_ids_ok:
  assumes "\<forall>i \<in> snd ` set known. rule_id_ok i" "length taken + length ns < 98"
  shows "list_all rule_id_ok (give_ids taken known ns)"
  using assms(2)
proof (induction ns arbitrary: taken)
  case (Cons n ns)
  have w: "rule_id_ok (wanted_id known n)" by (rule wanted_id_ok) (rule assms(1))
  obtain k where k: "2 \<le> k" "k \<le> length taken + 2"
    "free_id taken (wanted_id known n) 2 = numbered (wanted_id known n) k"
    by (rule free_id_counter)
  have "rule_id_ok (numbered (wanted_id known n) k)"
    by (rule numbered_ok [OF w k(1)]) (use k(2) Cons.prems in simp)
  then show ?case using w k(3) Cons by (simp add: Let_def)
qed simp

lemma give_ids_known:
  assumes "list_all2 (\<lambda>n i. dict_get known n = Some i \<and> i \<noteq> []) ns is"
    "distinct is" "set is \<inter> set taken = {}"
  shows "give_ids taken known ns = is"
  using assms
proof (induction ns "is" arbitrary: taken rule: list_all2_induct)
  case (Cons n ns i "is")
  then have "wanted_id known n = i" "i \<notin> set taken" by (auto simp: wanted_id_def)
  moreover have "give_ids (i # taken) known ns = is" using Cons by simp
  ultimately show ?case by (simp add: Let_def)
qed simp

lemma known_ids_get:
  assumes "distinct (map ru_name rs)" "r \<in> set rs"
  shows "dict_get (fold (\<lambda>r. dict_set (ru_name r) (ru_id r)) rs d) (ru_name r) = Some (ru_id r)"
  using assms
proof (induction rs arbitrary: d)
  case (Cons q rs)
  have other: "dict_get (fold (\<lambda>r. dict_set (ru_name r) (ru_id r)) rs e) n = dict_get e n"
    if "n \<notin> ru_name ` set rs" for e n
    using that by (induction rs arbitrary: e) simp_all
  show ?case
  proof (cases "r = q")
    case True
    then show ?thesis using Cons.prems other [of "ru_name q"] by simp
  next
    case False
    then show ?thesis using Cons by simp
  qed
qed simp

lemma known_ids_values: "i \<in> snd ` set (known_ids previous) \<Longrightarrow>
    \<exists>p r. previous = Some p \<and> r \<in> set (cf_rules p) \<and> i = ru_id r"
proof (cases previous)
  case (Some p)
  assume i: "i \<in> snd ` set (known_ids previous)"
  have "snd ` set (fold (\<lambda>r. dict_set (ru_name r) (ru_id r)) rs d) \<subseteq>
      snd ` set d \<union> ru_id ` set rs" for rs d
  proof (induction rs arbitrary: d)
    case (Cons r rs)
    have "snd ` set (dict_set (ru_name r) (ru_id r) d) \<subseteq> snd ` set d \<union> {ru_id r}"
      by (auto dest!: dict_set_in intro: rev_image_eqI)
    with Cons [of "dict_set (ru_name r) (ru_id r) d"]
    have "snd ` set (fold (\<lambda>r. dict_set (ru_name r) (ru_id r)) rs (dict_set (ru_name r) (ru_id r) d))
        \<subseteq> (snd ` set d \<union> {ru_id r}) \<union> ru_id ` set rs" by blast
    then show ?case by (simp add: Un_assoc)
  qed simp
  from this [of "cf_rules p" "[]"] i Some show ?thesis by (auto simp: known_ids_def)
qed (simp add: known_ids_def)

subsection \<open>Up, down and on the disk\<close>

lemma primary_source_ok: "source_ok primary_camera" "source_ok primary_microphone"
  by (simp_all add: source_ok_def primary_camera_def primary_microphone_def parse_ref_def
      py_partition_def mk_ref_def valid_ref_def valid_name_def lower_def digits_def)

lemma rule_to_v2_ok: "rule_v1_ok r \<Longrightarrow> rule_id_ok i \<Longrightarrow> rule_ok (rule_to_v2 r i)"
  by (simp add: rule_v1_ok_def rule_ok_def rule_to_v2_def vision_ok_def primary_source_ok)

lemma list_all_map2: "length xs = length ys \<Longrightarrow>
    list_all P (map2 f xs ys) \<longleftrightarrow> list_all2 (\<lambda>x y. P (f x y)) xs ys"
  by (induction xs ys rule: list_induct2) simp_all

lemma map_map2_left: "length xs = length ys \<Longrightarrow> (\<And>x y. g (f x y) = h x) \<Longrightarrow> map g (map2 f xs ys) = map h xs"
  by (induction xs ys rule: list_induct2) simp_all

lemma map_map2_right: "length xs = length ys \<Longrightarrow> (\<And>x y. g (f x y) = y) \<Longrightarrow> map g (map2 f xs ys) = ys"
  by (induction xs ys rule: list_induct2) simp_all

lemma assigned:
  assumes "length names \<le> 32" "pred_option config_ok previous"
  shows "length (assign_ids names (known_ids previous)) = length names"
    "distinct (assign_ids names (known_ids previous))"
    "list_all rule_id_ok (assign_ids names (known_ids previous))"
proof -
  have "\<forall>i \<in> snd ` set (known_ids previous). rule_id_ok i"
    using known_ids_values [of _ previous] assms(2)
    by (fastforce simp: config_ok_def list_all_iff rule_ok_def)
  then show "list_all rule_id_ok (assign_ids names (known_ids previous))"
    using give_ids_ok [of "known_ids previous" "[]" names] assms(1) by (simp add: assign_ids_def)
qed (simp_all add: assign_ids_def give_ids_distinct)

lemma rules_up: "cf_rules (to_v2 c previous policy) =
    map2 rule_to_v2 (c1_rules c) (assign_ids (map r1_name (c1_rules c)) (known_ids previous))"
  by (simp add: to_v2_def)

lemma obstacles_up:
  "obstacles (to_v2 c previous policy) =
     concat (map (\<lambda>r. concat (map (\<lambda>a. action_obstacles (r1_name r) (act a)) (r1_actions r))) (c1_rules c))"
proof -
  have "rule_obstacles (rule_to_v2 r i) =
      concat (map (\<lambda>a. action_obstacles (r1_name r) (act a)) (r1_actions r))" for r i
    by (simp add: rule_obstacles_def trigger_obstacles_def rule_to_v2_def)
  then have "map rule_obstacles (cf_rules (to_v2 c previous policy)) =
      map (\<lambda>r. concat (map (\<lambda>a. action_obstacles (r1_name r) (act a)) (r1_actions r))) (c1_rules c)"
    unfolding rules_up by (intro map_map2_left) (simp_all add: assign_ids_def)
  then show ?thesis by (simp add: obstacles_def)
qed

lemma down_of_up: "length is = length rs \<Longrightarrow>
    List.map_filter rule_to_v1 (map2 rule_to_v2 rs is) = rs"
  by (induction "is" rs rule: list_induct2)
    (simp_all add: rule_to_v1_def rule_to_v2_def List.map_filter_def)

lemma up_ok:
  assumes "config_v1_ok c" "pred_option config_ok previous"
  shows "config_ok (to_v2 c previous policy)"
proof -
  let ?ids = "assign_ids (map r1_name (c1_rules c)) (known_ids previous)"
  have len: "length (map r1_name (c1_rules c)) \<le> 32" using assms(1) by (simp add: config_v1_ok_def)
  note ids = assigned [OF len assms(2)]
  have rules: "list_all rule_ok (cf_rules (to_v2 c previous policy))"
    using assms(1) ids(1,3) unfolding rules_up
    by (auto simp: list_all_map2 list_all2_conv_all_nth list_all_length config_v1_ok_def
        intro: rule_to_v2_ok)
  have parts: "map ru_id (cf_rules (to_v2 c previous policy)) = ?ids"
    "map ru_name (cf_rules (to_v2 c previous policy)) = map r1_name (c1_rules c)"
    "map ru_actions (cf_rules (to_v2 c previous policy)) = map r1_actions (c1_rules c)"
    "length (cf_rules (to_v2 c previous policy)) = length (c1_rules c)"
    unfolding rules_up
       apply (intro map_map2_right; use ids(1) in \<open>simp add: rule_to_v2_def\<close>)
      apply (intro map_map2_left; use ids(1) in \<open>simp add: rule_to_v2_def\<close>)
     apply (intro map_map2_left; use ids(1) in \<open>simp add: rule_to_v2_def\<close>)
    using ids(1) by simp
  have same: "cf_fps (to_v2 c previous policy) = c1_fps c" "cf_ttl (to_v2 c previous policy) = c1_ttl c"
    "cf_ssh (to_v2 c previous policy) = c1_ssh c" "cf_telegram (to_v2 c previous policy) = c1_telegram c"
    by (simp_all add: to_v2_def)
  show ?thesis using assms(1) rules ids(2) unfolding config_ok_def config_v1_ok_def parts same by simp
qed

lemma down_of_up_config:
  assumes "obstacles (to_v2 c previous policy) = []"
  shows "to_v1 (to_v2 c previous policy) = Inr c"
proof -
  have "List.map_filter rule_to_v1 (cf_rules (to_v2 c previous policy)) = c1_rules c"
    unfolding rules_up by (intro down_of_up) (simp add: assign_ids_def)
  then show ?thesis using assms by (simp add: to_v1_def to_v2_def)
qed


definition quiet_telegram :: telegram_settings where
  "quiet_telegram = \<lparr>tg_token = [], tg_chat = []\<rparr>"

definition wait_one :: action where
  "wait_one = \<lparr>with_previous = False, act = Wait 1\<rparr>"

definition a_photo :: action where
  "a_photo = \<lparr>with_previous = False, act = Photo 1 2 primary_camera FailStep\<rparr>"

definition door_rule :: "string \<Rightarrow> action rule_v1" where
  "door_rule n =
     \<lparr>r1_name = n, r1_enabled = True, r1_object = ''person'', r1_confidence = 1 / 2, r1_count = 1,
      r1_consecutive = 2, r1_rearm = 5, r1_cooldown = 30, r1_region = None, r1_actions = [a_photo]\<rparr>"

definition door_rules :: "string list \<Rightarrow> action config_v1" where
  "door_rules ns =
     \<lparr>c1_fps = 2, c1_test = False, c1_ttl = 15, c1_rules = map door_rule ns, c1_ssh = [],
      c1_telegram = quiet_telegram\<rparr>"

lemmas door_simps =
  door_rules_def door_rule_def a_photo_def quiet_telegram_def config_v1_ok_def rule_v1_ok_def
  rule_name_ok_def stripped_def blank_def py_space_def actions_ok_def runnable_def is_wait_def
  telegram_ok_def references_ok_def classes_def region_ok_def camera_ok_def primary_source_ok

lemma door_rules_ok:
  "config_v1_ok (door_rules [''Back door'', ''back door''])"
  by (simp add: door_simps)


lemma sayable_rule:
  assumes "rule_obstacles r = []"
  obtains r1 where "rule_to_v1 r = Some r1" "\<And>i. rule_to_v2 r1 i = r\<lparr>ru_id := i\<rparr>"
    "r1_name r1 = ru_name r" "rule_ok r \<Longrightarrow> rule_v1_ok r1" "r1_actions r1 = ru_actions r"
proof -
  from assms obtain t where t: "ru_trigger r = VisionT t" "vt_source t = primary_camera"
    by (auto simp: rule_obstacles_def trigger_obstacles_def split: trigger.splits if_splits)
  show thesis
    by (rule that [of "the (rule_to_v1 r)"])
      (use t in \<open>auto simp: rule_to_v1_def rule_to_v2_def rule_ok_def rule_v1_ok_def vision_ok_def\<close>)
qed

lemma sayable_rules:
  assumes "concat (map rule_obstacles rs) = []"
  shows "map2 rule_to_v2 (List.map_filter rule_to_v1 rs) (map ru_id rs) = rs \<and>
    map r1_name (List.map_filter rule_to_v1 rs) = map ru_name rs \<and>
    map r1_actions (List.map_filter rule_to_v1 rs) = map ru_actions rs \<and>
    (list_all rule_ok rs \<longrightarrow> list_all rule_v1_ok (List.map_filter rule_to_v1 rs)) \<and>
    length (List.map_filter rule_to_v1 rs) = length rs"
  using assms
proof (induction rs)
  case (Cons r rs)
  then have "rule_obstacles r = []" by simp
  then obtain r1 where "rule_to_v1 r = Some r1" "\<And>i. rule_to_v2 r1 i = r\<lparr>ru_id := i\<rparr>"
    "r1_name r1 = ru_name r" "rule_ok r \<Longrightarrow> rule_v1_ok r1" "r1_actions r1 = ru_actions r"
    by (rule sayable_rule) blast
  with Cons show ?case by (simp add: List.map_filter_def)
qed (simp add: List.map_filter_def)

lemma ids_come_back:
  assumes "config_ok c"
  shows "assign_ids (map ru_name (cf_rules c)) (known_ids (Some c)) = map ru_id (cf_rules c)"
  unfolding assign_ids_def
proof (rule give_ids_known)
  have c: "distinct (map ru_name (cf_rules c))" "distinct (map ru_id (cf_rules c))"
    "list_all rule_ok (cf_rules c)" using assms by (auto simp: config_ok_def)
  have "dict_get (known_ids (Some c)) (ru_name r) = Some (ru_id r) \<and> ru_id r \<noteq> []"
    if "r \<in> set (cf_rules c)" for r
    using known_ids_get [OF c(1) that, of "[]"] that c(3)
    by (auto simp: known_ids_def list_all_iff rule_ok_def rule_id_ok_def)
  then show "list_all2 (\<lambda>n i. dict_get (known_ids (Some c)) n = Some i \<and> i \<noteq> [])
      (map ru_name (cf_rules c)) (map ru_id (cf_rules c))"
    by (simp add: list_all2_conv_all_nth)
  show "distinct (map ru_id (cf_rules c))" by (rule c)
qed simp

lemma down_and_up_again_valid:
  assumes "config_ok c" "to_v1 c = Inr c1"
  shows "config_v1_ok c1"
proof -
  have none: "concat (map rule_obstacles (cf_rules c)) = []"
    and c1: "c1 = \<lparr>c1_fps = cf_fps c, c1_test = cf_test c, c1_ttl = cf_ttl c,
        c1_rules = List.map_filter rule_to_v1 (cf_rules c),
        c1_ssh = cf_ssh c, c1_telegram = cf_telegram c\<rparr>"
    using assms(2) by (simp_all add: to_v1_def obstacles_def split: if_splits)
  show ?thesis using sayable_rules [OF none] assms(1) by (simp add: c1 config_v1_ok_def config_ok_def)
qed

text \<open>
  What goes down comes up again: when the first version can say the rules at all, the document
  an old client is shown is valid, and saving it unchanged over the rules gives back every rule
  with the identifier it had, and the fault policy.
\<close>

lemma down_and_up_again:
  assumes "config_ok c" "to_v1 c = Inr c1"
  shows "config_v1_ok c1 \<and> to_v2 c1 (Some c) policy = c"
proof -
  have none: "concat (map rule_obstacles (cf_rules c)) = []"
    and c1: "c1 = \<lparr>c1_fps = cf_fps c, c1_test = cf_test c, c1_ttl = cf_ttl c,
        c1_rules = List.map_filter rule_to_v1 (cf_rules c),
        c1_ssh = cf_ssh c, c1_telegram = cf_telegram c\<rparr>"
    using assms(2) by (simp_all add: to_v1_def obstacles_def split: if_splits)
  note rules = sayable_rules [OF none]
  have "cf_rules (to_v2 c1 (Some c) policy) = cf_rules c"
    unfolding rules_up using rules ids_come_back [OF assms(1)] by (simp add: c1)
  then have "to_v2 c1 (Some c) policy = c" by (simp add: to_v2_def c1)
  then show ?thesis using down_and_up_again_valid [OF assms] by simp
qed

lemma door_v2:
  "to_v1 (to_v2 (door_rules [''Back door'', ''back door'']) None IsolatedFaults) =
     Inr (door_rules [''Back door'', ''back door''])"
  by (rule down_of_up_config, unfold obstacles_up) (simp add: door_simps camera_obstacles_def)

lemma down_and_up_again_witness:
  "config_v1_ok (door_rules [''Back door'', ''back door'']) \<and>
   to_v2 (door_rules [''Back door'', ''back door''])
     (Some (to_v2 (door_rules [''Back door'', ''back door'']) None IsolatedFaults)) GlobalFaults =
   to_v2 (door_rules [''Back door'', ''back door'']) None IsolatedFaults"
  by (rule down_and_up_again [OF up_ok [OF door_rules_ok] door_v2]) simp

subsection \<open>What the first version of the file forgets\<close>

text \<open>Two actions that do the same, whatever is written out of the microphone.\<close>

fun same_effect :: "act \<Rightarrow> act \<Rightarrow> bool" where
  "same_effect (Video d a src mic u) (Video d' a' src' mic' u') \<longleftrightarrow>
     d = d' \<and> a = a' \<and> src = src' \<and> u = u' \<and> video_microphone a src mic = video_microphone a' src' mic'"
| "same_effect a b \<longleftrightarrow> a = b"

definition same_rule :: "rule \<Rightarrow> rule \<Rightarrow> bool" where
  "same_rule r q \<longleftrightarrow>
     ru_name r = ru_name q \<and> ru_enabled r = ru_enabled q \<and> ru_trigger r = ru_trigger q \<and>
     ru_cooldown r = ru_cooldown q \<and>
     list_all2 (\<lambda>a b. with_previous a = with_previous b \<and> same_effect (act a) (act b))
       (ru_actions r) (ru_actions q)"

lemma shown_same:
  assumes "action_obstacles n a = []" "act_ok a"
  shows "same_effect a (assumed (shown a))"
proof (cases a)
  case (Video d s src mic u)
  with assms have v: "src = primary_camera" "u = FailStep"
    "or_primary (if s then video_microphone s src mic else mic) = primary_microphone"
    by (simp_all add: camera_obstacles_def sound_obstacles_def split: if_splits)
  have "video_microphone s primary_camera mic = video_microphone s primary_camera None"
    using v assms(2) Video by (cases s; cases mic)
      (auto simp: video_microphone_def or_primary_def source_ok_def split: if_splits)
  with Video v show ?thesis by simp
qed (use assms in \<open>simp_all add: camera_obstacles_def sound_obstacles_def split: if_splits\<close>)

lemma assumed_ok: "act_ok a \<Longrightarrow> act_ok (assumed (shown a))"
  by (cases a) (auto simp: camera_ok_def primary_source_ok)

lemma assumed_wait: "is_wait (assumed (shown a)) = is_wait a"
  by (cases a) (simp_all add: is_wait_def)

lemma assumed_ssh: "(case assumed (shown a) of Ssh c \<Rightarrow> P c | _ \<Rightarrow> True) = (case a of Ssh c \<Rightarrow> P c | _ \<Rightarrow> True)"
  by (cases a) simp_all

definition reread :: "action rule_v1 \<Rightarrow> action rule_v1" where
  "reread = on_rule (\<lambda>a. \<lparr>with_previous = with_previous a, act = assumed (shown (act a))\<rparr>)"

lemma validate_dump: "validate_v1 (dump_v1 c) = c\<lparr>c1_rules := map reread (c1_rules c)\<rparr>"
  by (simp add: validate_v1_def dump_v1_def on_config_def reread_def on_rule_def o_def)

lemma reread_ok: "rule_v1_ok r \<Longrightarrow> rule_v1_ok (reread r)"
  by (auto simp: reread_def on_rule_def rule_v1_ok_def actions_ok_def list_all_iff runnable_def
      assumed_ok assumed_wait)

lemma reread_config_ok:
  assumes "config_v1_ok c"
  shows "config_v1_ok (validate_v1 (dump_v1 c))"
proof -
  have "list_all rule_v1_ok (map reread (c1_rules c))"
    using assms reread_ok by (auto simp: config_v1_ok_def list_all_iff)
  moreover have "map r1_name (map reread (c1_rules c)) = map r1_name (c1_rules c)"
    by (simp add: reread_def on_rule_def)
  moreover have "references_ok (c1_ssh c) (map r1_actions (map reread (c1_rules c))) =
      references_ok (c1_ssh c) (map r1_actions (c1_rules c))"
    by (simp add: references_ok_def list_all_iff reread_def on_rule_def assumed_ssh)
  ultimately show ?thesis using assms unfolding validate_dump config_v1_ok_def by (simp del: map_map)
qed

lemma reread_same:
  assumes "rule_obstacles r = []" "rule_to_v1 r = Some r1" "rule_ok r"
  shows "same_rule r (rule_to_v2 (reread r1) i)"
proof -
  have "\<forall>a \<in> set (ru_actions r). same_effect (act a) (assumed (shown (act a)))"
    using assms(1,3) shown_same
    by (auto simp: rule_obstacles_def rule_ok_def actions_ok_def list_all_iff)
  moreover obtain t where t: "ru_trigger r = VisionT t" "vt_source t = primary_camera"
    using assms(1) by (auto simp: rule_obstacles_def trigger_obstacles_def split: trigger.splits if_splits)
  ultimately show ?thesis using assms(2)
    by (auto simp: same_rule_def rule_to_v1_def rule_to_v2_def reread_def on_rule_def
        list_all2_conv_all_nth)
qed

lemma reread_rules_same:
  assumes "concat (map rule_obstacles rs) = []" "length is = length rs" "list_all rule_ok rs"
  shows "list_all2 same_rule rs (map2 rule_to_v2 (map reread (List.map_filter rule_to_v1 rs)) is)"
  using assms
proof (induction rs arbitrary: "is")
  case (Cons r rs)
  from Cons.prems have r: "rule_obstacles r = []" by simp
  then obtain r1 where r1: "rule_to_v1 r = Some r1" by (rule sayable_rule) blast
  from Cons.prems(2) obtain i js where "is = i # js" by (cases "is") auto
  with Cons reread_same [OF r r1] r1 Cons.prems(3) show ?case by (simp add: List.map_filter_def)
qed (simp add: List.map_filter_def)

lemma saved_in_v1:
  assumes "config_ok c" "write_document c n legacy_schema = Inr f"
  obtains c1 where "to_v1 c = Inr c1" "sf_body f = Body1 (dump_v1 c1)"
    "read_document f = Inr \<lparr>doc_config = to_v2 (validate_v1 (dump_v1 c1)) None GlobalFaults,
       doc_revision = n, doc_version = legacy_schema\<rparr>"
    "list_all2 same_rule (cf_rules c) (cf_rules (to_v2 (validate_v1 (dump_v1 c1)) None GlobalFaults))"
proof -
  from assms(2) obtain c1 where c1: "to_v1 c = Inr c1"
    and f: "f = \<lparr>sf_version = None, sf_revision = n, sf_body = Body1 (dump_v1 c1)\<rparr>"
    by (auto simp: write_document_def split: sum.splits)
  have ok: "config_v1_ok (validate_v1 (dump_v1 c1))"
    using down_and_up_again_valid [OF assms(1) c1] by (rule reread_config_ok)
  have none: "concat (map rule_obstacles (cf_rules c)) = []"
    and rules: "c1_rules c1 = List.map_filter rule_to_v1 (cf_rules c)"
    using c1 by (auto simp: to_v1_def obstacles_def split: if_splits)
  have "list_all rule_ok (cf_rules c)" using assms(1) by (simp add: config_ok_def)
  moreover have "length (assign_ids (map r1_name (c1_rules (validate_v1 (dump_v1 c1)))) (known_ids None)) =
      length (cf_rules c)"
    using sayable_rules [OF none] by (simp add: assign_ids_def validate_dump rules)
  ultimately have "list_all2 same_rule (cf_rules c)
      (cf_rules (to_v2 (validate_v1 (dump_v1 c1)) None GlobalFaults))"
    unfolding rules_up using reread_rules_same [OF none] by (simp add: validate_dump rules)
  then show thesis
    by (intro that [of c1])
      (simp_all add: c1 f read_document_def ok legacy_schema_def schema_version_def)
qed

text \<open>
  A save that is not refused is read back: in the second version the file gives back the very
  document; in the first version every rule comes back doing the same, and only the identifiers,
  which are made anew from the names, and the fault policy may have changed.
\<close>

lemma saved_rules_come_back:
  assumes "config_ok c" "version \<in> {legacy_schema, schema_version}"
    "write_document c n version = Inr f"
  shows "\<exists>d. read_document f = Inr d \<and> doc_revision d = n \<and> doc_version d = version \<and>
    (if version = schema_version then doc_config d = c
     else list_all2 same_rule (cf_rules c) (cf_rules (doc_config d)) \<and>
       cf_fps (doc_config d) = cf_fps c \<and> cf_test (doc_config d) = cf_test c \<and>
       cf_ttl (doc_config d) = cf_ttl c \<and> cf_ssh (doc_config d) = cf_ssh c \<and>
       cf_telegram (doc_config d) = cf_telegram c)"
proof (cases "version = legacy_schema")
  case True
  with assms obtain c1 where c1: "to_v1 c = Inr c1"
    "read_document f = Inr \<lparr>doc_config = to_v2 (validate_v1 (dump_v1 c1)) None GlobalFaults,
       doc_revision = n, doc_version = legacy_schema\<rparr>"
    "list_all2 same_rule (cf_rules c) (cf_rules (to_v2 (validate_v1 (dump_v1 c1)) None GlobalFaults))"
    by (auto elim: saved_in_v1)
  show ?thesis
    by (rule exI, rule conjI, rule c1(2))
      (use c1 True in \<open>auto simp: validate_dump to_v2_def to_v1_def legacy_schema_def schema_version_def
        split: if_splits\<close>)
next
  case False
  then have v: "version = schema_version" using assms(2) by simp
  have "read_document f = Inr \<lparr>doc_config = c, doc_revision = n, doc_version = schema_version\<rparr>"
    using assms False v by (auto simp: write_document_def read_document_def legacy_schema_def schema_version_def)
  then show ?thesis by (simp add: v)
qed

lemma door_v2_ok: "config_ok (to_v2 (door_rules [''Back door'', ''back door'']) None policy)"
  by (rule up_ok [OF door_rules_ok]) simp

lemma door_v1: "to_v1 (to_v2 (door_rules [''Back door'', ''back door'']) None policy) =
    Inr (door_rules [''Back door'', ''back door''])"
  by (rule down_of_up_config, unfold obstacles_up) (simp add: door_simps camera_obstacles_def)

definition saved_door :: stored where
  "saved_door =
     \<lparr>sf_version = None, sf_revision = 7, sf_body = Body1 (dump_v1 (door_rules [''Back door'', ''back door'']))\<rparr>"

lemma write_door:
  "write_document (to_v2 (door_rules [''Back door'', ''back door'']) None policy) 7 legacy_schema = Inr saved_door"
  by (simp add: write_document_def door_v1 saved_door_def)

lemma saved_rules_come_back_witness:
  "\<exists>d. read_document saved_door = Inr d \<and> doc_revision d = 7 \<and> cf_ttl (doc_config d) = 15"
proof -
  have other: "legacy_schema \<noteq> schema_version" by (simp add: legacy_schema_def schema_version_def)
  have "legacy_schema \<in> {legacy_schema, schema_version}" by simp
  from saved_rules_come_back [OF door_v2_ok this write_door, of IsolatedFaults] other
  obtain d where "read_document saved_door = Inr d" "doc_revision d = 7"
    "cf_ttl (doc_config d) = cf_ttl (to_v2 (door_rules [''Back door'', ''back door'']) None IsolatedFaults)"
    by auto
  then show ?thesis by (auto simp: to_v2_def door_rules_def)
qed

text \<open>
  A first-version file forgets the fault policy: \<open>obstacles\<close> does not count it, so rules saved
  with \<open>isolated\<close> are written without complaint and come back \<open>global\<close>, where one failing source
  disarms everything.
\<close>

lemma isolation_is_forgotten:
  assumes "config_ok c" "write_document c n legacy_schema = Inr f"
  shows "obstacles (c\<lparr>cf_policy := p\<rparr>) = [] \<and>
    (\<exists>d. read_document f = Inr d \<and> cf_policy (doc_config d) = GlobalFaults)"
proof -
  from assms obtain c1 where c1: "to_v1 c = Inr c1"
    "read_document f = Inr \<lparr>doc_config = to_v2 (validate_v1 (dump_v1 c1)) None GlobalFaults,
       doc_revision = n, doc_version = legacy_schema\<rparr>"
    by (rule saved_in_v1)
  then show ?thesis by (simp add: to_v1_def to_v2_def obstacles_def split: if_splits)
qed

lemma isolation_is_forgotten_witness:
  "cf_policy (to_v2 (door_rules [''Back door'', ''back door'']) None IsolatedFaults) = IsolatedFaults \<and>
   (\<exists>d. read_document saved_door = Inr d \<and> cf_policy (doc_config d) = GlobalFaults)"
  using isolation_is_forgotten [OF door_v2_ok write_door, of IsolatedFaults IsolatedFaults]
  by (simp add: to_v2_def)

text \<open>
  With rules to keep identifiers from, each rule listed under a known name keeps its own as
  long as no rule before it was given the same one; a new rule whose name reads like the
  identifier of a rule further down takes that identifier, and the older rule gets another.
\<close>

lemma identifiers_kept_or_taken:
  assumes "config_ok p" "q \<in> set (cf_rules p)" "length (new # ru_name q # names) \<le> 32"
  shows "assign_ids (map ru_name (cf_rules p)) (known_ids (Some p)) = map ru_id (cf_rules p) \<and>
    (new \<notin> ru_name ` set (cf_rules p) \<and> slug new = ru_id q \<longrightarrow>
      (\<exists>i. i \<noteq> ru_id q \<and> rule_id_ok i \<and>
        take 2 (assign_ids (new # ru_name q # names) (known_ids (Some p))) = [ru_id q, i]))"
proof (intro conjI impI)
  show "assign_ids (map ru_name (cf_rules p)) (known_ids (Some p)) = map ru_id (cf_rules p)"
    by (rule ids_come_back) (rule assms)
next
  assume new: "new \<notin> ru_name ` set (cf_rules p) \<and> slug new = ru_id q"
  have names: "distinct (map ru_name (cf_rules p))" using assms(1) by (simp add: config_ok_def)
  have q: "dict_get (known_ids (Some p)) (ru_name q) = Some (ru_id q)"
    using known_ids_get [OF names assms(2), of "[]"] by (simp add: known_ids_def)
  have "fst ` set (fold (\<lambda>r. dict_set (ru_name r) (ru_id r)) rs d) \<subseteq> fst ` set d \<union> ru_name ` set rs"
    for rs d
  proof (induction rs arbitrary: d)
    case (Cons r rs)
    then show ?case using Cons [of "dict_set (ru_name r) (ru_id r) d"] by (auto simp: dom_update)
  qed simp
  from this [of "cf_rules p" "[]"] new have "dict_get (known_ids (Some p)) new = None"
    by (auto simp: known_ids_def map_of_eq_None_iff)
  then have w: "wanted_id (known_ids (Some p)) new = ru_id q" using new by (simp add: wanted_id_def)
  have "rule_id_ok (ru_id q)" using assms(1,2) by (auto simp: config_ok_def rule_ok_def list_all_iff)
  then have some: "ru_id q \<noteq> []" by (simp add: rule_id_ok_def)
  define i where "i = free_id [ru_id q] (ru_id q) 2"
  have "i \<noteq> ru_id q" using free_id_free [of "[ru_id q]" "ru_id q" 2] by (simp add: i_def)
  moreover have two: "take 2 (assign_ids (new # ru_name q # names) (known_ids (Some p))) = [ru_id q, i]"
    using w q some by (simp add: assign_ids_def wanted_id_def Let_def i_def)
  moreover have "rule_id_ok i"
    using assigned(3) [OF assms(3), of "Some p"] assms(1) two
    by (metis list.set_intros(1,2) in_set_takeD list_all_iff pred_option_def option.set_cases option.inject)
  ultimately show "\<exists>i. i \<noteq> ru_id q \<and> rule_id_ok i \<and>
      take 2 (assign_ids (new # ru_name q # names) (known_ids (Some p))) = [ru_id q, i]" by blast
qed

lemma identifiers_kept_or_taken_witness:
  "\<exists>i. i \<noteq> ''back-door-2'' \<and> rule_id_ok i \<and>
     take 2 (assign_ids [''back door 2'', ''back door'']
       (known_ids (Some (to_v2 (door_rules [''Back door'', ''back door'']) None IsolatedFaults)))) =
     [''back-door-2'', i]"
proof -
  let ?p = "to_v2 (door_rules [''Back door'', ''back door'']) None IsolatedFaults"
  let ?q = "rule_to_v2 (door_rule ''back door'') ''back-door-2''"
  have ids: "assign_ids [''Back door'', ''back door''] [] = [''back-door'', ''back-door-2'']"
    by code_simp
  have rules: "cf_rules ?p = [rule_to_v2 (door_rule ''Back door'') ''back-door'', ?q]"
    unfolding rules_up using ids by (simp add: door_rules_def door_rule_def known_ids_def)
  have slug: "slug ''back door 2'' = ''back-door-2''" by code_simp
  have q: "ru_name ?q = ''back door''" "ru_id ?q = ''back-door-2''"
    "ru_name (rule_to_v2 (door_rule ''Back door'') ''back-door'') = ''Back door''"
    by (simp_all add: rule_to_v2_def door_rule_def)
  have "?q \<in> set (cf_rules ?p)" "length (''back door 2'' # ru_name ?q # []) \<le> 32"
    by (simp_all add: rules)
  note kept = identifiers_kept_or_taken [OF door_v2_ok this]
  have "''back door 2'' \<notin> ru_name ` set (cf_rules ?p)" unfolding rules using q by simp
  then show ?thesis using kept slug q by simp
qed

end
