(* ===== verification/Triggers.thy ===== *)
theory Triggers
  imports Events Rules
begin

section \<open>When a rule goes off\<close>

text \<open>
  \<open>src/sentry_mode/sentry/triggers.py\<close> and \<open>confirm\<close> of \<open>sentry/engine.py\<close>: one small state machine
  per kind of trigger. Readings of the clock and confidences are rational numbers, the \<open>-inf\<close> of a
  moment that never was is \<open>None\<close>. The trigger of a rule keeps the same state record whatever its
  kind, as in the code.
\<close>

subsection \<open>State\<close>

datatype phase = PhUnknown | PhClear | PhPending | PhActive | PhPresent | PhAbsent

record candidate =
  cd_opened :: seconds
  cd_deadline :: seconds
  cd_event :: string
  cd_zone :: "string option"

record rule_state =
  hits :: nat
  latched :: bool
  absent_since :: "seconds option"
  last_trigger :: "seconds option"
  phase :: phase
  pending_since :: "seconds option"
  said_by :: "(string, phase) dict"
  waiting :: "candidate option"
  opened_until :: "seconds option"

definition new_state :: rule_state where
  "new_state =
     \<lparr>hits = 0, latched = False, absent_since = None, last_trigger = None, phase = PhUnknown,
      pending_since = None, said_by = [], waiting = None, opened_until = None\<rparr>"

definition cooled :: "rule_state \<Rightarrow> rat \<Rightarrow> seconds \<Rightarrow> bool" where
  "cooled s cooldown now \<longleftrightarrow>
     (case last_trigger s of None \<Rightarrow> True | Some t \<Rightarrow> cooldown \<le> now - t)"

subsection \<open>Objects in a picture\<close>

record detection =
  de_label :: string
  de_confidence :: rat
  de_box :: region

definition detection_matches :: "vision_trigger \<Rightarrow> detection \<Rightarrow> bool" where
  "detection_matches t d \<longleftrightarrow>
     \<not> (de_label d \<noteq> vt_object t \<or> de_confidence d < vt_confidence t) \<and>
     (case vt_region t of
        None \<Rightarrow> True
      | Some (rx1, ry1, rx2, ry2) \<Rightarrow>
          (case de_box d of (x1, y1, x2, y2) \<Rightarrow>
             rx1 \<le> (x1 + x2) / 2 \<and> (x1 + x2) / 2 \<le> rx2 \<and>
             ry1 \<le> (y1 + y2) / 2 \<and> (y1 + y2) / 2 \<le> ry2))"

definition matching :: "vision_trigger \<Rightarrow> detection list \<Rightarrow> nat" where
  "matching t ds = length (filter (detection_matches t) ds)"

datatype rule_note = Detected | Rearmed | Triggered | Skipped | Expired | Cancelled | WaitingFor

definition confirm ::
  "vision_trigger \<Rightarrow> rat \<Rightarrow> rule_state \<Rightarrow> nat \<Rightarrow> seconds \<Rightarrow> rule_note list \<times> rule_state" where
  "confirm t cooldown s count captured =
     (if count < vt_count t then
        (let s1 = s\<lparr>hits := 0,
                     absent_since := (case absent_since s of None \<Rightarrow> Some captured | a \<Rightarrow> a)\<rparr>
         in if latched s1 \<and> vt_rearm t \<le> captured - the (absent_since s1)
            then ([Rearmed], s1\<lparr>latched := False\<rparr>)
            else ([], s1))
      else
        (let s1 = s\<lparr>absent_since := None, hits := min (vt_consecutive t) (hits s + 1)\<rparr>;
             notes = (if hits s1 = 1 \<and> \<not> latched s1 then [Detected] else [])
         in if latched s1 \<or> hits s1 < vt_consecutive t then (notes, s1)
            else if \<not> cooled s1 cooldown captured then (notes, s1)
            else (notes @ [Triggered], s1\<lparr>latched := True, last_trigger := Some captured\<rparr>)))"

text \<open>What the engine does to a rule whose camera missed frames.\<close>

definition missed_frames :: "rule_state \<Rightarrow> rule_state" where
  "missed_frames s = s\<lparr>hits := 0, absent_since := None\<rparr>"

subsection \<open>Events of a sensor\<close>

definition event_for :: "string \<Rightarrow> string \<Rightarrow> normalized \<Rightarrow> bool" where
  "event_for src kind e \<longleftrightarrow> ref_id (no_ref e) = src \<and> no_kind e = kind"

definition trusted :: "normalized \<Rightarrow> bool" where
  "trusted e \<longleftrightarrow> no_quality e = ''valid''"

definition sensor_fires :: "sensor_trigger \<Rightarrow> normalized \<Rightarrow> bool" where
  "sensor_fires t e \<longleftrightarrow>
     (if \<not> event_for (st_source t) (st_kind t) e \<or> \<not> trusted e then False
      else case no_value e of
        JBool b \<Rightarrow>
          (case st_edge t of Rising \<Rightarrow> b | Falling \<Rightarrow> \<not> b | AnyEdge \<Rightarrow> True)
      | _ \<Rightarrow> False)"

definition sound_fires :: "audio_trigger \<Rightarrow> normalized \<Rightarrow> bool" where
  "sound_fires t e \<longleftrightarrow>
     event_for (at_source t) (at_kind t) e \<and> trusted e \<and> no_value e = JBool True"

subsection \<open>Presence\<close>

definition wanted_phase :: "device_state \<Rightarrow> phase" where
  "wanted_phase d = (case d of Present \<Rightarrow> PhPresent | Absent \<Rightarrow> PhAbsent)"

definition observers :: "presence_trigger \<Rightarrow> string list" where
  "observers t = pt_source t # pt_observers t"

definition what_it_says :: "normalized \<Rightarrow> phase" where
  "what_it_says e =
     (if trusted e \<and> no_value e = JStr ''present'' then PhPresent
      else if trusted e \<and> no_value e = JStr ''absent'' then PhAbsent
      else PhUnknown)"

definition put_together :: "phase list \<Rightarrow> phase" where
  "put_together ps =
     (if PhPresent \<in> set ps then PhPresent
      else if list_all (\<lambda>p. p = PhAbsent) ps then PhAbsent
      else PhUnknown)"

definition presence_fires ::
  "presence_trigger \<Rightarrow> rule_state \<Rightarrow> normalized \<Rightarrow> bool \<times> rule_state" where
  "presence_fires t s e =
     (if ref_id (no_ref e) \<notin> set (observers t) \<or> no_kind e \<noteq> pt_kind t then (False, s)
      else
        (let said = dict_set (ref_id (no_ref e)) (what_it_says e) (said_by s);
             combined = put_together (map (\<lambda>o1. case dict_get said o1 of None \<Rightarrow> PhUnknown
                                                   | Some p \<Rightarrow> p) (observers t))
         in (combined \<noteq> phase s \<and> combined = wanted_phase (pt_state t),
             s\<lparr>said_by := said, phase := combined\<rparr>)))"

subsection \<open>Thresholds\<close>

definition number :: "normalized \<Rightarrow> rat option" where
  "number e =
     (if \<not> trusted e then None
      else case no_value e of JInt i \<Rightarrow> Some (of_int i) | JFloat q \<Rightarrow> Some q | _ \<Rightarrow> None)"

definition past :: "threshold_trigger \<Rightarrow> rat \<Rightarrow> bool" where
  "past t v \<longleftrightarrow> (case tt_above t of Some a \<Rightarrow> a < v | None \<Rightarrow> v < the (tt_below t))"

definition released :: "threshold_trigger \<Rightarrow> rat \<Rightarrow> bool" where
  "released t v \<longleftrightarrow>
     (case tt_above t of Some a \<Rightarrow> v \<le> a - tt_hysteresis t
      | None \<Rightarrow> the (tt_below t) + tt_hysteresis t \<le> v)"

definition threshold_fires ::
  "threshold_trigger \<Rightarrow> rule_state \<Rightarrow> normalized \<Rightarrow> bool \<times> rule_state" where
  "threshold_fires t s e =
     (if \<not> event_for (tt_source t) (tt_kind t) e then (False, s)
      else case number e of
        None \<Rightarrow>
          (False, if phase s = PhPending then s\<lparr>phase := PhClear, pending_since := None\<rparr> else s)
      | Some v \<Rightarrow>
          if phase s = PhUnknown then (False, s\<lparr>phase := (if past t v then PhActive else PhClear)\<rparr>)
          else if phase s = PhActive then
            (False, if released t v then s\<lparr>phase := PhClear\<rparr> else s)
          else if \<not> past t v then (False, s\<lparr>phase := PhClear, pending_since := None\<rparr>)
          else
            (let s1 = (if phase s = PhClear
                       then s\<lparr>phase := PhPending, pending_since := Some (no_monotonic e)\<rparr> else s)
             in if tt_for t \<le> no_monotonic e - the (pending_since s1)
                then (True, s1\<lparr>phase := PhActive, pending_since := None\<rparr>)
                else (False, s1)))"

subsection \<open>A threshold waits out its time, once for each crossing\<close>

definition reads_past :: "threshold_trigger \<Rightarrow> normalized \<Rightarrow> bool" where
  "reads_past t e \<longleftrightarrow>
     event_for (tt_source t) (tt_kind t) e \<and> (\<exists>v. number e = Some v \<and> past t v)"

definition reads_quiet :: "threshold_trigger \<Rightarrow> normalized \<Rightarrow> bool" where
  "reads_quiet t e \<longleftrightarrow>
     event_for (tt_source t) (tt_kind t) e \<and> (\<exists>v. number e = Some v \<and> \<not> past t v)"

definition reads_released :: "threshold_trigger \<Rightarrow> normalized \<Rightarrow> bool" where
  "reads_released t e \<longleftrightarrow>
     event_for (tt_source t) (tt_kind t) e \<and> (\<exists>v. number e = Some v \<and> released t v)"

lemma released_quiet: "threshold_ok t \<Longrightarrow> released t v \<Longrightarrow> \<not> past t v"
  by (auto simp: threshold_ok_def released_def past_def split: option.splits)

text \<open>
  A stretch that may end in the rule going off: a quiet reading, everything since, and no firing
  in between. After an earlier firing the quiet reading is one that released it.
\<close>

definition quiet_since :: "threshold_trigger \<Rightarrow> (normalized \<times> bool) list \<Rightarrow> (normalized \<times> bool) list \<Rightarrow> bool" where
  "quiet_since t h v \<longleftrightarrow>
     (\<exists>u q. h = u @ (q, False) # v \<and> reads_quiet t q \<and>
        (True \<in> snd ` set u \<longrightarrow> reads_released t q) \<and> True \<notin> snd ` set v)"

definition past_since :: "threshold_trigger \<Rightarrow> (normalized \<times> bool) list \<Rightarrow> seconds \<Rightarrow> bool" where
  "past_since t w since \<longleftrightarrow>
     (\<exists>e b w'. w = (e, b) # w' \<and> no_monotonic e = since \<and> reads_past t e) \<and>
     (\<forall>(e, b) \<in> set w. event_for (tt_source t) (tt_kind t) e \<longrightarrow> reads_past t e)"

definition threshold_knows ::
  "threshold_trigger \<Rightarrow> rule_state \<Rightarrow> (normalized \<times> bool) list \<Rightarrow> bool" where
  "threshold_knows t s h \<longleftrightarrow>
     (case phase s of
        PhUnknown \<Rightarrow> True \<notin> snd ` set h
      | PhClear \<Rightarrow> \<exists>v. quiet_since t h v
      | PhPending \<Rightarrow> \<exists>v w p. pending_since s = Some p \<and> quiet_since t h (v @ w) \<and> past_since t w p
      | PhActive \<Rightarrow> True
      | _ \<Rightarrow> False)"

definition threshold_good ::
  "threshold_trigger \<Rightarrow> (normalized \<times> bool) list \<Rightarrow> normalized \<Rightarrow> bool \<Rightarrow> bool" where
  "threshold_good t h e out \<longleftrightarrow>
     (out \<longrightarrow> (\<exists>v w since.
        quiet_since t h (v @ w) \<and> past_since t (w @ [(e, True)]) since \<and>
        tt_for t \<le> no_monotonic e - since))"

lemma quiet_since_snoc: "quiet_since t h v \<Longrightarrow> quiet_since t (h @ [(e, False)]) (v @ [(e, False)])"
  by (fastforce simp: quiet_since_def)

lemma quiet_since_now:
  "reads_quiet t e \<Longrightarrow> (True \<in> snd ` set h \<Longrightarrow> reads_released t e) \<Longrightarrow> quiet_since t (h @ [(e, False)]) []"
  by (auto simp: quiet_since_def)

lemma past_since_snoc:
  "past_since t w p \<Longrightarrow> \<not> event_for (tt_source t) (tt_kind t) e \<or> reads_past t e \<Longrightarrow>
     past_since t (w @ [(e, b)]) p"
  by (auto simp: past_since_def)

lemma past_since_start: "reads_past t e \<Longrightarrow> past_since t [(e, b)] (no_monotonic e)"
  by (auto simp: past_since_def)

lemma threshold_knows_step:
  assumes t: "threshold_ok t" and k: "threshold_knows t s h"
  shows "threshold_knows t (snd (threshold_fires t s e)) (h @ [(e, fst (threshold_fires t s e))]) \<and>
    threshold_good t h e (fst (threshold_fires t s e))"
proof (cases "event_for (tt_source t) (tt_kind t) e")
  case False
  have "threshold_knows t s (h @ [(e, False)])"
  proof (cases "phase s")
    case PhPending
    with k obtain v w p where "pending_since s = Some p" "quiet_since t h (v @ w)" "past_since t w p"
      by (auto simp: threshold_knows_def)
    then have "quiet_since t (h @ [(e, False)]) (v @ w @ [(e, False)])"
      "past_since t (w @ [(e, False)]) p" "pending_since s = Some p"
      using quiet_since_snoc [of t h "v @ w" e] past_since_snoc False by auto
    with PhPending show ?thesis by (auto simp: threshold_knows_def)
  qed (use k in \<open>auto simp: threshold_knows_def dest: quiet_since_snoc\<close>)
  then show ?thesis using False by (simp add: threshold_fires_def threshold_good_def)
next
  case True
  show ?thesis
  proof (cases "number e")
    case None
    have "\<exists>v. quiet_since t (h @ [(e, False)]) v" if "phase s = PhPending \<or> phase s = PhClear"
      using that k quiet_since_snoc [of t h _ e]
      by (elim disjE) (simp_all add: threshold_knows_def, blast+)
    then show ?thesis using True None k
      by (auto simp: threshold_fires_def threshold_good_def threshold_knows_def split: phase.splits)
  next
    case (Some v)
    let ?b = "fst (threshold_fires t s e)" and ?s = "snd (threshold_fires t s e)"
    have reads: "reads_past t e \<longleftrightarrow> past t v" "reads_quiet t e \<longleftrightarrow> \<not> past t v"
      "reads_released t e \<longleftrightarrow> released t v"
      using True Some by (auto simp: reads_past_def reads_quiet_def reads_released_def)
    show ?thesis
    proof (cases "phase s")
      case PhUnknown
      then show ?thesis using True Some k reads quiet_since_now [of t e h]
        by (auto simp: threshold_fires_def threshold_good_def threshold_knows_def)
    next
      case PhActive
      then show ?thesis using True Some reads released_quiet [OF t] quiet_since_now [of t e h]
        by (auto simp: threshold_fires_def threshold_good_def threshold_knows_def)
    next
      case PhClear
      with k obtain u where u: "quiet_since t h u" by (auto simp: threshold_knows_def)
      show ?thesis
      proof (cases "past t v")
        case False
        then show ?thesis using True Some PhClear quiet_since_snoc [OF u]
          by (auto simp: threshold_fires_def threshold_good_def threshold_knows_def)
      next
        case past: True
        have start: "past_since t [(e, b)] (no_monotonic e)" for b
          using past reads by (intro past_since_start) simp
        show ?thesis
        proof (cases "tt_for t \<le> 0")
          case wait: True
          have "quiet_since t h (u @ [])" "past_since t ([] @ [(e, True)]) (no_monotonic e)"
            "tt_for t \<le> no_monotonic e - no_monotonic e" using wait start u by simp_all
          then have "threshold_good t h e True" unfolding threshold_good_def by blast
          then show ?thesis using True Some PhClear past wait
            by (simp add: threshold_fires_def threshold_knows_def)
        next
          case False
          have "quiet_since t (h @ [(e, False)]) (u @ [(e, False)])" by (rule quiet_since_snoc) (rule u)
          with start have "\<exists>a w. quiet_since t (h @ [(e, False)]) (a @ w) \<and> past_since t w (no_monotonic e)"
            by blast
          then show ?thesis using True Some PhClear past False
            by (simp add: threshold_fires_def threshold_knows_def threshold_good_def)
        qed
      qed
    next
      case PhPending
      with k obtain u w p where u: "pending_since s = Some p" "quiet_since t h (u @ w)" "past_since t w p"
        by (auto simp: threshold_knows_def)
      show ?thesis
      proof (cases "past t v")
        case False
        then show ?thesis using True Some PhPending quiet_since_snoc [OF u(2)]
          by (auto simp: threshold_fires_def threshold_good_def threshold_knows_def)
      next
        case past: True
        have more: "past_since t (w @ [(e, b)]) p" for b
          using u(3) past reads by (intro past_since_snoc) simp_all
        show ?thesis
        proof (cases "tt_for t \<le> no_monotonic e - p")
          case wait: True
          have "threshold_good t h e True" unfolding threshold_good_def using wait more u by blast
          then show ?thesis using True Some PhPending past wait u(1)
            by (simp add: threshold_fires_def threshold_knows_def)
        next
          case False
          have "quiet_since t (h @ [(e, False)]) (u @ w @ [(e, False)])"
            using quiet_since_snoc [OF u(2), of e] by simp
          with more have "\<exists>a w. quiet_since t (h @ [(e, False)]) (a @ w) \<and> past_since t w p" by blast
          then show ?thesis using True Some PhPending past False u(1)
            by (simp add: threshold_fires_def threshold_knows_def threshold_good_def)
        qed
      qed
    qed (use k in \<open>simp_all add: threshold_knows_def\<close>)
  qed
qed

interpretation threshold_history: remembering "threshold_fires t" new_state
    "\<lambda>s h. threshold_ok t \<longrightarrow> threshold_knows t s h" "\<lambda>h e out. threshold_ok t \<longrightarrow> threshold_good t h e out"
  for t
proof unfold_locales
  show "threshold_ok t \<longrightarrow> threshold_knows t new_state []"
    by (simp add: threshold_knows_def new_state_def)
qed (use threshold_knows_step in blast)+

text \<open>
  C23. A threshold rule goes off only at the end of an unbroken stretch of readings past its limit,
  at least \<open>for_seconds\<close> long, which begins after a reading within the limit; once it has gone off,
  that reading must have been beyond the hysteresis, so it does not go off again before the value
  is well back.
\<close>

theorem threshold_waits_its_time:
  assumes "threshold_ok t" "trace (threshold_fires t) new_state es = h @ (e, True) # rest"
  shows "\<exists>u q v w since. h = u @ (q, False) # v @ w \<and> True \<notin> snd ` set (v @ w) \<and>
    reads_quiet t q \<and> (True \<in> snd ` set u \<longrightarrow> reads_released t q) \<and>
    past_since t (w @ [(e, True)]) since \<and> tt_for t \<le> no_monotonic e - since"
proof -
  from threshold_history.trace_good [OF assms(2)] assms(1)
  obtain v w since where "quiet_since t h (v @ w)" "past_since t (w @ [(e, True)]) since"
    "tt_for t \<le> no_monotonic e - since"
    by (auto simp: threshold_good_def)
  moreover from this(1) obtain u q where "h = u @ (q, False) # v @ w" "reads_quiet t q"
    "True \<in> snd ` set u \<longrightarrow> reads_released t q" "True \<notin> snd ` set (v @ w)"
    unfolding quiet_since_def by blast
  ultimately show ?thesis by (intro exI conjI)
qed

definition reading :: "string \<Rightarrow> seconds \<Rightarrow> json_value \<Rightarrow> normalized" where
  "reading kind now v =
     \<lparr>no_ref = \<lparr>ref_node = Some ''cellar'', ref_name = ''bme280''\<rparr>, no_event = ''e'', no_boot = ''b'',
      no_sequence = 1, no_kind = kind, no_value = v, no_unit = None, no_quality = ''valid'',
      no_clock = ''synced'', no_zone = Some ''cellar'', no_occurred = \<lparr>mom_us = 0, mom_offset = 0\<rparr>,
      no_received = now, no_monotonic = now, no_queued = 0, no_epoch = 1, no_connection = None,
      no_class = ''live'', no_eligible = True, no_reason = None\<rparr>"

definition too_warm :: threshold_trigger where
  "too_warm =
     \<lparr>tt_source = ''cellar.bme280'', tt_kind = ''environment.temperature'', tt_above = Some 30,
      tt_below = None, tt_hysteresis = 2, tt_for = 10\<rparr>"

abbreviation warm :: "seconds \<Rightarrow> rat \<Rightarrow> normalized" where
  "warm now v \<equiv> reading ''environment.temperature'' now (JFloat v)"

lemma cellar_ref: "ref_id \<lparr>ref_node = Some ''cellar'', ref_name = ''bme280''\<rparr> = ''cellar.bme280''"
  by (simp add: ref_id_def)

lemmas cellar_simps = reading_def too_warm_def cellar_ref event_for_def number_def trusted_def
  past_def released_def

lemma too_warm_ok: "threshold_ok too_warm"
  by (simp add: threshold_ok_def too_warm_def source_ok_def parse_ref_def py_partition_def mk_ref_def
      valid_ref_def valid_name_def valid_kind_def lower_def digits_def)

lemma too_warm_trace:
  "trace (threshold_fires too_warm) new_state [warm 0 25, warm 5 31, warm 16 32] =
     [(warm 0 25, False), (warm 5 31, False)] @ (warm 16 32, True) # []"
  by (simp add: trace_def threshold_fires_def new_state_def cellar_simps)

lemma threshold_waits_its_time_witness:
  "\<exists>u q v w since. [(warm 0 25, False), (warm 5 31, False)] = u @ (q, False) # v @ w \<and>
    past_since too_warm (w @ [(warm 16 32, True)]) since \<and> 10 \<le> 16 - since"
  using threshold_waits_its_time [OF too_warm_ok too_warm_trace]
  by (simp add: reading_def too_warm_def) blast

subsection \<open>Presence is what the observers last said\<close>

fun latest_word :: "presence_trigger \<Rightarrow> normalized list \<Rightarrow> string \<Rightarrow> phase option" where
  "latest_word t [] o1 = None"
| "latest_word t (e # es) o1 =
     (case latest_word t es o1 of
        Some p \<Rightarrow> Some p
      | None \<Rightarrow> if event_for o1 (pt_kind t) e then Some (what_it_says e) else None)"

definition stands :: "presence_trigger \<Rightarrow> normalized list \<Rightarrow> phase" where
  "stands t es =
     put_together (map (\<lambda>o1. case latest_word t es o1 of None \<Rightarrow> PhUnknown | Some p \<Rightarrow> p) (observers t))"

lemma latest_word_snoc:
  "latest_word t (es @ [e]) o1 =
     (if event_for o1 (pt_kind t) e then Some (what_it_says e) else latest_word t es o1)"
  by (induction es) (auto split: option.splits)

lemma stands_at_first: "stands t [] = PhUnknown"
  by (auto simp: stands_def put_together_def observers_def)

lemma presence_state:
  "phase (snd (run (presence_fires t) new_state es)) = stands t es \<and>
   (\<forall>o1 \<in> set (observers t).
      dict_get (said_by (snd (run (presence_fires t) new_state es))) o1 = latest_word t es o1)"
proof (induction es rule: rev_induct)
  case Nil
  then show ?case by (simp add: stands_at_first new_state_def)
next
  case (snoc e es)
  let ?s = "snd (run (presence_fires t) new_state es)"
  have step: "snd (run (presence_fires t) new_state (es @ [e])) = snd (presence_fires t ?s e)"
    by (simp add: run_append)
  show ?case
  proof (cases "ref_id (no_ref e) \<in> set (observers t) \<and> no_kind e = pt_kind t")
    case False
    then have "\<forall>o1 \<in> set (observers t). latest_word t (es @ [e]) o1 = latest_word t es o1"
      by (auto simp: latest_word_snoc event_for_def)
    moreover from this have "stands t (es @ [e]) = stands t es"
      unfolding stands_def by (intro arg_cong [where f = put_together] map_cong) simp_all
    moreover have "snd (presence_fires t ?s e) = ?s" using False by (auto simp: presence_fires_def)
    ultimately show ?thesis using snoc step by simp
  next
    case True
    let ?said = "dict_set (ref_id (no_ref e)) (what_it_says e) (said_by ?s)"
    have words: "\<forall>o1 \<in> set (observers t). dict_get ?said o1 = latest_word t (es @ [e]) o1"
      using snoc True by (auto simp: latest_word_snoc event_for_def)
    moreover have "snd (presence_fires t ?s e) = ?s\<lparr>said_by := ?said, phase :=
        put_together (map (\<lambda>o1. case dict_get ?said o1 of None \<Rightarrow> PhUnknown | Some p \<Rightarrow> p) (observers t))\<rparr>"
      using True by (simp add: presence_fires_def Let_def)
    moreover have "put_together (map (\<lambda>o1. case dict_get ?said o1 of None \<Rightarrow> PhUnknown | Some p \<Rightarrow> p)
        (observers t)) = stands t (es @ [e])"
      unfolding stands_def using words by (intro arg_cong [where f = put_together] map_cong) simp_all
    ultimately show ?thesis using step by simp
  qed
qed

text \<open>
  C25. A presence rule goes off exactly when an event changes where the device stands to the state
  the rule waits for, where it stands being computed from the last word of each observer alone:
  present if one says so, absent if all do, unknown otherwise.
\<close>

theorem presence_follows_its_observers:
  "fst (presence_fires t (snd (run (presence_fires t) new_state es)) e) \<longleftrightarrow>
     stands t (es @ [e]) = wanted_phase (pt_state t) \<and> stands t es \<noteq> wanted_phase (pt_state t)"
proof -
  let ?s = "snd (run (presence_fires t) new_state es)"
  have before: "phase ?s = stands t es" using presence_state by blast
  have after: "phase (snd (presence_fires t ?s e)) = stands t (es @ [e])"
    using presence_state [of t "es @ [e]"] by (simp add: run_append)
  have "fst (presence_fires t ?s e) \<longleftrightarrow>
      phase (snd (presence_fires t ?s e)) \<noteq> phase ?s \<and>
      phase (snd (presence_fires t ?s e)) = wanted_phase (pt_state t)"
    by (simp add: presence_fires_def Let_def)
  then show ?thesis unfolding before after by auto
qed

subsection \<open>A camera rule: confirmed, once for each appearance\<close>

datatype camera_input = Sample nat seconds | MissedFrames

fun watch_camera ::
  "vision_trigger \<Rightarrow> rat \<Rightarrow> rule_state \<Rightarrow> camera_input \<Rightarrow> rule_note list \<times> rule_state" where
  "watch_camera t cd s (Sample n c) = confirm t cd s n c"
| "watch_camera t cd s MissedFrames = ([], missed_frames s)"

fun shows_it :: "vision_trigger \<Rightarrow> camera_input \<Rightarrow> bool" where
  "shows_it t (Sample n c) \<longleftrightarrow> vt_count t \<le> n"
| "shows_it t MissedFrames \<longleftrightarrow> False"

fun misses_it :: "vision_trigger \<Rightarrow> camera_input \<Rightarrow> bool" where
  "misses_it t (Sample n c) \<longleftrightarrow> n < vt_count t"
| "misses_it t MissedFrames \<longleftrightarrow> False"

fun taken_at :: "camera_input \<Rightarrow> seconds" where
  "taken_at (Sample n c) = c"
| "taken_at MissedFrames = 0"

definition firings :: "(camera_input \<times> rule_note list) list \<Rightarrow> seconds list" where
  "firings h = map (taken_at \<circ> fst) (filter (\<lambda>x. Triggered \<in> set (snd x)) h)"

text \<open>A real absence: frames without the object, one after the other, over a long enough time.\<close>

definition absence :: "vision_trigger \<Rightarrow> (camera_input \<times> rule_note list) list \<Rightarrow> bool" where
  "absence t v \<longleftrightarrow>
     v \<noteq> [] \<and> (\<forall>x \<in> set v. misses_it t (fst x)) \<and>
     vt_rearm t \<le> taken_at (fst (last v)) - taken_at (fst (hd v))"

definition away_since_firing :: "vision_trigger \<Rightarrow> (camera_input \<times> rule_note list) list \<Rightarrow> bool" where
  "away_since_firing t h \<longleftrightarrow>
     firings h = [] \<or> (\<exists>u v w. h = u @ v @ w \<and> absence t v \<and> firings (v @ w) = [])"

definition vision_knows ::
  "vision_trigger \<Rightarrow> rule_state \<Rightarrow> (camera_input \<times> rule_note list) list \<Rightarrow> bool" where
  "vision_knows t s h \<longleftrightarrow>
     (\<exists>u w. h = u @ w \<and> length w = hits s \<and> (\<forall>x \<in> set w. shows_it t (fst x))) \<and>
     hits s \<le> vt_consecutive t \<and>
     (\<forall>a. absent_since s = Some a \<longrightarrow>
        (\<exists>u v. h = u @ v \<and> v \<noteq> [] \<and> (\<forall>x \<in> set v. misses_it t (fst x)) \<and>
           taken_at (fst (hd v)) = a \<and> firings v = [])) \<and>
     (\<not> latched s \<longrightarrow> away_since_firing t h) \<and>
     last_trigger s = (if firings h = [] then None else Some (last (firings h)))"

definition vision_good ::
  "vision_trigger \<Rightarrow> rat \<Rightarrow> (camera_input \<times> rule_note list) list \<Rightarrow> camera_input \<Rightarrow> rule_note list \<Rightarrow> bool" where
  "vision_good t cd h x out \<longleftrightarrow>
     (Triggered \<in> set out \<longrightarrow>
        (\<exists>u w. h = u @ w \<and> length w + 1 = vt_consecutive t \<and> (\<forall>y \<in> set w. shows_it t (fst y))) \<and>
        shows_it t x \<and> away_since_firing t h \<and>
        (firings h \<noteq> [] \<longrightarrow> cd \<le> taken_at x - last (firings h)))"

lemma firings_append [simp]: "firings (h @ g) = firings h @ firings g"
  by (simp add: firings_def)

lemma firings_single: "firings [(x, out)] = (if Triggered \<in> set out then [taken_at x] else [])"
  by (simp add: firings_def)

lemma away_snoc: "away_since_firing t h \<Longrightarrow> Triggered \<notin> set out \<Longrightarrow> away_since_firing t (h @ [(x, out)])"
proof -
  assume away: "away_since_firing t h" and quiet: "Triggered \<notin> set out"
  show ?thesis
  proof (cases "firings h = []")
    case True
    then show ?thesis using quiet by (simp add: away_since_firing_def firings_single)
  next
    case False
    with away obtain u v w where "h = u @ v @ w" "absence t v" "firings (v @ w) = []"
      unfolding away_since_firing_def by blast
    then have "h @ [(x, out)] = u @ v @ (w @ [(x, out)])" "firings (v @ w @ [(x, out)]) = []"
      using quiet by (simp_all add: firings_single)
    with \<open>absence t v\<close> show ?thesis unfolding away_since_firing_def by blast
  qed
qed

lemma suffix_of:
  assumes "h = u @ w" "\<forall>x \<in> set w. P x" "n \<le> length w"
  shows "\<exists>u w. h = u @ w \<and> length w = n \<and> (\<forall>x \<in> set w. P x)"
proof -
  have "h = (u @ take (length w - n) w) @ drop (length w - n) w" using assms(1) by simp
  moreover have "length (drop (length w - n) w) = n" using assms(3) by simp
  moreover have "\<forall>x \<in> set (drop (length w - n) w). P x" using assms(2) by (meson in_set_dropD)
  ultimately show ?thesis by blast
qed

lemma vision_step_missing:
  assumes k: "vision_knows t s h" and n: "n < vt_count t"
  shows "vision_knows t (snd (confirm t cd s n c)) (h @ [(Sample n c, fst (confirm t cd s n c))])"
proof -
  let ?out = "fst (confirm t cd s n c)" and ?s = "snd (confirm t cd s n c)"
  let ?x = "(Sample n c, ?out)"
  define a where "a = (case absent_since s of None \<Rightarrow> c | Some a \<Rightarrow> a)"
  have new: "hits ?s = 0" "absent_since ?s = Some a" "last_trigger ?s = last_trigger s"
    "latched ?s \<longleftrightarrow> latched s \<and> \<not> vt_rearm t \<le> c - a" "Triggered \<notin> set ?out"
    using n by (auto simp: confirm_def Let_def a_def split: option.splits)
  obtain u v where v: "h @ [?x] = u @ v" "v \<noteq> []" "\<forall>x \<in> set v. misses_it t (fst x)"
    "taken_at (fst (hd v)) = a" "firings v = []" "taken_at (fst (last v)) = c"
  proof (cases "absent_since s")
    case None
    then show thesis using that [of h "[?x]"] n new(5) by (simp add: a_def firings_single)
  next
    case (Some b)
    with k obtain u v where "h = u @ v" "v \<noteq> []" "\<forall>x \<in> set v. misses_it t (fst x)"
      "taken_at (fst (hd v)) = b" "firings v = []" by (auto simp: vision_knows_def)
    then show thesis using that [of u "v @ [?x]"] n new(5) Some by (simp add: a_def firings_single)
  qed
  have away: "away_since_firing t (h @ [?x])" if "\<not> latched ?s"
  proof (cases "latched s")
    case False
    then have "away_since_firing t h" using k by (simp add: vision_knows_def)
    then show ?thesis using new(5) by (rule away_snoc)
  next
    case True
    then have "absence t v" using v that new(4) by (simp add: absence_def)
    then show ?thesis using v(1,5) unfolding away_since_firing_def
      by (intro disjI2 exI [of _ u] exI [of _ v] exI [of _ "[]"]) simp
  qed
  have last: "last_trigger ?s = (if firings (h @ [?x]) = [] then None else Some (last (firings (h @ [?x]))))"
    using k new(3,5) by (simp add: vision_knows_def firings_single)
  show ?thesis unfolding vision_knows_def
    using away last v new(1,2) by (auto intro: exI [of _ "[]"])
qed

lemma vision_step_showing:
  assumes k: "vision_knows t s h" and n: "vt_count t \<le> n" and t: "1 \<le> vt_consecutive t"
  shows "vision_knows t (snd (confirm t cd s n c)) (h @ [(Sample n c, fst (confirm t cd s n c))]) \<and>
    vision_good t cd h (Sample n c) (fst (confirm t cd s n c))"
proof -
  let ?out = "fst (confirm t cd s n c)" and ?s = "snd (confirm t cd s n c)"
  let ?x = "(Sample n c, ?out)"
  from k obtain u w where w: "h = u @ w" "length w = hits s" "\<forall>x \<in> set w. shows_it t (fst x)"
    "hits s \<le> vt_consecutive t" by (auto simp: vision_knows_def)
  have fires: "Triggered \<in> set ?out \<longleftrightarrow>
      \<not> latched s \<and> vt_consecutive t \<le> hits s + 1 \<and> cooled s cd c"
    using n by (auto simp: confirm_def Let_def cooled_def split: option.splits)
  have new: "hits ?s = min (vt_consecutive t) (hits s + 1)" "absent_since ?s = None"
    "latched ?s \<longleftrightarrow> latched s \<or> Triggered \<in> set ?out"
    "last_trigger ?s = (if Triggered \<in> set ?out then Some c else last_trigger s)"
    using n by (auto simp: confirm_def Let_def cooled_def split: option.splits)
  have "\<exists>u w'. h @ [?x] = u @ w' \<and> length w' = hits ?s \<and> (\<forall>x \<in> set w'. shows_it t (fst x))"
    by (rule suffix_of [of _ u "w @ [?x]"]) (use w n new(1) in auto)
  moreover have "\<not> latched ?s \<longrightarrow> away_since_firing t (h @ [?x])"
    using k new(3) away_snoc [of t h ?out] by (auto simp: vision_knows_def)
  moreover have "last_trigger ?s = (if firings (h @ [?x]) = [] then None else Some (last (firings (h @ [?x]))))"
    using k new(4) by (simp add: vision_knows_def firings_single)
  ultimately have "vision_knows t ?s (h @ [?x])"
    unfolding vision_knows_def using new(1,2) by simp
  moreover have "vision_good t cd h (Sample n c) ?out" unfolding vision_good_def
  proof (intro impI conjI)
    assume f: "Triggered \<in> set ?out"
    have "\<exists>u w'. h = u @ w' \<and> length w' = vt_consecutive t - 1 \<and> (\<forall>x \<in> set w'. shows_it t (fst x))"
      by (rule suffix_of [OF w(1,3)]) (use f fires w(2) in auto)
    then obtain u w' where "h = u @ w'" "length w' = vt_consecutive t - 1"
      "\<forall>x \<in> set w'. shows_it t (fst x)" by blast
    moreover from this(2) have "length w' + 1 = vt_consecutive t" using t by simp
    ultimately show "\<exists>u w'. h = u @ w' \<and> length w' + 1 = vt_consecutive t \<and> (\<forall>x \<in> set w'. shows_it t (fst x))"
      by blast
    show "shows_it t (Sample n c)" using n by simp
    show "away_since_firing t h" using f fires k by (simp add: vision_knows_def)
    show "cd \<le> taken_at (Sample n c) - last (firings h)" if "firings h \<noteq> []"
      using f fires k that by (simp add: vision_knows_def cooled_def)
  qed
  ultimately show ?thesis by simp
qed

lemma vision_step_gap:
  assumes "vision_knows t s h"
  shows "vision_knows t (missed_frames s) (h @ [(MissedFrames, [])])"
  using assms away_snoc [of t h "[]" MissedFrames]
  by (auto simp: vision_knows_def missed_frames_def firings_single intro: exI [of _ "[]"])

interpretation camera_history: remembering "watch_camera t cd" new_state
    "\<lambda>s h. vision_ok t \<longrightarrow> vision_knows t s h" "\<lambda>h x out. vision_ok t \<longrightarrow> vision_good t cd h x out"
  for t cd
proof unfold_locales
  show "vision_ok t \<longrightarrow> vision_knows t new_state []"
    by (simp add: vision_knows_def new_state_def away_since_firing_def firings_def)
next
  fix s h x
  assume k: "vision_ok t \<longrightarrow> vision_knows t s h"
  have "vision_knows t (snd (watch_camera t cd s x)) (h @ [(x, fst (watch_camera t cd s x))]) \<and>
      vision_good t cd h x (fst (watch_camera t cd s x))" if t: "vision_ok t"
  proof (cases x)
    case (Sample n c)
    then show ?thesis
      using k t vision_step_missing [of t s h n cd c] vision_step_showing [of t s h n cd c]
      by (cases "n < vt_count t") (auto simp: vision_ok_def vision_good_def confirm_def Let_def)
  next
    case MissedFrames
    then show ?thesis using k t vision_step_gap [of t s h] by (simp add: vision_good_def)
  qed
  then show "vision_ok t \<longrightarrow> vision_knows t (snd (watch_camera t cd s x)) (h @ [(x, fst (watch_camera t cd s x))])"
    "vision_ok t \<longrightarrow> vision_good t cd h x (fst (watch_camera t cd s x))" by simp_all
qed

text \<open>
  C24. A camera rule goes off only at a sample that completes \<open>consecutive_detections\<close> samples in a
  row with enough matching objects, no frame missed between them; after it has gone off once, only
  when the cooldown has passed since and the object was really absent in between, in frame after
  frame for the time the rule asks for.
\<close>

theorem appearance_confirmed_once:
  assumes "vision_ok t" "trace (watch_camera t cd) new_state xs = h @ (x, out) # rest"
    "Triggered \<in> set out"
  shows "(\<exists>u w. h = u @ w \<and> length w + 1 = vt_consecutive t \<and> (\<forall>y \<in> set w. shows_it t (fst y))) \<and>
    shows_it t x \<and>
    (firings h = [] \<or>
      cd \<le> taken_at x - last (firings h) \<and>
      (\<exists>u v w. h = u @ v @ w \<and> absence t v \<and> firings (v @ w) = []))"
  using camera_history.trace_good [OF assms(2)] assms(1,3)
  unfolding vision_good_def away_since_firing_def by blast

definition somebody :: vision_trigger where
  "somebody =
     \<lparr>vt_source = primary_camera, vt_object = ''person'', vt_confidence = 1 / 2, vt_count = 1,
      vt_consecutive = 2, vt_rearm = 5, vt_region = None\<rparr>"

lemma somebody_ok: "vision_ok somebody"
  by (simp add: somebody_def vision_ok_def source_ok_def primary_camera_def parse_ref_def
      py_partition_def mk_ref_def valid_ref_def valid_name_def lower_def digits_def classes_def
      region_ok_def)

lemma somebody_trace:
  "trace (watch_camera somebody 10) new_state
     [Sample 1 0, Sample 2 1, Sample 0 2, Sample 0 8, Sample 1 20, Sample 1 21] =
   [(Sample 1 0, [Detected]), (Sample 2 1, [Triggered]), (Sample 0 2, []), (Sample 0 8, [Rearmed]),
    (Sample 1 20, [Detected])] @ (Sample 1 21, [Triggered]) # []"
  by (simp add: trace_def confirm_def new_state_def somebody_def cooled_def)

lemma appearance_confirmed_once_witness:
  "(10 :: rat) \<le> 21 - 1 \<and>
   (\<exists>u v w. [(Sample 1 0, [Detected]), (Sample 2 1, [Triggered]), (Sample 0 2, []),
      (Sample 0 8, [Rearmed]), (Sample 1 20, [Detected])] = u @ v @ w \<and>
      absence somebody v \<and> firings (v @ w) = [])"
  using appearance_confirmed_once [OF somebody_ok somebody_trace] by (simp add: firings_def)

end
