(* ===== verification/Correlation.thy ===== *)
theory Correlation
  imports Triggers
begin

section \<open>A sensor event confirmed by a camera\<close>

text \<open>
  \<open>src/sentry_mode/sentry/correlation.py\<close>: the window a sensor event opens, the camera samples
  that confirm it, and everything that closes it unused.
\<close>

subsection \<open>Operations\<close>

definition close_window :: "rule_state \<Rightarrow> rule_state" where
  "close_window s = s\<lparr>waiting := None, hits := 0\<rparr>"

definition expire :: "rule_state \<Rightarrow> seconds \<Rightarrow> rule_note list \<times> rule_state" where
  "expire s now =
     (case waiting s of
        None \<Rightarrow> ([], s)
      | Some c \<Rightarrow> if now \<le> cd_deadline c then ([], s) else ([Expired], close_window s))"

definition drop_window :: "rule_state \<Rightarrow> rule_note list \<times> rule_state" where
  "drop_window s = (case waiting s of None \<Rightarrow> ([], s) | Some c \<Rightarrow> ([Cancelled], close_window s))"

definition other_zone :: "sequence_trigger \<Rightarrow> string option \<Rightarrow> string option \<Rightarrow> bool" where
  "other_zone t zone camera_zone \<longleftrightarrow>
     sq_same_zone t \<and> zone \<noteq> None \<and> camera_zone \<noteq> None \<and> zone \<noteq> camera_zone"

definition sequence_event ::
  "sequence_trigger \<Rightarrow> rule_state \<Rightarrow> normalized \<Rightarrow> string option \<Rightarrow> rule_note list \<times> rule_state" where
  "sequence_event t s e camera_zone =
     (if \<not> event_for (st_source (sq_sensor t)) (st_kind (sq_sensor t)) e then ([], s)
      else
        (let now = no_monotonic e; (ns, s1) = expire s now in
         if \<not> trusted e then (ns @ fst (drop_window s1), snd (drop_window s1))
         else if \<not> sensor_fires (sq_sensor t) e then (ns, s1)
         else if (case opened_until s1 of None \<Rightarrow> False | Some u \<Rightarrow> now \<le> u) then (ns, s1)
         else if waiting s1 \<noteq> None then (ns, s1)
         else if other_zone t (no_zone e) camera_zone then (ns @ [Skipped], s1)
         else if latched s1 then (ns @ [Skipped], s1)
         else (ns @ [WaitingFor],
               s1\<lparr>waiting := Some \<lparr>cd_opened = now, cd_deadline = now + sq_within t,
                     cd_event = no_event e, cd_zone = no_zone e\<rparr>,
                  opened_until := Some now, hits := 0\<rparr>)))"

definition sequence_sample ::
  "sequence_trigger \<Rightarrow> rat \<Rightarrow> rule_state \<Rightarrow> nat \<Rightarrow> seconds \<Rightarrow> rule_note list \<times> rule_state" where
  "sequence_sample t cooldown s count captured =
     (let v = sq_vision t; (ns, s1) = expire s captured in
      if count < vt_count v then
        (let s2 = s1\<lparr>hits := 0,
                     absent_since := (case absent_since s1 of None \<Rightarrow> Some captured | a \<Rightarrow> a)\<rparr>
         in if latched s2 \<and> vt_rearm v \<le> captured - the (absent_since s2)
            then (ns @ [Rearmed], s2\<lparr>latched := False\<rparr>)
            else (ns, s2))
      else
        (let s2 = s1\<lparr>absent_since := None\<rparr> in
         if latched s2 \<or> (case waiting s2 of None \<Rightarrow> True | Some c \<Rightarrow> captured \<le> cd_opened c)
         then (ns, s2\<lparr>hits := 0\<rparr>)
         else
           (let s3 = s2\<lparr>hits := min (vt_consecutive v) (hits s2 + 1)\<rparr>;
                notes3 = ns @ (if hits s3 = 1 then [Detected] else [])
            in if hits s3 < vt_consecutive v then (notes3, s3)
               else
                 (let s4 = close_window s3
                  in if \<not> cooled s4 cooldown captured then (notes3 @ [Skipped], s4)
                     else (notes3 @ [Triggered],
                           s4\<lparr>latched := True, last_trigger := Some captured\<rparr>)))))"

subsection \<open>The rule as a machine\<close>

datatype sequence_input =
  SensorSays normalized "string option"
| CameraShows nat seconds
| CameraMissed
| RulePaused
| TimePasses seconds

fun follow_sequence ::
  "sequence_trigger \<Rightarrow> rat \<Rightarrow> rule_state \<Rightarrow> sequence_input \<Rightarrow> rule_note list \<times> rule_state" where
  "follow_sequence t cd s (SensorSays e z) = sequence_event t s e z"
| "follow_sequence t cd s (CameraShows n c) = sequence_sample t cd s n c"
| "follow_sequence t cd s CameraMissed = drop_window (missed_frames s)"
| "follow_sequence t cd s RulePaused = drop_window s"
| "follow_sequence t cd s (TimePasses now) = expire s now"

type_synonym sequence_history = "(sequence_input \<times> rule_note list) list"

fun confirms :: "sequence_trigger \<Rightarrow> seconds \<Rightarrow> sequence_input \<Rightarrow> bool" where
  "confirms t opened (CameraShows n c) \<longleftrightarrow> vt_count (sq_vision t) \<le> n \<and> opened < c"
| "confirms t opened CameraMissed \<longleftrightarrow> False"
| "confirms t opened RulePaused \<longleftrightarrow> False"
| "confirms t opened _ \<longleftrightarrow> True"

fun is_sample :: "sequence_input \<Rightarrow> bool" where
  "is_sample (CameraShows n c) = True"
| "is_sample _ = False"

definition samples_in :: "sequence_history \<Rightarrow> nat" where
  "samples_in h = length (filter (is_sample \<circ> fst) h)"

fun sample_time :: "sequence_input \<Rightarrow> seconds" where
  "sample_time (CameraShows n c) = c"
| "sample_time _ = 0"

definition triggers :: "sequence_history \<Rightarrow> seconds list" where
  "triggers h = map (sample_time \<circ> fst) (filter (\<lambda>x. Triggered \<in> set (snd x)) h)"

fun event_time :: "sequence_input \<Rightarrow> seconds" where
  "event_time (SensorSays e z) = no_monotonic e"
| "event_time _ = 0"

definition openings :: "sequence_history \<Rightarrow> seconds list" where
  "openings h = map (event_time \<circ> fst) (filter (\<lambda>x. WaitingFor \<in> set (snd x)) h)"

text \<open>The window that is open: the event that opened it, newer than any before, and what came since.\<close>

definition opened_by :: "sequence_trigger \<Rightarrow> sequence_history \<Rightarrow> normalized \<Rightarrow> sequence_history \<Rightarrow> bool" where
  "opened_by t h e v \<longleftrightarrow>
     (\<exists>u z ns. h = u @ (SensorSays e z, ns) # v \<and> WaitingFor \<in> set ns \<and>
        sensor_fires (sq_sensor t) e \<and> \<not> other_zone t (no_zone e) z \<and>
        (\<forall>x \<in> set (openings u). x < no_monotonic e)) \<and>
     triggers v = [] \<and> openings v = []"

definition confirmed_by :: "sequence_trigger \<Rightarrow> seconds \<Rightarrow> nat \<Rightarrow> sequence_history \<Rightarrow> bool" where
  "confirmed_by t opened n v \<longleftrightarrow>
     (\<exists>v1 v2. v = v1 @ v2 \<and> samples_in v2 = n \<and> (\<forall>x \<in> set v2. confirms t opened (fst x)))"

definition sequence_knows ::
  "sequence_trigger \<Rightarrow> rule_state \<Rightarrow> sequence_history \<Rightarrow> bool" where
  "sequence_knows t s h \<longleftrightarrow>
     (\<forall>c. waiting s = Some c \<longrightarrow>
        (\<exists>e v. opened_by t h e v \<and> cd_opened c = no_monotonic e \<and>
           cd_deadline c = no_monotonic e + sq_within t \<and> cd_event c = no_event e \<and>
           confirmed_by t (no_monotonic e) (hits s) v) \<and>
        hits s < vt_consecutive (sq_vision t)) \<and>
     (\<forall>x \<in> set (openings h). \<exists>u. opened_until s = Some u \<and> x \<le> u) \<and>
     last_trigger s = (if triggers h = [] then None else Some (last (triggers h)))"

definition sequence_good ::
  "sequence_trigger \<Rightarrow> rat \<Rightarrow> sequence_history \<Rightarrow> sequence_input \<Rightarrow> rule_note list \<Rightarrow> bool" where
  "sequence_good t cd h x ns \<longleftrightarrow>
     (Triggered \<in> set ns \<longrightarrow>
        (\<exists>n c e v. x = CameraShows n c \<and> opened_by t h e v \<and>
           no_monotonic e < c \<and> c \<le> no_monotonic e + sq_within t \<and> vt_count (sq_vision t) \<le> n \<and>
           confirmed_by t (no_monotonic e) (vt_consecutive (sq_vision t) - 1) v \<and>
           (triggers h \<noteq> [] \<longrightarrow> cd \<le> c - last (triggers h))))"

lemma triggers_append [simp]: "triggers (h @ g) = triggers h @ triggers g"
  by (simp add: triggers_def)

lemma openings_append [simp]: "openings (h @ g) = openings h @ openings g"
  by (simp add: openings_def)

lemma triggers_cons: "triggers (x # h) = triggers [x] @ triggers h"
  using triggers_append [of "[x]" h] by simp

lemma triggers_quiet: "Triggered \<notin> set ns \<Longrightarrow> triggers [(x, ns)] = []"
  by (simp add: triggers_def)

lemma openings_quiet: "WaitingFor \<notin> set ns \<Longrightarrow> openings [(x, ns)] = []"
  by (simp add: openings_def)

lemma opened_by_snoc:
  "opened_by t h e v \<Longrightarrow> Triggered \<notin> set ns \<Longrightarrow> WaitingFor \<notin> set ns \<Longrightarrow>
     opened_by t (h @ [(x, ns)]) e (v @ [(x, ns)])"
  unfolding opened_by_def by (fastforce simp: triggers_quiet openings_quiet)

lemma confirmed_by_snoc:
  "confirmed_by t opened n v \<Longrightarrow> confirms t opened x \<Longrightarrow>
     confirmed_by t opened (if is_sample x then n + 1 else n) (v @ [(x, ns)])"
  unfolding confirmed_by_def
  by (elim exE conjE, rule_tac x = v1 in exI, rule_tac x = "v2 @ [(x, ns)]" in exI)
    (simp add: samples_in_def)

lemma confirmed_by_none: "confirmed_by t opened 0 v"
  unfolding confirmed_by_def by (rule exI [of _ v], rule exI [of _ "[]"]) (simp add: samples_in_def)

subsection \<open>What a step keeps\<close>

definition quiet_notes :: "rule_note list \<Rightarrow> bool" where
  "quiet_notes ns \<longleftrightarrow> Triggered \<notin> set ns \<and> WaitingFor \<notin> set ns"

lemma knows_closed:
  assumes "sequence_knows t s h" "waiting s' = None" "opened_until s' = opened_until s"
    "last_trigger s' = last_trigger s" "quiet_notes ns"
  shows "sequence_knows t s' (h @ [(x, ns)])"
  using assms by (simp add: sequence_knows_def quiet_notes_def triggers_quiet openings_quiet)

lemma knows_open:
  assumes k: "sequence_knows t s h" and same: "waiting s' = waiting s"
    "opened_until s' = opened_until s" "last_trigger s' = last_trigger s" and q: "quiet_notes ns"
    and short: "waiting s \<noteq> None \<Longrightarrow> hits s' < vt_consecutive (sq_vision t)"
    and step: "\<And>c. waiting s = Some c \<Longrightarrow> hits s' = 0 \<or>
      confirms t (cd_opened c) x \<and> hits s' = (if is_sample x then hits s + 1 else hits s)"
  shows "sequence_knows t s' (h @ [(x, ns)])"
proof -
  have "\<exists>e v. opened_by t (h @ [(x, ns)]) e v \<and> cd_opened c = no_monotonic e \<and>
      cd_deadline c = no_monotonic e + sq_within t \<and> cd_event c = no_event e \<and>
      confirmed_by t (no_monotonic e) (hits s') v" if c: "waiting s = Some c" for c
  proof -
    from k c obtain e v where e: "opened_by t h e v" "cd_opened c = no_monotonic e"
      "cd_deadline c = no_monotonic e + sq_within t" "cd_event c = no_event e"
      "confirmed_by t (no_monotonic e) (hits s) v" by (auto simp: sequence_knows_def)
    have "opened_by t (h @ [(x, ns)]) e (v @ [(x, ns)])"
      using e(1) q by (intro opened_by_snoc) (simp_all add: quiet_notes_def)
    moreover have "confirmed_by t (no_monotonic e) (hits s') (v @ [(x, ns)])"
      using step [OF c] e(2,5) confirmed_by_snoc [OF e(5), of x ns] confirmed_by_none
      by (auto split: if_splits)
    ultimately show ?thesis using e(2-4) by blast
  qed
  moreover have "hits s' < vt_consecutive (sq_vision t)" if "waiting s = Some c" for c
    using short that by simp
  ultimately show ?thesis
    using k same q by (simp add: sequence_knows_def quiet_notes_def triggers_quiet openings_quiet)
qed

lemma expire_cases:
  obtains "expire s now = ([], s)" "\<And>c. waiting s = Some c \<Longrightarrow> now \<le> cd_deadline c"
  | "expire s now = ([Expired], close_window s)"
proof (cases "waiting s")
  case None
  then show ?thesis using that(1) by (simp add: expire_def)
next
  case (Some c)
  then show ?thesis using that by (cases "now \<le> cd_deadline c") (simp_all add: expire_def)
qed

lemma close_window_simps [simp]:
  "waiting (close_window s) = None" "opened_until (close_window s) = opened_until s"
  "last_trigger (close_window s) = last_trigger s" "hits (close_window s) = 0"
  "latched (close_window s) = latched s" "absent_since (close_window s) = absent_since s"
  by (simp_all add: close_window_def)

lemma drop_window_simps:
  "waiting (snd (drop_window s)) = None" "opened_until (snd (drop_window s)) = opened_until s"
  "last_trigger (snd (drop_window s)) = last_trigger s" "quiet_notes (fst (drop_window s))"
  by (simp_all add: drop_window_def quiet_notes_def split: option.splits)

lemma missed_frames_simps [simp]:
  "waiting (missed_frames s) = waiting s" "opened_until (missed_frames s) = opened_until s"
  "last_trigger (missed_frames s) = last_trigger s"
  by (simp_all add: missed_frames_def)

lemma expire_keeps:
  assumes k: "sequence_knows t s h" and e: "expire s now = (ns, s1)"
    and same: "waiting s' = waiting s1" "opened_until s' = opened_until s1"
      "last_trigger s' = last_trigger s1" and q: "quiet_notes out"
    and step: "\<And>c. waiting s1 = Some c \<Longrightarrow> s1 = s \<Longrightarrow> hits s' = 0 \<or>
      confirms t (cd_opened c) x \<and> hits s' = (if is_sample x then hits s + 1 else hits s)"
    and short: "waiting s1 \<noteq> None \<Longrightarrow> s1 = s \<Longrightarrow> hits s' < vt_consecutive (sq_vision t)"
  shows "sequence_knows t s' (h @ [(x, out)])"
proof (cases rule: expire_cases [of s now])
  case 1
  then have "s1 = s" using e by simp
  then show ?thesis using assms by (intro knows_open [OF k]) auto
next
  case 2
  then have "s1 = close_window s" using e by simp
  then show ?thesis using assms by (intro knows_closed [OF k]) auto
qed

lemma knows_hits: "sequence_knows t s h \<Longrightarrow> waiting s = Some c \<Longrightarrow> hits s < vt_consecutive (sq_vision t)"
  by (simp add: sequence_knows_def)

lemma expire_quiet: "expire s now = (ns, s1) \<Longrightarrow> quiet_notes ns"
  by (cases rule: expire_cases [of s now]) (auto simp: quiet_notes_def)

lemma expire_keeps_rest: "expire s now = (ns, s1) \<Longrightarrow>
    opened_until s1 = opened_until s \<and> last_trigger s1 = last_trigger s \<and> latched s1 = latched s"
  by (cases rule: expire_cases [of s now]) auto

lemma sequence_event_step:
  assumes k: "sequence_knows t s h" and t: "1 \<le> vt_consecutive (sq_vision t)"
  shows "sequence_knows t (snd (sequence_event t s e z)) (h @ [(SensorSays e z, fst (sequence_event t s e z))]) \<and>
    Triggered \<notin> set (fst (sequence_event t s e z))"
proof -
  obtain ns s1 where ex: "expire s (no_monotonic e) = (ns, s1)" by fastforce
  note q = expire_quiet [OF ex] and rest = expire_keeps_rest [OF ex]
  have same: "sequence_knows t s1 (h @ [(SensorSays e z, out)])" if "quiet_notes out" for out
    by (rule expire_keeps [OF k ex]) (use that knows_hits [OF k] in auto)
  have still: "sequence_knows t s (h @ [(SensorSays e z, [])])"
    by (rule knows_open [OF k]) (use knows_hits [OF k] in \<open>auto simp: quiet_notes_def\<close>)
  let ?for = "event_for (st_source (sq_sensor t)) (st_kind (sq_sensor t)) e"
  let ?opens = "?for \<and> trusted e \<and> sensor_fires (sq_sensor t) e \<and>
      \<not> (case opened_until s1 of None \<Rightarrow> False | Some u \<Rightarrow> no_monotonic e \<le> u) \<and> waiting s1 = None \<and>
      \<not> other_zone t (no_zone e) z \<and> \<not> latched s1"
  show ?thesis
  proof (cases ?opens)
    case True
    let ?s = "s1\<lparr>waiting := Some \<lparr>cd_opened = no_monotonic e, cd_deadline = no_monotonic e + sq_within t,
                    cd_event = no_event e, cd_zone = no_zone e\<rparr>,
                  opened_until := Some (no_monotonic e), hits := 0\<rparr>"
    have step: "sequence_event t s e z = (ns @ [WaitingFor], ?s)"
      using True ex by (simp add: sequence_event_def Let_def)
    have newer: "\<forall>x \<in> set (openings h). x < no_monotonic e"
    proof
      fix x assume "x \<in> set (openings h)"
      with k obtain u where "opened_until s = Some u" "x \<le> u" by (auto simp: sequence_knows_def)
      then show "x < no_monotonic e" using True rest by auto
    qed
    let ?h = "h @ [(SensorSays e z, ns @ [WaitingFor])]"
    have open1: "openings ?h = openings h @ [no_monotonic e]" "triggers ?h = triggers h"
      using q by (simp_all add: openings_def triggers_def quiet_notes_def)
    have "opened_by t ?h e []"
      using True newer by (auto simp: opened_by_def triggers_def openings_def)
    then have "sequence_knows t ?s ?h"
      using k t newer rest open1 confirmed_by_none
      by (auto simp: sequence_knows_def less_imp_le)
    then show ?thesis using q step by (simp add: quiet_notes_def)
  next
    case False
    then show ?thesis
      using same [of ns] same [of "ns @ [Skipped]"] still q ex
        knows_closed [OF k drop_window_simps(1) _ _, of s1 "ns @ fst (drop_window s1)"] rest
        drop_window_simps [of s1]
      by (auto simp: sequence_event_def Let_def quiet_notes_def split: option.splits)
  qed
qed

lemma sequence_sample_step:
  assumes k: "sequence_knows t s h" and t: "1 \<le> vt_consecutive (sq_vision t)"
  shows "sequence_knows t (snd (sequence_sample t cd s n c))
      (h @ [(CameraShows n c, fst (sequence_sample t cd s n c))]) \<and>
    sequence_good t cd h (CameraShows n c) (fst (sequence_sample t cd s n c))"
proof -
  define out where "out = fst (sequence_sample t cd s n c)"
  define s' where "s' = snd (sequence_sample t cd s n c)"
  let ?v = "sq_vision t" and ?x = "CameraShows n c"
  obtain ns s1 where ex: "expire s c = (ns, s1)" by fastforce
  note q = expire_quiet [OF ex] and rest = expire_keeps_rest [OF ex]
  have idle: "sequence_knows t r (h @ [(?x, o1)]) \<and> sequence_good t cd h ?x o1"
    if "waiting r = waiting s1" "opened_until r = opened_until s1" "last_trigger r = last_trigger s1"
      "hits r = 0" "quiet_notes o1" for r o1
    using that expire_keeps [OF k ex, of r o1 ?x] t by (simp add: sequence_good_def quiet_notes_def)
  let ?goal = "sequence_knows t s' (h @ [(?x, out)]) \<and> sequence_good t cd h ?x out"
  let ?late = "latched s1 \<or> (case waiting s1 of None \<Rightarrow> True | Some w \<Rightarrow> c \<le> cd_opened w)"
  have ?goal
  proof (cases "n < vt_count ?v \<or> ?late")
    case True
    then show ?thesis
      using ex q unfolding s'_def out_def
      by (intro idle)
        (auto simp: sequence_sample_def Let_def quiet_notes_def split: option.splits)
  next
    case False
    then obtain w where w: "waiting s1 = Some w" "cd_opened w < c" "vt_count ?v \<le> n" "\<not> latched s1"
      by (auto split: option.splits)
    have s1: "s1 = s" "c \<le> cd_deadline w"
      using ex w(1) by (cases rule: expire_cases [of s c]; auto)+
    define r where "r = s1\<lparr>absent_since := None, hits := min (vt_consecutive ?v) (hits s1 + 1)\<rparr>"
    define o1 where "o1 = ns @ (if hits r = 1 then [Detected] else [])"
    have o1: "quiet_notes o1" using q by (simp add: o1_def quiet_notes_def)
    show ?thesis
    proof (cases "hits r < vt_consecutive ?v")
      case True
      have "sequence_sample t cd s n c = (o1, r)"
        using ex w True by (auto simp: sequence_sample_def Let_def r_def o1_def)
      moreover have "sequence_knows t r (h @ [(?x, o1)])"
        by (rule knows_open [OF k]) (use True w s1 o1 in \<open>auto simp: r_def\<close>)
      ultimately show ?thesis using o1 by (simp add: s'_def out_def sequence_good_def quiet_notes_def)
    next
      case False
      have full: "hits s + 1 = vt_consecutive ?v"
        using False knows_hits [OF k] w(1) s1(1) by (simp add: r_def)
      show ?thesis
      proof (cases "cooled (close_window r) cd c")
        case False
        have "sequence_sample t cd s n c = (o1 @ [Skipped], close_window r)"
          using ex w \<open>\<not> hits r < _\<close> False by (simp add: sequence_sample_def Let_def r_def o1_def)
        moreover have "sequence_knows t (close_window r) (h @ [(?x, o1 @ [Skipped])])"
          by (rule knows_closed [OF k]) (use o1 s1 in \<open>auto simp: r_def quiet_notes_def\<close>)
        ultimately show ?thesis using o1 by (simp add: s'_def out_def sequence_good_def quiet_notes_def)
      next
        case True
        let ?f = "(close_window r)\<lparr>latched := True, last_trigger := Some c\<rparr>"
        have step: "sequence_sample t cd s n c = (o1 @ [Triggered], ?f)"
          using ex w \<open>\<not> hits r < _\<close> True by (simp add: sequence_sample_def Let_def r_def o1_def)
        have "sequence_knows t ?f (h @ [(?x, o1 @ [Triggered])])"
          using k o1 s1 by (simp add: sequence_knows_def r_def triggers_def openings_def quiet_notes_def)
        moreover obtain e v where "opened_by t h e v" "cd_opened w = no_monotonic e"
          "cd_deadline w = no_monotonic e + sq_within t" "confirmed_by t (no_monotonic e) (hits s) v"
          using k w(1) s1(1) by (auto simp: sequence_knows_def)
        moreover have "hits s = vt_consecutive ?v - 1" using full by simp
        moreover have "triggers h \<noteq> [] \<longrightarrow> cd \<le> c - last (triggers h)"
          using True k s1 by (auto simp: cooled_def sequence_knows_def r_def)
        ultimately show ?thesis using step w s1
          by (auto simp: s'_def out_def sequence_good_def)
      qed
    qed
  qed
  then show ?thesis by (simp add: out_def s'_def)
qed

lemma follow_sequence_step:
  assumes k: "sequence_knows t s h" and t: "1 \<le> vt_consecutive (sq_vision t)"
  shows "sequence_knows t (snd (follow_sequence t cd s x)) (h @ [(x, fst (follow_sequence t cd s x))]) \<and>
    sequence_good t cd h x (fst (follow_sequence t cd s x))"
proof (cases x)
  case (SensorSays e z)
  then show ?thesis using sequence_event_step [OF k t] by (simp add: sequence_good_def)
next
  case (CameraShows n c)
  then show ?thesis using sequence_sample_step [OF k t] by simp
next
  case CameraMissed
  then show ?thesis using knows_closed [OF k drop_window_simps(1) _ _ drop_window_simps(4)]
    by (simp add: drop_window_simps sequence_good_def) (metis drop_window_simps(4) quiet_notes_def)
next
  case RulePaused
  then show ?thesis using knows_closed [OF k drop_window_simps(1) _ _ drop_window_simps(4)]
    by (simp add: drop_window_simps sequence_good_def) (metis drop_window_simps(4) quiet_notes_def)
next
  case (TimePasses now)
  obtain ns s1 where ex: "expire s now = (ns, s1)" by fastforce
  have "sequence_knows t s1 (h @ [(x, ns)])"
    by (rule expire_keeps [OF k ex]) (use TimePasses knows_hits [OF k] expire_quiet [OF ex] in auto)
  then show ?thesis using TimePasses ex expire_quiet [OF ex] by (simp add: sequence_good_def quiet_notes_def)
qed

definition sequence_ok :: "sequence_trigger \<Rightarrow> bool" where
  "sequence_ok t \<longleftrightarrow> trigger_ok (SequenceT t)"

interpretation sequence_history: remembering "follow_sequence t cd" new_state
    "\<lambda>s h. sequence_ok t \<longrightarrow> sequence_knows t s h" "\<lambda>h x out. sequence_ok t \<longrightarrow> sequence_good t cd h x out"
  for t cd
proof unfold_locales
  show "sequence_ok t \<longrightarrow> sequence_knows t new_state []"
    by (simp add: sequence_knows_def new_state_def triggers_def openings_def)
qed (use follow_sequence_step in \<open>auto simp: sequence_ok_def vision_ok_def\<close>)

text \<open>
  C22. A sequence rule goes off only at a camera sample inside a window: after a trusted sensor event in
  the right direction and zone, not later than \<open>within_seconds\<close> after it, with the required number of
  confirming samples in a row since, all taken after the event and no frame missed among them; that
  event is newer than any that opened a window before and no other firing has used it; and the
  cooldown has passed since the last firing.
\<close>

theorem confirmed_inside_the_window:
  assumes "sequence_ok t" "trace (follow_sequence t cd) new_state xs = h @ (x, out) # rest"
    "Triggered \<in> set out"
  shows "\<exists>n c e v. x = CameraShows n c \<and> opened_by t h e v \<and>
    no_monotonic e < c \<and> c \<le> no_monotonic e + sq_within t \<and> vt_count (sq_vision t) \<le> n \<and>
    confirmed_by t (no_monotonic e) (vt_consecutive (sq_vision t) - 1) v \<and>
    (triggers h \<noteq> [] \<longrightarrow> cd \<le> c - last (triggers h))"
  using sequence_history.trace_good [OF assms(2)] assms(1,3) by (simp add: sequence_good_def)

definition door_then_somebody :: sequence_trigger where
  "door_then_somebody =
     \<lparr>sq_within = 5, sq_basis = HubObservation, sq_same_zone = True,
      sq_sensor = \<lparr>st_source = ''cellar.bme280'', st_kind = ''motion.pir'', st_edge = Rising\<rparr>,
      sq_vision = somebody\<rparr>"

lemma door_then_somebody_ok: "sequence_ok door_then_somebody"
  using somebody_ok
  by (simp add: sequence_ok_def door_then_somebody_def sensor_ok_def source_ok_def parse_ref_def
      py_partition_def mk_ref_def valid_ref_def valid_name_def valid_kind_def lower_def digits_def)

abbreviation moves :: "seconds \<Rightarrow> sequence_input" where
  "moves now \<equiv> SensorSays (reading ''motion.pir'' now (JBool True)) (Some ''cellar'')"

lemma door_then_somebody_trace:
  "trace (follow_sequence door_then_somebody 10) new_state [moves 1, CameraShows 1 3, moves 4, CameraShows 1 5] =
   [(moves 1, [WaitingFor]), (CameraShows 1 3, [Detected]), (moves 4, [])] @ (CameraShows 1 5, [Triggered]) # []"
  by (simp add: trace_def sequence_event_def sequence_sample_def expire_def new_state_def sensor_fires_def
      door_then_somebody_def somebody_def reading_def event_for_def trusted_def cellar_ref other_zone_def
      cooled_def close_window_def Let_def)

lemma confirmed_inside_the_window_witness:
  "\<exists>e v. opened_by door_then_somebody
      [(moves 1, [WaitingFor]), (CameraShows 1 3, [Detected]), (moves 4, [])] e v \<and>
     no_monotonic e < 5 \<and> 5 \<le> no_monotonic e + 5 \<and> confirmed_by door_then_somebody (no_monotonic e) 1 v"
  using confirmed_inside_the_window [OF door_then_somebody_ok door_then_somebody_trace]
  by (simp add: door_then_somebody_def somebody_def) blast

end
