(* ===== verification/Planner.thy ===== *)
theory Planner
  imports Registry Rules
begin

section \<open>What arming a set of rules needs\<close>

text \<open>
  \<open>src/sentry_mode/sentry/resources.py\<close>: what the rules watch, use and look for, worked out before
  anything starts, with every obstacle as a named problem. The rules are valid, so parsing a source
  name never raises here. Problems keep what they are about; their English is left out.
\<close>

subsection \<open>Data\<close>

datatype why =
  NotArmable string
| CaptureTiming
| NoZoneSet string
| ZonesDiffer string string string string
| NotWatchable string
| NoDevices string
| LevelNotAvailable
| NoSoundEvents string
| NameTheCamera string
| NotRecordable string
| OnlyThisMicrophone
| NotHeard string
| SatellitesOff string
| NotKnown string
| WrongKind string source_kind source_kind
| SwitchedOff string

record problem =
  pr_rule :: string
  pr_name :: string
  pr_why :: why

datatype plan_note = SilentVideo string string | CameraKeptReady

record plan =
  pl_detector :: bool
  pl_camera :: bool
  pl_confidence :: rat
  pl_vision :: "(string, rat) dict"
  pl_ready :: "string set"
  pl_watched :: "string set"
  pl_needs :: "(string, string set) dict"
  pl_problems :: "problem list"
  pl_notes :: "plan_note list"

definition plan_ok :: "plan \<Rightarrow> bool" where
  "plan_ok p \<longleftrightarrow> pl_problems p = []"

definition rules_needing :: "plan \<Rightarrow> string \<Rightarrow> string set" where
  "rules_needing p s = set (map fst (filter (\<lambda>(i, ss). s \<in> ss) (pl_needs p)))"

definition detector_need :: string where "detector_need = ''detector''"

definition expected :: "trigger \<Rightarrow> source_kind option" where
  "expected t =
     (case t of VisionT _ \<Rightarrow> Some Camera | SensorT _ \<Rightarrow> Some Sensor | ThresholdT _ \<Rightarrow> Some Sensor
      | AudioT _ \<Rightarrow> Some Microphone | PresenceT _ \<Rightarrow> Some Presence | _ \<Rightarrow> None)"

record planner =
  pn_sources :: registry
  pn_satellites :: bool
  pn_cameras :: "string set"
  pn_microphones :: "string set"

subsection \<open>Resolving the camera of the trigger\<close>

fun with_source :: "act \<Rightarrow> string \<Rightarrow> act" where
  "with_source (Photo n t _ u) c = Photo n t c u"
| "with_source (Video d a _ mic u) c = Video d a c mic u"
| "with_source a _ = a"

fun records_from :: "act \<Rightarrow> string option" where
  "records_from (Photo _ _ src _) = Some src"
| "records_from (Video _ _ src _ _) = Some src"
| "records_from _ = None"

definition resolve_act :: "rule \<Rightarrow> act \<Rightarrow> act" where
  "resolve_act r a =
     (case (records_from a, trigger_camera (ru_trigger r)) of
        (Some src, Some camera) \<Rightarrow> if src = trigger_source then with_source a camera else a
      | _ \<Rightarrow> a)"

definition resolved :: "rule \<Rightarrow> action list" where
  "resolved r = map (\<lambda>a. a\<lparr>act := resolve_act r (act a)\<rparr>) (ru_actions r)"

subsection \<open>Planning\<close>

definition check_source :: "planner \<Rightarrow> string \<Rightarrow> source_kind option \<Rightarrow> why list" where
  "check_source p s kind =
     (let r = the (parse_ref s) in
      if \<not> is_local r \<and> \<not> pn_satellites p then [SatellitesOff s]
      else case reg_get (pn_sources p) (ref_id r) of
        None \<Rightarrow> [NotKnown s]
      | Some rec \<Rightarrow>
          (case kind of
             Some k \<Rightarrow>
               if rec_kind rec \<noteq> k then [WrongKind s (rec_kind rec) k]
               else if rec_state rec = Disabled then [SwitchedOff s] else []
           | None \<Rightarrow> if rec_state rec = Disabled then [SwitchedOff s] else []))"

text \<open>What is gathered while the rules are gone through; \<open>at_used\<close> belongs to the current rule.\<close>

record gathered =
  at_problems :: "problem list"
  at_detector :: bool
  at_camera :: bool
  at_confidences :: "rat list"
  at_vision :: "(string, rat) dict"
  at_ready :: "string set"
  at_watched :: "string set"
  at_needs :: "(string, string set) dict"
  at_notes :: "plan_note list"
  at_used :: "string set"

definition nothing_yet :: gathered where
  "nothing_yet =
     \<lparr>at_problems = [], at_detector = False, at_camera = False, at_confidences = [], at_vision = [],
      at_ready = {}, at_watched = {}, at_needs = [], at_notes = [], at_used = {}\<rparr>"

definition fail_with :: "rule \<Rightarrow> why list \<Rightarrow> gathered \<Rightarrow> gathered" where
  "fail_with r ws g =
     g\<lparr>at_problems := at_problems g @
         map (\<lambda>w. \<lparr>pr_rule = ru_id r, pr_name = ru_name r, pr_why = w\<rparr>) ws\<rparr>"

definition use_source :: "string \<Rightarrow> gathered \<Rightarrow> gathered" where
  "use_source s g = g\<lparr>at_used := insert s (at_used g)\<rparr>"

definition listen_to :: "string \<Rightarrow> gathered \<Rightarrow> gathered" where
  "listen_to s g = g\<lparr>at_watched := insert s (at_watched g)\<rparr>"

definition local_source :: "string \<Rightarrow> bool" where
  "local_source s \<longleftrightarrow> is_local (the (parse_ref s))"

definition plan_observer :: "planner \<Rightarrow> rule \<Rightarrow> string \<Rightarrow> gathered \<Rightarrow> gathered" where
  "plan_observer p r s g =
     (let g1 = use_source s g; ws = check_source p s (Some Presence)
      in if ws \<noteq> [] then fail_with r ws g1 else listen_to s g1)"

definition plan_vision :: "planner \<Rightarrow> rule \<Rightarrow> vision_trigger \<Rightarrow> gathered \<Rightarrow> gathered" where
  "plan_vision p r v g =
     (let s = vt_source v; g1 = use_source s g; ws = check_source p s (Some Camera); g2 = use_source detector_need g1
      in if ws \<noteq> [] then fail_with r ws g1
         else if s = primary_camera
         then g2\<lparr>at_detector := True, at_confidences := at_confidences g2 @ [vt_confidence v]\<rparr>
         else if s \<in> pn_cameras p
         then g2\<lparr>at_vision := dict_set s (min (vt_confidence v)
                (case dict_get (at_vision g2) s of None \<Rightarrow> 1 | Some c \<Rightarrow> c)) (at_vision g2)\<rparr>
         else fail_with r [NotWatchable s] g2)"

definition plan_listen :: "planner \<Rightarrow> rule \<Rightarrow> string \<Rightarrow> source_kind \<Rightarrow> why list \<Rightarrow> gathered \<Rightarrow> gathered" where
  "plan_listen p r s kind others g =
     (let g1 = use_source s g; ws = check_source p s (Some kind)
      in if ws \<noteq> [] then fail_with r ws g1 else listen_to s (fail_with r others g1))"

fun plan_part :: "planner \<Rightarrow> rule \<Rightarrow> trigger \<Rightarrow> gathered \<Rightarrow> gathered" where
  "plan_part p r (HealthT _) g = g"
| "plan_part p r (VisionT v) g = plan_vision p r v g"
| "plan_part p r (SensorT t) g = plan_listen p r (st_source t) Sensor [] g"
| "plan_part p r (ThresholdT t) g = plan_listen p r (tt_source t) Sensor [] g"
| "plan_part p r (PresenceT t) g =
     (let g1 = use_source (pt_source t) g; ws = check_source p (pt_source t) (Some Presence)
      in if ws \<noteq> [] then fail_with r ws g1
         else listen_to (pt_source t)
           (fail_with r (if local_source (pt_source t) then [NoDevices (pt_source t)] else [])
             (fold (plan_observer p r) (pt_observers t) g1)))"
| "plan_part p r (AudioT t) g =
     plan_listen p r (at_source t) Microphone
       ((if at_level t \<noteq> None then [LevelNotAvailable] else []) @
        (if local_source (at_source t) then [NoSoundEvents (at_source t)] else [])) g"
| "plan_part p r (SequenceT _) g = g"

definition sequence_why :: "planner \<Rightarrow> sequence_trigger \<Rightarrow> why list" where
  "sequence_why p t =
     (if sq_basis t = CaptureTime then [CaptureTiming] else []) @
     (if \<not> sq_same_zone t then []
      else case (reg_get (pn_sources p) (st_source (sq_sensor t)),
                 reg_get (pn_sources p) (vt_source (sq_vision t))) of
        (Some sensor, Some camera) \<Rightarrow>
          if rec_zone sensor = None then [NoZoneSet (rec_id sensor)]
          else if rec_zone camera = None then [NoZoneSet (rec_id camera)]
          else if rec_zone sensor \<noteq> rec_zone camera
          then [ZonesDiffer (rec_id sensor) (the (rec_zone sensor)) (rec_id camera) (the (rec_zone camera))]
          else []
      | _ \<Rightarrow> [])"

fun microphone_of :: "act \<Rightarrow> string option" where
  "microphone_of (Audio _ mic) = Some mic"
| "microphone_of (Video _ a src mic _) = video_microphone a src mic"
| "microphone_of _ = None"

fun silent_video :: "act \<Rightarrow> bool" where
  "silent_video (Video _ a src mic _) \<longleftrightarrow> a \<and> video_microphone a src mic = None"
| "silent_video _ \<longleftrightarrow> False"

definition plan_microphone :: "planner \<Rightarrow> rule \<Rightarrow> act \<Rightarrow> gathered \<Rightarrow> gathered" where
  "plan_microphone p r a g =
     (case microphone_of a of
        None \<Rightarrow> g
      | Some m \<Rightarrow>
          (let g1 = use_source m g; ws = check_source p m (Some Microphone);
               heard = (m = primary_microphone \<or> m \<in> pn_microphones p)
           in if ws \<noteq> [] then fail_with r ws g1
              else if heard then g1
              else if local_source m then fail_with r [OnlyThisMicrophone] g1
              else fail_with r [NotHeard m] g1))"

definition plan_camera :: "planner \<Rightarrow> rule \<Rightarrow> string \<Rightarrow> gathered \<Rightarrow> gathered" where
  "plan_camera p r s g =
     (let g1 = use_source s g; ws = check_source p s (Some Camera)
      in if ws \<noteq> [] then fail_with r ws g1
         else if s = primary_camera then g1\<lparr>at_camera := True\<rparr>
         else if s \<in> pn_cameras p then g1\<lparr>at_ready := insert s (at_ready g1)\<rparr>
         else fail_with r [NotRecordable s] g1)"

definition plan_action :: "planner \<Rightarrow> rule \<Rightarrow> act \<Rightarrow> gathered \<Rightarrow> gathered" where
  "plan_action p r original g =
     (let a = resolve_act r original in
      if records_from a = Some trigger_source
      then fail_with r [NameTheCamera (trigger_type (ru_trigger r))] g
      else
        (let g1 = (case records_from a of None \<Rightarrow> g | Some s \<Rightarrow> plan_camera p r s g);
             quiet = SilentVideo (ru_name r) (case records_from a of None \<Rightarrow> '''' | Some s \<Rightarrow> s);
             g2 = (if silent_video a \<and> quiet \<notin> set (at_notes g1)
                   then g1\<lparr>at_notes := at_notes g1 @ [quiet]\<rparr> else g1)
         in plan_microphone p r a g2))"

definition plan_rule :: "planner \<Rightarrow> rule \<Rightarrow> gathered \<Rightarrow> gathered" where
  "plan_rule p r g =
     (let g0 = g\<lparr>at_used := {}\<rparr>;
          g1 = (if trigger_type (ru_trigger r) \<in> set armable_triggers then g0
                else fail_with r [NotArmable (trigger_type (ru_trigger r))] g0);
          g2 = (case ru_trigger r of SequenceT t \<Rightarrow> fail_with r (sequence_why p t) g1 | _ \<Rightarrow> g1);
          g3 = fold (plan_part p r) (trigger_parts (ru_trigger r)) g2;
          g4 = fold (plan_action p r) (map act (ru_actions r)) g3
      in g4\<lparr>at_needs := dict_set (ru_id r) (at_used g4) (at_needs g4)\<rparr>)"

definition gather :: "planner \<Rightarrow> rule list \<Rightarrow> gathered" where
  "gather p rs = fold (plan_rule p) rs nothing_yet"

definition make_plan :: "planner \<Rightarrow> rule list \<Rightarrow> plan" where
  "make_plan p rs =
     (let g = gather p rs in
      \<lparr>pl_detector = at_detector g, pl_camera = at_detector g \<or> at_camera g,
       pl_confidence = (case at_confidences g of [] \<Rightarrow> 7 / 10 | c # cs \<Rightarrow> fold min cs c),
       pl_vision = at_vision g, pl_ready = at_ready g - set (map fst (at_vision g)),
       pl_watched = at_watched g, pl_needs = at_needs g, pl_problems = at_problems g,
       pl_notes = at_notes g @ (if at_camera g \<and> \<not> at_detector g then [CameraKeptReady] else [])\<rparr>)"

definition plan_actions :: "planner \<Rightarrow> rule \<Rightarrow> problem list" where
  "plan_actions p r = at_problems (fold (plan_action p r) (map act (ru_actions r)) nothing_yet)"

subsection \<open>What the rules name\<close>

definition usable :: "planner \<Rightarrow> source_kind \<Rightarrow> string \<Rightarrow> bool" where
  "usable p k s \<longleftrightarrow>
     (local_source s \<or> pn_satellites p) \<and>
     (\<exists>rec. reg_get (pn_sources p) (ref_id (the (parse_ref s))) = Some rec \<and>
        rec_kind rec = k \<and> rec_state rec \<noteq> Disabled)"

lemma check_source_ok: "check_source p s (Some k) = [] \<longleftrightarrow> usable p k s"
  by (auto simp: check_source_def usable_def local_source_def Let_def split: option.splits if_splits)

fun listens :: "trigger \<Rightarrow> string set" where
  "listens (SensorT t) = {st_source t}"
| "listens (ThresholdT t) = {tt_source t}"
| "listens (AudioT t) = {at_source t}"
| "listens (PresenceT t) = insert (pt_source t) (set (pt_observers t))"
| "listens (SequenceT t) = {st_source (sq_sensor t)}"
| "listens _ = {}"

fun listens_kind :: "trigger \<Rightarrow> source_kind" where
  "listens_kind (AudioT t) = Microphone"
| "listens_kind (PresenceT t) = Presence"
| "listens_kind _ = Sensor"

fun looks :: "trigger \<Rightarrow> vision_trigger option" where
  "looks (VisionT v) = Some v"
| "looks (SequenceT t) = Some (sq_vision t)"
| "looks _ = None"

definition looks_at :: "rule \<Rightarrow> string set" where
  "looks_at r = (case looks (ru_trigger r) of None \<Rightarrow> {} | Some v \<Rightarrow> {vt_source v})"

definition records :: "rule \<Rightarrow> string set" where
  "records r = set (List.map_filter (\<lambda>a. records_from (resolve_act r (act a))) (ru_actions r))"

definition hears :: "rule \<Rightarrow> string set" where
  "hears r = set (List.map_filter (\<lambda>a. microphone_of (resolve_act r (act a))) (ru_actions r))"

lemma set_map_filter_iff: "set (List.map_filter f xs) = {y. \<exists>x \<in> set xs. f x = Some y}"
  by (force simp: List.map_filter_def)

lemma records_iff:
  "records r = {s. \<exists>a \<in> set (ru_actions r). records_from (resolve_act r (act a)) = Some s}"
  "hears r = {m. \<exists>a \<in> set (ru_actions r). microphone_of (resolve_act r (act a)) = Some m}"
  by (simp_all add: records_def hears_def set_map_filter_iff)

definition needs_of :: "rule \<Rightarrow> string set" where
  "needs_of r =
     listens (ru_trigger r) \<union> looks_at r \<union> (if looks_at r = {} then {} else {detector_need}) \<union>
     records r \<union> hears r"

lemma fail_with_nothing [simp]: "fail_with r [] g = g"
  by (simp add: fail_with_def)

lemma fail_with_problems [simp]: "at_problems (fail_with r ws g) = [] \<longleftrightarrow> at_problems g = [] \<and> ws = []"
  by (simp add: fail_with_def)

lemma gathered_simps [simp]:
  "at_problems (use_source s g) = at_problems g" "at_problems (listen_to s g) = at_problems g"
  "at_used (use_source s g) = insert s (at_used g)" "at_used (listen_to s g) = at_used g"
  "at_watched (listen_to s g) = insert s (at_watched g)" "at_watched (use_source s g) = at_watched g"
  by (simp_all add: use_source_def listen_to_def)

text \<open>The parts of a gathering that stay put, in one relation.\<close>

definition same_but_actions :: "gathered \<Rightarrow> gathered \<Rightarrow> bool" where
  "same_but_actions g h \<longleftrightarrow>
     at_detector h = at_detector g \<and> at_confidences h = at_confidences g \<and> at_vision h = at_vision g \<and>
     at_watched h = at_watched g \<and> at_needs h = at_needs g"

lemma plan_camera_clean:
  assumes "at_problems (plan_camera p r s g) = []"
  shows "at_problems g = [] \<and> same_but_actions g (plan_camera p r s g) \<and> usable p Camera s \<and>
    (at_camera (plan_camera p r s g) \<longleftrightarrow> at_camera g \<or> s = primary_camera) \<and>
    at_ready (plan_camera p r s g) = at_ready g \<union> ({s} - {primary_camera}) \<and>
    at_used (plan_camera p r s g) = insert s (at_used g) \<and>
    (s = primary_camera \<or> s \<in> pn_cameras p)"
  using assms check_source_ok [of p s Camera]
  by (auto simp: plan_camera_def Let_def same_but_actions_def use_source_def split: if_splits)

lemma plan_microphone_clean:
  assumes "at_problems (plan_microphone p r a g) = []"
  shows "at_problems g = [] \<and> same_but_actions g (plan_microphone p r a g) \<and>
    at_camera (plan_microphone p r a g) = at_camera g \<and> at_ready (plan_microphone p r a g) = at_ready g \<and>
    at_used (plan_microphone p r a g) = at_used g \<union> set_option (microphone_of a) \<and>
    (\<forall>m \<in> set_option (microphone_of a). usable p Microphone m)"
  using assms check_source_ok [of p _ Microphone]
  by (auto simp: plan_microphone_def Let_def same_but_actions_def use_source_def split: if_splits option.splits)

lemma plan_action_clean:
  assumes "at_problems (plan_action p r x g) = []"
  defines "a \<equiv> resolve_act r x"
  shows "at_problems g = [] \<and> same_but_actions g (plan_action p r x g) \<and>
    (at_camera (plan_action p r x g) \<longleftrightarrow> at_camera g \<or> records_from a = Some primary_camera) \<and>
    at_ready (plan_action p r x g) = at_ready g \<union> (set_option (records_from a) - {primary_camera}) \<and>
    at_used (plan_action p r x g) = at_used g \<union> set_option (records_from a) \<union> set_option (microphone_of a) \<and>
    (\<forall>s \<in> set_option (records_from a). usable p Camera s) \<and>
    (\<forall>m \<in> set_option (microphone_of a). usable p Microphone m)"
proof -
  define g1 where "g1 = (case records_from a of None \<Rightarrow> g | Some s \<Rightarrow> plan_camera p r s g)"
  define g2 where "g2 = (if silent_video a \<and>
      SilentVideo (ru_name r) (case records_from a of None \<Rightarrow> '''' | Some s \<Rightarrow> s) \<notin> set (at_notes g1)
    then g1\<lparr>at_notes := at_notes g1 @
      [SilentVideo (ru_name r) (case records_from a of None \<Rightarrow> '''' | Some s \<Rightarrow> s)]\<rparr> else g1)"
  have named: "records_from a \<noteq> Some trigger_source" and step: "plan_action p r x g = plan_microphone p r a g2"
    using assms(1) by (auto simp: plan_action_def Let_def a_def g1_def g2_def split: if_splits)
  have m: "at_problems (plan_microphone p r a g2) = []" using assms(1) step by simp
  note mic = plan_microphone_clean [OF m]
  have g2: "at_problems g2 = at_problems g1" "same_but_actions g1 g2" "at_camera g2 = at_camera g1"
    "at_ready g2 = at_ready g1" "at_used g2 = at_used g1"
    by (simp_all add: g2_def same_but_actions_def)
  have cam: "at_problems g = [] \<and> same_but_actions g g1 \<and>
      (at_camera g1 \<longleftrightarrow> at_camera g \<or> records_from a = Some primary_camera) \<and>
      at_ready g1 = at_ready g \<union> (set_option (records_from a) - {primary_camera}) \<and>
      at_used g1 = at_used g \<union> set_option (records_from a) \<and>
      (\<forall>s \<in> set_option (records_from a). usable p Camera s)"
  proof (cases "records_from a")
    case None
    then show ?thesis using mic g2 by (simp add: g1_def same_but_actions_def)
  next
    case (Some s)
    then have "at_problems (plan_camera p r s g) = []" using mic g2 by (simp add: g1_def)
    from plan_camera_clean [OF this] Some show ?thesis by (simp add: g1_def)
  qed
  show ?thesis using mic g2 cam unfolding step by (auto simp: same_but_actions_def)
qed

lemma plan_actions_clean:
  assumes "at_problems (fold (plan_action p r) xs g) = []"
  defines "as \<equiv> resolve_act r ` set xs" and "h \<equiv> fold (plan_action p r) xs g"
  shows "at_problems g = [] \<and> same_but_actions g h \<and>
    (at_camera h \<longleftrightarrow> at_camera g \<or> (\<exists>a \<in> as. records_from a = Some primary_camera)) \<and>
    at_ready h = at_ready g \<union> ({s. \<exists>a \<in> as. records_from a = Some s} - {primary_camera}) \<and>
    at_used h = at_used g \<union> {s. \<exists>a \<in> as. records_from a = Some s} \<union> {m. \<exists>a \<in> as. microphone_of a = Some m} \<and>
    (\<forall>a \<in> as. \<forall>s \<in> set_option (records_from a). usable p Camera s) \<and>
    (\<forall>a \<in> as. \<forall>m \<in> set_option (microphone_of a). usable p Microphone m)"
  using assms(1) unfolding as_def h_def
proof (induction xs arbitrary: g)
  case Nil
  then show ?case by (simp add: same_but_actions_def)
next
  case (Cons x xs)
  note rest = Cons.IH [of "plan_action p r x g"]
  have "at_problems (plan_action p r x g) = []" using rest Cons.prems by simp
  from plan_action_clean [OF this] rest Cons.prems show ?case by (auto simp: same_but_actions_def)
qed

text \<open>What a trigger adds: the detector or a camera to watch, and the sources to listen to.\<close>

definition more_vision :: "vision_trigger option \<Rightarrow> (string, rat) dict \<Rightarrow> (string, rat) dict" where
  "more_vision w d =
     (case w of
        None \<Rightarrow> d
      | Some v \<Rightarrow>
          if vt_source v = primary_camera then d
          else dict_set (vt_source v)
            (min (vt_confidence v) (case dict_get d (vt_source v) of None \<Rightarrow> 1 | Some c \<Rightarrow> c)) d)"

definition watches_primary :: "vision_trigger option \<Rightarrow> bool" where
  "watches_primary w \<longleftrightarrow> (case w of None \<Rightarrow> False | Some v \<Rightarrow> vt_source v = primary_camera)"

definition looked_at :: "vision_trigger option \<Rightarrow> string set" where
  "looked_at w = (case w of None \<Rightarrow> {} | Some v \<Rightarrow> {vt_source v, detector_need})"

definition added :: "gathered \<Rightarrow> gathered \<Rightarrow> vision_trigger option \<Rightarrow> string set \<Rightarrow> bool" where
  "added g h w ls \<longleftrightarrow>
     (at_detector h \<longleftrightarrow> at_detector g \<or> watches_primary w) \<and>
     at_confidences h = at_confidences g @ (if watches_primary w then [vt_confidence (the w)] else []) \<and>
     at_vision h = more_vision w (at_vision g) \<and>
     at_watched h = at_watched g \<union> ls \<and>
     at_used h = at_used g \<union> ls \<union> looked_at w \<and>
     at_camera h = at_camera g \<and> at_ready h = at_ready g \<and> at_needs h = at_needs g"

lemma plan_vision_clean:
  assumes "at_problems (plan_vision p r v g) = []"
  shows "at_problems g = [] \<and> added g (plan_vision p r v g) (Some v) {} \<and> usable p Camera (vt_source v)"
  using assms check_source_ok [of p "vt_source v" Camera]
  by (auto simp: plan_vision_def Let_def added_def use_source_def watches_primary_def looked_at_def
      more_vision_def split: if_splits)

lemma plan_listen_clean:
  assumes "at_problems (plan_listen p r s k ws g) = []"
  shows "at_problems g = [] \<and> added g (plan_listen p r s k ws g) None {s} \<and> usable p k s \<and> ws = []"
  using assms check_source_ok [of p s k]
  by (auto simp: plan_listen_def Let_def added_def use_source_def listen_to_def watches_primary_def
      looked_at_def more_vision_def split: if_splits)

lemma plan_observers_clean:
  assumes "at_problems (fold (plan_observer p r) ss g) = []"
  shows "at_problems g = [] \<and> added g (fold (plan_observer p r) ss g) None (set ss) \<and>
    (\<forall>s \<in> set ss. usable p Presence s)"
  using assms
proof (induction ss arbitrary: g)
  case Nil
  then show ?case by (simp add: added_def watches_primary_def looked_at_def more_vision_def)
next
  case (Cons s ss)
  note rest = Cons.IH [of "plan_observer p r s g"]
  have "at_problems (plan_observer p r s g) = []" using rest Cons.prems by simp
  then have "at_problems g = [] \<and> added g (plan_observer p r s g) None {s} \<and> usable p Presence s"
    using check_source_ok [of p s Presence]
    by (auto simp: plan_observer_def Let_def added_def use_source_def listen_to_def watches_primary_def
        looked_at_def more_vision_def split: if_splits)
  with rest Cons.prems show ?case
    by (auto simp: added_def watches_primary_def looked_at_def more_vision_def)
qed

lemma plan_trigger_clean:
  assumes "at_problems (fold (plan_part p r) (trigger_parts t) g) = []"
  shows "at_problems g = [] \<and> added g (fold (plan_part p r) (trigger_parts t) g) (looks t) (listens t) \<and>
    (\<forall>s \<in> listens t. usable p (listens_kind t) s) \<and>
    (\<forall>v. looks t = Some v \<longrightarrow> usable p Camera (vt_source v))"
proof (cases t)
  case (VisionT v)
  then show ?thesis using plan_vision_clean [of p r v g] assms by simp
next
  case (SensorT x)
  then show ?thesis using plan_listen_clean [of p r "st_source x" Sensor "[]" g] assms by simp
next
  case (ThresholdT x)
  then show ?thesis using plan_listen_clean [of p r "tt_source x" Sensor "[]" g] assms by simp
next
  case (SequenceT x)
  let ?g = "plan_listen p r (st_source (sq_sensor x)) Sensor [] g"
  have v: "at_problems (plan_vision p r (sq_vision x) ?g) = []" using SequenceT assms by simp
  from plan_vision_clean [OF v] plan_listen_clean [of p r "st_source (sq_sensor x)" Sensor "[]" g]
  show ?thesis using SequenceT
    by (auto simp: added_def looked_at_def more_vision_def watches_primary_def)
next
  case (AudioT x)
  define ws where "ws = (if at_level x \<noteq> None then [LevelNotAvailable] else []) @
      (if local_source (at_source x) then [NoSoundEvents (at_source x)] else [])"
  have step: "fold (plan_part p r) (trigger_parts t) g = plan_listen p r (at_source x) Microphone ws g"
    unfolding AudioT ws_def by simp
  from plan_listen_clean [OF assms [unfolded step]] show ?thesis
    by (simp only: step) (auto simp: AudioT)
next
  case (PresenceT x)
  let ?g = "use_source (pt_source x) g"
  have ok: "check_source p (pt_source x) (Some Presence) = []" "\<not> local_source (pt_source x)"
    "at_problems (fold (plan_observer p r) (pt_observers x) ?g) = []"
    using PresenceT assms by (auto simp: Let_def split: if_splits)
  from plan_observers_clean [OF ok(3)] ok(1,2) check_source_ok [of p "pt_source x" Presence]
  show ?thesis using PresenceT
    by (auto simp: added_def use_source_def listen_to_def looked_at_def more_vision_def watches_primary_def Let_def)
next
  case (HealthT x)
  then show ?thesis using assms by (simp add: added_def watches_primary_def looked_at_def more_vision_def)
qed

lemma plan_rule_clean:
  assumes "at_problems (plan_rule p r g) = []"
  defines "h \<equiv> plan_rule p r g" and "w \<equiv> looks (ru_trigger r)"
  shows "at_problems g = [] \<and>
    (at_detector h \<longleftrightarrow> at_detector g \<or> watches_primary w) \<and>
    at_confidences h = at_confidences g @ (if watches_primary w then [vt_confidence (the w)] else []) \<and>
    at_vision h = more_vision w (at_vision g) \<and>
    at_watched h = at_watched g \<union> listens (ru_trigger r) \<and>
    (at_camera h \<longleftrightarrow> at_camera g \<or> primary_camera \<in> records r) \<and>
    at_ready h = at_ready g \<union> (records r - {primary_camera}) \<and>
    at_needs h = dict_set (ru_id r) (needs_of r) (at_needs g) \<and>
    (\<forall>s \<in> listens (ru_trigger r). usable p (listens_kind (ru_trigger r)) s) \<and>
    (\<forall>s \<in> looks_at r \<union> records r. usable p Camera s) \<and> (\<forall>m \<in> hears r. usable p Microphone m)"
proof -
  define g0 where "g0 = g\<lparr>at_used := {}\<rparr>"
  define g1 where "g1 = (if trigger_type (ru_trigger r) \<in> set armable_triggers then g0
    else fail_with r [NotArmable (trigger_type (ru_trigger r))] g0)"
  define g2 where "g2 = (case ru_trigger r of SequenceT t \<Rightarrow> fail_with r (sequence_why p t) g1 | _ \<Rightarrow> g1)"
  define g3 where "g3 = fold (plan_part p r) (trigger_parts (ru_trigger r)) g2"
  define g4 where "g4 = fold (plan_action p r) (map act (ru_actions r)) g3"
  have h: "h = g4\<lparr>at_needs := dict_set (ru_id r) (at_used g4) (at_needs g4)\<rparr>"
    unfolding h_def plan_rule_def Let_def g4_def g3_def g2_def g1_def g0_def by (rule refl)
  have "at_problems g4 = []" using assms(1) h by (simp add: h_def)
  from plan_actions_clean [OF this [unfolded g4_def]]
  have acts: "at_problems g3 = [] \<and> same_but_actions g3 g4 \<and>
      (at_camera g4 \<longleftrightarrow> at_camera g3 \<or> primary_camera \<in> records r) \<and>
      at_ready g4 = at_ready g3 \<union> (records r - {primary_camera}) \<and>
      at_used g4 = at_used g3 \<union> records r \<union> hears r \<and>
      (\<forall>s \<in> records r. usable p Camera s) \<and> (\<forall>m \<in> hears r. usable p Microphone m)"
    unfolding g4_def [symmetric] by (simp add: records_iff) blast
  then have "at_problems g3 = []" by simp
  from plan_trigger_clean [OF this [unfolded g3_def]]
  have trig: "at_problems g2 = []" "added g2 g3 w (listens (ru_trigger r))"
    "\<forall>s \<in> listens (ru_trigger r). usable p (listens_kind (ru_trigger r)) s"
    "\<forall>s \<in> looks_at r. usable p Camera s"
    by (auto simp: g3_def w_def looks_at_def split: option.splits)
  have "at_problems g1 = [] \<and> g2 = g1"
    using trig(1) unfolding g2_def by (cases "ru_trigger r") auto
  then have g2: "at_problems g = []" "g2 = g0"
    by (simp_all add: g1_def g0_def split: if_splits)
  have used: "at_used g4 = needs_of r"
    using acts trig(2) g2(2)
    by (auto simp: added_def g0_def needs_of_def looked_at_def looks_at_def w_def split: option.splits)
  have fields: "at_detector h = at_detector g4" "at_confidences h = at_confidences g4"
    "at_vision h = at_vision g4" "at_watched h = at_watched g4" "at_camera h = at_camera g4"
    "at_ready h = at_ready g4" "at_needs h = dict_set (ru_id r) (at_used g4) (at_needs g4)"
    by (simp_all add: h)
  show ?thesis
    using acts trig g2 unfolding fields used
    by (simp add: added_def same_but_actions_def g0_def ball_Un)
qed

lemma gather_problems: "at_problems (fold (plan_rule p) rs g) = [] \<Longrightarrow> at_problems g = []"
proof (induction rs arbitrary: g)
  case (Cons r rs)
  then have "at_problems (plan_rule p r g) = []" by simp
  from plan_rule_clean [OF this] show ?case by blast
qed simp

lemma gathered_from:
  assumes "at_problems (fold (plan_rule p) rs g) = []" "distinct (map ru_id rs)"
  defines "h \<equiv> fold (plan_rule p) rs g"
  shows "(at_detector h \<longleftrightarrow> at_detector g \<or> (\<exists>r \<in> set rs. primary_camera \<in> looks_at r)) \<and>
    set (map fst (at_vision h)) =
      set (map fst (at_vision g)) \<union> ((\<Union>r \<in> set rs. looks_at r) - {primary_camera}) \<and>
    at_watched h = at_watched g \<union> (\<Union>r \<in> set rs. listens (ru_trigger r)) \<and>
    (at_camera h \<longleftrightarrow> at_camera g \<or> (\<exists>r \<in> set rs. primary_camera \<in> records r)) \<and>
    at_ready h = at_ready g \<union> ((\<Union>r \<in> set rs. records r) - {primary_camera}) \<and>
    (\<forall>i. dict_get (at_needs h) i =
      (case List.find (\<lambda>r. ru_id r = i) rs of Some r \<Rightarrow> Some (needs_of r) | None \<Rightarrow> dict_get (at_needs g) i)) \<and>
    (\<forall>r \<in> set rs.
      (\<forall>s \<in> listens (ru_trigger r). usable p (listens_kind (ru_trigger r)) s) \<and>
      (\<forall>s \<in> looks_at r \<union> records r. usable p Camera s) \<and> (\<forall>m \<in> hears r. usable p Microphone m))"
  using assms(1,2) unfolding h_def
proof (induction rs arbitrary: g)
  case Nil
  then show ?case by simp
next
  case (Cons r rs)
  let ?g = "plan_rule p r g"
  have later: "at_problems (fold (plan_rule p) rs ?g) = []" "distinct (map ru_id rs)" using Cons.prems by simp_all
  note rest = Cons.IH [OF later]
  note now = plan_rule_clean [OF gather_problems [OF later(1)]]
  have vision: "set (map fst (at_vision ?g)) = set (map fst (at_vision g)) \<union> (looks_at r - {primary_camera})"
    using now by (auto simp: more_vision_def looks_at_def dom_update split: option.splits if_splits)
  have detector: "at_detector ?g \<longleftrightarrow> at_detector g \<or> primary_camera \<in> looks_at r"
    using now by (auto simp: watches_primary_def looks_at_def split: option.splits)
  have "ru_id r \<notin> ru_id ` set rs" using Cons.prems by auto
  then have none: "List.find (\<lambda>q. ru_id q = ru_id r) rs = None"
    by (induction rs) auto
  have needs: "dict_get (at_needs (fold (plan_rule p) (r # rs) g)) i =
      (case List.find (\<lambda>q. ru_id q = i) (r # rs) of Some q \<Rightarrow> Some (needs_of q) | None \<Rightarrow> dict_get (at_needs g) i)" for i
  proof -
    have "at_needs ?g = dict_set (ru_id r) (needs_of r) (at_needs g)" using now by simp
    moreover have "dict_get (at_needs (fold (plan_rule p) rs ?g)) i =
        (case List.find (\<lambda>q. ru_id q = i) rs of Some q \<Rightarrow> Some (needs_of q) | None \<Rightarrow> dict_get (at_needs ?g) i)"
      using rest by simp
    ultimately show ?thesis using none by (cases "ru_id r = i") (simp_all split: option.split)
  qed
  have split: "fold (plan_rule p) (r # rs) g = fold (plan_rule p) rs ?g" by simp
  have camera: "at_camera (fold (plan_rule p) rs ?g) \<longleftrightarrow>
      at_camera g \<or> (\<exists>q \<in> set (r # rs). primary_camera \<in> records q)"
    using rest now by auto
  have detect: "at_detector (fold (plan_rule p) rs ?g) \<longleftrightarrow>
      at_detector g \<or> (\<exists>q \<in> set (r # rs). primary_camera \<in> looks_at q)"
    using rest detector by auto
  have sets: "set (map fst (at_vision (fold (plan_rule p) rs ?g))) =
      set (map fst (at_vision g)) \<union> ((\<Union>q \<in> set (r # rs). looks_at q) - {primary_camera})"
    "at_watched (fold (plan_rule p) rs ?g) = at_watched g \<union> (\<Union>q \<in> set (r # rs). listens (ru_trigger q))"
    "at_ready (fold (plan_rule p) rs ?g) = at_ready g \<union> ((\<Union>q \<in> set (r # rs). records q) - {primary_camera})"
    using rest now vision by (simp_all add: Un_Diff Un_assoc)
  show ?case
    using rest now needs camera detect sets unfolding split by simp
qed

lemma more_vision_lower:
  assumes "dict_get d c = Some m"
  shows "\<exists>m1 \<le> m. dict_get (more_vision w d) c = Some m1"
proof (cases w)
  case None
  then show ?thesis using assms by (simp add: more_vision_def)
next
  case (Some v)
  then show ?thesis using assms
    by (cases "vt_source v = primary_camera"; cases "vt_source v = c") (auto simp: more_vision_def)
qed

lemma more_vision_bound:
  "vt_source v \<noteq> primary_camera \<Longrightarrow>
     \<exists>m \<le> vt_confidence v. dict_get (more_vision (Some v) d) (vt_source v) = Some m"
  by (simp add: more_vision_def)

lemma vision_only_lower:
  assumes "at_problems (fold (plan_rule p) rs g) = []" "dict_get (at_vision g) c = Some m"
  shows "\<exists>m' \<le> m. dict_get (at_vision (fold (plan_rule p) rs g)) c = Some m'"
  using assms
proof (induction rs arbitrary: g m)
  case (Cons r rs)
  then have later: "at_problems (fold (plan_rule p) rs (plan_rule p r g)) = []" by simp
  have "at_vision (plan_rule p r g) = more_vision (looks (ru_trigger r)) (at_vision g)"
    using plan_rule_clean [OF gather_problems [OF later]] by simp
  then obtain m1 where m1: "m1 \<le> m" "dict_get (at_vision (plan_rule p r g)) c = Some m1"
    using more_vision_lower [OF Cons.prems(2)] by metis
  with Cons.IH [OF later m1(2)] show ?case by (auto intro: order_trans)
qed auto

lemma confident_enough:
  assumes "at_problems (fold (plan_rule p) rs g) = []" "r \<in> set rs" "looks (ru_trigger r) = Some v"
  shows "if vt_source v = primary_camera
    then vt_confidence v \<in> set (at_confidences (fold (plan_rule p) rs g))
    else \<exists>m \<le> vt_confidence v. dict_get (at_vision (fold (plan_rule p) rs g)) (vt_source v) = Some m"
  using assms
proof (induction rs arbitrary: g)
  case (Cons q rs)
  then have later: "at_problems (fold (plan_rule p) rs (plan_rule p q g)) = []" by simp
  note now = plan_rule_clean [OF gather_problems [OF later]]
  have grow: "set (at_confidences g) \<subseteq> set (at_confidences (fold (plan_rule p) rs g))"
    if "at_problems (fold (plan_rule p) rs g) = []" for g
    using that
  proof (induction rs arbitrary: g)
    case (Cons q rs)
    then have "at_problems (fold (plan_rule p) rs (plan_rule p q g)) = []" by simp
    with Cons.IH [OF this] plan_rule_clean [OF gather_problems [OF this]] show ?case by auto
  qed simp
  show ?case
  proof (cases "r = q")
    case False
    then show ?thesis using Cons.IH [OF later] Cons.prems by simp
  next
    case True
    show ?thesis
    proof (cases "vt_source v = primary_camera")
      case primary: True
      then have "vt_confidence v \<in> set (at_confidences (plan_rule p q g))"
        using now True Cons.prems(3) by (simp add: watches_primary_def)
      then show ?thesis using grow [OF later] primary by auto
    next
      case other: False
      have "at_vision (plan_rule p q g) = more_vision (Some v) (at_vision g)"
        using now True Cons.prems(3) by simp
      then obtain m where m: "m \<le> vt_confidence v"
        "dict_get (at_vision (plan_rule p q g)) (vt_source v) = Some m"
        using more_vision_bound [OF other, of "at_vision g"] by metis
      with vision_only_lower [OF later m(2)] other show ?thesis by (auto intro: order_trans)
    qed
  qed
qed simp

lemma fold_min_le: "x \<in> set (c # cs) \<Longrightarrow> fold min cs c \<le> (x :: 'a :: linorder)"
  by (metis (no_types) Min.set_eq_fold Min_le finite_set)

text \<open>
  C29. A plan without problems holds exactly what the rules name: the detector and this node's camera
  run if and only if a rule looks or records there, other cameras are watched or kept ready if and
  only if a rule needs them, the sources listened to are those of the triggers; each camera looks
  with a confidence low enough for every rule; the needs of each rule are on file for isolating a
  fault; and every source is registered with the right kind, switched on and reachable.
\<close>

theorem plan_is_what_the_rules_need:
  assumes "plan_ok (make_plan p rs)" "distinct (map ru_id rs)"
  shows "(pl_detector (make_plan p rs) \<longleftrightarrow> (\<exists>r \<in> set rs. primary_camera \<in> looks_at r)) \<and>
    (pl_camera (make_plan p rs) \<longleftrightarrow> (\<exists>r \<in> set rs. primary_camera \<in> looks_at r \<union> records r)) \<and>
    set (map fst (pl_vision (make_plan p rs))) = (\<Union>r \<in> set rs. looks_at r) - {primary_camera} \<and>
    pl_ready (make_plan p rs) =
      (\<Union>r \<in> set rs. records r) - (\<Union>r \<in> set rs. looks_at r) - {primary_camera} \<and>
    pl_watched (make_plan p rs) = (\<Union>r \<in> set rs. listens (ru_trigger r)) \<and>
    (\<forall>r \<in> set rs. \<forall>v. looks (ru_trigger r) = Some v \<longrightarrow>
      (if vt_source v = primary_camera then pl_confidence (make_plan p rs) \<le> vt_confidence v
       else \<exists>m \<le> vt_confidence v. dict_get (pl_vision (make_plan p rs)) (vt_source v) = Some m)) \<and>
    (\<forall>r \<in> set rs. dict_get (pl_needs (make_plan p rs)) (ru_id r) = Some (needs_of r) \<and>
      (\<forall>s \<in> listens (ru_trigger r). usable p (listens_kind (ru_trigger r)) s) \<and>
      (\<forall>s \<in> looks_at r \<union> records r. usable p Camera s) \<and> (\<forall>m \<in> hears r. usable p Microphone m))"
proof -
  define g where "g = fold (plan_rule p) rs nothing_yet"
  have clean: "at_problems (fold (plan_rule p) rs nothing_yet) = []"
    using assms(1) by (simp add: plan_ok_def make_plan_def gather_def Let_def)
  note all = gathered_from [OF clean assms(2), folded g_def]
  have plan: "make_plan p rs =
      \<lparr>pl_detector = at_detector g, pl_camera = at_detector g \<or> at_camera g,
       pl_confidence = (case at_confidences g of [] \<Rightarrow> 7 / 10 | c # cs \<Rightarrow> fold min cs c),
       pl_vision = at_vision g, pl_ready = at_ready g - set (map fst (at_vision g)),
       pl_watched = at_watched g, pl_needs = at_needs g, pl_problems = at_problems g,
       pl_notes = at_notes g @ (if at_camera g \<and> \<not> at_detector g then [CameraKeptReady] else [])\<rparr>"
    by (simp add: make_plan_def gather_def Let_def g_def)
  have needs: "dict_get (at_needs g) (ru_id r) = Some (needs_of r)" if r: "r \<in> set rs" for r
  proof -
    have "List.find (\<lambda>q. ru_id q = ru_id r) rs = Some r"
      using r assms(2)
    proof (induction rs)
      case (Cons q rs)
      then show ?case by (cases "r = q") (auto simp: rev_image_eqI)
    qed simp
    then show ?thesis using all by simp
  qed
  have sure: "if vt_source v = primary_camera then pl_confidence (make_plan p rs) \<le> vt_confidence v
       else \<exists>m \<le> vt_confidence v. dict_get (pl_vision (make_plan p rs)) (vt_source v) = Some m"
    if "r \<in> set rs" "looks (ru_trigger r) = Some v" for r v
    using confident_enough [OF clean that, folded g_def] fold_min_le [of "vt_confidence v"]
    by (cases "at_confidences g"; cases "vt_source v = primary_camera") (simp_all add: plan)
  have some: "pl_detector (make_plan p rs) \<longleftrightarrow> (\<exists>r \<in> set rs. primary_camera \<in> looks_at r)"
    "pl_camera (make_plan p rs) \<longleftrightarrow> (\<exists>r \<in> set rs. primary_camera \<in> looks_at r \<union> records r)"
    "set (map fst (pl_vision (make_plan p rs))) = (\<Union>r \<in> set rs. looks_at r) - {primary_camera}"
    "pl_watched (make_plan p rs) = (\<Union>r \<in> set rs. listens (ru_trigger r))"
    using all by (auto simp: plan nothing_yet_def)
  have "pl_ready (make_plan p rs) =
      ((\<Union>r \<in> set rs. records r) - {primary_camera}) - ((\<Union>r \<in> set rs. looks_at r) - {primary_camera})"
    using all by (simp add: plan nothing_yet_def)
  then have ready: "pl_ready (make_plan p rs) =
      (\<Union>r \<in> set rs. records r) - (\<Union>r \<in> set rs. looks_at r) - {primary_camera}" by blast
  have rest: "dict_get (pl_needs (make_plan p rs)) (ru_id r) = Some (needs_of r) \<and>
      (\<forall>s \<in> listens (ru_trigger r). usable p (listens_kind (ru_trigger r)) s) \<and>
      (\<forall>s \<in> looks_at r \<union> records r. usable p Camera s) \<and> (\<forall>m \<in> hears r. usable p Microphone m)"
    if "r \<in> set rs" for r
    using all needs that by (simp add: plan)
  show ?thesis by (intro conjI ballI allI impI some ready rest sure)
qed

definition porch_rule :: rule where
  "porch_rule =
     \<lparr>ru_id = ''porch'', ru_name = ''Porch'', ru_enabled = True,
      ru_trigger = VisionT \<lparr>vt_source = primary_camera, vt_object = ''person'', vt_confidence = 3 / 5,
        vt_count = 1, vt_consecutive = 2, vt_rearm = 5, vt_region = None\<rparr>,
      ru_cooldown = 30,
      ru_actions = [\<lparr>with_previous = False, act = Photo 1 2 trigger_source FailStep\<rparr>]\<rparr>"

definition porch_camera :: source_record where
  "porch_camera =
     \<lparr>rec_ref = \<lparr>ref_node = None, ref_name = primary_camera\<rparr>, rec_kind = Camera, display_name = ''Camera'',
      rec_zone = None, rec_origin = Local, rec_state = Ready, address = JNull, rec_unit = None\<rparr>"

definition porch_planner :: planner where
  "porch_planner =
     \<lparr>pn_sources = [(primary_camera, porch_camera)], pn_satellites = False, pn_cameras = {},
      pn_microphones = {}\<rparr>"

lemma porch_source: "check_source porch_planner primary_camera (Some Camera) = []"
  by (simp add: check_source_def porch_planner_def porch_camera_def primary_camera_def parse_ref_def
      py_partition_def mk_ref_def valid_ref_def valid_name_def lower_def digits_def is_local_def
      reg_get_def ref_id_def)

lemma porch_other: "trigger_source \<noteq> primary_camera"
  by (simp add: trigger_source_def primary_camera_def)

lemma porch_act: "resolve_act porch_rule (Photo 1 2 trigger_source FailStep) = Photo 1 2 primary_camera FailStep"
  by (simp add: resolve_act_def porch_rule_def)

definition porch_trigger :: vision_trigger where
  "porch_trigger =
     \<lparr>vt_source = primary_camera, vt_object = ''person'', vt_confidence = 3 / 5, vt_count = 1,
      vt_consecutive = 2, vt_rearm = 5, vt_region = None\<rparr>"

lemma porch_fields:
  "ru_trigger porch_rule = VisionT porch_trigger" "vt_source porch_trigger = primary_camera"
  "map act (ru_actions porch_rule) = [Photo 1 2 trigger_source FailStep]"
  by (simp_all add: porch_rule_def porch_trigger_def)

lemma porch_watch:
  "at_problems (plan_vision porch_planner porch_rule porch_trigger g) = at_problems g"
  by (simp add: plan_vision_def Let_def porch_fields porch_source)

lemma porch_photo:
  "at_problems (plan_action porch_planner porch_rule (Photo 1 2 trigger_source FailStep) g) = at_problems g"
  using porch_other
  by (simp add: plan_action_def Let_def porch_act plan_camera_def porch_source plan_microphone_def)

lemma porch_plan_ok: "plan_ok (make_plan porch_planner [porch_rule])"
proof -
  have "trigger_type (VisionT porch_trigger) \<in> set armable_triggers" by (simp add: armable_triggers_def)
  then show ?thesis
    by (simp add: plan_ok_def make_plan_def gather_def plan_rule_def Let_def porch_fields porch_watch
        porch_photo nothing_yet_def)
qed

lemma plan_is_what_the_rules_need_witness:
  "pl_detector (make_plan porch_planner [porch_rule]) \<and> pl_camera (make_plan porch_planner [porch_rule]) \<and>
   pl_watched (make_plan porch_planner [porch_rule]) = {} \<and>
   dict_get (pl_needs (make_plan porch_planner [porch_rule])) ''porch'' = Some {primary_camera, detector_need}"
proof -
  have "distinct (map ru_id [porch_rule])" by simp
  note it = plan_is_what_the_rules_need [OF porch_plan_ok this]
  have "looks_at porch_rule = {primary_camera}" "listens (ru_trigger porch_rule) = {}" "ru_id porch_rule = ''porch''"
    by (simp_all add: looks_at_def porch_rule_def)
  moreover have "records porch_rule = {primary_camera}" "hears porch_rule = {}"
    unfolding records_iff using porch_act by (simp_all add: porch_rule_def)
  ultimately show ?thesis using it by (auto simp: needs_of_def)
qed

end
