(* ===== verification/Engine.thy ===== *)
theory Engine
  imports Correlation Migration Planner "HOL-Library.List_Lexorder" "HOL-Library.Char_ord"
begin

section \<open>The engine\<close>

text \<open>
  \<open>src/sentry_mode/sentry/engine.py\<close> with the contexts of \<open>sentry/context.py\<close>: saving the rules,
  arming, what is observed, the queue of actions, faults and disarming. One lock makes each
  operation atomic. What the code asks the world (the clock, whether a write succeeds, which
  cameras answer, whether the speaker is playing) is an argument; an \<open>uuid4\<close> is a number no
  earlier trigger had. The English of the log is left out.
\<close>

subsection \<open>State\<close>

record action_context =
  cx_trigger :: nat
  cx_rule :: string
  cx_name :: string
  cx_revision :: int
  cx_epoch :: nat
  cx_zone :: "string option"
  cx_origin :: "string list"
  cx_sources :: "string set"

record job =
  jb_rule :: string
  jb_steps :: "action list"
  jb_created :: seconds
  jb_delay :: rat
  jb_context :: "action_context option"

text \<open>
  What the thread of the engine has in hand: the job it took, the steps it started together and that
  have not finished, and the jobs of a test run, which no queue holds.
\<close>

record running =
  rn_job :: job
  rn_step :: action
  rn_deadline :: seconds

record worker =
  wk_hand :: "job option"
  wk_running :: "running list"
  wk_test :: "(string \<times> job list) option"

definition at_rest :: worker where
  "at_rest = \<lparr>wk_hand = None, wk_running = [], wk_test = None\<rparr>"

datatype rules_file = NoFile | BadContent | Saved stored

record engine =
  en_config :: config
  en_version :: int
  en_revision :: int
  en_file :: rules_file
  en_config_error :: bool
  en_error :: "string option"
  en_armed :: bool
  en_armed_at :: seconds
  en_epoch :: nat
  en_cancelled :: bool
  en_jobs :: "job list"
  en_states :: "(string, rule_state) dict"
  en_suspended :: "(string, string) dict"
  en_samples :: "(string, seconds) dict"
  en_plan :: "plan option"
  en_camera :: bool
  en_watching :: "string set"
  en_halted :: "nat list"
  en_next :: nat
  en_worker :: worker
  en_ending :: "bool option"
  en_quiet :: seconds
  en_boosts :: "string set list"
  en_log :: "(string \<times> string option) list"

datatype engine_error =
  DisarmFirst
| ChangedElsewhere
| UpgradeRequired "obstacle list"
| NotWritten
| BadRulesFile
| NothingEnabled
| SoundDeleted string
| UnknownCommand string
| NoTelegram
| NotPossible "problem list"
| CameraGone string
| StillStopping
| StillSaving

definition queue_size :: nat where "queue_size = 16"
definition log_size :: nat where "log_size = 200"
definition halted_size :: nat where "halted_size = 64"

definition note_event :: "string \<Rightarrow> string option \<Rightarrow> engine \<Rightarrow> engine" where
  "note_event kind who s = s\<lparr>en_log := take log_size ((kind, who) # en_log s)\<rparr>"

definition engine_start :: "action config_v1 \<Rightarrow> rules_file \<Rightarrow> engine" where
  "engine_start c file =
     \<lparr>en_config = to_v2 c None GlobalFaults, en_version = legacy_schema, en_revision = 0,
      en_file = file, en_config_error = False, en_error = None, en_armed = False, en_armed_at = 0,
      en_epoch = 0, en_cancelled = True, en_jobs = [], en_states = [], en_suspended = [],
      en_samples = [], en_plan = None, en_camera = False, en_watching = {}, en_halted = [],
      en_next = 0, en_worker = at_rest, en_ending = None, en_quiet = 0, en_boosts = [], en_log = []\<rparr>"

definition load_rules :: "engine \<Rightarrow> engine" where
  "load_rules s =
     (case en_file s of
        NoFile \<Rightarrow> s
      | BadContent \<Rightarrow> s\<lparr>en_config_error := True\<rparr>
      | Saved f \<Rightarrow>
          (case read_document f of
             Inl _ \<Rightarrow> s\<lparr>en_config_error := True\<rparr>
           | Inr d \<Rightarrow> s\<lparr>en_config := doc_config d, en_revision := doc_revision d,
                        en_version := doc_version d\<rparr>))"

subsection \<open>Saving the rules\<close>

definition persist_rules :: "config \<Rightarrow> int \<Rightarrow> bool \<Rightarrow> engine \<Rightarrow> (engine_error + unit) \<times> engine" where
  "persist_rules c revn written s =
     (if en_version s = legacy_schema \<and> obstacles c \<noteq> [] \<and> en_file s \<noteq> NoFile
      then (Inl (UpgradeRequired (obstacles c)), s)
      else
        (let version = (if en_version s = legacy_schema \<and> obstacles c \<noteq> [] then schema_version
                        else en_version s)
         in case write_document c revn version of
              Inl reasons \<Rightarrow> (Inl (UpgradeRequired reasons), s)
            | Inr f \<Rightarrow>
                if \<not> written then (Inl NotWritten, s)
                else (Inr (), s\<lparr>en_config := c, en_revision := revn, en_config_error := False,
                                en_version := version, en_file := Saved f\<rparr>)))"

definition with_token :: "bool \<Rightarrow> config \<Rightarrow> config \<Rightarrow> config" where
  "with_token clear old c =
     (if clear then c\<lparr>cf_telegram := (cf_telegram c)\<lparr>tg_token := []\<rparr>\<rparr>
      else if tg_token (cf_telegram c) = []
      then c\<lparr>cf_telegram := (cf_telegram c)\<lparr>tg_token := tg_token (cf_telegram old)\<rparr>\<rparr>
      else c)"

definition update_v2 :: "config \<Rightarrow> int \<Rightarrow> bool \<Rightarrow> bool \<Rightarrow> engine \<Rightarrow> (engine_error + unit) \<times> engine" where
  "update_v2 c revn clear written s =
     (if en_armed s then (Inl DisarmFirst, s)
      else if revn \<noteq> en_revision s then (Inl ChangedElsewhere, s)
      else try_then (persist_rules (with_token clear (en_config s) c) (revn + 1) written s)
        (\<lambda>_ t. (Inr (), note_event ''configured'' None t)))"

definition update_v1 ::
  "action config_v1 \<Rightarrow> int \<Rightarrow> bool \<Rightarrow> bool \<Rightarrow> engine \<Rightarrow> (engine_error + unit) \<times> engine" where
  "update_v1 c revn clear written s =
     (if obstacles (en_config s) \<noteq> [] then (Inl (UpgradeRequired (obstacles (en_config s))), s)
      else update_v2 (to_v2 c (Some (en_config s)) GlobalFaults) revn clear written s)"

definition set_test_mode :: "bool \<Rightarrow> bool \<Rightarrow> engine \<Rightarrow> (engine_error + unit) \<times> engine" where
  "set_test_mode on written s =
     (if en_armed s then (Inl DisarmFirst, s)
      else if cf_test (en_config s) = on then (Inr (), s)
      else try_then (persist_rules ((en_config s)\<lparr>cf_test := on\<rparr>) (en_revision s + 1) written s)
        (\<lambda>_ t. (Inr (), note_event ''configured'' None t)))"

subsection \<open>The queue\<close>

definition discard_jobs :: "engine \<Rightarrow> engine" where
  "discard_jobs s =
     fold (\<lambda>j. note_event ''cancelled'' (Some (jb_rule j))) (en_jobs s) (s\<lparr>en_jobs := []\<rparr>)"

text \<open>The longest wait among the steps of a group: what the next group's clock starts after.\<close>

definition group_wait :: "action list \<Rightarrow> rat" where
  "group_wait as =
     (case List.map_filter (\<lambda>a. case act a of Wait t \<Rightarrow> Some t | _ \<Rightarrow> None) as of
        [] \<Rightarrow> 0 | t # ts \<Rightarrow> fold max ts t)"

text \<open>\<open>_groups\<close>, step by step: the jobs so far (newest last) and the delay of the newest.\<close>

definition add_step ::
  "string \<Rightarrow> seconds \<Rightarrow> action_context option \<Rightarrow> action \<Rightarrow> job list \<times> rat \<Rightarrow> job list \<times> rat" where
  "add_step name created cx a g =
     (case g of (js, delay) \<Rightarrow>
        if js \<noteq> [] \<and> with_previous a
        then (butlast js @ [(last js)\<lparr>jb_steps := jb_steps (last js) @ [a]\<rparr>], delay)
        else
          (let d = (if js = [] then delay else delay + group_wait (jb_steps (last js)))
           in (js @ [\<lparr>jb_rule = name, jb_steps = [a], jb_created = created, jb_delay = d,
                      jb_context = cx\<rparr>], d)))"

definition groups :: "rule \<Rightarrow> seconds \<Rightarrow> action_context option \<Rightarrow> job list" where
  "groups r created cx = fst (fold (add_step (ru_name r) created cx) (resolved r) ([], 0))"

definition context_of :: "engine \<Rightarrow> rule \<Rightarrow> string list \<Rightarrow> string option \<Rightarrow> action_context" where
  "context_of s r origin zone =
     \<lparr>cx_trigger = en_next s, cx_rule = ru_id r, cx_name = ru_name r, cx_revision = en_revision s,
      cx_epoch = en_epoch s, cx_zone = zone, cx_origin = origin, cx_sources = records r \<union> hears r\<rparr>"

definition fire :: "rule \<Rightarrow> seconds \<Rightarrow> string list \<Rightarrow> string option \<Rightarrow> engine \<Rightarrow> engine" where
  "fire r created origin zone s =
     (if cf_test (en_config s)
      then fold (\<lambda>a. note_event ''would_run'' (Some (ru_name r))) (ru_actions r) s
      else
        (let s1 = s\<lparr>en_next := en_next s + 1\<rparr>;
             js = groups r created (Some (context_of s r origin zone))
         in if queue_size < length (en_jobs s1) + length js
            then note_event ''skipped'' (Some (ru_name r)) s1
            else s1\<lparr>en_jobs := en_jobs s1 @ js\<rparr>))"

subsection \<open>Arming and disarming\<close>

record arming =
  ar_now :: seconds
  ar_planner :: planner
  ar_sounds :: "string set"
  ar_cameras :: "string set"
  ar_stopped :: bool

definition check_rules :: "string set \<Rightarrow> config \<Rightarrow> rule list \<Rightarrow> bool \<Rightarrow> engine_error option" where
  "check_rules sounds c rs logged_only =
     (case List.map_filter (\<lambda>(r, a).
         (case a of
            Sound s _ _ \<Rightarrow> if s \<notin> sounds then Some (SoundDeleted (ru_name r)) else None
          | Ssh i \<Rightarrow> if dict_get (cf_ssh c) i = None then Some (UnknownCommand i) else None
          | _ \<Rightarrow> None))
       (concat (map (\<lambda>r. map (\<lambda>a. (r, act a)) (ru_actions r)) rs)) of
        e # es \<Rightarrow> Some e
      | [] \<Rightarrow>
          if logged_only \<or>
             \<not> list_ex (\<lambda>r. list_ex (\<lambda>a. case act a of Telegram _ _ \<Rightarrow> True | _ \<Rightarrow> False) (ru_actions r)) rs
          then None
          else if tg_token (cf_telegram c) \<noteq> [] \<and> tg_chat (cf_telegram c) \<noteq> [] then None
          else Some NoTelegram)"

definition enabled_rules :: "config \<Rightarrow> rule list" where
  "enabled_rules c = filter ru_enabled (cf_rules c)"

definition stop_cameras :: "engine \<Rightarrow> engine" where
  "stop_cameras s = s\<lparr>en_camera := False, en_watching := {}\<rparr>"

definition cameras_of :: "plan \<Rightarrow> string list" where
  "cameras_of p = sort (map fst (pl_vision p)) @ sorted_list_of_set (pl_ready p)"

definition watch_cameras :: "string set \<Rightarrow> plan \<Rightarrow> engine_error + string set" where
  "watch_cameras present p =
     (case List.find (\<lambda>c. c \<notin> present) (cameras_of p) of
        Some c \<Rightarrow> Inl (CameraGone c)
      | None \<Rightarrow> Inr (set (cameras_of p)))"

definition arm :: "arming \<Rightarrow> engine \<Rightarrow> (engine_error + unit) \<times> engine" where
  "arm x s =
     (if en_armed s then (Inr (), s)
      else if en_config_error s then (Inl BadRulesFile, s)
      else if enabled_rules (en_config s) = [] then (Inl NothingEnabled, s)
      else
        (let rs = enabled_rules (en_config s); p = make_plan (ar_planner x) rs in
         case check_rules (ar_sounds x) (en_config s) rs (cf_test (en_config s)) of
           Some e \<Rightarrow> (Inl e, s)
         | None \<Rightarrow>
             if \<not> plan_ok p then (Inl (NotPossible (pl_problems p)), s)
             else if en_worker s \<noteq> at_rest \<or> \<not> ar_stopped x then (Inl StillStopping, s)
             else
               (case watch_cameras (ar_cameras x) p of
                  Inl e \<Rightarrow> (Inl e, if pl_camera p then s\<lparr>en_camera := False\<rparr> else s)
                | Inr held \<Rightarrow>
                    (Inr (), note_event ''armed'' None
                      (fold (\<lambda>_. note_event ''configured'' None) (pl_notes p)
                        (s\<lparr>en_camera := en_camera s \<or> pl_camera p, en_watching := held,
                           en_cancelled := False, en_jobs := [],
                           en_states := map (\<lambda>r. (ru_id r, new_state)) rs, en_suspended := [],
                           en_plan := Some p, en_epoch := en_epoch s + 1, en_samples := [],
                           en_armed_at := ar_now x, en_error := None, en_armed := True\<rparr>))))))"

text \<open>
  \<open>disarm\<close> in its two halves: what it does at once, and what is left when the thread has stopped and
  the recordings are saved, or when the wait for them was over. In between it keeps the lifecycle
  lock, with \<open>en_ending\<close> remembering whether Sentry was armed.
\<close>

definition disarm :: "engine \<Rightarrow> engine" where
  "disarm s =
     discard_jobs (s\<lparr>en_armed := False,
       en_epoch := (if en_armed s then en_epoch s + 1 else en_epoch s), en_cancelled := True,
       en_ending := Some (en_armed s)\<rparr>)"

definition disarm_ends :: "bool \<Rightarrow> bool \<Rightarrow> engine \<Rightarrow> (engine_error + unit) \<times> engine" where
  "disarm_ends stopped saved s =
     (case en_ending s of
        None \<Rightarrow> (Inr (), s)
      | Some was_armed \<Rightarrow>
          (let s1 = s\<lparr>en_ending := None\<rparr> in
           if en_worker s \<noteq> at_rest \<or> \<not> stopped then (Inl StillStopping, s1)
           else if \<not> saved then (Inl StillSaving, s1)
           else (Inr (), (if was_armed then note_event ''disarmed'' None else id) (stop_cameras s1))))"

text \<open>A test run of one rule: its jobs are handed to a thread of their own, for real.\<close>

definition test_rule :: "rule \<Rightarrow> arming \<Rightarrow> engine \<Rightarrow> (engine_error + unit) \<times> engine" where
  "test_rule r x s =
     (if en_armed s then (Inl DisarmFirst, s)
      else case check_rules (ar_sounds x) (en_config s) [r] False of
        Some e \<Rightarrow> (Inl e, s)
      | None \<Rightarrow>
          if plan_actions (ar_planner x) r \<noteq> []
          then (Inl (NotPossible (plan_actions (ar_planner x) r)), s)
          else if en_worker s \<noteq> at_rest \<or> \<not> ar_stopped x then (Inl StillStopping, s)
          else
            (Inr (), note_event ''tested'' (Some (ru_name r))
              (s\<lparr>en_cancelled := False, en_next := en_next s + 1,
                 en_worker := at_rest\<lparr>wk_test := Some (ru_name r,
                   groups r (ar_now x) (Some (context_of s r [''test''] None)))\<rparr>\<rparr>)))"

definition test_rule_v1 :: "action rule_v1 \<Rightarrow> arming \<Rightarrow> engine \<Rightarrow> (engine_error + unit) \<times> engine" where
  "test_rule_v1 r = test_rule (rule_to_v2 r (slug (r1_name r)))"

definition halt_with :: "string \<Rightarrow> engine \<Rightarrow> engine" where
  "halt_with why s =
     discard_jobs (s\<lparr>en_error := Some why, en_armed := False, en_cancelled := True\<rparr>)"

definition fault :: "string \<Rightarrow> engine \<Rightarrow> engine" where
  "fault why s =
     (if \<not> en_armed s then s
      else if cf_policy (en_config s) = IsolatedFaults \<and> en_plan s \<noteq> None then s
      else note_event ''fault'' None (halt_with why s))"

subsection \<open>What is observed\<close>

definition watching_rules :: "engine \<Rightarrow> rule list" where
  "watching_rules s =
     filter (\<lambda>r. ru_enabled r \<and> dict_get (en_states s) (ru_id r) \<noteq> None \<and>
       dict_get (en_suspended s) (ru_id r) = None) (cf_rules (en_config s))"

definition state_of :: "engine \<Rightarrow> rule \<Rightarrow> rule_state" where
  "state_of s r = (case dict_get (en_states s) (ru_id r) of None \<Rightarrow> new_state | Some t \<Rightarrow> t)"

definition set_state :: "rule \<Rightarrow> rule_state \<Rightarrow> engine \<Rightarrow> engine" where
  "set_state r t s = s\<lparr>en_states := dict_set (ru_id r) t (en_states s)\<rparr>"

fun note_kind :: "rule_note \<Rightarrow> string" where
  "note_kind Detected = ''detected''"
| "note_kind Rearmed = ''rearmed''"
| "note_kind Triggered = ''triggered''"
| "note_kind Skipped = ''skipped''"
| "note_kind Expired = ''expired''"
| "note_kind Cancelled = ''cancelled''"
| "note_kind WaitingFor = ''waiting''"

definition log_notes :: "rule \<Rightarrow> rule_note list \<Rightarrow> engine \<Rightarrow> engine" where
  "log_notes r ns s = fold (\<lambda>n. note_event (note_kind n) (Some (ru_name r))) ns s"

definition looks_here :: "string \<Rightarrow> rule \<Rightarrow> bool" where
  "looks_here source r \<longleftrightarrow> (case looks (ru_trigger r) of None \<Rightarrow> False | Some v \<Rightarrow> vt_source v = source)"

definition reset_for_gap :: "rule \<Rightarrow> engine \<Rightarrow> engine" where
  "reset_for_gap r s =
     (let (ns, t) = drop_window (missed_frames (state_of s r)) in log_notes r ns (set_state r t s))"

definition observe_rule ::
  "string \<Rightarrow> detection list \<Rightarrow> seconds \<Rightarrow> rule \<Rightarrow> engine \<Rightarrow> engine" where
  "observe_rule source ds captured r s =
     (let st = state_of s r in
      case ru_trigger r of
        SequenceT t \<Rightarrow>
          (let (ns, st') = sequence_sample t (ru_cooldown r) st (matching (sq_vision t) ds) captured;
               s1 = log_notes r ns (set_state r st' s)
           in if Triggered \<in> set ns
              then (case waiting st of
                      None \<Rightarrow> s1
                    | Some c \<Rightarrow> fire r captured [cd_event c, ''vision:'' @ source] (cd_zone c) s1)
              else s1)
      | VisionT v \<Rightarrow>
          (let (ns, st') = confirm v (ru_cooldown r) st (matching v ds) captured;
               s1 = log_notes r ns (set_state r st' s)
           in if Triggered \<in> set ns then fire r captured [''vision:'' @ vt_source v] None s1 else s1)
      | _ \<Rightarrow> s)"

definition max_gap :: "config \<Rightarrow> rat" where
  "max_gap c = max 2 (3 / cf_fps c)"

definition observe :: "string \<Rightarrow> detection list \<Rightarrow> seconds \<Rightarrow> seconds \<Rightarrow> engine \<Rightarrow> engine" where
  "observe source ds captured now s =
     (let last_one = (case dict_get (en_samples s) source of None \<Rightarrow> 0 | Some t \<Rightarrow> t);
          gap = max_gap (en_config s);
          rs = filter (looks_here source) (watching_rules s)
      in if \<not> en_armed s \<or> captured \<le> max last_one (en_armed_at s) then s
         else if gap < now - captured then s
         else
           (let s1 = (if last_one \<noteq> 0 \<and> gap < captured - last_one then fold reset_for_gap rs s else s);
                s2 = s1\<lparr>en_samples := dict_set source captured (en_samples s1)\<rparr>
            in fold (observe_rule source ds captured) rs s2))"

definition motion_kinds :: "string list" where
  "motion_kinds = [''sensor.motion'', ''motion.pir'']"

definition echo_seconds :: rat where "echo_seconds = 2"

definition playing :: "bool \<Rightarrow> seconds \<Rightarrow> engine \<Rightarrow> bool" where
  "playing locked t s \<longleftrightarrow> locked \<or> t - en_quiet s < echo_seconds"

definition boost :: "engine \<Rightarrow> engine" where
  "boost s =
     (case en_plan s of
        None \<Rightarrow> s
      | Some p \<Rightarrow> s\<lparr>en_boosts := en_boosts s @
          [(if pl_detector p then {primary_camera} else {}) \<union> (en_watching s \<inter> set (map fst (pl_vision p)))]\<rparr>)"

definition event_rule ::
  "bool \<Rightarrow> (string \<Rightarrow> string option) \<Rightarrow> normalized \<Rightarrow> rule \<Rightarrow> engine \<Rightarrow> engine" where
  "event_rule locked zone_of e r s =
     (let st = state_of s r; at1 = no_monotonic e;
          fired = (\<lambda>st'. let s1 = set_state r st' s in
             if \<not> cooled st' (ru_cooldown r) at1 then note_event ''skipped'' (Some (ru_name r)) s1
             else fire r at1 [no_event e] (no_zone e)
               (note_event ''triggered'' (Some (ru_name r))
                 (set_state r (st'\<lparr>last_trigger := Some at1\<rparr>) s1)))
      in case ru_trigger r of
           AudioT t \<Rightarrow>
             if \<not> sound_fires t e then s
             else if playing locked at1 s then note_event ''skipped'' (Some (ru_name r)) s
             else fired st
         | SequenceT t \<Rightarrow>
             (let (ns, st') = sequence_event t st e (zone_of (vt_source (sq_vision t)))
              in log_notes r ns (set_state r st' s))
         | PresenceT t \<Rightarrow>
             (let (hit, st') = presence_fires t st e in if hit then fired st' else set_state r st' s)
         | SensorT t \<Rightarrow> if sensor_fires t e then fired st else s
         | ThresholdT t \<Rightarrow>
             (let (hit, st') = threshold_fires t st e in if hit then fired st' else set_state r st' s)
         | _ \<Rightarrow> s)"

definition observe_event ::
  "bool \<Rightarrow> (string \<Rightarrow> string option) \<Rightarrow> normalized \<Rightarrow> seconds \<Rightarrow> engine \<Rightarrow> engine" where
  "observe_event locked zone_of e now s =
     (if \<not> en_armed s \<or> \<not> no_eligible e then s
      else if no_monotonic e < en_armed_at s then s
      else if of_int (cf_ttl (en_config s)) < now - no_monotonic e then note_event ''expired'' None s
      else
        (let s1 = (if no_kind e \<in> set motion_kinds \<and> no_value e = JBool True \<and> trusted e
                   then boost s else s)
         in fold (event_rule locked zone_of e) (watching_rules s1) s1))"

subsection \<open>Health of what the arming depends on\<close>

record camera_view =
  cv_capture :: bool
  cv_error :: string
  cv_detecting :: bool
  cv_trouble :: string

record health_view =
  hv_primary :: camera_view
  hv_camera :: "string \<Rightarrow> camera_view option"
  hv_sources :: registry
  hv_offline :: "string \<Rightarrow> bool"

definition or_text :: "string \<Rightarrow> string \<Rightarrow> string" where
  "or_text a b = (if a \<noteq> [] then a else b)"

definition add_default :: "string \<Rightarrow> string \<Rightarrow> (string, string) dict \<Rightarrow> (string, string) dict" where
  "add_default k v d = (if dict_get d k = None then dict_set k v d else d)"

definition primary_failures :: "health_view \<Rightarrow> plan option \<Rightarrow> (string, string) dict" where
  "primary_failures h p =
     (if p \<noteq> None \<and> \<not> pl_camera (the p) then []
      else if \<not> cv_capture (hv_primary h)
      then [(primary_camera, or_text (cv_error (hv_primary h)) ''Camera stopped.'')]
      else if (p = None \<or> pl_detector (the p)) \<and>
              (\<not> cv_detecting (hv_primary h) \<or> cv_trouble (hv_primary h) \<noteq> [])
      then [(detector_need, or_text (cv_trouble (hv_primary h)) ''Object detection stopped.'')]
      else [])"

definition camera_failure :: "health_view \<Rightarrow> string \<Rightarrow> (string, string) dict \<Rightarrow> (string, string) dict" where
  "camera_failure h c d =
     (case hv_camera h c of
        None \<Rightarrow> dict_set c (c @ '' stopped.'') d
      | Some v \<Rightarrow>
          if \<not> cv_capture v then dict_set c (or_text (cv_error v) (c @ '' stopped.'')) d
          else if \<not> cv_detecting v \<or> cv_trouble v \<noteq> []
          then add_default detector_need (or_text (cv_trouble v) ''Object detection stopped.'') d
          else d)"

definition source_failure :: "health_view \<Rightarrow> string \<Rightarrow> (string, string) dict \<Rightarrow> (string, string) dict" where
  "source_failure h c d =
     (case reg_get (hv_sources h) c of
        None \<Rightarrow> dict_set c (c @ '' is no longer available.'') d
      | Some rec \<Rightarrow>
          if rec_state rec = Disabled \<or> rec_state rec = Failed
          then dict_set c (c @ '' is no longer available.'') d
          else (case ref_node (rec_ref rec) of
                  None \<Rightarrow> d
                | Some n \<Rightarrow> if hv_offline h n then dict_set c (n @ '' is offline.'') d else d))"

definition failures :: "health_view \<Rightarrow> plan option \<Rightarrow> (string, string) dict" where
  "failures h p =
     (case p of
        None \<Rightarrow> primary_failures h None
      | Some q \<Rightarrow>
          fold (source_failure h) (sorted_list_of_set (pl_watched q))
            (fold (camera_failure h) (map fst (pl_vision q)) (primary_failures h p)))"

definition pause_rule :: "string \<Rightarrow> string \<Rightarrow> engine \<Rightarrow> engine" where
  "pause_rule why i s =
     (let t = snd (drop_window (case dict_get (en_states s) i of None \<Rightarrow> new_state | Some t \<Rightarrow> t));
          who = (case List.find (\<lambda>r. ru_id r = i) (cf_rules (en_config s)) of
                   None \<Rightarrow> None | Some r \<Rightarrow> Some (ru_name r))
      in note_event ''fault'' who
           (s\<lparr>en_suspended := dict_set i why (en_suspended s), en_states := dict_set i t (en_states s)\<rparr>))"

definition pause_for :: "plan \<Rightarrow> string \<times> string \<Rightarrow> engine \<Rightarrow> engine" where
  "pause_for p f s =
     fold (pause_rule (snd f))
       (sorted_list_of_set (rules_needing p (fst f) - set (map fst (en_suspended s)))) s"

definition rules_left :: "engine \<Rightarrow> string set" where
  "rules_left s = set (map fst (en_states s)) - set (map fst (en_suspended s))"

definition still_needed :: "plan \<Rightarrow> string set \<Rightarrow> string set" where
  "still_needed p is = (\<Union>i \<in> is. case dict_get (pl_needs p) i of None \<Rightarrow> {} | Some ss \<Rightarrow> ss)"

definition join_reasons :: "string list \<Rightarrow> string" where
  "join_reasons rs = (case rs of [] \<Rightarrow> '''' | r # rs \<Rightarrow> fold (\<lambda>x acc. acc @ ''; '' @ x) rs r)"

definition isolate :: "bool \<Rightarrow> plan \<Rightarrow> (string, string) dict \<Rightarrow> engine \<Rightarrow> bool \<times> engine" where
  "isolate restarts p fs s =
     (let s1 = fold (pause_for p) fs s; left = rules_left s1; failed = set (map fst fs);
          needed = still_needed p left in
      if left \<noteq> {} then
        (let broken = detector_need \<in> failed;
             kept = (if broken then {c \<in> set (map fst (pl_vision p)). c \<in> needed \<and> c \<notin> failed} else {});
             lost = (if broken then [] else filter (\<lambda>x. fst x \<notin> failed) (pl_vision p));
             p1 = p\<lparr>pl_vision := lost, pl_ready := pl_ready p \<union> kept\<rparr>;
             primary = (primary_camera \<in> needed \<and> primary_camera \<notin> failed);
             s2 = (if pl_camera p \<and> primary_camera \<in> failed
                   then s1\<lparr>en_plan := Some (p1\<lparr>pl_detector := False, pl_camera := False\<rparr>),
                           en_camera := False\<rparr>
                   else if pl_detector p \<and> broken
                   then s1\<lparr>en_plan := Some (p1\<lparr>pl_detector := False, pl_camera := primary\<rparr>),
                           en_camera := primary \<and> restarts\<rparr>
                   else s1\<lparr>en_plan := Some p1\<rparr>)
         in (True, s2\<lparr>en_watching := en_watching s2 -
               ((failed \<union> set (map fst (pl_vision p))) - set (map fst lost) - kept)\<rparr>))
      else
        (False, stop_cameras (note_event ''fault'' None (halt_with (join_reasons (map snd fs)) s1))))"

definition check_health :: "bool \<Rightarrow> health_view \<Rightarrow> engine \<Rightarrow> bool \<times> engine" where
  "check_health restarts h s =
     (case failures h (en_plan s) of
        [] \<Rightarrow> (True, s)
      | f # fs \<Rightarrow>
          (case (cf_policy (en_config s), en_plan s) of
             (IsolatedFaults, Some p) \<Rightarrow> isolate restarts p (f # fs) s
           | _ \<Rightarrow> (False, stop_cameras (note_event ''fault'' None (halt_with (snd f) s)))))"

subsection \<open>The worker\<close>

definition expire_rule :: "seconds \<Rightarrow> rule \<Rightarrow> engine \<Rightarrow> engine" where
  "expire_rule now r s =
     (case ru_trigger r of
        SequenceT _ \<Rightarrow> (let (ns, t) = expire (state_of s r) now in log_notes r ns (set_state r t s))
      | _ \<Rightarrow> s)"

definition expire_windows :: "seconds \<Rightarrow> engine \<Rightarrow> engine" where
  "expire_windows now s = fold (expire_rule now) (watching_rules s) s"

text \<open>
  \<open>jobs.get\<close> in \<open>_worker\<close>, and the loop of \<open>_test\<close>: the thread holds a job outside the lock until it
  runs it, and takes no other before every step of that one has ended.
\<close>

definition take_job :: "engine \<Rightarrow> engine" where
  "take_job s =
     (case en_jobs s of
        j # js \<Rightarrow>
          if en_worker s = at_rest then s\<lparr>en_jobs := js, en_worker := at_rest\<lparr>wk_hand := Some j\<rparr>\<rparr> else s
      | [] \<Rightarrow> s)"

definition take_test :: "engine \<Rightarrow> engine" where
  "take_test s =
     (case wk_test (en_worker s) of
        None \<Rightarrow> s
      | Some (name, js) \<Rightarrow>
          if wk_hand (en_worker s) \<noteq> None \<or> wk_running (en_worker s) \<noteq> [] then s
          else if js = [] \<or> en_cancelled s
          then note_event ''tested'' (Some name) (s\<lparr>en_worker := at_rest\<rparr>)
          else s\<lparr>en_worker := \<lparr>wk_hand = Some (hd js), wk_running = [], wk_test = Some (name, tl js)\<rparr>\<rparr>)"

definition deadline_of :: "config \<Rightarrow> job \<Rightarrow> seconds" where
  "deadline_of c j = jb_created j + jb_delay j + of_int (cf_ttl c)"

definition run_job :: "engine \<Rightarrow> engine" where
  "run_job s =
     (case wk_hand (en_worker s) of
        None \<Rightarrow> s
      | Some j \<Rightarrow>
          (let s1 = s\<lparr>en_worker := (en_worker s)\<lparr>wk_hand := None\<rparr>\<rparr> in
           if en_cancelled s then s1
           else if (case jb_context j of None \<Rightarrow> False | Some c \<Rightarrow> cx_epoch c \<noteq> en_epoch s)
           then note_event ''cancelled'' (Some (jb_rule j)) s1
           else if (case jb_context j of None \<Rightarrow> False | Some c \<Rightarrow> cx_trigger c \<in> set (en_halted s))
           then note_event ''cancelled'' (Some (jb_rule j)) s1
           else s\<lparr>en_worker := (en_worker s)\<lparr>wk_hand := None, wk_running :=
                  map (\<lambda>a. \<lparr>rn_job = j, rn_step = a, rn_deadline = deadline_of (en_config s) j\<rparr>)
                    (jb_steps j)\<rparr>\<rparr>))"

text \<open>
  \<open>_step\<close>: what it does when its thread comes to it, and, for a step that uses the speaker, when
  the wait for the speaker is over, with it or without.
\<close>

datatype step_start = Starts act | Waits rat | TooLate | AsksSpeaker | SpeakerBusy | StepCancelled

fun speaks :: "act \<Rightarrow> bool" where
  "speaks (Tts _ _ _ _) = True"
| "speaks (Tune _ _ _ _) = True"
| "speaks (Sound _ _ _) = True"
| "speaks _ = False"

definition start_of :: "bool \<Rightarrow> seconds \<Rightarrow> running \<Rightarrow> step_start" where
  "start_of cancelled now x =
     (if cancelled then StepCancelled
      else case act (rn_step x) of
        Wait t \<Rightarrow> Waits t
      | a \<Rightarrow> if rn_deadline x < now then TooLate else if speaks a then AsksSpeaker else Starts a)"

definition turn_of :: "bool \<Rightarrow> bool \<Rightarrow> seconds \<Rightarrow> running \<Rightarrow> step_start" where
  "turn_of cancelled got now x =
     (if \<not> got then SpeakerBusy
      else if cancelled then StepCancelled
      else if rn_deadline x < now then TooLate
      else Starts (act (rn_step x)))"

fun start_kinds :: "step_start \<Rightarrow> string list" where
  "start_kinds (Starts a) =
     (case a of Ssh _ \<Rightarrow> [''action_started''] | Telegram _ _ \<Rightarrow> [''action_started'']
      | _ \<Rightarrow> if speaks a then [''action_started''] else [])"
| "start_kinds (Waits _) = [''waiting'']"
| "start_kinds TooLate = [''expired'']"
| "start_kinds SpeakerBusy = [''expired'']"
| "start_kinds AsksSpeaker = []"
| "start_kinds StepCancelled = []"

definition step_with :: "(running \<Rightarrow> step_start) \<Rightarrow> nat \<Rightarrow> engine \<Rightarrow> step_start option \<times> engine" where
  "step_with f i s =
     (if i < length (wk_running (en_worker s))
      then
        (let x = wk_running (en_worker s) ! i
         in (Some (f x),
             fold (\<lambda>k. note_event k (Some (jb_rule (rn_job x)))) (start_kinds (f x)) s))
      else (None, s))"

definition start_step :: "nat \<Rightarrow> seconds \<Rightarrow> engine \<Rightarrow> step_start option \<times> engine" where
  "start_step i now s = step_with (start_of (en_cancelled s) now) i s"

definition speaker_turn :: "nat \<Rightarrow> bool \<Rightarrow> seconds \<Rightarrow> engine \<Rightarrow> step_start option \<times> engine" where
  "speaker_turn i got now s = step_with (turn_of (en_cancelled s) got now) i s"

text \<open>The thread of an arming that was stopped: with an error to show, the cameras are let go.\<close>

definition worker_ends :: "engine \<Rightarrow> engine" where
  "worker_ends s =
     (if en_cancelled s \<and> en_worker s = at_rest \<and> en_error s \<noteq> None then stop_cameras s else s)"

text \<open>The step has returned: its thread is joined, and the speaker, if it had it, is quiet from now.\<close>

definition step_ends :: "nat \<Rightarrow> bool \<Rightarrow> seconds \<Rightarrow> engine \<Rightarrow> engine" where
  "step_ends i had_speaker now s =
     s\<lparr>en_worker := (en_worker s)\<lparr>wk_running :=
         take i (wk_running (en_worker s)) @ drop (i + 1) (wk_running (en_worker s))\<rparr>,
       en_quiet := (if had_speaker then now else en_quiet s)\<rparr>"

definition step_notes :: "string \<Rightarrow> bool \<Rightarrow> engine \<Rightarrow> engine" where
  "step_notes name failed s =
     note_event (if \<not> failed then ''action_finished''
                 else if en_cancelled s then ''cancelled'' else ''action_failed'') (Some name) s"

fun policy_of :: "act \<Rightarrow> if_unavailable" where
  "policy_of (Photo _ _ _ u) = u"
| "policy_of (Video _ _ _ _ u) = u"
| "policy_of _ = FailStep"

definition step_unavailable :: "string \<Rightarrow> act \<Rightarrow> action_context option \<Rightarrow> engine \<Rightarrow> engine" where
  "step_unavailable name a cx s =
     (if en_cancelled s then note_event ''cancelled'' (Some name) s
      else case policy_of a of
        SkipStep \<Rightarrow> note_event ''skipped'' (Some name) s
      | StopSequence \<Rightarrow>
          note_event ''cancelled'' (Some name)
            (case cx of
               None \<Rightarrow> s
             | Some c \<Rightarrow>
                 s\<lparr>en_halted := (let h = en_halted s @ [cx_trigger c] in drop (length h - halted_size) h)\<rparr>)
      | FailStep \<Rightarrow> note_event ''action_failed'' (Some name) s)"

subsection \<open>The engine as a machine\<close>

datatype engine_input =
  UpdateV1 "action config_v1" int bool bool
| UpdateV2 config int bool bool
| SetTestMode bool bool
| Arm arming
| TestRule rule arming
| TestRuleV1 "action rule_v1" arming
| Disarm
| DisarmEnds bool bool
| SourceFails string
| Observe string "detection list" seconds seconds
| ObserveEvent bool "string \<Rightarrow> string option" normalized seconds
| CheckHealth bool health_view
| ExpireWindows seconds
| TakeJob
| TakeTest
| RunJob
| StartStep nat seconds
| SpeakerTurn nat bool seconds
| StepEnds nat bool seconds
| StepNotes string bool
| StepUnavailable string act "action_context option"
| WorkerEnds

datatype engine_output = Answered | Refused engine_error | LockHeld | Begins "step_start option"

text \<open>An operation that takes the lifecycle lock waits while a disarm holds it.\<close>

definition lifecycle ::
  "(engine \<Rightarrow> (engine_error + unit) \<times> engine) \<Rightarrow> engine \<Rightarrow> engine_output \<times> engine" where
  "lifecycle f s =
     (if en_ending s \<noteq> None then (LockHeld, s)
      else case f s of (Inl e, t) \<Rightarrow> (Refused e, t) | (Inr _, t) \<Rightarrow> (Answered, t))"

fun do_engine :: "engine \<Rightarrow> engine_input \<Rightarrow> engine_output \<times> engine" where
  "do_engine s (UpdateV1 c n clear w) =
     (if obstacles (en_config s) \<noteq> [] then (Refused (UpgradeRequired (obstacles (en_config s))), s)
      else lifecycle (update_v1 c n clear w) s)"
| "do_engine s (UpdateV2 c n clear w) = lifecycle (update_v2 c n clear w) s"
| "do_engine s (SetTestMode b w) = lifecycle (set_test_mode b w) s"
| "do_engine s (Arm x) = lifecycle (arm x) s"
| "do_engine s (TestRule r x) = lifecycle (test_rule r x) s"
| "do_engine s (TestRuleV1 r x) = lifecycle (test_rule_v1 r x) s"
| "do_engine s Disarm = lifecycle (\<lambda>s. (Inr (), disarm s)) s"
| "do_engine s (DisarmEnds stopped saved) =
     (case disarm_ends stopped saved s of (Inl e, t) \<Rightarrow> (Refused e, t) | (Inr _, t) \<Rightarrow> (Answered, t))"
| "do_engine s (SourceFails why) = (Answered, fault why s)"
| "do_engine s (Observe c ds t now) = (Answered, observe c ds t now s)"
| "do_engine s (ObserveEvent l z e now) = (Answered, observe_event l z e now s)"
| "do_engine s (CheckHealth r h) = (Answered, snd (check_health r h s))"
| "do_engine s (ExpireWindows now) = (Answered, expire_windows now s)"
| "do_engine s TakeJob = (Answered, take_job s)"
| "do_engine s TakeTest = (Answered, take_test s)"
| "do_engine s RunJob = (Answered, run_job s)"
| "do_engine s (StartStep i now) = (case start_step i now s of (x, t) \<Rightarrow> (Begins x, t))"
| "do_engine s (SpeakerTurn i got now) = (case speaker_turn i got now s of (x, t) \<Rightarrow> (Begins x, t))"
| "do_engine s (StepEnds i had now) = (Answered, step_ends i had now s)"
| "do_engine s (StepNotes n failed) = (Answered, step_notes n failed s)"
| "do_engine s (StepUnavailable n a cx) = (Answered, step_unavailable n a cx s)"
| "do_engine s WorkerEnds = (Answered, worker_ends s)"

subsection \<open>A job belongs to its arming\<close>

text \<open>What the queue depends on; everything else of the engine may change freely.\<close>

definition same_queue :: "engine \<Rightarrow> engine \<Rightarrow> bool" where
  "same_queue s t \<longleftrightarrow>
     en_config t = en_config s \<and> en_armed t = en_armed s \<and> en_armed_at t = en_armed_at s \<and>
     en_epoch t = en_epoch s \<and> en_cancelled t = en_cancelled s \<and> en_jobs t = en_jobs s \<and>
     en_worker t = en_worker s \<and> en_ending t = en_ending s"

lemma same_queue_refl [simp]: "same_queue s s"
  by (simp add: same_queue_def)

lemma same_queue_trans: "same_queue s t \<Longrightarrow> same_queue t u \<Longrightarrow> same_queue s u"
  by (simp add: same_queue_def)

lemma same_queue_fold: "(\<And>x s. same_queue s (f x s)) \<Longrightarrow> same_queue s (fold f xs s)"
  by (induction xs arbitrary: s) (auto intro: same_queue_trans)

lemma same_queue_note [simp]: "same_queue s (note_event k w s)"
  by (simp add: same_queue_def note_event_def)

lemma noted: "same_queue s t \<Longrightarrow> same_queue s (note_event k w t)"
  by (erule same_queue_trans) (rule same_queue_note)

lemma same_queue_set_state [simp]: "same_queue s (set_state r t s)"
  by (simp add: same_queue_def set_state_def)

lemma same_queue_log [simp]: "same_queue s (log_notes r ns s)"
  unfolding log_notes_def by (rule same_queue_fold) simp

lemma same_queue_boost [simp]: "same_queue s (boost s)"
  by (simp add: same_queue_def boost_def split: option.splits)

lemma same_queue_gap: "same_queue s (reset_for_gap r s)"
  unfolding reset_for_gap_def Let_def split_beta
  by (rule same_queue_trans [OF same_queue_set_state same_queue_log])

definition job_of_arming :: "engine \<Rightarrow> job \<Rightarrow> bool" where
  "job_of_arming s j \<longleftrightarrow>
     (\<exists>c. jb_context j = Some c \<and> cx_epoch c = en_epoch s \<and> en_armed_at s \<le> jb_created j \<and>
       \<not> cf_test (en_config s) \<and>
       (\<exists>r \<in> set (enabled_rules (en_config s)). ru_id r = cx_rule c \<and> ru_name r = jb_rule j \<and>
          set (jb_steps j) \<subseteq> set (resolved r)))"

definition job_of_test :: "job \<Rightarrow> bool" where
  "job_of_test j \<longleftrightarrow> (\<exists>c. jb_context j = Some c \<and> cx_origin c = [''test''])"

definition held_jobs :: "worker \<Rightarrow> job set" where
  "held_jobs w =
     set_option (wk_hand w) \<union> rn_job ` set (wk_running w) \<union>
     (case wk_test w of None \<Rightarrow> {} | Some (n, js) \<Rightarrow> set js)"

definition engine_inv :: "engine \<Rightarrow> bool" where
  "engine_inv s \<longleftrightarrow>
     (if en_armed s
      then \<not> en_cancelled s \<and> wk_test (en_worker s) = None \<and> en_ending s = None \<and>
        (\<forall>j \<in> set (en_jobs s) \<union> held_jobs (en_worker s). job_of_arming s j) \<and>
        (\<forall>x \<in> set (wk_running (en_worker s)). rn_deadline x = deadline_of (en_config s) (rn_job x))
      else en_jobs s = [] \<and> (\<not> en_cancelled s \<longrightarrow> (\<forall>j \<in> held_jobs (en_worker s). job_of_test j))) \<and>
     length (en_jobs s) \<le> queue_size \<and>
     (\<forall>x \<in> set (wk_running (en_worker s)). rn_step x \<in> set (jb_steps (rn_job x)))"

lemma job_of_arming_same: "same_queue s t \<Longrightarrow> job_of_arming t j = job_of_arming s j"
  by (simp add: same_queue_def job_of_arming_def)

lemma engine_inv_same: "same_queue s t \<Longrightarrow> engine_inv t = engine_inv s"
  by (simp add: engine_inv_def job_of_arming_same) (simp add: same_queue_def)

lemma held_at_rest [simp]: "held_jobs at_rest = {}" "wk_running at_rest = []" "wk_test at_rest = None"
    "wk_hand at_rest = None"
  by (simp_all add: held_jobs_def at_rest_def)

lemma inv_noted: "engine_inv (note_event k w s) = engine_inv s"
  by (rule engine_inv_same) simp

lemma inv_notes: "engine_inv (fold (\<lambda>x. note_event (k x) (w x)) xs s) = engine_inv s"
  by (rule engine_inv_same, rule same_queue_fold) simp

lemma engine_inv_stopped:
  assumes "engine_inv s" "\<not> en_armed t" "en_jobs t = []" "en_worker t = en_worker s"
    "en_cancelled t \<or> \<not> en_armed s \<and> \<not> en_cancelled s"
  shows "engine_inv t"
  using assms by (auto simp: engine_inv_def)

lemma discard_jobs_simps [simp]:
  "en_jobs (discard_jobs s) = []" "en_armed (discard_jobs s) = en_armed s"
  "en_cancelled (discard_jobs s) = en_cancelled s" "en_epoch (discard_jobs s) = en_epoch s"
  "en_worker (discard_jobs s) = en_worker s" "en_config (discard_jobs s) = en_config s"
proof -
  have "same_queue (s\<lparr>en_jobs := []\<rparr>) (discard_jobs s)"
    unfolding discard_jobs_def by (rule same_queue_fold) simp
  then show "en_jobs (discard_jobs s) = []" "en_armed (discard_jobs s) = en_armed s"
    "en_cancelled (discard_jobs s) = en_cancelled s" "en_epoch (discard_jobs s) = en_epoch s"
    "en_worker (discard_jobs s) = en_worker s" "en_config (discard_jobs s) = en_config s"
    by (simp_all add: same_queue_def)
qed

lemma note_event_simps [simp]:
  "en_jobs (note_event k w s) = en_jobs s" "en_armed (note_event k w s) = en_armed s"
  "en_cancelled (note_event k w s) = en_cancelled s" "en_epoch (note_event k w s) = en_epoch s"
  "en_worker (note_event k w s) = en_worker s" "en_config (note_event k w s) = en_config s"
  "en_armed_at (note_event k w s) = en_armed_at s" "en_states (note_event k w s) = en_states s"
  "en_suspended (note_event k w s) = en_suspended s" "en_plan (note_event k w s) = en_plan s"
  "en_file (note_event k w s) = en_file s" "en_revision (note_event k w s) = en_revision s"
  "en_version (note_event k w s) = en_version s" "en_ending (note_event k w s) = en_ending s" "en_error (note_event k w s) = en_error s"
  by (simp_all add: note_event_def)

lemma stop_cameras_simps [simp]:
  "en_jobs (stop_cameras s) = en_jobs s" "en_armed (stop_cameras s) = en_armed s"
  "en_cancelled (stop_cameras s) = en_cancelled s" "en_epoch (stop_cameras s) = en_epoch s"
  "en_worker (stop_cameras s) = en_worker s" "en_config (stop_cameras s) = en_config s"
  "en_error (stop_cameras s) = en_error s"
  by (simp_all add: stop_cameras_def)

lemma halt_with_simps [simp]:
  "en_jobs (halt_with w s) = []" "\<not> en_armed (halt_with w s)" "en_cancelled (halt_with w s)"
  "en_epoch (halt_with w s) = en_epoch s" "en_worker (halt_with w s) = en_worker s"
  by (simp_all add: halt_with_def)

subsubsection \<open>Groups\<close>

lemma add_step_steps:
  "concat (map jb_steps (fst (add_step n c cx a g))) = concat (map jb_steps (fst g)) @ [a]"
proof (cases g)
  case (Pair js d)
  show ?thesis
  proof (cases "js = []")
    case False
    then obtain ks k where "js = ks @ [k]" by (metis rev_exhaust)
    then show ?thesis by (simp add: Pair add_step_def Let_def)
  qed (simp add: Pair add_step_def Let_def)
qed

lemma groups_steps_from:
  "concat (map jb_steps (fst (fold (add_step n c cx) as g))) = concat (map jb_steps (fst g)) @ as"
  by (induction as arbitrary: g) (simp_all add: add_step_steps)

lemma groups_steps: "concat (map jb_steps (groups r c cx)) = resolved r"
  by (simp add: groups_def groups_steps_from)

lemma add_step_keeps:
  assumes "\<forall>j \<in> set (fst g). jb_rule j = n \<and> jb_created j = c \<and> jb_context j = cx"
  shows "\<forall>j \<in> set (fst (add_step n c cx a g)). jb_rule j = n \<and> jb_created j = c \<and> jb_context j = cx"
proof (cases g)
  case (Pair js d)
  then show ?thesis using assms
    by (cases js rule: rev_cases) (auto simp: add_step_def Let_def)
qed

lemma groups_keep: "j \<in> set (groups r c cx) \<Longrightarrow> jb_rule j = ru_name r \<and> jb_created j = c \<and> jb_context j = cx"
proof -
  have "\<forall>j \<in> set (fst (fold (add_step n c cx) as g)). jb_rule j = n \<and> jb_created j = c \<and> jb_context j = cx"
    if "\<forall>j \<in> set (fst g). jb_rule j = n \<and> jb_created j = c \<and> jb_context j = cx" for n as g
    using that
  proof (induction as arbitrary: g)
    case (Cons a as)
    from Cons.IH [OF add_step_keeps [OF Cons.prems]] show ?case by simp
  qed simp
  then show "j \<in> set (groups r c cx) \<Longrightarrow> jb_rule j = ru_name r \<and> jb_created j = c \<and> jb_context j = cx"
    unfolding groups_def by (metis empty_iff empty_set fst_conv)
qed

lemma group_steps_resolved: "j \<in> set (groups r c cx) \<Longrightarrow> set (jb_steps j) \<subseteq> set (resolved r)"
proof -
  assume "j \<in> set (groups r c cx)"
  then have "set (jb_steps j) \<subseteq> set (concat (map jb_steps (groups r c cx)))" by auto
  then show ?thesis by (simp add: groups_steps)
qed

subsubsection \<open>Every operation keeps the invariant\<close>

definition same_arming :: "engine \<Rightarrow> engine \<Rightarrow> bool" where
  "same_arming s t \<longleftrightarrow>
     en_config t = en_config s \<and> en_armed t = en_armed s \<and> en_armed_at t = en_armed_at s \<and>
     en_epoch t = en_epoch s"

text \<open>What a pass over the rules keeps, from an armed state \<open>s\<close> the invariant holds of.\<close>

definition keeps_queue :: "engine \<Rightarrow> engine \<Rightarrow> bool" where
  "keeps_queue s t \<longleftrightarrow> (engine_inv s \<longrightarrow> engine_inv t) \<and> same_arming s t"

lemma keeps_queue_refl [simp]: "keeps_queue s s"
  by (simp add: keeps_queue_def same_arming_def)

lemma keeps_queue_trans: "keeps_queue s t \<Longrightarrow> keeps_queue t u \<Longrightarrow> keeps_queue s u"
  by (simp add: keeps_queue_def same_arming_def)

lemma keeps_same: "same_queue s t \<Longrightarrow> keeps_queue s t"
  by (simp add: keeps_queue_def engine_inv_same) (simp add: same_queue_def same_arming_def)

lemma keeps_fold:
  assumes "\<And>x t. x \<in> set xs \<Longrightarrow> same_arming s t \<Longrightarrow> keeps_queue t (f x t)"
  shows "keeps_queue s (fold f xs s)"
proof -
  have "keeps_queue u (fold f xs u)" if "same_arming s u" for u
    using that assms
  proof (induction xs arbitrary: u)
    case (Cons x xs)
    have step: "keeps_queue u (f x u)" using Cons.prems by simp
    then have "same_arming s (f x u)" using Cons.prems(1) by (simp add: keeps_queue_def same_arming_def)
    then have "keeps_queue (f x u) (fold f xs (f x u))" using Cons.IH Cons.prems(2) by simp
    with step show ?case by (simp add: keeps_queue_trans [of u "f x u"])
  qed simp
  then show ?thesis by (simp add: same_arming_def)
qed

lemma fire_keeps:
  assumes "en_armed s" "r \<in> set (enabled_rules (en_config s))" "en_armed_at s \<le> created"
  shows "keeps_queue s (fire r created origin zone s)"
proof (cases "cf_test (en_config s)")
  case True
  have "same_queue s (fold (\<lambda>a. note_event ''would_run'' (Some (ru_name r))) (ru_actions r) s)"
    by (rule same_queue_fold) simp
  then show ?thesis using True by (simp add: fire_def keeps_same)
next
  case False
  let ?cx = "context_of s r origin zone" and ?js = "groups r created (Some (context_of s r origin zone))"
  let ?s = "s\<lparr>en_next := en_next s + 1\<rparr>"
  have same: "same_queue s ?s" by (simp add: same_queue_def)
  show ?thesis
  proof (cases "queue_size < length (en_jobs s) + length ?js")
    case True
    have "same_queue s (note_event ''skipped'' (Some (ru_name r)) ?s)"
      by (rule same_queue_trans [OF same]) simp
    then show ?thesis using True False by (simp add: fire_def Let_def keeps_same)
  next
    case room: False
    let ?t = "?s\<lparr>en_jobs := en_jobs s @ ?js\<rparr>"
    have "fire r created origin zone s = ?t" using room False by (simp add: fire_def Let_def)
    moreover have "engine_inv ?t" if inv: "engine_inv s"
    proof -
      have old: "job_of_arming ?t j" if "job_of_arming s j" for j
        using that by (simp add: job_of_arming_def)
      have new: "job_of_arming ?t j" if "j \<in> set ?js" for j
        using groups_keep [OF that] group_steps_resolved [OF that] assms False
        by (auto simp: job_of_arming_def context_of_def)
      show ?thesis using inv old new room assms(1) by (auto simp: engine_inv_def)
    qed
    ultimately show ?thesis by (simp add: keeps_queue_def same_arming_def)
  qed
qed

lemma watching_enabled: "r \<in> set (watching_rules s) \<Longrightarrow> r \<in> set (enabled_rules (en_config s))"
  by (simp add: watching_rules_def enabled_rules_def)

lemma keeps_logged: "keeps_queue s (log_notes r ns (set_state r t s))"
  by (rule keeps_same) (rule same_queue_trans [OF same_queue_set_state same_queue_log])

lemma keeps_fire_after:
  assumes "keeps_queue s t" "en_armed s" "r \<in> set (enabled_rules (en_config s))" "en_armed_at s \<le> created"
  shows "keeps_queue s (fire r created origin zone t)"
  by (rule keeps_queue_trans [OF assms(1) fire_keeps])
    (use assms in \<open>simp_all add: keeps_queue_def same_arming_def\<close>)

lemma observe_rule_keeps:
  assumes "en_armed s" "r \<in> set (enabled_rules (en_config s))" "en_armed_at s \<le> captured"
  shows "keeps_queue s (observe_rule source ds captured r s)"
  using keeps_logged [of s r] keeps_fire_after [OF keeps_logged assms]
  by (auto simp: observe_rule_def Let_def split_beta split: trigger.splits option.splits)

lemma observe_keeps: "keeps_queue s (observe source ds captured now s)"
proof -
  let ?rs = "filter (looks_here source) (watching_rules s)"
  have gaps: "keeps_queue s (fold reset_for_gap ?rs s)"
    by (rule keeps_same, rule same_queue_fold) (rule same_queue_gap)
  have rules: "keeps_queue s (fold (observe_rule source ds captured) ?rs
      (t\<lparr>en_samples := dict_set source captured (en_samples t)\<rparr>))"
    if t: "keeps_queue s t" and on: "en_armed s" "en_armed_at s \<le> captured" for t
  proof -
    let ?t = "t\<lparr>en_samples := dict_set source captured (en_samples t)\<rparr>"
    have "keeps_queue t ?t" by (rule keeps_same) (simp add: same_queue_def)
    with t have st: "keeps_queue s ?t" by (rule keeps_queue_trans)
    moreover have "keeps_queue ?t (fold (observe_rule source ds captured) ?rs ?t)"
    proof (rule keeps_fold)
      fix r u assume "r \<in> set ?rs" "same_arming ?t u"
      then have "r \<in> set (watching_rules s)" "same_arming s u"
        using st by (simp_all add: keeps_queue_def same_arming_def)
      then show "keeps_queue u (observe_rule source ds captured r u)"
        using on watching_enabled by (intro observe_rule_keeps) (simp_all add: same_arming_def)
    qed
    ultimately show ?thesis by (rule keeps_queue_trans)
  qed
  show ?thesis
    using rules [OF gaps] rules [OF keeps_queue_refl] by (auto simp: observe_def Let_def)
qed

lemma event_rule_keeps:
  assumes "en_armed s" "r \<in> set (enabled_rules (en_config s))" "en_armed_at s \<le> no_monotonic e"
  shows "keeps_queue s (event_rule locked zone_of e r s)"
proof -
  have set: "keeps_queue s (set_state r t s)" for t by (rule keeps_same) simp
  have skip: "keeps_queue s (note_event k w (set_state r t s))" for k w t
    by (rule keeps_same, rule noted, simp)
  have go: "keeps_queue s (fire r (no_monotonic e) [no_event e] z
      (note_event k w (set_state r t (set_state r t' s))))" for k w t t' z
    by (rule keeps_fire_after [OF _ assms], rule keeps_same, rule noted)
      (rule same_queue_trans [OF same_queue_set_state same_queue_set_state])
  have only: "keeps_queue s (note_event k w s)" for k w by (rule keeps_same) simp
  show ?thesis
    using set skip go only keeps_logged [of s r]
    by (auto simp: event_rule_def Let_def split_beta split: trigger.splits)
qed

lemma observe_event_keeps: "keeps_queue s (observe_event locked zone_of e now s)"
proof -
  have rules: "keeps_queue s (fold (event_rule locked zone_of e) (watching_rules t) t)"
    if t: "same_queue s t" "en_states t = en_states s" "en_suspended t = en_suspended s"
      and on: "en_armed s" "en_armed_at s \<le> no_monotonic e" for t
  proof (rule keeps_queue_trans [OF keeps_same [OF t(1)]], rule keeps_fold)
    fix r u assume "r \<in> set (watching_rules t)" "same_arming t u"
    then have "r \<in> set (enabled_rules (en_config u))" "en_armed u" "en_armed_at u \<le> no_monotonic e"
      using t on watching_enabled [of r t] by (simp_all add: same_arming_def same_queue_def)
    then show "keeps_queue u (event_rule locked zone_of e r u)" by (intro event_rule_keeps)
  qed
  have only: "keeps_queue s (note_event k w s)" for k w by (rule keeps_same) simp
  have "en_states (boost s) = en_states s" "en_suspended (boost s) = en_suspended s"
    by (simp_all add: boost_def split: option.splits)
  then show ?thesis using rules [of "boost s"] rules [of s] only
    by (auto simp: observe_event_def Let_def)
qed

lemma expire_rule_same: "same_queue s (expire_rule now r s)"
  using same_queue_trans [OF same_queue_set_state same_queue_log, of s r _ r]
  by (simp add: expire_rule_def split_beta Let_def split: trigger.split)

lemma expire_windows_same: "same_queue s (expire_windows now s)"
  unfolding expire_windows_def by (rule same_queue_fold) (rule expire_rule_same)

lemma pause_rule_same: "same_queue s (pause_rule why i s)"
  unfolding pause_rule_def Let_def by (rule noted) (simp add: same_queue_def)

lemma pause_for_same: "same_queue s (pause_for p f s)"
  unfolding pause_for_def by (rule same_queue_fold) (rule pause_rule_same)

lemma isolate_cases:
  "same_queue s (snd (isolate restarts p fs s)) \<or>
   (\<not> en_armed (snd (isolate restarts p fs s)) \<and> en_cancelled (snd (isolate restarts p fs s)) \<and>
    en_jobs (snd (isolate restarts p fs s)) = [] \<and>
    en_worker (snd (isolate restarts p fs s)) = en_worker s)"
proof -
  have "same_queue s (fold (pause_for p) fs s)" by (rule same_queue_fold) (rule pause_for_same)
  then show ?thesis by (simp add: isolate_def Let_def same_queue_def)
qed

lemma inv_isolate: "engine_inv s \<Longrightarrow> engine_inv (snd (isolate restarts p fs s))"
  using isolate_cases [of s restarts p fs]
  by (elim disjE) (simp add: engine_inv_same, rule engine_inv_stopped, simp_all)

lemma inv_check_health: "engine_inv s \<Longrightarrow> engine_inv (snd (check_health restarts h s))"
  by (auto simp: check_health_def inv_isolate engine_inv_stopped
      split: list.split fault_policy.split option.split)

lemma inv_fault: "engine_inv s \<Longrightarrow> engine_inv (fault why s)"
  by (auto simp: fault_def engine_inv_stopped)

lemma inv_disarm: "engine_inv s \<Longrightarrow> engine_inv (disarm s)"
  by (rule engine_inv_stopped [of s]) (auto simp: disarm_def)

lemma inv_disarm_ends: "engine_inv s \<Longrightarrow> engine_inv (snd (disarm_ends stopped saved s))"
proof (cases "en_ending s")
  case (Some b)
  assume inv: "engine_inv s"
  then have idle: "\<not> en_armed s" using Some by (auto simp: engine_inv_def)
  have "engine_inv t" if "\<not> en_armed t" "en_jobs t = en_jobs s" "en_worker t = en_worker s" "en_cancelled t = en_cancelled s" for t
    by (rule engine_inv_stopped [OF inv]) (use that idle inv in \<open>auto simp: engine_inv_def\<close>)
  then show ?thesis using Some idle by (simp add: disarm_ends_def Let_def)
qed (simp add: disarm_ends_def)

lemma inv_arm:
  assumes inv: "engine_inv s" and free: "en_ending s = None"
  shows "engine_inv (snd (arm x s))"
proof -
  have same: "engine_inv (s\<lparr>en_camera := False\<rparr>)"
    using inv engine_inv_same [of s "s\<lparr>en_camera := False\<rparr>"] by (simp add: same_queue_def)
  have armed: "engine_inv (note_event k w (fold (\<lambda>_. note_event k' w') ns t))"
    if "en_armed t" "\<not> en_cancelled t" "en_jobs t = []" "en_worker t = at_rest" "en_ending t = None"
    for k w k' w' ns t
  proof -
    have "same_queue t (note_event k w (fold (\<lambda>_. note_event k' w') ns t))"
      by (rule noted, rule same_queue_fold) simp
    moreover have "engine_inv t" using that by (simp add: engine_inv_def queue_size_def)
    ultimately show ?thesis by (simp add: engine_inv_same)
  qed
  show ?thesis using inv same free
    by (auto simp: arm_def Let_def split: option.splits sum.splits intro!: armed)
qed

lemma test_jobs: "j \<in> set (groups r now (Some (context_of s r [''test''] None))) \<Longrightarrow> job_of_test j"
  using groups_keep [of j] by (auto simp: job_of_test_def context_of_def)

lemma inv_test_rule:
  assumes inv: "engine_inv s"
  shows "engine_inv (snd (test_rule r x s))"
proof -
  have "engine_inv (s\<lparr>en_cancelled := False, en_next := n,
      en_worker := at_rest\<lparr>wk_test := Some (ru_name r, groups r now (Some (context_of s r [''test''] None)))\<rparr>\<rparr>)"
    if "\<not> en_armed s" for n now
    using inv that test_jobs by (auto simp: engine_inv_def held_jobs_def at_rest_def)
  then show ?thesis using inv by (auto simp: test_rule_def inv_noted split: option.split)
qed

lemma persist_keeps:
  "en_armed (snd (persist_rules c n w s)) = en_armed s \<and> en_cancelled (snd (persist_rules c n w s)) = en_cancelled s \<and>
   en_jobs (snd (persist_rules c n w s)) = en_jobs s \<and> en_worker (snd (persist_rules c n w s)) = en_worker s"
  by (auto simp: persist_rules_def Let_def split: sum.split)

lemma inv_persist: "engine_inv s \<Longrightarrow> \<not> en_armed s \<Longrightarrow> engine_inv (snd (persist_rules c n w s))"
  by (rule engine_inv_stopped [of s]) (auto simp: persist_keeps, auto simp: engine_inv_def)

lemma inv_update_v2: "engine_inv s \<Longrightarrow> engine_inv (snd (update_v2 c n clear w s))"
  by (auto simp: update_v2_def snd_try_then inv_noted split: sum.split intro: inv_persist)

lemma inv_set_test_mode: "engine_inv s \<Longrightarrow> engine_inv (snd (set_test_mode on w s))"
  by (auto simp: set_test_mode_def snd_try_then inv_noted split: sum.split intro: inv_persist)

lemma inv_worker:
  assumes "engine_inv s" "held_jobs w \<subseteq> set (en_jobs s) \<union> held_jobs (en_worker s)"
    "set (wk_running w) \<subseteq> set (wk_running (en_worker s))" "wk_test (en_worker s) = None \<longrightarrow> wk_test w = None"
  shows "engine_inv (s\<lparr>en_worker := w\<rparr>)"
proof -
  have "job_of_arming (s\<lparr>en_worker := w\<rparr>) j = job_of_arming s j" for j
    by (simp add: job_of_arming_def)
  then show ?thesis using assms by (auto simp: engine_inv_def)
qed

lemma inv_take_job: "engine_inv s \<Longrightarrow> engine_inv (take_job s)"
proof (cases "en_jobs s")
  case (Cons j js)
  assume inv: "engine_inv s"
  have "held_jobs (at_rest\<lparr>wk_hand := Some j\<rparr>) = {j}" "wk_running (at_rest\<lparr>wk_hand := Some j\<rparr>) = []"
    "wk_test (at_rest\<lparr>wk_hand := Some j\<rparr>) = None"
    by (simp_all add: held_jobs_def at_rest_def)
  then show ?thesis using inv Cons
    by (cases "en_worker s = at_rest"; cases "en_armed s")
      (auto simp: take_job_def engine_inv_def job_of_arming_def)
qed (simp add: take_job_def)

lemma inv_take_test: "engine_inv s \<Longrightarrow> engine_inv (take_test s)"
proof (cases "wk_test (en_worker s)")
  case (Some t)
  assume inv: "engine_inv s"
  obtain name js where t: "t = (name, js)" by (cases t)
  have "engine_inv (s\<lparr>en_worker := at_rest\<rparr>)" by (rule inv_worker [OF inv]) simp_all
  moreover have "engine_inv (s\<lparr>en_worker := \<lparr>wk_hand = Some (hd js), wk_running = [], wk_test = Some (name, tl js)\<rparr>\<rparr>)"
    if "js \<noteq> []"
    by (rule inv_worker [OF inv])
      (use that Some t in \<open>cases js; auto simp: held_jobs_def\<close>)+
  ultimately show ?thesis using inv Some t by (simp add: take_test_def inv_noted)
qed (simp add: take_test_def)

lemma inv_run_job: "engine_inv s \<Longrightarrow> engine_inv (run_job s)"
proof (cases "wk_hand (en_worker s)")
  case (Some j)
  assume inv: "engine_inv s"
  have drop: "engine_inv (s\<lparr>en_worker := (en_worker s)\<lparr>wk_hand := None\<rparr>\<rparr>)"
    by (rule inv_worker [OF inv]) (auto simp: held_jobs_def split: option.splits)
  let ?w = "(en_worker s)\<lparr>wk_hand := None, wk_running :=
    map (\<lambda>a. \<lparr>rn_job = j, rn_step = a, rn_deadline = deadline_of (en_config s) j\<rparr>) (jb_steps j)\<rparr>"
  have "held_jobs ?w \<subseteq> held_jobs (en_worker s)" using Some by (auto simp: held_jobs_def split: option.splits)
  then have "engine_inv (s\<lparr>en_worker := ?w\<rparr>)" using inv
    by (auto simp: engine_inv_def job_of_arming_def)
  with drop show ?thesis using Some inv
    by (simp add: run_job_def Let_def inv_noted)
qed (simp add: run_job_def)

lemma step_with_same: "same_queue s (snd (step_with f i s))"
  by (auto simp: step_with_def Let_def intro: same_queue_fold)

lemma inv_step: "engine_inv s \<Longrightarrow> engine_inv (snd (start_step i now s))"
    "engine_inv s \<Longrightarrow> engine_inv (snd (speaker_turn i got now s))"
  using engine_inv_same [OF step_with_same] by (simp_all add: start_step_def speaker_turn_def)

lemma inv_step_ends: "engine_inv s \<Longrightarrow> engine_inv (step_ends i had now s)"
proof -
  assume inv: "engine_inv s"
  let ?w = "(en_worker s)\<lparr>wk_running := take i (wk_running (en_worker s)) @ drop (i + 1) (wk_running (en_worker s))\<rparr>"
  have sub: "set (wk_running ?w) \<subseteq> set (wk_running (en_worker s))"
    by (auto dest: in_set_takeD in_set_dropD)
  then have "engine_inv (s\<lparr>en_worker := ?w\<rparr>)"
    by (intro inv_worker [OF inv]) (auto simp: held_jobs_def dest: in_set_takeD in_set_dropD)
  then show ?thesis
    using engine_inv_same [of "s\<lparr>en_worker := ?w\<rparr>" "step_ends i had now s"]
    by (simp add: same_queue_def step_ends_def)
qed

lemma inv_step_unavailable: "engine_inv s \<Longrightarrow> engine_inv (step_unavailable n a cx s)"
proof -
  assume inv: "engine_inv s"
  have "same_queue s (step_unavailable n a cx s)"
    by (auto simp: step_unavailable_def Let_def same_queue_def split: if_unavailable.split option.split)
  with inv show ?thesis by (simp add: engine_inv_same)
qed

lemma inv_worker_ends: "engine_inv s \<Longrightarrow> engine_inv (worker_ends s)"
  using engine_inv_same [of s "stop_cameras s"]
  by (simp add: worker_ends_def) (simp add: same_queue_def stop_cameras_def)

lemma inv_lifecycle: "engine_inv s \<Longrightarrow> (en_ending s = None \<Longrightarrow> engine_inv (snd (f s))) \<Longrightarrow>
    engine_inv (snd (lifecycle f s))"
  by (cases "f s") (auto simp: lifecycle_def split: sum.split)

lemma do_engine_snd:
  "snd (do_engine s (StartStep i now)) = snd (start_step i now s)"
  "snd (do_engine s (SpeakerTurn i got now)) = snd (speaker_turn i got now s)"
  "snd (do_engine s (DisarmEnds stopped saved)) = snd (disarm_ends stopped saved s)"
  by (simp_all split: prod.split sum.split)

interpretation engine_machine: machine do_engine engine_inv
proof
  fix s x
  assume inv: "engine_inv s"
  have watched: "engine_inv (observe c ds t now s)" "engine_inv (observe_event l z e now s)"
    "engine_inv (expire_windows now s)" for c ds t now l z e
    using inv observe_keeps observe_event_keeps engine_inv_same [OF expire_windows_same]
    by (simp_all add: keeps_queue_def)
  show "engine_inv (snd (do_engine s x))"
  proof (cases x)
    case (StartStep i now)
    then show ?thesis using inv_step(1) [OF inv] do_engine_snd(1) by simp
  next
    case (SpeakerTurn i got now)
    then show ?thesis using inv_step(2) [OF inv] do_engine_snd(2) by simp
  next
    case (DisarmEnds stopped saved)
    then show ?thesis using inv_disarm_ends [OF inv] do_engine_snd(3) by simp
  qed (use inv watched in \<open>simp_all add: update_v1_def inv_update_v2 inv_set_test_mode inv_arm
      inv_disarm inv_fault inv_check_health inv_take_job inv_take_test inv_run_job inv_step_ends
      inv_test_rule inv_worker_ends test_rule_v1_def inv_step_unavailable inv_lifecycle step_notes_def inv_noted\<close>)
qed

lemma inv_start: "engine_inv (load_rules (engine_start c f))"
  by (auto simp: load_rules_def engine_start_def engine_inv_def queue_size_def
      split: rules_file.split sum.split)

text \<open>
  The shape of a sequence in the queue: no job is empty, a job after the first opens with a step that
  does not join the one before it, every other step of a job joins it, and a job's clock starts
  after the waits of all the jobs before it.
\<close>

definition well_grouped :: "job list \<Rightarrow> bool" where
  "well_grouped js \<longleftrightarrow>
     (\<forall>i < length js.
        jb_steps (js ! i) \<noteq> [] \<and> list_all with_previous (tl (jb_steps (js ! i))) \<and>
        (0 < i \<longrightarrow> \<not> with_previous (hd (jb_steps (js ! i)))) \<and>
        jb_delay (js ! i) = (\<Sum>k < i. group_wait (jb_steps (js ! k))))"

lemma well_grouped_nil: "well_grouped []"
  by (simp add: well_grouped_def)

lemma well_grouped_snoc:
  "well_grouped (js @ [j]) \<longleftrightarrow> well_grouped js \<and> jb_steps j \<noteq> [] \<and>
     list_all with_previous (tl (jb_steps j)) \<and> (js \<noteq> [] \<longrightarrow> \<not> with_previous (hd (jb_steps j))) \<and>
     jb_delay j = (\<Sum>k < length js. group_wait (jb_steps (js ! k)))"
proof -
  have "(\<Sum>k < i. group_wait (jb_steps ((js @ [j]) ! k))) = (\<Sum>k < i. group_wait (jb_steps (js ! k)))"
    if "i \<le> length js" for i
    by (rule sum.cong) (use that in \<open>auto simp: nth_append\<close>)
  then show ?thesis
    by (auto simp: well_grouped_def nth_append less_Suc_eq)
qed

lemma add_step_grouped:
  assumes "well_grouped (fst g)" "fst g \<noteq> [] \<longrightarrow> jb_delay (last (fst g)) = snd g" "fst g = [] \<longrightarrow> snd g = 0"
  shows "well_grouped (fst (add_step n c cx a g)) \<and> fst (add_step n c cx a g) \<noteq> [] \<and>
    jb_delay (last (fst (add_step n c cx a g))) = snd (add_step n c cx a g)"
proof (cases g)
  case (Pair js d)
  show ?thesis
  proof (cases js rule: rev_cases)
    case Nil
    then show ?thesis using assms Pair
      by (simp add: add_step_def well_grouped_snoc [of "[]", simplified] well_grouped_nil)
  next
    case (snoc ks k)
    have waits: "(\<Sum>i < length ks. group_wait (jb_steps ((ks @ [k]) ! i))) = (\<Sum>i < length ks. group_wait (jb_steps (ks ! i)))"
      by (intro sum.cong) (auto simp: nth_append)
    show ?thesis using assms Pair snoc
      by (auto simp: add_step_def Let_def well_grouped_snoc waits
          well_grouped_snoc [of "ks @ [k]", unfolded append_assoc append_Cons append_Nil])
  qed
qed

lemma groups_grouped: "well_grouped (groups r c cx)"
proof -
  have "well_grouped (fst (fold (add_step n c cx) as g))"
    if "well_grouped (fst g)" "fst g \<noteq> [] \<longrightarrow> jb_delay (last (fst g)) = snd g" "fst g = [] \<longrightarrow> snd g = 0" for n as g
    using that
  proof (induction as arbitrary: g)
    case (Cons a as)
    from add_step_grouped [OF Cons.prems] show ?case by (simp add: Cons.IH)
  qed simp
  then show ?thesis by (simp add: groups_def well_grouped_nil)
qed

lemma notes_log:
  "length xs \<le> log_size \<Longrightarrow>
     take (length xs) (en_log (fold (\<lambda>x. note_event k w) xs s)) = replicate (length xs) (k, w)"
proof (induction xs rule: rev_induct)
  case (snoc x xs)
  have "take (length xs) (take (log_size - 1) l) = take (length xs) l" if "Suc (length xs) \<le> log_size"
    for l :: "(string \<times> string option) list" using that by simp
  with snoc show ?case by (simp add: note_event_def take_Cons' log_size_def)
qed simp

lemma notes_jobs [simp]: "en_jobs (fold (\<lambda>x. note_event k w) xs s) = en_jobs s"
  by (induction xs arbitrary: s) simp_all

text \<open>
  C2. A rule that goes off is run whole or not at all: in test mode its steps are only logged; without
  room for all of its jobs the queue is left as it is and the log says so; otherwise its jobs
  are put at the end of the queue, in the order of its steps, none lost, each with the context
  of this moment and each waiting for the waits of all the jobs before it.
\<close>

theorem a_sequence_whole_or_not_at_all:
  fixes s r created origin zone
  defines "t \<equiv> fire r created origin zone s"
    and "js \<equiv> groups r created (Some (context_of s r origin zone))"
  shows "concat (map jb_steps js) = resolved r \<and> well_grouped js \<and>
    (\<forall>j \<in> set js. jb_created j = created \<and> jb_context j = Some (context_of s r origin zone)) \<and>
    (if cf_test (en_config s)
     then en_jobs t = en_jobs s \<and>
       (length (ru_actions r) \<le> log_size \<longrightarrow>
          take (length (ru_actions r)) (en_log t) =
            replicate (length (ru_actions r)) (''would_run'', Some (ru_name r)))
     else if queue_size < length (en_jobs s) + length js
     then en_jobs t = en_jobs s \<and> hd (en_log t) = (''skipped'', Some (ru_name r))
     else en_jobs t = en_jobs s @ js \<and> length (en_jobs t) \<le> queue_size \<and>
       cx_trigger (context_of s r origin zone) < en_next t)"
  using notes_log [of "ru_actions r"]
  by (auto simp: t_def js_def fire_def Let_def groups_steps groups_grouped context_of_def
      dest: groups_keep) (simp_all add: note_event_def log_size_def)

lemma step_with_starts:
  assumes "fst (step_with g i s) = Some (Starts a)"
  shows "i < length (wk_running (en_worker s)) \<and> g (wk_running (en_worker s) ! i) = Starts a"
  using assms by (simp add: step_with_def Let_def split: if_splits)

lemma starting:
  assumes "fst (do_engine s x) = Begins (Some (Starts a))"
  shows "\<exists>now y. x \<in> {StartStep y now} \<union> {SpeakerTurn y True now} \<and> y < length (wk_running (en_worker s)) \<and>
    \<not> en_cancelled s \<and> act (rn_step (wk_running (en_worker s) ! y)) = a \<and>
    now \<le> rn_deadline (wk_running (en_worker s) ! y)"
proof -
  have out: "fst (lifecycle f s) \<noteq> Begins q" for f q
    by (simp add: lifecycle_def split: prod.split sum.split)
  show ?thesis
  proof (cases x)
    case (StartStep i now)
    then have "fst (step_with (start_of (en_cancelled s) now) i s) = Some (Starts a)"
      using assms by (simp add: start_step_def split: prod.splits)
    from step_with_starts [OF this] StartStep show ?thesis
      by (auto simp: start_of_def split: act.splits if_splits)
  next
    case (SpeakerTurn i got now)
    then have "fst (step_with (turn_of (en_cancelled s) got now) i s) = Some (Starts a)"
      using assms by (simp add: speaker_turn_def split: prod.splits)
    from step_with_starts [OF this] SpeakerTurn show ?thesis
      by (auto simp: turn_of_def split: if_splits)
  qed (use assms out in \<open>auto split: if_splits prod.splits sum.splits\<close>)
qed

text \<open>
  C1. Whatever has happened to the engine, an action starts only for the arming that is running or for
  a test somebody asked for: the step is one of its job, in time. When Sentry is armed it is not in
  test mode, the rule is one of its enabled rules and the step one of that rule's, what set it off
  was observed after the arming began, and the step is not older than the time to live allows
  after the waits before it; when it is not armed, the job was made for a test run.
\<close>

theorem actions_belong_to_this_arming:
  fixes c0 f xs x a
  defines "s \<equiv> snd (run do_engine (load_rules (engine_start c0 f)) xs)"
  assumes "fst (do_engine s x) = Begins (Some (Starts a))"
  shows "\<exists>now y. x \<in> {StartStep y now} \<union> {SpeakerTurn y True now} \<and> y < length (wk_running (en_worker s)) \<and>
    (let z = wk_running (en_worker s) ! y; j = rn_job z in
     \<not> en_cancelled s \<and> act (rn_step z) = a \<and> rn_step z \<in> set (jb_steps j) \<and> now \<le> rn_deadline z \<and>
     (if en_armed s
      then \<not> cf_test (en_config s) \<and> en_armed_at s \<le> jb_created j \<and>
        rn_deadline z = jb_created j + jb_delay j + of_int (cf_ttl (en_config s)) \<and>
        (\<exists>cx r. jb_context j = Some cx \<and> cx_epoch cx = en_epoch s \<and>
           r \<in> set (enabled_rules (en_config s)) \<and> ru_id r = cx_rule cx \<and>
           set (jb_steps j) \<subseteq> set (resolved r))
      else \<exists>cx. jb_context j = Some cx \<and> cx_origin cx = [''test'']))"
proof -
  have inv: "engine_inv s" unfolding s_def by (rule engine_machine.run_inv) (rule inv_start)
  from starting [OF assms(2)] obtain now y where y: "x \<in> {StartStep y now} \<union> {SpeakerTurn y True now}"
    "y < length (wk_running (en_worker s))" "\<not> en_cancelled s" "act (rn_step (wk_running (en_worker s) ! y)) = a"
    "now \<le> rn_deadline (wk_running (en_worker s) ! y)" by blast
  define z where "z = wk_running (en_worker s) ! y"
  have z: "z \<in> set (wk_running (en_worker s))" using y(2) by (simp add: z_def)
  then have held: "rn_job z \<in> held_jobs (en_worker s)" by (simp add: held_jobs_def)
  have "rn_step z \<in> set (jb_steps (rn_job z))" using inv z by (simp add: engine_inv_def)
  moreover have "if en_armed s then job_of_arming s (rn_job z) \<and> rn_deadline z = deadline_of (en_config s) (rn_job z)
      else job_of_test (rn_job z)"
    using inv z held y(3) by (simp add: engine_inv_def)
  ultimately show ?thesis using y
    by (intro exI [of _ now] exI [of _ y])
      (auto simp: z_def [symmetric] Let_def job_of_arming_def job_of_test_def deadline_of_def split: if_splits)
qed

definition door_inputs :: "engine_input list" where
  "door_inputs =
     [Arm \<lparr>ar_now = 100, ar_planner = porch_planner, ar_sounds = {}, ar_cameras = {}, ar_stopped = True\<rparr>,
      Observe primary_camera [\<lparr>de_label = ''person'', de_confidence = 9 / 10, de_box = (0, 0, 1, 1)\<rparr>] 101 101,
      Observe primary_camera [\<lparr>de_label = ''person'', de_confidence = 9 / 10, de_box = (0, 0, 1, 1)\<rparr>] 102 102,
      TakeJob, RunJob]"

definition door_engine :: engine where
  "door_engine = snd (run do_engine (load_rules (engine_start (door_rules [''Door'']) NoFile)) door_inputs)"

lemma door_starts:
  "fst (do_engine door_engine (StartStep 0 103)) = Begins (Some (Starts (Photo 1 2 primary_camera FailStep))) \<and>
   en_armed door_engine"
  by code_simp

lemma actions_belong_to_this_arming_witness:
  "\<exists>z cx. z \<in> set (wk_running (en_worker door_engine)) \<and> act (rn_step z) = Photo 1 2 primary_camera FailStep \<and>
     103 \<le> rn_deadline z \<and> jb_context (rn_job z) = Some cx \<and> cx_epoch cx = en_epoch door_engine"
proof -
  from actions_belong_to_this_arming [OF conjunct1 [OF door_starts [unfolded door_engine_def]], folded door_engine_def]
  obtain y where "y < length (wk_running (en_worker door_engine))"
    "103 \<le> rn_deadline (wk_running (en_worker door_engine) ! y)"
    "act (rn_step (wk_running (en_worker door_engine) ! y)) = Photo 1 2 primary_camera FailStep"
    "\<exists>cx. jb_context (rn_job (wk_running (en_worker door_engine) ! y)) = Some cx \<and> cx_epoch cx = en_epoch door_engine"
    using door_starts by (auto simp: Let_def)
  then show ?thesis using nth_mem by blast
qed

lemma porch_jobs: "length (groups porch_rule 103 c) = 1"
  by code_simp

lemma a_sequence_whole_or_not_at_all_witness:
  "\<exists>j. en_jobs (fire porch_rule 103 [''yard''] None (engine_start (door_rules [''Door'']) NoFile)) = [j] \<and>
     jb_steps j = resolved porch_rule \<and> jb_created j = 103"
proof -
  let ?s = "engine_start (door_rules [''Door'']) NoFile"
  let ?js = "groups porch_rule 103 (Some (context_of ?s porch_rule [''yard''] None))"
  have s: "\<not> cf_test (en_config ?s)" "en_jobs ?s = []" by code_simp+
  from porch_jobs obtain j where j: "?js = [j]" by (metis One_nat_def length_0_conv length_Suc_conv)
  have "en_jobs (fire porch_rule 103 [''yard''] None ?s) = en_jobs ?s @ ?js"
    using a_sequence_whole_or_not_at_all [of porch_rule 103 ?s "[''yard'']" None] s j by (simp add: queue_size_def)
  moreover have "concat (map jb_steps ?js) = resolved porch_rule" "\<forall>j \<in> set ?js. jb_created j = 103"
    using a_sequence_whole_or_not_at_all [of porch_rule 103 ?s "[''yard'']" None] by simp_all
  ultimately show ?thesis using j s by (intro exI [of _ j]) simp
qed

end
