(* ===== verification/Faults.thy ===== *)
theory Faults
  imports Engine
begin

section \<open>What a failure stops\<close>

text \<open>
  The fault policy of \<open>Sentry._healthy\<close> and \<open>Sentry._isolate\<close> in
  \<open>src/sentry_mode/sentry/engine.py\<close>, which \<open>Engine\<close> models as \<open>failures\<close>, \<open>isolate\<close> and
  \<open>check_health\<close>: which rules a failure pauses, what stays armed, and which cameras stay on.
\<close>

subsection \<open>Pausing rules\<close>

lemma drop_window_closed: "waiting (snd (drop_window x)) = None"
  by (simp add: drop_window_def close_window_def split: option.split)

text \<open>What pausing leaves alone.\<close>

definition paused_only :: "engine \<Rightarrow> engine \<Rightarrow> bool" where
  "paused_only s t \<longleftrightarrow>
     same_queue s t \<and> en_plan t = en_plan s \<and> en_camera t = en_camera s \<and>
     en_watching t = en_watching s \<and> en_error t = en_error s"

lemma paused_only_refl [simp]: "paused_only s s"
  by (simp add: paused_only_def)

lemma paused_only_trans: "paused_only s t \<Longrightarrow> paused_only t u \<Longrightarrow> paused_only s u"
  using same_queue_trans by (auto simp: paused_only_def)

lemma paused_only_fold: "(\<And>x s. paused_only s (f x s)) \<Longrightarrow> paused_only s (fold f xs s)"
  by (induction xs arbitrary: s) (auto intro: paused_only_trans)

lemma pause_rule_simps [simp]:
  "en_suspended (pause_rule why i s) = dict_set i why (en_suspended s)"
  "set (map fst (en_states (pause_rule why i s))) = insert i (set (map fst (en_states s)))"
  "j \<noteq> i \<Longrightarrow> dict_get (en_states (pause_rule why i s)) j = dict_get (en_states s) j"
  "\<exists>x. dict_get (en_states (pause_rule why i s)) i = Some x \<and> waiting x = None"
  by (simp_all add: pause_rule_def Let_def dom_update drop_window_closed)

lemma paused_only_rule: "paused_only s (pause_rule why i s)"
  using pause_rule_same [of s why i]
  by (simp add: paused_only_def) (simp add: pause_rule_def Let_def note_event_def)

lemma keys_dict_set: "set (map fst (dict_set k v d)) = insert k (set (map fst d))"
  by (simp add: dom_update)

lemma rules_left_pause: "rules_left (pause_rule why i u) = rules_left u - {i}"
  unfolding rules_left_def pause_rule_simps keys_dict_set by blast

text \<open>Pausing a list of rules for one reason.\<close>

lemma pause_rules:
  fixes s why ids
  defines "t \<equiv> fold (pause_rule why) ids s"
  shows "set (map fst (en_suspended t)) = set (map fst (en_suspended s)) \<union> set ids"
    "rules_left t = rules_left s - set ids"
    "j \<notin> set ids \<Longrightarrow> dict_get (en_states t) j = dict_get (en_states s) j \<and>
       dict_get (en_suspended t) j = dict_get (en_suspended s) j"
    "j \<in> set ids \<Longrightarrow> dict_get (en_suspended t) j = Some why \<and>
       (\<exists>x. dict_get (en_states t) j = Some x \<and> waiting x = None)"
  unfolding t_def
proof (induction ids rule: rev_induct)
  case (snoc i js)
  let ?u = "fold (pause_rule why) js s"
  note d = dom_update [of i why]
  {
    case 1 then show ?case using snoc.IH(1) d by auto
  next
    case 2
    show ?case using snoc.IH(2) by (auto simp: rules_left_pause)
  next
    case 3 then show ?case using snoc.IH(3) by auto
  next
    case 4
    show ?case
    proof (cases "j = i")
      case False
      then show ?thesis using 4 snoc.IH(4) by simp
    qed simp
  }
qed simp_all

definition affected :: "plan \<Rightarrow> (string, string) dict \<Rightarrow> string set" where
  "affected p fs = (\<Union>f \<in> set fs. rules_needing p (fst f))"

lemma finite_rules_needing [simp]: "finite (rules_needing p x)"
  by (simp add: rules_needing_def)

lemma pause_for_only: "paused_only s (pause_for p f s)"
  unfolding pause_for_def by (rule paused_only_fold) (rule paused_only_rule)

lemma pausing_only: "paused_only s (fold (pause_for p) fs s)"
  by (rule paused_only_fold) (rule pause_for_only)

lemma paused_for:
  "set (map fst (en_suspended (pause_for p f s))) = set (map fst (en_suspended s)) \<union> rules_needing p (fst f)"
  "rules_left (pause_for p f s) = rules_left s - rules_needing p (fst f)"
  "j \<notin> rules_needing p (fst f) \<or> j \<in> set (map fst (en_suspended s)) \<Longrightarrow>
     dict_get (en_states (pause_for p f s)) j = dict_get (en_states s) j \<and>
     dict_get (en_suspended (pause_for p f s)) j = dict_get (en_suspended s) j"
  "j \<in> rules_needing p (fst f) \<Longrightarrow> j \<notin> set (map fst (en_suspended s)) \<Longrightarrow>
     dict_get (en_suspended (pause_for p f s)) j = Some (snd f) \<and>
     (\<exists>x. dict_get (en_states (pause_for p f s)) j = Some x \<and> waiting x = None)"
proof -
  let ?new = "sorted_list_of_set (rules_needing p (fst f) - set (map fst (en_suspended s)))"
  have new: "set ?new = rules_needing p (fst f) - set (map fst (en_suspended s))" by simp
  note pauses = pause_rules [where why = "snd f" and ids = ?new and s = s, folded pause_for_def]
  show "set (map fst (en_suspended (pause_for p f s))) = set (map fst (en_suspended s)) \<union> rules_needing p (fst f)"
    using pauses(1) unfolding new by blast
  show "rules_left (pause_for p f s) = rules_left s - rules_needing p (fst f)"
    using pauses(2) unfolding new rules_left_def by blast
  show "dict_get (en_states (pause_for p f s)) j = dict_get (en_states s) j \<and>
     dict_get (en_suspended (pause_for p f s)) j = dict_get (en_suspended s) j"
    if "j \<notin> rules_needing p (fst f) \<or> j \<in> set (map fst (en_suspended s))"
    using pauses(3) [of j] that unfolding new by blast
  show "dict_get (en_suspended (pause_for p f s)) j = Some (snd f) \<and>
     (\<exists>x. dict_get (en_states (pause_for p f s)) j = Some x \<and> waiting x = None)"
    if "j \<in> rules_needing p (fst f)" "j \<notin> set (map fst (en_suspended s))"
    using pauses(4) [of j] that unfolding new by blast
qed

lemma pausing:
  fixes s p fs
  defines "t \<equiv> fold (pause_for p) fs s"
  shows "rules_left t = rules_left s - affected p fs"
    "set (map fst (en_suspended t)) = set (map fst (en_suspended s)) \<union> affected p fs"
    "j \<notin> affected p fs \<Longrightarrow> dict_get (en_states t) j = dict_get (en_states s) j"
    "j \<in> affected p fs \<Longrightarrow> j \<notin> set (map fst (en_suspended s)) \<Longrightarrow>
       (\<exists>f \<in> set fs. j \<in> rules_needing p (fst f) \<and> dict_get (en_suspended t) j = Some (snd f)) \<and>
       (\<exists>x. dict_get (en_states t) j = Some x \<and> waiting x = None)"
  unfolding t_def
proof (induction fs rule: rev_induct)
  case Nil
  { case 1 show ?case by (simp add: affected_def)
  next case 2 show ?case by (simp add: affected_def)
  next case 3 show ?case by simp
  next case 4 then show ?case by (simp add: affected_def) }
next
  case (snoc f fs)
  let ?u = "fold (pause_for p) fs s"
  have more: "affected p (fs @ [f]) = affected p fs \<union> rules_needing p (fst f)" by (auto simp: affected_def)
  {
    case 1 show ?case using snoc.IH(1) paused_for(2) [of p f ?u] unfolding more by (simp add: Diff_eq Int_assoc)
  next
    case 2 show ?case using snoc.IH(2) paused_for(1) [of p f ?u] unfolding more by (simp add: Un_assoc)
  next
    case 3 then show ?case using snoc.IH(3) paused_for(3) [of j p f ?u] unfolding more by simp
  next
    case 4
    show ?case
    proof (cases "j \<in> affected p fs")
      case True
      then have "j \<in> set (map fst (en_suspended ?u))" using snoc.IH(2) by blast
      then show ?thesis using snoc.IH(4) [OF True 4(2)] paused_for(3) [of j p f ?u] by simp
    next
      case False
      then have "j \<notin> set (map fst (en_suspended ?u))" "j \<in> rules_needing p (fst f)"
        using snoc.IH(2) 4 more by blast+
      then show ?thesis using paused_for(4) [of j p f ?u] by simp
    qed
  }
qed

subsection \<open>A failure stops what needs it and nothing else\<close>

lemma left_need_nothing_failed:
  assumes "i \<in> left" "left \<inter> affected p fs = {}"
  shows "still_needed p left \<inter> set (map fst fs) = {}"
proof -
  have False if "x \<in> still_needed p left" "x \<in> set (map fst fs)" for x
  proof -
    from that(1) obtain j ss where j: "j \<in> left" "dict_get (pl_needs p) j = Some ss" "x \<in> ss"
      by (auto simp: still_needed_def split: option.splits)
    from j(2) have "(j, ss) \<in> set (pl_needs p)" by (rule map_of_SomeD)
    with j(3) have "j \<in> rules_needing p x" by (force simp: rules_needing_def)
    with that(2) j(1) assms(2) show False by (auto simp: affected_def)
  qed
  then show ?thesis by blast
qed

lemma halt_others [simp]:
  "en_states (halt_with w s) = en_states s" "en_suspended (halt_with w s) = en_suspended s"
  "en_error (halt_with w s) = Some w"
proof -
  have "en_states (fold (\<lambda>j. note_event k (f j)) js u) = en_states u \<and>
      en_suspended (fold (\<lambda>j. note_event k (f j)) js u) = en_suspended u \<and>
      en_error (fold (\<lambda>j. note_event k (f j)) js u) = en_error u" for k js u and f :: "job \<Rightarrow> string option"
    by (induction js arbitrary: u) simp_all
  then show "en_states (halt_with w s) = en_states s" "en_suspended (halt_with w s) = en_suspended s"
    "en_error (halt_with w s) = Some w" by (simp_all add: halt_with_def discard_jobs_def)
qed

lemma stop_states [simp]: "en_states (stop_cameras s) = en_states s" "en_suspended (stop_cameras s) = en_suspended s"
  by (simp_all add: stop_cameras_def)

lemma isolate_leaves:
  fixes s p fs r
  defines "u \<equiv> fold (pause_for p) fs s" and "t \<equiv> snd (isolate r p fs s)"
  shows "en_states t = en_states u" "en_suspended t = en_suspended u"
    "rules_left u \<noteq> {} \<Longrightarrow> same_queue u t"
  unfolding t_def u_def
  by (auto simp: isolate_def Let_def same_queue_def)

text \<open>
  C13. With isolated faults, a failure pauses exactly the rules that need what failed, each with the
  reason and with its open window closed, and leaves the state of every other rule alone. As
  long as a rule is left, Sentry stays in the same arming with the same queue: nothing that
  failed is watched any more, while every camera the rules left need stays on. With no rule left,
  everything stops with all the reasons.
\<close>

theorem a_failure_stops_only_what_needs_it:
  fixes h r s
  assumes "en_plan s = Some p" "cf_policy (en_config s) = IsolatedFaults" "failures h (Some p) = fs" "fs \<noteq> []"
  defines "t \<equiv> snd (check_health r h s)" and "left \<equiv> rules_left s - affected p fs"
  shows "rules_left t = left \<and>
    (\<forall>i. i \<notin> affected p fs \<longrightarrow> dict_get (en_states t) i = dict_get (en_states s) i) \<and>
    (\<forall>i \<in> rules_left s \<inter> affected p fs.
       (\<exists>f \<in> set fs. i \<in> rules_needing p (fst f) \<and> dict_get (en_suspended t) i = Some (snd f)) \<and>
       (\<exists>x. dict_get (en_states t) i = Some x \<and> waiting x = None)) \<and>
    (if left = {}
     then \<not> en_armed t \<and> en_cancelled t \<and> en_jobs t = [] \<and> en_watching t = {} \<and> \<not> en_camera t \<and>
       en_error t = Some (join_reasons (map snd fs))
     else same_queue s t \<and> en_error t = en_error s \<and>
       still_needed p left \<inter> set (map fst fs) = {} \<and>
       en_watching t \<inter> set (map fst fs) = {} \<and>
       en_watching s \<inter> still_needed p left \<subseteq> en_watching t \<and>
       (en_camera s \<and> primary_camera \<in> still_needed p left \<and> (detector_need \<in> set (map fst fs) \<longrightarrow> r) \<longrightarrow>
          en_camera t))"
proof -
  let ?u = "fold (pause_for p) fs s"
  have t: "t = snd (isolate r p fs s)"
    using assms(1-4) by (cases fs) (simp_all add: t_def check_health_def)
  have left: "rules_left ?u = left" by (simp add: pausing(1) left_def)
  note same = isolate_leaves(1,2) [of r p fs s, folded t]
  have none: "still_needed p left \<inter> set (map fst fs) = {}"
    if "left \<noteq> {}"
  proof -
    from that obtain i where "i \<in> left" by blast
    then show ?thesis by (rule left_need_nothing_failed) (auto simp: left_def)
  qed
  have first: "rules_left t = left" using left same by (simp add: rules_left_def)
  have others: "dict_get (en_states t) i = dict_get (en_states s) i" if "i \<notin> affected p fs" for i
    using pausing(3) [OF that] same by simp
  have paused: "(\<exists>f \<in> set fs. i \<in> rules_needing p (fst f) \<and> dict_get (en_suspended t) i = Some (snd f)) \<and>
      (\<exists>x. dict_get (en_states t) i = Some x \<and> waiting x = None)"
    if "i \<in> rules_left s \<inter> affected p fs" for i
    using pausing(4) [of i p fs s] that same by (simp add: rules_left_def)
  show ?thesis
  proof (cases "left = {}")
    case True
    then have "t = stop_cameras (note_event ''fault'' None (halt_with (join_reasons (map snd fs)) ?u))"
      using left by (simp add: t isolate_def Let_def)
    then show ?thesis using first others paused True
      by simp (simp add: stop_cameras_def)
  next
    case False
    have "paused_only s ?u" by (rule pausing_only)
    moreover have "same_queue ?u t" using False left isolate_leaves(3) [of p fs s r] by (simp add: t)
    ultimately have "same_queue s t" by (auto simp: paused_only_def intro: same_queue_trans)
    moreover have u: "en_error ?u = en_error s" "en_watching ?u = en_watching s" "en_camera ?u = en_camera s"
      using \<open>paused_only s ?u\<close> by (simp_all add: paused_only_def)
    define failed where "failed = set (map fst fs)"
    have "rules_left ?u \<noteq> {}" using False left by simp
    note t' = t [unfolded isolate_def Let_def left failed_def [symmetric] if_P [OF False] snd_conv]
    have n: "still_needed p left \<inter> failed = {}" using none [OF False] by (simp add: failed_def)
    have "en_error t = en_error s" by (simp add: t' u)
    moreover have "en_watching t \<inter> failed = {}" by (auto simp: t' u)
    moreover have "en_watching s \<inter> still_needed p left \<subseteq> en_watching t"
      using n by (force simp: t' u)
    moreover have "en_camera t" if "en_camera s" "primary_camera \<in> still_needed p left"
      "detector_need \<in> failed \<longrightarrow> r"
      using n that by (auto simp: t' u)
    ultimately show ?thesis using first others paused none False by (simp add: failed_def)
  qed
qed

definition yard_plan :: plan where
  "yard_plan =
     \<lparr>pl_detector = True, pl_camera = True, pl_confidence = 1 / 2, pl_vision = [(''pi1/camera'', 1 / 2)],
      pl_ready = {}, pl_watched = {},
      pl_needs = [(''door'', {primary_camera}), (''yard'', {''pi1/camera''})],
      pl_problems = [], pl_notes = []\<rparr>"

definition yard_engine :: engine where
  "yard_engine = (engine_start (door_rules [''Door'']) NoFile)
     \<lparr>en_config := to_v2 (door_rules [''Door'']) None IsolatedFaults, en_plan := Some yard_plan,
      en_armed := True, en_cancelled := False, en_camera := True, en_watching := {''pi1/camera''},
      en_states := [(''door'', new_state), (''yard'', new_state)]\<rparr>"

definition camera_fails :: health_view where
  "camera_fails =
     \<lparr>hv_primary = \<lparr>cv_capture = False, cv_error = ''gone'', cv_detecting = True, cv_trouble = []\<rparr>,
      hv_camera = (\<lambda>_. Some \<lparr>cv_capture = True, cv_error = [], cv_detecting = True, cv_trouble = []\<rparr>),
      hv_sources = [], hv_offline = (\<lambda>_. False)\<rparr>"

lemma a_failure_stops_only_what_needs_it_witness:
  "let t = snd (check_health True camera_fails yard_engine)
   in rules_left t = {''yard''} \<and> en_armed t \<and> ''pi1/camera'' \<in> en_watching t \<and>
      dict_get (en_suspended t) ''door'' = Some ''gone''"
proof -
  let ?fs = "[(primary_camera, ''gone'')]"
  have fs: "failures camera_fails (Some yard_plan) = ?fs"
    by (simp add: failures_def yard_plan_def primary_failures_def camera_fails_def or_text_def camera_failure_def)
  have s: "en_plan yard_engine = Some yard_plan" "cf_policy (en_config yard_engine) = IsolatedFaults"
    by (simp_all add: yard_engine_def to_v2_def)
  have hit: "affected yard_plan ?fs = {''door''}"
    by (simp add: affected_def rules_needing_def yard_plan_def primary_camera_def)
  have left: "rules_left yard_engine = {''door'', ''yard''}"
    by (auto simp: rules_left_def yard_engine_def engine_start_def)
  have rest: "rules_left yard_engine - affected yard_plan ?fs = {''yard''}"
    unfolding hit left by auto
  have needs: "still_needed yard_plan {''yard''} = {''pi1/camera''}"
    by (simp add: still_needed_def yard_plan_def)
  have start: "en_watching yard_engine = {''pi1/camera''}" "en_armed yard_engine"
    by (simp_all add: yard_engine_def)
  from a_failure_stops_only_what_needs_it [OF s fs, of True, unfolded rest needs hit left start]
  show ?thesis using start by (simp add: Let_def same_queue_def needs)
qed

end
