(* ===== verification/Saving.thy ===== *)
theory Saving
  imports Engine
begin

section \<open>Rules that survive a restart\<close>

text \<open>
  What the saved file of the engine is worth, for \<open>Sentry._load\<close>, \<open>update\<close>, \<open>update_v2\<close>,
  \<open>set_test_mode\<close> and \<open>_persist\<close> of \<open>src/sentry_mode/sentry/engine.py\<close>, which are modelled in
  \<open>Engine\<close>: over any run, what is on disk reads back as what is in memory, and nothing but a
  saving operation touches either.
\<close>

definition same_saved :: "engine \<Rightarrow> engine \<Rightarrow> bool" where
  "same_saved s t \<longleftrightarrow>
     en_config t = en_config s \<and> en_version t = en_version s \<and> en_revision t = en_revision s \<and>
     en_file t = en_file s \<and> en_config_error t = en_config_error s"

lemma same_saved_refl [simp]: "same_saved s s"
  by (simp add: same_saved_def)

lemma same_saved_trans: "same_saved s t \<Longrightarrow> same_saved t u \<Longrightarrow> same_saved s u"
  by (simp add: same_saved_def)

lemma same_saved_fold: "(\<And>x s. same_saved s (f x s)) \<Longrightarrow> same_saved s (fold f xs s)"
  by (induction xs arbitrary: s) (auto intro: same_saved_trans)

lemma same_saved_note [simp]: "same_saved s (note_event k w t) = same_saved s t"
  by (simp add: same_saved_def note_event_def)

lemma same_saved_log [simp]: "same_saved s (log_notes r ns t) = same_saved s t"
proof -
  have "same_saved t (log_notes r ns t)"
    unfolding log_notes_def by (rule same_saved_fold) simp
  then show ?thesis by (auto simp: same_saved_def)
qed

lemma same_saved_state [simp]: "same_saved s (set_state r x t) = same_saved s t"
  by (simp add: same_saved_def set_state_def)

lemma same_saved_discard [simp]: "same_saved s (discard_jobs t) = same_saved s t"
proof -
  have "same_saved (t\<lparr>en_jobs := []\<rparr>) (discard_jobs t)"
    unfolding discard_jobs_def by (rule same_saved_fold) simp
  then show ?thesis by (auto simp: same_saved_def)
qed

lemma same_saved_stop [simp]: "same_saved s (stop_cameras t) = same_saved s t"
  by (simp add: same_saved_def stop_cameras_def)

lemma same_saved_halt [simp]: "same_saved s (halt_with w t) = same_saved s t"
  by (simp add: halt_with_def) (simp add: same_saved_def)

lemma same_saved_notes [simp]: "same_saved s (fold (\<lambda>x. note_event (k x) (w x)) xs t) = same_saved s t"
proof -
  have "same_saved t (fold (\<lambda>x. note_event (k x) (w x)) xs t)" by (rule same_saved_fold) simp
  then show ?thesis by (auto simp: same_saved_def)
qed

lemma same_saved_fire [simp]: "same_saved s (fire r c og z t) = same_saved s t"
  by (auto simp: fire_def Let_def) (auto simp: same_saved_def)

lemma same_saved_boost [simp]: "same_saved s (boost t) = same_saved s t"
  by (simp add: same_saved_def boost_def split: option.split)

lemma same_saved_gap: "same_saved s (reset_for_gap r s)"
  by (simp add: reset_for_gap_def split_beta Let_def)

lemma same_saved_observe_rule: "same_saved s (observe_rule source ds captured r s)"
  by (auto simp: observe_rule_def Let_def split_beta split: trigger.split option.split)

lemma same_saved_observe: "same_saved s (observe source ds captured now s)"
proof -
  let ?rs = "filter (looks_here source) (watching_rules s)"
  have gaps: "same_saved s (fold reset_for_gap ?rs s)"
    by (rule same_saved_fold) (rule same_saved_gap)
  have "same_saved t (fold (observe_rule source ds captured) ?rs
      (t\<lparr>en_samples := dict_set source captured (en_samples t)\<rparr>))" for t
    using same_saved_fold [of "observe_rule source ds captured" _ ?rs, OF same_saved_observe_rule]
    by (rule same_saved_trans [rotated]) (simp add: same_saved_def)
  from this [of s] same_saved_trans [OF gaps this] show ?thesis
    by (auto simp: observe_def Let_def)
qed

lemma same_saved_event_rule: "same_saved s (event_rule l z e r s)"
  by (auto simp: event_rule_def Let_def split_beta split: trigger.split)

lemma same_saved_event: "same_saved s (observe_event l z e now s)"
proof -
  have "same_saved t (fold (event_rule l z e) rs t)" for rs t
    by (rule same_saved_fold) (rule same_saved_event_rule)
  from this [of "boost s"] this [of s] show ?thesis
    by (auto simp: observe_event_def Let_def) (auto simp: same_saved_def boost_def split: option.splits)
qed

lemma same_saved_pause: "same_saved s (fold (pause_for p) fs s)"
proof (rule same_saved_fold)
  fix f s show "same_saved s (pause_for p f s)"
    unfolding pause_for_def
    by (rule same_saved_fold) (simp add: pause_rule_def Let_def, simp add: same_saved_def)
qed

lemma same_saved_isolate: "same_saved s (snd (isolate restarts p fs s))"
  using same_saved_pause [of s p fs]
  by (auto simp: isolate_def Let_def) (auto simp: same_saved_def)

lemma same_saved_health: "same_saved s (snd (check_health restarts h s))"
  by (auto simp: check_health_def same_saved_isolate split: list.split fault_policy.split option.split)

lemma same_saved_fault: "same_saved s (fault w s)"
  by (simp add: fault_def)

lemma same_saved_expire: "same_saved s (expire_windows now s)"
  unfolding expire_windows_def
  by (rule same_saved_fold) (auto simp: expire_rule_def split_beta Let_def split: trigger.split)

lemma same_saved_arm: "same_saved s (snd (arm x s))"
  by (auto simp: arm_def Let_def split: option.split sum.split) (auto simp: same_saved_def)

lemma same_saved_disarm: "same_saved s (disarm s)"
  by (simp add: disarm_def) (simp add: same_saved_def)

lemma same_saved_disarm_ends: "same_saved s (snd (disarm_ends stopped saved s))"
  by (auto simp: disarm_ends_def Let_def split: option.split) (auto simp: same_saved_def)

lemma same_saved_test: "same_saved s (snd (test_rule r x s))"
  by (auto simp: test_rule_def split: option.split) (auto simp: same_saved_def)

lemma same_saved_take: "same_saved s (take_job s)"
  by (simp add: same_saved_def take_job_def split: list.split)

lemma same_saved_take_test: "same_saved s (take_test s)"
  by (auto simp: take_test_def split: option.split) (auto simp: same_saved_def)

lemma same_saved_run: "same_saved s (run_job s)"
  by (auto simp: run_job_def Let_def split: option.split) (auto simp: same_saved_def)

lemma same_saved_step: "same_saved s (snd (step_with f i s))"
  by (simp add: step_with_def Let_def)

lemma same_saved_worker: "same_saved s (worker_ends s)"
  by (simp add: worker_ends_def)

lemma same_saved_ends: "same_saved s (step_ends i had now s)"
  by (simp add: same_saved_def step_ends_def)

lemma same_saved_unavailable: "same_saved s (step_unavailable n a cx s)"
  by (auto simp: step_unavailable_def split: if_unavailable.split option.split) (auto simp: same_saved_def)

subsection \<open>What is on disk is what is in memory\<close>

fun valid_input :: "engine_input \<Rightarrow> bool" where
  "valid_input (UpdateV1 c _ _ _) = config_v1_ok c"
| "valid_input (UpdateV2 c _ _ _) = config_ok c"
| "valid_input _ = True"

definition reads_back :: "engine \<Rightarrow> document \<Rightarrow> bool" where
  "reads_back s d \<longleftrightarrow>
     doc_revision d = en_revision s \<and> doc_version d = en_version s \<and>
     (if en_version s = schema_version then doc_config d = en_config s
      else list_all2 same_rule (cf_rules (en_config s)) (cf_rules (doc_config d)) \<and>
        cf_test (doc_config d) = cf_test (en_config s) \<and> cf_ttl (doc_config d) = cf_ttl (en_config s) \<and>
        cf_ssh (doc_config d) = cf_ssh (en_config s) \<and>
        cf_telegram (doc_config d) = cf_telegram (en_config s))"

definition saved_inv :: "engine \<Rightarrow> bool" where
  "saved_inv s \<longleftrightarrow>
     config_ok (en_config s) \<and> en_version s \<in> {legacy_schema, schema_version} \<and>
     (\<not> en_config_error s \<longrightarrow>
        (case en_file s of
           NoFile \<Rightarrow> en_revision s = 0
         | BadContent \<Rightarrow> False
         | Saved f \<Rightarrow> (\<exists>d. read_document f = Inr d \<and> reads_back s d)))"

lemma reads_back_same: "same_saved s t \<Longrightarrow> reads_back t = reads_back s"
  by (simp add: same_saved_def reads_back_def fun_eq_iff)

lemma saved_inv_same: "same_saved s t \<Longrightarrow> saved_inv s \<Longrightarrow> saved_inv t"
  using reads_back_same [of s t] by (simp add: same_saved_def saved_inv_def cong: rules_file.case_cong)

lemma saved_inv_note: "saved_inv (note_event k w s) = saved_inv s"
proof -
  have "same_saved s (note_event k w s)" "same_saved (note_event k w s) s"
    by (simp_all add: same_saved_def note_event_def)
  then show ?thesis using saved_inv_same by blast
qed

lemma same_rule_refl [simp]: "same_rule r r"
proof -
  have "same_effect a a" for a by (cases a) simp_all
  then show ?thesis by (simp add: same_rule_def list_all2_conv_all_nth)
qed

lemma read_valid:
  "read_document f = Inr d \<Longrightarrow> config_ok (doc_config d) \<and> doc_version d \<in> {legacy_schema, schema_version}"
  by (auto simp: read_document_def Let_def up_ok split: if_splits body.splits)

lemma saved_inv_load:
  assumes "config_v1_ok c"
  shows "saved_inv (load_rules (engine_start c f))"
proof -
  have "config_ok (to_v2 c None GlobalFaults)" using assms by (rule up_ok) simp
  then show ?thesis
    using read_valid
    by (auto simp: load_rules_def engine_start_def saved_inv_def reads_back_def list_all2_refl
        split: rules_file.split sum.split)
qed

lemma write_reads_back:
  assumes "config_ok c" "version \<in> {legacy_schema, schema_version}" "write_document c n version = Inr f"
    "en_config s = c" "en_revision s = n" "en_version s = version"
  shows "\<exists>d. read_document f = Inr d \<and> reads_back s d"
proof (cases "version = legacy_schema")
  case True
  with assms(1,3) obtain c1 where c1: "to_v1 c = Inr c1"
    "read_document f = Inr \<lparr>doc_config = to_v2 (validate_v1 (dump_v1 c1)) None GlobalFaults,
       doc_revision = n, doc_version = legacy_schema\<rparr>"
    "list_all2 same_rule (cf_rules c) (cf_rules (to_v2 (validate_v1 (dump_v1 c1)) None GlobalFaults))"
    by (auto elim: saved_in_v1)
  show ?thesis
    by (rule exI, rule conjI, rule c1(2))
      (use c1 True assms(4-6) in \<open>auto simp: reads_back_def validate_dump to_v2_def to_v1_def
        legacy_schema_def schema_version_def split: if_splits\<close>)
next
  case False
  then have "read_document f = Inr \<lparr>doc_config = c, doc_revision = n, doc_version = schema_version\<rparr>"
    using assms(1-3) by (auto simp: write_document_def read_document_def legacy_schema_def schema_version_def)
  then show ?thesis using assms(2,4-6) False by (simp add: reads_back_def)
qed

lemma saved_inv_persist:
  assumes "saved_inv s" "config_ok c"
  shows "saved_inv (snd (persist_rules c n w s))"
proof -
  have fine: "saved_inv t"
    if "write_document c n v = Inr f" "v \<in> {legacy_schema, schema_version}" "en_config t = c"
      "en_revision t = n" "en_version t = v" "en_file t = Saved f" for v f t
    using write_reads_back [OF assms(2) that(2,1,3,4,5)] assms(2) that by (simp add: saved_inv_def)
  have "en_version s \<in> {legacy_schema, schema_version}" using assms(1) by (simp add: saved_inv_def)
  then show ?thesis using assms(1)
    by (auto simp: persist_rules_def Let_def split: sum.split intro: fine)
qed

lemma telegram_token: "telegram_ok t \<Longrightarrow> telegram_ok u \<Longrightarrow> telegram_ok (t\<lparr>tg_token := tg_token u\<rparr>)"
  by (cases t; cases u; simp only: telegram_ok_def telegram_settings.simps)

lemma telegram_no_token: "telegram_ok t \<Longrightarrow> telegram_ok (t\<lparr>tg_token := []\<rparr>)"
  by (cases t; simp only: telegram_ok_def telegram_settings.simps) blast

lemma with_token_ok:
  assumes "config_ok c" "config_ok old"
  shows "config_ok (with_token clear old c)"
proof -
  have "config_ok (c\<lparr>cf_telegram := t\<rparr>)" if "telegram_ok t" for t
    using assms(1) that by (simp add: config_ok_def)
  moreover have "telegram_ok (cf_telegram c)" "telegram_ok (cf_telegram old)"
    using assms by (simp_all add: config_ok_def)
  ultimately show ?thesis using assms(1)
    by (simp add: with_token_def telegram_token telegram_no_token)
qed

lemma saved_inv_update:
  assumes "saved_inv s" "config_ok c"
  shows "saved_inv (snd (update_v2 c n clear w s))"
proof -
  have "config_ok (with_token clear (en_config s) c)"
    using assms by (simp add: with_token_ok saved_inv_def)
  from saved_inv_persist [OF assms(1) this] show ?thesis using assms(1)
    by (auto simp: update_v2_def snd_try_then saved_inv_note split: sum.split)
qed

lemma saved_inv_update_v1:
  assumes "saved_inv s" "config_v1_ok c"
  shows "saved_inv (snd (update_v1 c n clear w s))"
proof -
  have "config_ok (to_v2 c (Some (en_config s)) GlobalFaults)"
    using assms by (intro up_ok) (simp_all add: saved_inv_def)
  then show ?thesis using saved_inv_update [OF assms(1)] assms(1) by (simp add: update_v1_def)
qed

lemma saved_inv_test_mode: "saved_inv s \<Longrightarrow> saved_inv (snd (set_test_mode on w s))"
proof -
  assume inv: "saved_inv s"
  then have "config_ok ((en_config s)\<lparr>cf_test := on\<rparr>)" by (simp add: saved_inv_def config_ok_def)
  from saved_inv_persist [OF inv this] inv show ?thesis
    by (auto simp: set_test_mode_def snd_try_then saved_inv_note split: sum.split)
qed

lemma saved_inv_lifecycle: "saved_inv s \<Longrightarrow> saved_inv (snd (f s)) \<Longrightarrow> saved_inv (snd (lifecycle f s))"
  by (cases "f s") (auto simp: lifecycle_def split: sum.split)

lemmas saved_inv_kept =
  saved_inv_same [OF same_saved_arm] saved_inv_same [OF same_saved_disarm]
  saved_inv_same [OF same_saved_fault] saved_inv_same [OF same_saved_observe]
  saved_inv_same [OF same_saved_event] saved_inv_same [OF same_saved_health]
  saved_inv_same [OF same_saved_expire] saved_inv_same [OF same_saved_take]
  saved_inv_same [OF same_saved_take_test] saved_inv_same [OF same_saved_run]
  saved_inv_same [OF same_saved_ends] saved_inv_same [OF same_saved_test]
  saved_inv_same [OF same_saved_unavailable] saved_inv_same [OF same_saved_worker]

interpretation saved_machine: guarded_machine do_engine saved_inv valid_input
proof
  fix s x assume inv: "saved_inv s" and x: "valid_input x"
  show "saved_inv (snd (do_engine s x))"
  proof (cases x)
    case (StartStep i now)
    then show ?thesis using saved_inv_same [OF same_saved_step inv] do_engine_snd(1) by (simp add: start_step_def)
  next
    case (SpeakerTurn i got now)
    then show ?thesis using saved_inv_same [OF same_saved_step inv] do_engine_snd(2) by (simp add: speaker_turn_def)
  next
    case (DisarmEnds stopped saved)
    then show ?thesis using saved_inv_same [OF same_saved_disarm_ends inv] do_engine_snd(3) by simp
  qed (use inv x in \<open>simp_all add: saved_inv_update_v1 saved_inv_update saved_inv_test_mode saved_inv_kept
      test_rule_v1_def step_notes_def saved_inv_note saved_inv_lifecycle\<close>)
qed


definition saving_inputs :: "engine_input list" where
  "saving_inputs =
     [UpdateV1 (door_rules [''Door'']) 0 False True, SetTestMode True True]"

lemma saving_state:
  "(\<lambda>s. (en_config_error s, en_file s \<noteq> NoFile, en_revision s))
     (snd (run do_engine (load_rules (engine_start (door_rules [''Door'']) NoFile)) saving_inputs)) = (False, True, 2)"
  by code_simp

lemma door_valid: "config_v1_ok (door_rules [''Door''])"
  by (simp add: door_simps)

lemma saving_valid: "\<forall>x \<in> set saving_inputs. valid_input x"
  by (simp add: saving_inputs_def door_simps)


end
