(* ===== verification/Simulation.thy ===== *)
theory Simulation
  imports Engine
begin

section \<open>Simulating a rule\<close>

text \<open>
  \<open>Sentry.simulate\<close>, \<open>_matching\<close> and \<open>Simulated\<close> of \<open>src/sentry_mode/sentry/engine.py\<close>: what a
  rule would do with observations made up in the editor, on a state of its own. A sample is a
  dictionary; here it is a record of the keys the code looks up, already of the right types. The
  theorem at the end compares the answer with what an armed engine does with the same observations.
\<close>

subsection \<open>What the code does\<close>

record sample =
  sp_at :: "seconds option"
  sp_detections :: "detection list option"
  sp_source :: "string option"
  sp_kind :: "string option"
  sp_value :: json_value
  sp_quality :: "string option"
  sp_zone :: "string option"
  sp_camera_zone :: "string option"

record sim_step =
  ss_at :: seconds
  ss_fired :: bool
  ss_notes :: "rule_note list"
  ss_phase :: "phase option"
  ss_would :: "act list"

datatype sim_error = BadSource | CannotSimulate

definition or_else :: "'a option \<Rightarrow> 'a \<Rightarrow> 'a" where
  "or_else x d = (case x of None \<Rightarrow> d | Some v \<Rightarrow> v)"

definition sample_time :: "nat \<Rightarrow> sample \<Rightarrow> seconds" where
  "sample_time i x = or_else (sp_at x) (of_nat i)"

definition shown_objects :: "sample \<Rightarrow> detection list" where
  "shown_objects x = or_else (sp_detections x) []"

text \<open>The fields no trigger looks at, which \<open>Simulated\<close> does not have, are left empty.\<close>

definition simulated :: "string \<Rightarrow> string \<Rightarrow> string \<Rightarrow> seconds \<Rightarrow> sample \<Rightarrow> sim_error + normalized" where
  "simulated src kind i at1 x =
     (case parse_ref (or_else (sp_source x) src) of
        None \<Rightarrow> Inl BadSource
      | Some ref \<Rightarrow> Inr
          \<lparr>no_ref = ref, no_event = i, no_boot = [], no_sequence = 0,
           no_kind = or_else (sp_kind x) kind, no_value = sp_value x, no_unit = None,
           no_quality = or_else (sp_quality x) ''valid'', no_clock = [], no_zone = sp_zone x,
           no_occurred = \<lparr>mom_us = 0, mom_offset = 0\<rparr>, no_received = 0, no_monotonic = at1, no_queued = 0, no_epoch = 0,
           no_connection = None, no_class = [], no_eligible = True, no_reason = None\<rparr>)"

definition after_hit :: "rat \<Rightarrow> seconds \<Rightarrow> bool \<times> rule_state \<Rightarrow> bool \<times> rule_note list \<times> rule_state" where
  "after_hit cooldown at1 h =
     (case h of (hit, st) \<Rightarrow>
        if hit \<and> cooled st cooldown at1 then (True, [Triggered], st\<lparr>last_trigger := Some at1\<rparr>)
        else if hit then (False, [Skipped], st)
        else (False, [], st))"

definition simulate_one ::
  "rule \<Rightarrow> rule_state \<Rightarrow> nat \<Rightarrow> sample \<Rightarrow> sim_error + (bool \<times> rule_note list \<times> rule_state)" where
  "simulate_one r st i x =
     (let at1 = sample_time i x; cd = ru_cooldown r;
          noted = (\<lambda>(ns, st'). Inr (Triggered \<in> set ns, ns, st')) in
      case ru_trigger r of
        VisionT t \<Rightarrow> noted (confirm t cd st (matching t (shown_objects x)) at1)
      | SequenceT t \<Rightarrow>
          if sp_detections x \<noteq> None
          then noted (sequence_sample t cd st (matching (sq_vision t) (shown_objects x)) at1)
          else (case simulated (st_source (sq_sensor t)) (st_kind (sq_sensor t)) (''simulated-'' @ nat_text i) at1 x of
                  Inl e \<Rightarrow> Inl e
                | Inr e \<Rightarrow> noted (sequence_event t st e (sp_camera_zone x)))
      | SensorT t \<Rightarrow>
          (case simulated (st_source t) (st_kind t) ''simulated'' at1 x of
             Inl e \<Rightarrow> Inl e
           | Inr e \<Rightarrow> Inr (after_hit cd at1 (sensor_fires t e, st)))
      | AudioT t \<Rightarrow>
          (case simulated (at_source t) (at_kind t) ''simulated'' at1 x of
             Inl e \<Rightarrow> Inl e
           | Inr e \<Rightarrow> Inr (after_hit cd at1 (sound_fires t e, st)))
      | ThresholdT t \<Rightarrow>
          (case simulated (tt_source t) (tt_kind t) ''simulated'' at1 x of
             Inl e \<Rightarrow> Inl e
           | Inr e \<Rightarrow> Inr (after_hit cd at1 (threshold_fires t st e)))
      | _ \<Rightarrow> Inl CannotSimulate)"

definition step_of :: "rule \<Rightarrow> seconds \<Rightarrow> bool \<times> rule_note list \<times> rule_state \<Rightarrow> sim_step" where
  "step_of r at1 y =
     (case y of (fired, ns, st) \<Rightarrow>
        \<lparr>ss_at = at1, ss_fired = fired, ss_notes = ns,
         ss_phase = (case ru_trigger r of ThresholdT _ \<Rightarrow> Some (phase st) | _ \<Rightarrow> None),
         ss_would = (if fired then map act (ru_actions r) else [])\<rparr>)"

fun simulate_from :: "rule \<Rightarrow> rule_state \<Rightarrow> nat \<Rightarrow> sample list \<Rightarrow> sim_error + (sim_step list \<times> rule_state)" where
  "simulate_from r st i [] = Inr ([], st)"
| "simulate_from r st i (x # xs) =
     (case simulate_one r st i x of
        Inl e \<Rightarrow> Inl e
      | Inr y \<Rightarrow>
          (case simulate_from r (snd (snd y)) (Suc i) xs of
             Inl e \<Rightarrow> Inl e
           | Inr (ys, st1) \<Rightarrow> Inr (step_of r (sample_time i x) y # ys, st1)))"

definition most_samples :: nat where "most_samples = 500"

definition simulate :: "rule \<Rightarrow> sample list \<Rightarrow> sim_error + sim_step list" where
  "simulate r xs =
     (case simulate_from r new_state 0 (take most_samples xs) of
        Inl e \<Rightarrow> Inl e
      | Inr (ys, _) \<Rightarrow> Inr ys)"

definition simulate_v1 :: "action rule_v1 \<Rightarrow> sample list \<Rightarrow> sim_error + sim_step list" where
  "simulate_v1 r = simulate (rule_to_v2 r (slug (r1_name r)))"

subsection \<open>The live engine, with the same observations\<close>

definition live_event :: "rule \<Rightarrow> nat \<Rightarrow> sample \<Rightarrow> sim_error + normalized" where
  "live_event r i x =
     (let at1 = sample_time i x in
      case ru_trigger r of
        SequenceT t \<Rightarrow> simulated (st_source (sq_sensor t)) (st_kind (sq_sensor t)) (''simulated-'' @ nat_text i) at1 x
      | SensorT t \<Rightarrow> simulated (st_source t) (st_kind t) ''simulated'' at1 x
      | AudioT t \<Rightarrow> simulated (at_source t) (at_kind t) ''simulated'' at1 x
      | ThresholdT t \<Rightarrow> simulated (tt_source t) (tt_kind t) ''simulated'' at1 x
      | _ \<Rightarrow> Inl CannotSimulate)"

definition is_picture :: "rule \<Rightarrow> sample \<Rightarrow> bool" where
  "is_picture r x \<longleftrightarrow>
     (case ru_trigger r of VisionT _ \<Rightarrow> True | SequenceT _ \<Rightarrow> sp_detections x \<noteq> None | _ \<Rightarrow> False)"

definition watched_camera :: "rule \<Rightarrow> string" where
  "watched_camera r = (case looks (ru_trigger r) of None \<Rightarrow> '''' | Some v \<Rightarrow> vt_source v)"

definition live_one :: "rule \<Rightarrow> nat \<Rightarrow> sample \<Rightarrow> engine \<Rightarrow> engine" where
  "live_one r i x s =
     (let at1 = sample_time i x in
      if is_picture r x then observe (watched_camera r) (shown_objects x) at1 at1 s
      else case live_event r i x of
        Inl e \<Rightarrow> s
      | Inr e \<Rightarrow> observe_event False (\<lambda>_. sp_camera_zone x) e at1 s)"

fun live_from :: "rule \<Rightarrow> engine \<Rightarrow> nat \<Rightarrow> sample list \<Rightarrow> engine" where
  "live_from r s i [] = s"
| "live_from r s i (x # xs) = live_from r (live_one r i x s) (Suc i) xs"

text \<open>What the other parts of the engine do not change while a rule is looked at.\<close>

definition core where
  "core s = (en_config s, en_armed s, en_armed_at s, en_states s, en_suspended s, en_samples s, en_quiet s)"

lemma core_note [simp]: "core (note_event k w s) = core s" "en_next (note_event k w s) = en_next s"
  by (simp_all add: core_def note_event_def)

lemma core_notes [simp]:
  "core (fold (\<lambda>x. note_event (k x) (w x)) xs s) = core s"
  "en_next (fold (\<lambda>x. note_event (k x) (w x)) xs s) = en_next s"
  by (induction xs arbitrary: s) simp_all

lemma core_log [simp]: "core (log_notes r ns s) = core s" "en_next (log_notes r ns s) = en_next s"
  by (simp_all add: log_notes_def)

lemma core_fire [simp]: "core (fire r c og z s) = core s"
  by (auto simp: fire_def Let_def) (simp_all add: core_def)

lemma next_fire: "\<not> cf_test (en_config s) \<Longrightarrow> en_next (fire r c og z s) = en_next s + 1"
  by (simp add: fire_def Let_def)

lemma core_boost [simp]: "core (boost s) = core s" "en_next (boost s) = en_next s"
  by (simp_all add: core_def boost_def split: option.split)

lemma core_set: "core (set_state r st s) = core s \<longleftrightarrow> en_states s = dict_set (ru_id r) st (en_states s)"
  by (auto simp: core_def set_state_def)

lemma next_set [simp]: "en_next (set_state r st s) = en_next s"
  by (simp add: set_state_def)

definition alone :: "rule \<Rightarrow> rule_state \<Rightarrow> engine \<Rightarrow> bool" where
  "alone r st s \<longleftrightarrow>
     en_armed s \<and> \<not> cf_test (en_config s) \<and> cf_rules (en_config s) = [r] \<and> ru_enabled r \<and>
     0 \<le> cf_ttl (en_config s) \<and>
     dict_get (en_states s) (ru_id r) = Some st \<and> dict_get (en_suspended s) (ru_id r) = None"

lemma alone_core: "core s = core t \<Longrightarrow> alone r st s = alone r st t"
  by (simp add: alone_def core_def)

lemma alone_set: "alone r st s \<Longrightarrow> alone r st' (set_state r st' s)"
  by (simp add: alone_def set_state_def)

lemma alone_watching: "alone r st s \<Longrightarrow> watching_rules s = [r]"
  by (simp add: alone_def watching_rules_def)

lemma alone_state: "alone r st s \<Longrightarrow> state_of s r = st"
  by (simp add: alone_def state_of_def)

text \<open>What a pass of the rule over one observation may do.\<close>

definition follows :: "rule \<Rightarrow> rule_state \<Rightarrow> bool \<Rightarrow> engine \<Rightarrow> engine \<Rightarrow> bool" where
  "follows r st' fired s t \<longleftrightarrow>
     alone r st' t \<and> en_next t = en_next s + (if fired then 1 else 0) \<and> en_config t = en_config s \<and>
     en_armed_at t = en_armed_at s \<and> en_quiet t = en_quiet s"

lemma follows_core:
  assumes "alone r st s" "core t = core (set_state r st' s)" "en_next t = en_next s + (if fired then 1 else 0)"
  shows "follows r st' fired s t \<and> en_samples t = en_samples s"
  using alone_core [OF assms(2)] alone_set [OF assms(1), of st'] assms(2,3)
  by (simp add: follows_def core_def set_state_def)

lemma follows_fired:
  assumes "alone r st s" "core t = core (set_state r st' s)" "en_next t = en_next s"
  shows "follows r st' True s (fire r c og z t) \<and> en_samples (fire r c og z t) = en_samples s"
proof -
  have "\<not> cf_test (en_config t)" using assms(1,2) by (simp add: alone_def core_def set_state_def)
  then show ?thesis using assms by (intro follows_core) (simp_all add: next_fire)
qed

lemma expire_triggers: "Triggered \<notin> set (fst (expire st t))"
  by (simp add: expire_def split: option.split)

lemma expire_waiting: "waiting (snd (expire st t)) \<noteq> None \<Longrightarrow> waiting st \<noteq> None"
  by (auto simp: expire_def close_window_def split: option.splits if_splits)

lemma sample_waiting:
  "Triggered \<in> set (fst (sequence_sample t cd st n c)) \<Longrightarrow> waiting st \<noteq> None"
  using expire_triggers [of st c] expire_waiting [of st c]
  by (auto simp: sequence_sample_def Let_def split_beta split: if_splits option.splits)

lemma event_never_triggers: "Triggered \<notin> set (fst (sequence_event t st e z))"
  using expire_triggers [of st "no_monotonic e"]
  by (auto simp: sequence_event_def Let_def split_beta drop_window_def split: option.splits)

lemma observe_rule_follows:
  assumes a: "alone r st s" and p: "is_picture r x" and one: "simulate_one r st i x = Inr (fired, ns, st')"
  shows "follows r st' fired s (observe_rule (watched_camera r) (shown_objects x) (sample_time i x) r s) \<and>
    en_samples (observe_rule (watched_camera r) (shown_objects x) (sample_time i x) r s) = en_samples s"
proof (cases "ru_trigger r")
  case (VisionT v)
  let ?c = "confirm v (ru_cooldown r) st (matching v (shown_objects x)) (sample_time i x)"
  have "?c = (ns, st')" "fired = (Triggered \<in> set ns)"
    using one VisionT by (simp_all add: simulate_one_def Let_def split: prod.splits)
  then show ?thesis using VisionT follows_core [OF a] follows_fired [OF a] alone_state [OF a]
    by (simp add: observe_rule_def Let_def)
next
  case (SequenceT t)
  let ?c = "sequence_sample t (ru_cooldown r) st (matching (sq_vision t) (shown_objects x)) (sample_time i x)"
  have c: "?c = (ns, st')" "fired = (Triggered \<in> set ns)"
    using one SequenceT p by (auto simp: simulate_one_def is_picture_def Let_def split: prod.splits)
  with sample_waiting have "fired \<Longrightarrow> waiting st \<noteq> None" by (metis fst_conv)
  then show ?thesis using SequenceT c follows_core [OF a] follows_fired [OF a] alone_state [OF a]
    by (auto simp: observe_rule_def Let_def)
qed (use p in \<open>simp_all add: is_picture_def\<close>)

definition last_picture :: "rule \<Rightarrow> engine \<Rightarrow> seconds" where
  "last_picture r s = or_else (dict_get (en_samples s) (watched_camera r)) 0"

lemma max_gap_positive: "0 \<le> max_gap c"
  by (simp add: max_gap_def)

lemma alone_samples: "alone r st (s\<lparr>en_samples := d\<rparr>) = alone r st s"
  by (simp add: alone_def)

lemma live_picture:
  assumes a: "alone r st s" and p: "is_picture r x" and one: "simulate_one r st i x = Inr (fired, ns, st')"
    and t: "en_armed_at s < sample_time i x" "last_picture r s < sample_time i x"
      "last_picture r s \<noteq> 0 \<longrightarrow> sample_time i x - last_picture r s \<le> max_gap (en_config s)"
  shows "follows r st' fired s (live_one r i x s) \<and> last_picture r (live_one r i x s) = sample_time i x"
proof -
  let ?c = "watched_camera r" and ?t = "sample_time i x"
  let ?s = "s\<lparr>en_samples := dict_set ?c ?t (en_samples s)\<rparr>"
  have looks: "looks_here ?c r"
    using p by (auto simp: looks_here_def watched_camera_def is_picture_def split: trigger.splits)
  have "filter (looks_here ?c) (watching_rules s) = [r]"
    using alone_watching [OF a] looks by simp
  moreover have "en_armed s" using a by (simp add: alone_def)
  ultimately have live: "live_one r i x s = observe_rule ?c (shown_objects x) ?t r ?s"
    using p t max_gap_positive [of "en_config s"]
    by (auto simp: live_one_def observe_def Let_def last_picture_def or_else_def split: option.splits)
  have "alone r st ?s" using a by (simp add: alone_samples)
  from observe_rule_follows [OF this p one] show ?thesis
    by (simp add: live follows_def last_picture_def or_else_def)
qed

lemma after_hit_event:
  assumes a: "alone r st s" and hit: "after_hit (ru_cooldown r) at1 (hit, st1) = (fired, ns, st')"
    and t: "at1 = no_monotonic e"
    and go: "event_rule locked zone_of e r s =
      (if hit then
         (let s1 = set_state r st1 s in
          if \<not> cooled st1 (ru_cooldown r) at1 then note_event ''skipped'' (Some (ru_name r)) s1
          else fire r at1 [no_event e] (no_zone e)
            (note_event ''triggered'' (Some (ru_name r)) (set_state r (st1\<lparr>last_trigger := Some at1\<rparr>) s1)))
       else set_state r st1 s)"
  shows "follows r st' fired s (event_rule locked zone_of e r s) \<and>
    en_samples (event_rule locked zone_of e r s) = en_samples s"
proof -
  have twice: "core (set_state r q (set_state r q' s)) = core (set_state r q s)" for q q'
    by (simp add: core_def set_state_def)
  show ?thesis
  proof (cases "hit \<and> cooled st1 (ru_cooldown r) at1")
    case True
    then show ?thesis using hit follows_fired [OF a, of _ "st1\<lparr>last_trigger := Some at1\<rparr>"]
      by (auto simp: go after_hit_def Let_def twice)
  next
    case False
    then show ?thesis using hit
      by (auto simp: go after_hit_def Let_def intro!: follows_core [OF a] split: if_splits)
  qed
qed

lemma dict_set_same: "dict_get d k = Some v \<Longrightarrow> dict_set k v d = d"
  by (induction d) (auto split: if_splits)

lemma set_same: "alone r st s \<Longrightarrow> set_state r st s = s"
proof -
  assume "alone r st s"
  then have "dict_set (ru_id r) st (en_states s) = en_states s"
    by (simp add: alone_def dict_set_same)
  then show ?thesis by (simp add: set_state_def)
qed

lemma simulated_fields:
  "simulated src kind n at1 x = Inr e \<Longrightarrow> no_monotonic e = at1 \<and> no_eligible e"
  by (auto simp: simulated_def split: option.splits)

lemma event_rule_follows:
  assumes a: "alone r st s" and p: "\<not> is_picture r x" and one: "simulate_one r st i x = Inr (fired, ns, st')"
    and live: "live_event r i x = Inr e" and quiet: "echo_seconds \<le> sample_time i x - en_quiet s"
  shows "follows r st' fired s (event_rule False (\<lambda>_. sp_camera_zone x) e r s) \<and>
    en_samples (event_rule False (\<lambda>_. sp_camera_zone x) e r s) = en_samples s"
proof (cases "ru_trigger r")
  case (SensorT t)
  then have e: "simulated (st_source t) (st_kind t) ''simulated'' (sample_time i x) x = Inr e"
    using live by (simp add: live_event_def Let_def)
  then have "after_hit (ru_cooldown r) (sample_time i x) (sensor_fires t e, st) = (fired, ns, st')"
    using one SensorT by (simp add: simulate_one_def Let_def)
  then show ?thesis
    by (rule after_hit_event [OF a])
      (use SensorT simulated_fields [OF e] alone_state [OF a] set_same [OF a] in \<open>simp_all add: event_rule_def Let_def\<close>)
next
  case (AudioT t)
  then have e: "simulated (at_source t) (at_kind t) ''simulated'' (sample_time i x) x = Inr e"
    using live by (simp add: live_event_def Let_def)
  then have "after_hit (ru_cooldown r) (sample_time i x) (sound_fires t e, st) = (fired, ns, st')"
    using one AudioT by (simp add: simulate_one_def Let_def)
  then show ?thesis
    by (rule after_hit_event [OF a])
      (use AudioT simulated_fields [OF e] alone_state [OF a] set_same [OF a] quiet in
        \<open>simp_all add: event_rule_def Let_def playing_def\<close>)
next
  case (ThresholdT t)
  then have e: "simulated (tt_source t) (tt_kind t) ''simulated'' (sample_time i x) x = Inr e"
    using live by (simp add: live_event_def Let_def)
  obtain hit st1 where h: "threshold_fires t st e = (hit, st1)" by fastforce
  with e have "after_hit (ru_cooldown r) (sample_time i x) (hit, st1) = (fired, ns, st')"
    using one ThresholdT by (simp add: simulate_one_def Let_def)
  then show ?thesis
    by (rule after_hit_event [OF a])
      (use ThresholdT simulated_fields [OF e] alone_state [OF a] h in \<open>simp_all add: event_rule_def Let_def\<close>)
next
  case (SequenceT t)
  then have e: "simulated (st_source (sq_sensor t)) (st_kind (sq_sensor t)) (''simulated-'' @ nat_text i) (sample_time i x) x = Inr e"
    using live by (simp add: live_event_def Let_def)
  have "sequence_event t st e (sp_camera_zone x) = (ns, st')" "fired = (Triggered \<in> set ns)"
    using one SequenceT p e by (auto simp: simulate_one_def is_picture_def Let_def split: prod.splits)
  with event_never_triggers [of t st e "sp_camera_zone x"] show ?thesis
    using SequenceT alone_state [OF a] by (auto simp: event_rule_def Let_def intro!: follows_core [OF a])
qed (use one p in \<open>auto simp: simulate_one_def is_picture_def\<close>)

lemma live_other:
  assumes a: "alone r st s" and p: "\<not> is_picture r x" and one: "simulate_one r st i x = Inr (fired, ns, st')"
    and t: "en_armed_at s \<le> sample_time i x" "echo_seconds \<le> sample_time i x - en_quiet s"
  shows "follows r st' fired s (live_one r i x s) \<and> last_picture r (live_one r i x s) = last_picture r s"
proof -
  obtain e where e: "live_event r i x = Inr e" "no_monotonic e = sample_time i x" "no_eligible e"
    using one p simulated_fields
    by (auto simp: simulate_one_def live_event_def is_picture_def Let_def split: trigger.splits sum.splits)
  let ?u = "if no_kind e \<in> set motion_kinds \<and> no_value e = JBool True \<and> trusted e then boost s else s"
  have u: "core ?u = core s" "en_next ?u = en_next s" by simp_all
  have au: "alone r st ?u" using alone_core [OF u(1)] a by simp
  have "en_armed s" "0 \<le> cf_ttl (en_config s)" using a by (simp_all add: alone_def)
  then have live: "live_one r i x s = event_rule False (\<lambda>_. sp_camera_zone x) e r ?u"
    using p e t(1) alone_watching [OF au] by (simp add: live_one_def observe_event_def Let_def)
  have "echo_seconds \<le> sample_time i x - en_quiet ?u" using t(2) u(1) by (simp add: core_def)
  from event_rule_follows [OF au p one e(1) this] u show ?thesis
    unfolding live follows_def last_picture_def core_def by simp
qed

text \<open>
  Observations the engine takes one by one: all after the arming began and the hub's own sound died
  away, and the pictures in order, none so long after the one before that frames were missed.
\<close>

fun steady :: "rule \<Rightarrow> rat \<Rightarrow> seconds \<Rightarrow> seconds \<Rightarrow> nat \<Rightarrow> sample list \<Rightarrow> bool" where
  "steady r gap start prev i [] = True"
| "steady r gap start prev i (x # xs) =
     (start < sample_time i x \<and>
      (is_picture r x \<longrightarrow> prev < sample_time i x \<and> (prev \<noteq> 0 \<longrightarrow> sample_time i x - prev \<le> gap)) \<and>
      steady r gap start (if is_picture r x then sample_time i x else prev) (Suc i) xs)"

lemma live_one_follows:
  assumes "alone r st s" "simulate_one r st i x = Inr (fired, ns, st')"
    "steady r (max_gap (en_config s)) start (last_picture r s) i (x # xs)"
    "en_armed_at s \<le> start" "en_quiet s + echo_seconds \<le> start"
  shows "follows r st' fired s (live_one r i x s) \<and>
    last_picture r (live_one r i x s) = (if is_picture r x then sample_time i x else last_picture r s)"
proof (cases "is_picture r x")
  case True
  then show ?thesis using live_picture [OF assms(1) True assms(2)] assms(3,4) by simp
next
  case False
  then show ?thesis using live_other [OF assms(1) False assms(2)] assms(3-5) by simp
qed

lemma live_from_follows:
  assumes "alone r st s" "simulate_from r st i xs = Inr (ys, st')"
    "steady r (max_gap (en_config s)) start (last_picture r s) i xs"
    "en_armed_at s \<le> start" "en_quiet s + echo_seconds \<le> start"
  shows "alone r st' (live_from r s i xs) \<and>
    en_next (live_from r s i xs) = en_next s + length (filter ss_fired ys)"
  using assms
proof (induction xs arbitrary: i st s ys)
  case (Cons x xs)
  from Cons.prems(2) obtain fired ns st1 zs where one: "simulate_one r st i x = Inr (fired, ns, st1)"
    and rest: "simulate_from r st1 (Suc i) xs = Inr (zs, st')"
    and ys: "ys = step_of r (sample_time i x) (fired, ns, st1) # zs"
    by (auto split: sum.splits)
  let ?t = "live_one r i x s"
  from live_one_follows [OF Cons.prems(1) one Cons.prems(3-5)]
  have f: "follows r st1 fired s ?t"
    "last_picture r ?t = (if is_picture r x then sample_time i x else last_picture r s)" by simp_all
  then have "steady r (max_gap (en_config ?t)) start (last_picture r ?t) (Suc i) xs"
    using Cons.prems(3) by (simp add: follows_def)
  from Cons.IH [OF _ rest this] f(1) Cons.prems(4,5) show ?case
    by (simp add: ys follows_def step_of_def)
qed simp

lemma simulate_prefix:
  "simulate_from r st i xs = Inr (ys, st') \<Longrightarrow> \<exists>st1. simulate_from r st i (take k xs) = Inr (take k ys, st1)"
proof (induction xs arbitrary: i st ys k)
  case (Cons x xs)
  then obtain y zs where one: "simulate_one r st i x = Inr y"
    and rest: "simulate_from r (snd (snd y)) (Suc i) xs = Inr (zs, st')"
    and ys: "ys = step_of r (sample_time i x) y # zs"
    by (auto split: sum.splits)
  show ?case
  proof (cases k)
    case (Suc n)
    from Cons.IH [OF rest, of n] obtain st1 where "simulate_from r (snd (snd y)) (Suc i) (take n xs) = Inr (take n zs, st1)"
      by blast
    then show ?thesis using one Suc ys by simp
  qed simp
qed simp

lemma steady_prefix: "steady r g s0 p i xs \<Longrightarrow> steady r g s0 p i (take k xs)"
  by (induction xs arbitrary: p i k) (auto simp: take_Cons' )


definition seen_at :: "seconds \<Rightarrow> sample" where
  "seen_at t =
     \<lparr>sp_at = Some t, sp_detections = Some [\<lparr>de_label = ''person'', de_confidence = 9 / 10, de_box = (0, 0, 1, 1)\<rparr>],
      sp_source = None, sp_kind = None, sp_value = JNull, sp_quality = None, sp_zone = None,
      sp_camera_zone = None\<rparr>"

definition door_armed :: engine where
  "door_armed = snd (run do_engine (load_rules (engine_start (door_rules [''Door'']) NoFile)) (take 1 door_inputs))"

definition front_door :: rule where
  "front_door = hd (cf_rules (en_config door_armed))"

definition fired_in :: "sim_error + sim_step list \<Rightarrow> bool list" where
  "fired_in z = (case z of Inl _ \<Rightarrow> [] | Inr ys \<Rightarrow> map ss_fired ys)"

lemma door_simulated: "fired_in (simulate front_door [seen_at 101, seen_at 102]) = [False, True]"
  by code_simp

lemma door_alone: "alone front_door new_state door_armed \<and> last_picture front_door door_armed = 0 \<and>
    en_armed_at door_armed = 100 \<and> en_quiet door_armed = 0 \<and> en_next door_armed = 0 \<and>
    steady front_door (max_gap (en_config door_armed)) 100 0 0 [seen_at 101, seen_at 102]"
  by code_simp


text \<open>Two looks half a minute apart: the simulation fires, the engine starts counting again.\<close>

lemma simulation_overlooks_missed_frames:
  "fired_in (simulate front_door [seen_at 101, seen_at 131]) = [False, True] \<and>
   en_next (live_from front_door door_armed 0 [seen_at 101, seen_at 131]) = en_next door_armed"
  by code_simp

end
