(* ===== verification/Service.thy ===== *)
theory Service
  imports Ingress Rates Nodes Sessions Health Platforms
begin

section \<open>The satellite service\<close>

text \<open>
  \<open>src/sentry_mode/satellites/service.py\<close>: what puts the node registry, the sessions, the source
  registry, the door, the journal and the health board together. Everything a satellite sends goes
  through \<open>handle\<close>. A document is given by what the code distinguishes in it; the envelope of an
  event stays the parameter it is for the door. What the code asks the world (clocks, writes,
  whether the broker took a command, a fresh grant identifier) is an argument. Media streams, the
  status page, threads and logging are left out.
\<close>

subsection \<open>Messages\<close>

text \<open>A value of JSON where the code expects a kind of source, a name to show, a list.\<close>

datatype said_kind = KindText string | KindOther | KindUnhashable
datatype said_display = NoDisplay | DisplayText string | DisplayOther

record declared_source =
  ds_id :: "string option"
  ds_kind :: said_kind
  ds_off :: bool
  ds_display :: said_display

text \<open>\<open>None\<close> among the entries is one that is no object. What is no list may have a length or not.\<close>

datatype declared = Listed "declared_source option list" | NoList bool

record state_document =
  sd_version :: "json_value option"
  sd_online :: bool
  sd_connection :: "string option"
  sd_boot :: "string option"
  sd_agent :: "string option"
  sd_revision :: "json_value option"
  sd_sources :: declared

record ack_document =
  ak_command :: "string option"
  ak_outcome :: "string option"
  ak_detail :: "string option"

text \<open>
  The delivery part of an event, as far as \<open>_on_events\<close> reads it: identifiers that are no text are
  \<open>None\<close>, and the epoch is \<open>None\<close> when it is absent or null and \<open>Some None\<close> when it equals no
  whole number.
\<close>

record 'doc event_document =
  ed_whole :: bool
  ed_connection :: "string option"
  ed_epoch :: "int option option"
  ed_grant :: "string option"
  ed_body :: 'doc

text \<open>The payload: empty, no JSON, no object, or an object with the node it claims to come from.\<close>

datatype 'b payload = Empty | NotJson | NotObject | Says "string option" 'b

datatype 'doc content =
  OnState "state_document payload"
| OnHealth "heartbeat_document payload"
| OnAcks "ack_document payload"
| OnEvents "'doc event_document payload"

record 'doc incoming =
  im_node :: string
  im_content :: "'doc content"
  im_size :: int
  im_retained :: bool
  im_mid :: nat
  im_qos :: nat

fun on_state_channel :: "'doc content \<Rightarrow> bool" where
  "on_state_channel (OnState _) = True"
| "on_state_channel _ = False"

fun on_events_channel :: "'doc content \<Rightarrow> bool" where
  "on_events_channel (OnEvents _) = True"
| "on_events_channel _ = False"

subsection \<open>State\<close>

datatype configuration_state = ConfSent | ConfReceived | ConfApplied | ConfFailed

record configuration =
  cg_command :: string
  cg_revision :: int
  cg_state :: configuration_state
  cg_detail :: "string option"
  cg_sent :: seconds
  cg_answered :: "seconds option"

datatype effect =
  Settles nat
| Commands string string
| ClearsState string
| EndsMedia string

record 'doc service =
  sv_nodes :: node_registry
  sv_sessions :: session_manager
  sv_sources :: registry
  sv_health :: health_board
  sv_store :: store
  sv_limiter :: rate_limiter
  sv_queue :: "normalized list"
  sv_early :: "(string, 'doc incoming) dict"
  sv_revisions :: "(string, int option) dict"
  sv_configurations :: "(string, configuration) dict"
  sv_cameras :: "string set"
  sv_microphones :: "string set"
  sv_accepted :: nat
  sv_refused :: nat
  sv_reasons :: "(string, nat) dict"
  sv_effects :: "effect list"

record 'doc wiring =
  su_decode :: "'doc \<Rightarrow> envelope option"
  su_digest :: "event_body \<Rightarrow> string"
  su_limits :: limits
  su_has_cameras :: bool
  su_has_microphones :: bool

record world =
  wo_wall :: seconds
  wo_mono :: seconds
  wo_epoch :: "nat option"
  wo_grant :: string
  wo_read :: disk
  wo_write :: disk
  wo_mark :: disk
  wo_published :: bool

datatype service_error =
  NodeFails node_error
| SessionFails session_error
| SourceFails registry_error
| NoSuchRecord
| NotHashable
| HasNoLength
| StoreFails store_failure
| NotRegistered string
| NodeNotApproved string
| NodeOffline string
| WrongConfiguration "complaint list"
| NotAnsweredYet int
| LinkDown

definition emit :: "effect \<Rightarrow> 'doc service \<Rightarrow> 'doc service" where
  "emit x s = s\<lparr>sv_effects := sv_effects s @ [x]\<rparr>"

definition count_refusal :: "string \<Rightarrow> 'doc service \<Rightarrow> 'doc service" where
  "count_refusal why s =
     s\<lparr>sv_refused := sv_refused s + 1, sv_reasons := count_up why (sv_reasons s)\<rparr>"

definition refuse :: "string \<Rightarrow> string \<Rightarrow> 'doc service \<Rightarrow> 'doc service" where
  "refuse n why s = (count_refusal why s)\<lparr>sv_health := note_refused n why (sv_health s)\<rparr>"

text \<open>\<open>settle\<close> of the transport: nothing is acknowledged at quality of service 0.\<close>

definition settle :: "'doc incoming \<Rightarrow> 'doc service \<Rightarrow> 'doc service" where
  "settle m s = (if im_qos m = 0 then s else emit (Settles (im_mid m)) s)"

definition zone_of :: "'doc service \<Rightarrow> string \<Rightarrow> string option" where
  "zone_of s n = (case get_node (sv_nodes s) n of None \<Rightarrow> None | Some r \<Rightarrow> nd_zone r)"

subsection \<open>Who may speak\<close>

definition authenticated ::
  "string \<Rightarrow> 'doc service \<Rightarrow> (service_error + string option) \<times> 'doc service" where
  "authenticated n s =
     (case authenticate n \<lparr>cr_username = None, cr_client = None, cr_fingerprint = None\<rparr> (sv_nodes s) of
        (r, nodes') \<Rightarrow>
          (let s1 = s\<lparr>sv_nodes := nodes'\<rparr> in
           case r of
             Inr _ \<Rightarrow> (Inr None, s1)
           | Inl (UnknownNode _) \<Rightarrow> (Inr (Some ''unknown_node''), count_refusal ''unknown_node'' s1)
           | Inl (NotApproved _) \<Rightarrow> (Inr (Some ''not_approved''), count_refusal ''not_approved'' s1)
           | Inl (WrongCertificate _) \<Rightarrow>
               (Inr (Some ''wrong_certificate''), count_refusal ''wrong_certificate'' s1)
           | Inl e \<Rightarrow> (Inl (NodeFails e), s1)))"

definition decode_payload ::
  "limits \<Rightarrow> string \<Rightarrow> int \<Rightarrow> 'b payload \<Rightarrow> 'doc service \<Rightarrow> 'b option \<times> 'doc service" where
  "decode_payload l n bytes p s =
     (if event_max_bytes l < bytes then (None, refuse n ''too_big'' s)
      else case p of
        Empty \<Rightarrow> (None, s)
      | NotJson \<Rightarrow> (None, refuse n ''not_json'' s)
      | NotObject \<Rightarrow> (None, refuse n ''not_an_object'' s)
      | Says claimed b \<Rightarrow>
          if \<not> pred_option (\<lambda>c. c = n) claimed then (None, refuse n ''identity_mismatch'' s)
          else (Some b, s))"

definition command :: "string \<Rightarrow> string \<Rightarrow> 'doc service \<Rightarrow> 'doc service" where
  "command n action = emit (Commands n action)"

subsection \<open>What a node says it has\<close>

definition source_kinds :: "(string, source_kind) dict" where
  "source_kinds =
     [(''gpio'', Sensor), (''onewire'', Sensor), (''bme280'', Sensor), (''adc'', Sensor),
      (''dummy'', Sensor), (''csi'', Camera), (''uvc'', Camera), (''microphone'', Microphone),
      (''ble'', Presence), (''board'', Sensor)]"

definition kind_of :: "said_kind \<Rightarrow> source_kind option" where
  "kind_of k = (case k of KindText t \<Rightarrow> dict_get source_kinds t | _ \<Rightarrow> None)"

definition adopt_streams :: "'doc wiring \<Rightarrow> string \<Rightarrow> declared_source \<Rightarrow> string \<Rightarrow> 'doc service \<Rightarrow> 'doc service" where
  "adopt_streams g n e ref s =
     (let s1 = (if ds_kind e = KindText ''csi'' \<and> \<not> ds_off e \<and> su_has_cameras g
                then s\<lparr>sv_cameras := insert ref (sv_cameras s)\<rparr> else s)
      in if ds_kind e = KindText ''microphone'' \<and> \<not> ds_off e \<and> su_has_microphones g
         then s1\<lparr>sv_microphones := insert ref (sv_microphones s1)\<rparr> else s1)"

definition set_source :: "string \<Rightarrow> source_state \<Rightarrow> 'doc service \<Rightarrow> (service_error + unit) \<times> 'doc service" where
  "set_source k st s =
     (case reg_set_state (sv_sources s) k st of
        (Inl e, t) \<Rightarrow> (Inl (SourceFails e), s\<lparr>sv_sources := t\<rparr>)
      | (Inr _, t) \<Rightarrow> (Inr (), s\<lparr>sv_sources := t\<rparr>))"

definition new_source ::
  "string \<Rightarrow> string \<Rightarrow> source_ref \<Rightarrow> source_kind \<Rightarrow> source_state \<Rightarrow> declared_source \<Rightarrow> 'doc service \<Rightarrow>
     (service_error + unit) \<times> 'doc service" where
  "new_source n i ref kind st e s =
     (case require_node n (sv_nodes s) of
        (Inl err, _) \<Rightarrow> (Inl (NodeFails err), s)
      | (Inr node, _) \<Rightarrow>
          (case (case ds_display e of
                   NoDisplay \<Rightarrow> Some (n @ '' '' @ i)
                 | DisplayText t \<Rightarrow> Some (if t = [] then n @ '' '' @ i else t)
                 | DisplayOther \<Rightarrow> None) of
             None \<Rightarrow> (Inl NoSuchRecord, s)
           | Some shown \<Rightarrow>
               (let r = \<lparr>rec_ref = ref, rec_kind = kind, display_name = shown,
                         rec_zone = nd_zone node, rec_origin = Satellite, rec_state = st,
                         address = JNull, rec_unit = None\<rparr>
                in if \<not> valid_record r then (Inl NoSuchRecord, s)
                   else (case reg_register (sv_sources s) r of
                           (Inl err, t) \<Rightarrow> (Inl (SourceFails err), s\<lparr>sv_sources := t\<rparr>)
                         | (Inr _, t) \<Rightarrow> (Inr (), s\<lparr>sv_sources := t\<rparr>)))))"

definition adopt_one ::
  "'doc wiring \<Rightarrow> string \<Rightarrow> declared_source \<Rightarrow> 'doc service \<Rightarrow> (service_error + string option) \<times> 'doc service" where
  "adopt_one g n e s =
     (if ds_kind e = KindUnhashable then (Inl NotHashable, s)
      else case (ds_id e, kind_of (ds_kind e)) of
        (Some i, Some kind) \<Rightarrow>
          (case mk_ref (Some n) i of
             None \<Rightarrow> (Inr None, refuse n ''bad_source_id'' s)
           | Some ref \<Rightarrow>
               (let s1 = adopt_streams g n e (ref_id ref) s;
                    st = (if ds_off e then Disabled else Ready)
                in try_then
                     (if reg_get (sv_sources s1) (ref_id ref) \<noteq> None then set_source (ref_id ref) st s1
                      else new_source n i ref kind st e s1)
                     (\<lambda>_ t. (Inr (Some (ref_id ref)), t))))
      | _ \<Rightarrow> (Inr None, refuse n ''unknown_source_kind'' s))"

fun adopt_each ::
  "'doc wiring \<Rightarrow> string \<Rightarrow> declared_source option list \<Rightarrow> string set \<Rightarrow> 'doc service \<Rightarrow>
     (service_error + string set) \<times> 'doc service" where
  "adopt_each g n [] named s = (Inr named, s)"
| "adopt_each g n (None # es) named s = adopt_each g n es named s"
| "adopt_each g n (Some e # es) named s =
     try_then (adopt_one g n e s) (\<lambda>k t.
       adopt_each g n es (case k of None \<Rightarrow> named | Some k \<Rightarrow> insert k named) t)"

definition undeclared :: "string \<Rightarrow> string set \<Rightarrow> registry \<Rightarrow> string list" where
  "undeclared n named t =
     map rec_id (filter (\<lambda>r. ref_node (rec_ref r) = Some n \<and> rec_id r \<notin> named) (reg_all t))"

definition disable_all :: "string list \<Rightarrow> registry \<Rightarrow> registry" where
  "disable_all ks t = fold (\<lambda>k t. snd (reg_set_state t k Disabled)) ks t"

definition declared_entries :: "declared \<Rightarrow> declared_source option list" where
  "declared_entries d = (case d of Listed es \<Rightarrow> es | NoList _ \<Rightarrow> [])"

definition adopt_sources ::
  "'doc wiring \<Rightarrow> string \<Rightarrow> declared \<Rightarrow> 'doc service \<Rightarrow> (service_error + unit) \<times> 'doc service" where
  "adopt_sources g n d s =
     try_then (adopt_each g n (declared_entries d) {} s) (\<lambda>named t.
       (Inr (), t\<lparr>sv_sources := disable_all (undeclared n named (sv_sources t)) (sv_sources t)\<rparr>))"

subsection \<open>State, health, acknowledgements\<close>

definition speaks_version_1 :: "json_value option \<Rightarrow> bool" where
  "speaks_version_1 v \<longleftrightarrow> v = Some (JInt 1) \<or> v = Some (JFloat 1) \<or> v = Some (JBool True)"

definition end_session :: "string \<Rightarrow> string option \<Rightarrow> string \<Rightarrow> 'doc service \<Rightarrow> bool \<times> 'doc service" where
  "end_session n conn why s =
     (case close_session n conn why (sv_sessions s) of
        (ended, m) \<Rightarrow>
          (ended, (if ended then emit (EndsMedia n) else id) (s\<lparr>sv_sessions := m\<rparr>)))"

definition whole_number :: "json_value option \<Rightarrow> int option" where
  "whole_number v = (case v of Some (JInt i) \<Rightarrow> Some i | _ \<Rightarrow> None)"

definition start_session ::
  "'doc wiring \<Rightarrow> world \<Rightarrow> string \<Rightarrow> state_document \<Rightarrow> 'doc service \<Rightarrow> (service_error + unit) \<times> 'doc service" where
  "start_session g w n d s =
     (case next_epoch (wo_epoch w) (sv_nodes s) of
        (Inl e, nodes') \<Rightarrow> (Inl (NodeFails e), s\<lparr>sv_nodes := nodes'\<rparr>)
      | (Inr epoch, nodes') \<Rightarrow>
          (let conn = (case py_or (sd_connection d) None of None \<Rightarrow> ''unknown'' | Some c \<Rightarrow> c);
               s1 = s\<lparr>sv_nodes := nodes',
                      sv_sessions := snd (open_session (wo_mono w) epoch n conn (sd_boot d) (sd_agent d)
                        (sv_sessions s))\<rparr>
           in try_then (adopt_sources g n (sd_sources d) s1) (\<lambda>_ s2.
                case grant_capability (wo_mono w) (wo_grant w) n ''events'' None (sv_sessions s2) of
                  (Inl e, m) \<Rightarrow> (Inl (SessionFails e), s2\<lparr>sv_sessions := m\<rparr>)
                | (Inr _, m) \<Rightarrow>
                    (let s3 = command n ''grant'' (s2\<lparr>sv_sessions := m\<rparr>)
                     in case sd_sources d of
                          NoList False \<Rightarrow> (Inl HasNoLength, s3)
                        | _ \<Rightarrow> (Inr (), s3)))))"

definition on_state ::
  "'doc wiring \<Rightarrow> world \<Rightarrow> string \<Rightarrow> state_document \<Rightarrow> 'doc service \<Rightarrow> (service_error + unit) \<times> 'doc service" where
  "on_state g w n d s =
     (if \<not> speaks_version_1 (sd_version d)
      then (Inr (), snd (end_session n None ''unsupported protocol'' (refuse n ''unsupported_protocol'' s)))
      else if \<not> sd_online d
      then (case end_session n (sd_connection d) ''said so'' s of
              (True, t) \<Rightarrow> (Inr (), t)
            | (False, t) \<Rightarrow> (Inr (), refuse n ''stale_goodbye'' t))
      else
        (let s1 = s\<lparr>sv_revisions := dict_set n (whole_number (sd_revision d)) (sv_revisions s)\<rparr> in
         case current_session (sv_sessions s1) n of
           Some c \<Rightarrow>
             if Some (se_connection c) = sd_connection d \<and> se_boot c = sd_boot d
             then adopt_sources g n (sd_sources d) s1
             else start_session g w n d (emit (EndsMedia n) s1)
         | None \<Rightarrow> start_session g w n d (emit (EndsMedia n) s1)))"

definition on_health :: "world \<Rightarrow> string \<Rightarrow> heartbeat_document \<Rightarrow> 'doc service \<Rightarrow> 'doc service" where
  "on_health w n d s =
     (let s1 = s\<lparr>sv_health := take_heartbeat (wo_wall w) n d (sv_health s)\<rparr> in
      case heartbeat (wo_mono w) n None (sv_sessions s1) of
        (Inl _, m) \<Rightarrow> refuse n ''heartbeat_without_session'' (s1\<lparr>sv_sessions := m\<rparr>)
      | (Inr _, m) \<Rightarrow> s1\<lparr>sv_sessions := m\<rparr>)"

definition outcome_state :: "string option \<Rightarrow> configuration_state option" where
  "outcome_state x =
     (if x = Some ''received'' then Some ConfReceived
      else if x = Some ''applied'' then Some ConfApplied
      else if x = Some ''failed'' then Some ConfFailed else None)"

definition on_ack :: "world \<Rightarrow> string \<Rightarrow> ack_document \<Rightarrow> 'doc service \<Rightarrow> 'doc service" where
  "on_ack w n d s =
     (case dict_get (sv_configurations s) n of
        None \<Rightarrow> s
      | Some c \<Rightarrow>
          if Some (cg_command c) \<noteq> ak_command d then s
          else (case outcome_state (ak_outcome d) of
                  None \<Rightarrow> s
                | Some st \<Rightarrow>
                    if st = ConfReceived \<and> cg_state c \<noteq> ConfSent then s
                    else s\<lparr>sv_configurations := dict_set n
                           (c\<lparr>cg_state := st, cg_detail := ak_detail d, cg_answered := Some (wo_wall w)\<rparr>)
                           (sv_configurations s)\<rparr>))"

subsection \<open>Events\<close>

definition the_door :: "'doc wiring \<Rightarrow> 'doc service \<Rightarrow> 'doc door" where
  "the_door g s =
     \<lparr>in_decode = su_decode g, in_digest = su_digest g, in_sources = sv_sources s,
      in_limits = su_limits g, in_zone_of = zone_of s\<rparr>"

text \<open>The queue to the rules takes an event, or the event stays in the journal marked as dropped.\<close>

definition enqueue ::
  "limits \<Rightarrow> world \<Rightarrow> string \<Rightarrow> normalized \<Rightarrow> 'doc service \<Rightarrow> (service_error + unit) \<times> 'doc service" where
  "enqueue l w n e s =
     (if int (length (sv_queue s)) < queue_depth l then (Inr (), s\<lparr>sv_queue := sv_queue s @ [e]\<rparr>)
      else
        (let s1 = refuse n ''queue_full'' s
         in case set_outcome (wo_mark w) (sv_store s1) n (no_event e) ''dropped'' of
              (Inl (StoreUnavailable _), st) \<Rightarrow> (Inr (), s1\<lparr>sv_store := st\<rparr>)
            | (Inl err, st) \<Rightarrow> (Inl (StoreFails err), s1\<lparr>sv_store := st\<rparr>)
            | (Inr _, st) \<Rightarrow> (Inr (), s1\<lparr>sv_store := st\<rparr>)))"

definition on_receipt ::
  "'doc wiring \<Rightarrow> world \<Rightarrow> 'doc incoming \<Rightarrow> receipt \<Rightarrow> 'doc service \<Rightarrow> (service_error + unit) \<times> 'doc service" where
  "on_receipt g w m r s =
     (let n = im_node m;
          s1 = s\<lparr>sv_health := note_waited (wo_wall w) n (rp_waited r) (sv_health s)\<rparr>;
          s2 = (if rp_settle r then settle m s1 else s1)
      in case rp_reason r of
           Some why \<Rightarrow> (Inr (), refuse n why s2)
         | None \<Rightarrow>
             (let s3 = s2\<lparr>sv_accepted := sv_accepted s2 + 1, sv_health := note_accepted n (sv_health s2)\<rparr>
              in case rp_event r of
                   None \<Rightarrow> (Inr (), s3)
                 | Some e \<Rightarrow> enqueue (su_limits g) w n e s3))"

definition turn_away :: "string \<Rightarrow> 'doc incoming \<Rightarrow> 'doc service \<Rightarrow> (service_error + unit) \<times> 'doc service" where
  "turn_away why m s = (Inr (), settle m (refuse (im_node m) why s))"

definition on_events ::
  "'doc wiring \<Rightarrow> world \<Rightarrow> 'doc incoming \<Rightarrow> 'doc event_document \<Rightarrow> 'doc service \<Rightarrow>
     (service_error + unit) \<times> 'doc service" where
  "on_events g w m d s =
     (let n = im_node m in
      if \<not> ed_whole d then turn_away ''not_an_envelope'' m s
      else if (case ed_connection d of
                 None \<Rightarrow> True
               | Some c \<Rightarrow>
                   (case ed_epoch d of
                      None \<Rightarrow> \<not> is_current (sv_sessions s) n c None
                    | Some None \<Rightarrow> True
                    | Some (Some i) \<Rightarrow> \<not> is_current (sv_sessions s) n c (Some i)))
      then turn_away ''old_connection'' m s
      else if (case ed_grant d of
                 None \<Rightarrow> True
               | Some i \<Rightarrow> \<not> grant_is_current (sv_sessions s) (wo_mono w) n i ''events'')
      then turn_away ''no_grant'' m s
      else
        (let msg = \<lparr>msg_node = n, msg_doc = ed_body d, msg_retained = im_retained m,
                    msg_now = wo_wall w, msg_mono = wo_mono w, msg_read = wo_read w,
                    msg_write = wo_write w\<rparr>
         in case accept (the_door g s) (sv_store s) msg of
              (Inl e, st) \<Rightarrow> (Inl (StoreFails e), s\<lparr>sv_store := st\<rparr>)
            | (Inr r, st) \<Rightarrow> on_receipt g w m r (s\<lparr>sv_store := st\<rparr>)))"

subsection \<open>Everything that arrives\<close>

text \<open>
  The part of \<open>handle\<close> after the sender was let in and what it said earlier was read. A message of
  another channel than events is settled once its handler returns.
\<close>

definition said ::
  "'doc wiring \<Rightarrow> world \<Rightarrow> 'doc incoming \<Rightarrow> 'b payload \<Rightarrow>
     ('b \<Rightarrow> 'doc service \<Rightarrow> (service_error + unit) \<times> 'doc service) \<Rightarrow> 'doc service \<Rightarrow>
     (service_error + unit) \<times> 'doc service" where
  "said g w m p handler s =
     (case decode_payload (su_limits g) (im_node m) (im_size m) p s of
        (None, t) \<Rightarrow> (Inr (), settle m t)
      | (Some b, t) \<Rightarrow>
          try_then (handler b t) (\<lambda>_ u.
            (Inr (), if on_events_channel (im_content m) then u else settle m u)))"

definition dispatch ::
  "'doc wiring \<Rightarrow> world \<Rightarrow> 'doc incoming \<Rightarrow> 'doc service \<Rightarrow> (service_error + unit) \<times> 'doc service" where
  "dispatch g w m s =
     (let n = im_node m in
      case im_content m of
        OnState p \<Rightarrow> said g w m p (on_state g w n) s
      | OnHealth p \<Rightarrow> said g w m p (\<lambda>b t. (Inr (), on_health w n b t)) s
      | OnAcks p \<Rightarrow> said g w m p (\<lambda>b t. (Inr (), on_ack w n b t)) s
      | OnEvents p \<Rightarrow>
          (case allow (sv_limiter s) (wo_mono w, n) of
             (Some budget, left) \<Rightarrow>
               turn_away ''rate_limited'' m (s\<lparr>sv_limiter := left\<rparr>)
           | (None, left) \<Rightarrow> said g w m p (on_events g w m) (s\<lparr>sv_limiter := left\<rparr>)))"

definition keep_early :: "'doc incoming \<Rightarrow> 'doc service \<Rightarrow> 'doc service" where
  "keep_early m s = s\<lparr>sv_early := dict_set (im_node m) (m\<lparr>im_qos := 0\<rparr>) (sv_early s)\<rparr>"

definition turned_down :: "string \<Rightarrow> 'doc incoming \<Rightarrow> 'doc service \<Rightarrow> 'doc service" where
  "turned_down why m s =
     settle m (if why = ''not_approved'' \<and> on_state_channel (im_content m) then keep_early m s else s)"

definition take_early :: "string \<Rightarrow> 'doc service \<Rightarrow> 'doc incoming option \<times> 'doc service" where
  "take_early n s = (dict_get (sv_early s) n, s\<lparr>sv_early := dict_pop n (sv_early s)\<rparr>)"

text \<open>
  \<open>handle\<close> calls itself once, on a state message kept from before the node was approved. Such a
  message finds nothing kept, so the inner call is this one.
\<close>

definition handle_kept ::
  "'doc wiring \<Rightarrow> world \<Rightarrow> 'doc incoming \<Rightarrow> 'doc service \<Rightarrow> (service_error + unit) \<times> 'doc service" where
  "handle_kept g w m s =
     try_then (authenticated (im_node m) s) (\<lambda>why t.
       case why of
         Some why \<Rightarrow> (Inr (), turned_down why m t)
       | None \<Rightarrow> dispatch g w m t)"

definition handle ::
  "'doc wiring \<Rightarrow> world \<Rightarrow> 'doc incoming \<Rightarrow> 'doc service \<Rightarrow> (service_error + unit) \<times> 'doc service" where
  "handle g w m s =
     try_then (authenticated (im_node m) s) (\<lambda>why t.
       case why of
         Some why \<Rightarrow> (Inr (), turned_down why m t)
       | None \<Rightarrow>
           (case take_early (im_node m) t of
              (kept, t1) \<Rightarrow>
                (case kept of
                   Some k \<Rightarrow>
                     if on_state_channel (im_content m) then dispatch g w m t1
                     else try_then (handle_kept g w k t1) (\<lambda>_. dispatch g w m)
                 | None \<Rightarrow> dispatch g w m t1)))"

subsection \<open>Administration\<close>

definition approve ::
  "'doc wiring \<Rightarrow> (string \<Rightarrow> string option) \<Rightarrow> nat option \<Rightarrow> world \<Rightarrow> string \<Rightarrow> string option \<Rightarrow> string option \<Rightarrow>
     'doc service \<Rightarrow> (service_error + node_record) \<times> 'doc service" where
  "approve g fp file w n cert pinned s =
     (case approve_node fp (wo_wall w) file n cert pinned (sv_nodes s) of
        (Inl e, nodes') \<Rightarrow> (Inl (NodeFails e), s\<lparr>sv_nodes := nodes'\<rparr>)
      | (Inr r, nodes') \<Rightarrow>
          (case take_early n (s\<lparr>sv_nodes := nodes'\<rparr>) of
             (None, t) \<Rightarrow> (Inr r, t)
           | (Some k, t) \<Rightarrow> try_then (handle g w k t) (\<lambda>_ u. (Inr r, u))))"

definition disable_node :: "string \<Rightarrow> registry \<Rightarrow> registry" where
  "disable_node n t = disable_all (undeclared n {} t) t"

definition revoke ::
  "nat option \<Rightarrow> world \<Rightarrow> string \<Rightarrow> string option \<Rightarrow> 'doc service \<Rightarrow> (service_error + unit) \<times> 'doc service" where
  "revoke file w n reason s =
     (case revoke_node (wo_wall w) file n reason (sv_nodes s) of
        (Inl e, nodes') \<Rightarrow> (Inl (NodeFails e), s\<lparr>sv_nodes := nodes'\<rparr>)
      | (Inr _, nodes') \<Rightarrow>
          (let s1 = s\<lparr>sv_nodes := nodes', sv_early := dict_pop n (sv_early s)\<rparr>;
               s2 = s1\<lparr>sv_sessions := snd (close_session n None ''revoked''
                         (snd (revoke_grants n None (sv_sessions s1))))\<rparr>;
               s3 = emit (ClearsState n) (command n ''revoke'' (emit (EndsMedia n) s2))
           in (Inr (), s3\<lparr>sv_health := forget_health n (sv_health s3),
                 sv_revisions := dict_pop n (sv_revisions s3),
                 sv_configurations := dict_pop n (sv_configurations s3),
                 sv_sources := disable_node n (sv_sources s3)\<rparr>)))"

subsection \<open>Configuring a node\<close>

definition patience :: seconds where "patience = 30"

definition still_open :: "seconds \<Rightarrow> configuration \<Rightarrow> bool" where
  "still_open now c \<longleftrightarrow> (cg_state c = ConfSent \<or> cg_state c = ConfReceived) \<and> now - cg_sent c < patience"

definition next_revision :: "string \<Rightarrow> 'doc service \<Rightarrow> int" where
  "next_revision n s =
     max (case dict_get (sv_revisions s) n of Some (Some i) \<Rightarrow> i | _ \<Rightarrow> 0)
         (case dict_get (sv_configurations s) n of Some c \<Rightarrow> cg_revision c | None \<Rightarrow> 0) + 1"

definition send_configuration ::
  "world \<Rightarrow> string \<Rightarrow> string \<Rightarrow> 'doc service \<Rightarrow> (service_error + configuration) \<times> 'doc service" where
  "send_configuration w new_id n s =
     (let c = \<lparr>cg_command = new_id, cg_revision = next_revision n s, cg_state = ConfSent,
               cg_detail = None, cg_sent = wo_wall w, cg_answered = None\<rparr>
      in if wo_published w
         then (Inr c, command n ''configure''
                (s\<lparr>sv_configurations := dict_set n c (sv_configurations s)\<rparr>))
         else (Inl LinkDown, s\<lparr>sv_configurations := dict_set n
                 (c\<lparr>cg_state := ConfFailed, cg_detail := Some ''the broker did not take the command''\<rparr>)
                 (sv_configurations s)\<rparr>))"

definition configure ::
  "(config_entry list \<Rightarrow> nat) \<Rightarrow> world \<Rightarrow> string \<Rightarrow> string \<Rightarrow> config_entry list \<Rightarrow> 'doc service \<Rightarrow>
     (service_error + configuration) \<times> 'doc service" where
  "configure size_of w new_id n entries s =
     (case get_node (sv_nodes s) n of
        None \<Rightarrow> (Inl (NotRegistered n), s)
      | Some r \<Rightarrow>
          if nd_status r \<noteq> Approved then (Inl (NodeNotApproved n), s)
          else if current_session (sv_sessions s) n = None then (Inl (NodeOffline n), s)
          else if check_configuration size_of (platform_named (Some (nd_platform r))) entries \<noteq> []
          then (Inl (WrongConfiguration
                 (check_configuration size_of (platform_named (Some (nd_platform r))) entries)), s)
          else
            (case dict_get (sv_configurations s) n of
               Some c \<Rightarrow>
                 if still_open (wo_wall w) c then (Inl (NotAnsweredYet (cg_revision c)), s)
                 else send_configuration w new_id n s
             | None \<Rightarrow> send_configuration w new_id n s))"

subsection \<open>Housekeeping\<close>

text \<open>\<open>renew\<close> of a grant that is gone in the meantime raises and ends the round.\<close>

fun renew_each :: "world \<Rightarrow> grant list \<Rightarrow> 'doc service \<Rightarrow> (service_error + unit) \<times> 'doc service" where
  "renew_each w [] s = (Inr (), s)"
| "renew_each w (x # xs) s =
     (case renew_grant (wo_mono w) (gr_node x) (gr_capability x) None (sv_sessions s) of
        (Inl e, m) \<Rightarrow> (Inl (SessionFails e), s\<lparr>sv_sessions := m\<rparr>)
      | (Inr _, m) \<Rightarrow> renew_each w xs (command (gr_node x) ''renew'' (s\<lparr>sv_sessions := m\<rparr>)))"

definition renew_due_grants :: "world \<Rightarrow> 'doc service \<Rightarrow> (service_error + unit) \<times> 'doc service" where
  "renew_due_grants w s = renew_each w (due_for_renewal (sv_sessions s) (wo_mono w)) s"

definition tidy :: "'doc wiring \<Rightarrow> world \<Rightarrow> 'doc service \<Rightarrow> (service_error + nat \<times> nat) \<times> 'doc service" where
  "tidy g w s =
     (if \<not> connected (sv_store s) then (Inr (0, 0), s)
      else case forget_events (wo_wall w) (wo_read w) (sv_store s)
                  (of_int (journal_days (su_limits g) * 86400)) of
        (Inl e, st) \<Rightarrow> (Inl (StoreFails e), s\<lparr>sv_store := st\<rparr>)
      | (Inr k, st) \<Rightarrow>
          (case forget_receipts (wo_wall w) (wo_write w) st
                  (of_int (dedup_days (su_limits g) * 86400)) of
             (Inl e, st') \<Rightarrow> (Inl (StoreFails e), s\<lparr>sv_store := st'\<rparr>)
           | (Inr k', st') \<Rightarrow> (Inr (k, k'), s\<lparr>sv_store := st'\<rparr>)))"

definition take_event :: "'doc service \<Rightarrow> normalized option \<times> 'doc service" where
  "take_event s =
     (case sv_queue s of [] \<Rightarrow> (None, s) | e # es \<Rightarrow> (Some e, s\<lparr>sv_queue := es\<rparr>))"

definition link_up :: "'doc service \<Rightarrow> 'doc service" where
  "link_up s = s\<lparr>sv_sessions := broker_connected (sv_sessions s)\<rparr>"

definition link_down :: "'doc service \<Rightarrow> 'doc service" where
  "link_down s = s\<lparr>sv_sessions := broker_unavailable (sv_sessions s)\<rparr>"

definition stop_service :: "'doc service \<Rightarrow> 'doc service" where
  "stop_service s =
     (let s1 = fold (\<lambda>r. command (nd_id r) ''revoke'') (of_status (sv_nodes s) Approved) s
      in s1\<lparr>sv_sessions := broker_stopped (sv_sessions s1)\<rparr>)"

end
