(* ===== verification/Hearing.thy ===== *)
theory Hearing
  imports Service
begin

section \<open>Who is heard\<close>

text \<open>
  What the satellite service of \<open>Service\<close> lets through to the rules
  (\<open>SatelliteService.handle\<close> and \<open>_on_events\<close> in \<open>src/sentry_mode/satellites/service.py\<close>): an event
  reaches the queue only past the node registry, the sessions, the grants, the source registry and
  the journal, all of them at that moment.
\<close>

subsection \<open>What leaves the queue alone\<close>

definition kept_apart :: "'doc service \<Rightarrow> normalized list \<times> (string, 'doc incoming) dict" where
  "kept_apart s = (sv_queue s, sv_early s)"

lemma queue_simps [simp]:
  "kept_apart (emit x s) = kept_apart s" "kept_apart (count_refusal why s) = kept_apart s"
  "kept_apart (refuse n why s) = kept_apart s" "kept_apart (settle m s) = kept_apart s"
  "kept_apart (command n a s) = kept_apart s" "kept_apart (snd (authenticated n s)) = kept_apart s"
  "kept_apart (snd (decode_payload l n b p s)) = kept_apart s"
  by (auto simp: kept_apart_def emit_def count_refusal_def refuse_def settle_def command_def
      authenticated_def decode_payload_def Let_def
      split: prod.split sum.split node_error.split payload.split)

lemma kept_apart_updates [simp]:
  "kept_apart (s\<lparr>sv_sessions := a\<rparr>) = kept_apart s" "kept_apart (s\<lparr>sv_nodes := b\<rparr>) = kept_apart s"
  "kept_apart (s\<lparr>sv_sources := c\<rparr>) = kept_apart s" "kept_apart (s\<lparr>sv_health := d\<rparr>) = kept_apart s"
  "kept_apart (s\<lparr>sv_store := e\<rparr>) = kept_apart s" "kept_apart (s\<lparr>sv_limiter := f\<rparr>) = kept_apart s"
  "kept_apart (s\<lparr>sv_revisions := h\<rparr>) = kept_apart s"
  "kept_apart (s\<lparr>sv_configurations := k\<rparr>) = kept_apart s"
  by (simp_all add: kept_apart_def)

lemma queue_try:
  assumes "kept_apart (snd r) = q" "\<And>x. fst r = Inr x \<Longrightarrow> kept_apart (snd (f x (snd r))) = q"
  shows "kept_apart (snd (try_then r f)) = q"
  using assms by (cases r; cases "fst r") (auto simp: try_then_def)

lemma queue_adopt_one [simp]: "kept_apart (snd (adopt_one g n e s)) = kept_apart s"
proof -
  have "kept_apart (snd (set_source k st u)) = kept_apart u" for k st and u :: "'a service"
    by (simp add: set_source_def split: prod.split sum.split)
  moreover have "kept_apart (snd (new_source n i r kd st e u)) = kept_apart u" for i r kd st and u :: "'a service"
    by (auto simp: new_source_def Let_def split: prod.split sum.split option.split said_display.split)
  moreover have "kept_apart (adopt_streams g n e r u) = kept_apart u" for r and u :: "'a service"
    by (simp add: adopt_streams_def Let_def kept_apart_def)
  ultimately show ?thesis
    by (auto simp: adopt_one_def Let_def intro!: queue_try split: option.split)
qed

lemma queue_adopt_each [simp]: "kept_apart (snd (adopt_each g n es named s)) = kept_apart s"
  by (induction g n es named s rule: adopt_each.induct) (auto intro!: queue_try)

lemma queue_adopt [simp]: "kept_apart (snd (adopt_sources g n d s)) = kept_apart s"
  by (auto simp: adopt_sources_def intro!: queue_try)

lemma queue_end_session [simp]: "kept_apart (snd (end_session n c why s)) = kept_apart s"
  by (auto simp: end_session_def split: prod.split)

lemma queue_start_session [simp]: "kept_apart (snd (start_session g w n d s)) = kept_apart s"
  by (auto simp: start_session_def Let_def intro!: queue_try split: prod.split sum.split declared.split bool.split)

lemma queue_on_state [simp]: "kept_apart (snd (on_state g w n d s)) = kept_apart s"
proof -
  have "kept_apart t = kept_apart s" if "end_session n c why s = (b, t)" for b t c why
    using queue_end_session [of n c why s] that by simp
  then show ?thesis
    by (auto simp: on_state_def Let_def split: prod.split option.split bool.split)
qed

lemma queue_on_health [simp]: "kept_apart (on_health w n d s) = kept_apart s"
  by (simp add: on_health_def Let_def split: prod.split sum.split)

lemma queue_on_ack [simp]: "kept_apart (on_ack w n d s) = kept_apart s"
  by (simp add: on_ack_def split: option.split)

lemma queue_said:
  assumes "\<And>b t. kept_apart (snd (handler b t)) = kept_apart t"
  shows "kept_apart (snd (said g w m p handler s)) = kept_apart s"
proof (cases "decode_payload (su_limits g) (im_node m) (im_size m) p s")
  case (Pair b t)
  have "kept_apart t = kept_apart s"
    using queue_simps(7) [of "su_limits g" "im_node m" "im_size m" p s] Pair by simp
  then show ?thesis using Pair assms by (auto simp: said_def intro!: queue_try split: option.split)
qed

lemma queue_dispatch: "\<not> on_events_channel (im_content m) \<Longrightarrow> kept_apart (snd (dispatch g w m s)) = kept_apart s"
  by (cases "im_content m") (auto simp: dispatch_def intro!: queue_said)

subsection \<open>The service as a machine\<close>

datatype 'doc service_input =
  Receives world "'doc incoming"
| Approves "nat option" world string "string option" "string option"
| Revokes "nat option" world string "string option"
| Configures world string string "config_entry list"
| RenewsGrants world
| Tidies world
| TakesEvent
| LinkUp
| LinkDown
| Stops
| InTheShell node_admin

datatype service_output = Went | Raised service_error | Handed "normalized option"

definition went :: "(service_error + 'a) \<times> 'doc service \<Rightarrow> service_output \<times> 'doc service" where
  "went r = (case r of (Inl e, s) \<Rightarrow> (Raised e, s) | (Inr _, s) \<Rightarrow> (Went, s))"

fun do_service ::
  "'doc wiring \<Rightarrow> (string \<Rightarrow> string option) \<Rightarrow> (config_entry list \<Rightarrow> nat) \<Rightarrow> 'doc service \<Rightarrow>
     'doc service_input \<Rightarrow> service_output \<times> 'doc service" where
  "do_service g fp size_of s (Receives w m) = went (handle g w m s)"
| "do_service g fp size_of s (Approves f w n c p) = went (approve g fp f w n c p s)"
| "do_service g fp size_of s (Revokes f w n why) = went (revoke f w n why s)"
| "do_service g fp size_of s (Configures w i n es) = went (configure size_of w i n es s)"
| "do_service g fp size_of s (RenewsGrants w) = went (renew_due_grants w s)"
| "do_service g fp size_of s (Tidies w) = went (tidy g w s)"
| "do_service g fp size_of s TakesEvent = (Handed (fst (take_event s)), snd (take_event s))"
| "do_service g fp size_of s LinkUp = (Went, link_up s)"
| "do_service g fp size_of s LinkDown = (Went, link_down s)"
| "do_service g fp size_of s Stops = (Went, stop_service s)"
| "do_service g fp size_of s (InTheShell a) =
     (Went, s\<lparr>sv_nodes := snd (do_node fp (sv_nodes s) (Shell a))\<rparr>)"

lemma snd_went [simp]: "snd (went r) = snd r"
  by (simp add: went_def split: prod.split sum.split)

definition early_ok :: "'doc service \<Rightarrow> bool" where
  "early_ok s \<longleftrightarrow>
     (\<forall>n k. dict_get (sv_early s) n = Some k \<longrightarrow>
        im_node k = n \<and> on_state_channel (im_content k) \<and> im_qos k = 0)"

lemma early_ok_kept: "kept_apart s = kept_apart t \<Longrightarrow> early_ok s = early_ok t"
  by (simp add: early_ok_def kept_apart_def)

lemma early_ok_turned_down: "early_ok s \<Longrightarrow> early_ok (turned_down why m s)"
proof -
  assume ok: "early_ok s"
  then have "early_ok (if why = ''not_approved'' \<and> on_state_channel (im_content m) then keep_early m s else s)"
    by (simp add: early_ok_def keep_early_def)
  then show ?thesis by (simp add: turned_down_def early_ok_kept [OF queue_simps(4)])
qed

lemma early_ok_take: "early_ok s \<Longrightarrow> early_ok (snd (take_early n s))"
  by (simp add: early_ok_def take_early_def)

lemma queue_turned_down [simp]: "sv_queue (turned_down why m s) = sv_queue s"
proof -
  have "sv_queue (settle m u) = sv_queue u" for u :: "'a service"
    by (simp add: settle_def emit_def)
  then show ?thesis by (simp add: turned_down_def keep_early_def)
qed

lemma queue_take [simp]: "sv_queue (snd (take_early n s)) = sv_queue s"
  by (simp add: take_early_def)

text \<open>What reading a kept message leaves: the queue, and a waiting room in order.\<close>

lemma kept_message:
  assumes ok: "early_ok t" and k: "dict_get (sv_early t) n = Some k"
  shows "sv_queue (snd (handle_kept g w k (snd (take_early n t)))) = sv_queue t \<and>
    early_ok (snd (handle_kept g w k (snd (take_early n t))))"
proof -
  have state: "\<not> on_events_channel (im_content k)"
  proof -
    have "on_state_channel (im_content k)" using ok k unfolding early_ok_def by blast
    then show ?thesis by (cases "im_content k") simp_all
  qed
  let ?t = "snd (take_early n t)"
  obtain r u where a: "authenticated (im_node k) ?t = (r, u)" by fastforce
  have u: "kept_apart u = kept_apart ?t" using queue_simps(6) [of "im_node k" ?t] a by simp
  then have uq: "sv_queue u = sv_queue t" by (simp add: kept_apart_def)
  have ue: "early_ok u" using early_ok_kept [OF u] early_ok_take [OF ok] by simp
  have d: "kept_apart (snd (dispatch g w k u)) = kept_apart u" by (rule queue_dispatch) (rule state)
  show ?thesis
  proof (cases r)
    case (Inr why)
    then show ?thesis using a uq ue d early_ok_turned_down [OF ue] early_ok_kept [OF d]
      by (cases why) (auto simp: handle_kept_def kept_apart_def)
  qed (use a uq ue in \<open>simp add: handle_kept_def\<close>)
qed

text \<open>
  The moment a message is decided on: the state after the sender was let in and what it had said
  before was read.
\<close>

definition admitted_at :: "'doc wiring \<Rightarrow> world \<Rightarrow> 'doc incoming \<Rightarrow> 'doc service \<Rightarrow> 'doc service \<Rightarrow> bool" where
  "admitted_at g w m s u \<longleftrightarrow>
     (\<exists>t. authenticated (im_node m) s = (Inr None, t) \<and>
        (case dict_get (sv_early t) (im_node m) of
           None \<Rightarrow> u = snd (take_early (im_node m) t)
         | Some k \<Rightarrow>
             if on_state_channel (im_content m) then u = snd (take_early (im_node m) t)
             else handle_kept g w k (snd (take_early (im_node m) t)) = (Inr (), u)))"

lemma handle_cases:
  assumes "early_ok s"
  obtains (raised) "sv_queue (snd (handle g w m s)) = sv_queue s" "early_ok (snd (handle g w m s))"
      "\<exists>e. fst (handle g w m s) = Inl e"
  | (turned) t why where "authenticated (im_node m) s = (Inr (Some why), t)"
      "handle g w m s = (Inr (), turned_down why m t)" "sv_queue t = sv_queue s" "early_ok t"
  | (let_in) u where "admitted_at g w m s u" "handle g w m s = dispatch g w m u"
      "sv_queue u = sv_queue s" "early_ok u"
proof -
  obtain r t where a: "authenticated (im_node m) s = (r, t)" by fastforce
  have t: "kept_apart t = kept_apart s" using queue_simps(6) [of "im_node m" s] a by simp
  then have q: "sv_queue t = sv_queue s" by (simp add: kept_apart_def)
  have e: "early_ok t" using early_ok_kept [OF t] assms by simp
  let ?t = "snd (take_early (im_node m) t)"
  have e': "early_ok ?t" by (rule early_ok_take) (rule e)
  show thesis
  proof (cases r)
    case (Inl x)
    then show ?thesis using raised a q e by (simp add: handle_def)
  next
    case (Inr why)
    show ?thesis
    proof (cases why)
      case (Some y)
      then show ?thesis using turned a Inr q e by (simp add: handle_def)
    next
      case None
      have in_now: "admitted_at g w m s ?t" "handle g w m s = dispatch g w m ?t"
        if "dict_get (sv_early t) (im_node m) = None \<or> on_state_channel (im_content m)"
        using that a Inr None
        by (auto simp: admitted_at_def handle_def take_early_def split: option.split)
      show ?thesis
      proof (cases "dict_get (sv_early t) (im_node m) = None \<or> on_state_channel (im_content m)")
        case True
        from let_in [OF in_now(1) [OF True] in_now(2) [OF True]] q e' show ?thesis by simp
      next
        case False
        then obtain k where k: "dict_get (sv_early t) (im_node m) = Some k"
          by (cases "dict_get (sv_early t) (im_node m)") simp_all
        have go: "handle g w m s = try_then (handle_kept g w k ?t) (\<lambda>_. dispatch g w m)"
          using k False a Inr None by (simp add: handle_def take_early_def)
        from kept_message [OF e k, of g w] have kept:
          "sv_queue (snd (handle_kept g w k ?t)) = sv_queue s" "early_ok (snd (handle_kept g w k ?t))"
          using q by simp_all
        show ?thesis
        proof (cases "handle_kept g w k ?t")
          case (Pair x u)
          show ?thesis
          proof (cases x)
            case (Inl y)
            then show ?thesis using raised go kept Pair by simp
          next
            case (Inr y)
            then have "admitted_at g w m s u" using a \<open>r = Inr why\<close> None k False Pair
              by (simp add: admitted_at_def)
            with let_in show ?thesis using go kept Pair Inr by simp
          qed
        qed
      qed
    qed
  qed
qed

subsection \<open>An event in the queue\<close>

definition permitted :: "world \<Rightarrow> string \<Rightarrow> 'doc event_document \<Rightarrow> session_manager \<Rightarrow> bool" where
  "permitted w n d sm \<longleftrightarrow>
     (\<exists>se gr. current_session sm n = Some se \<and> ed_connection d = Some (se_connection se) \<and>
        ed_epoch d \<in> {None, Some (Some (se_epoch se))} \<and>
        granted sm (wo_mono w) n ''events'' = Some gr \<and> ed_grant d = Some (gr_id gr))"

lemma same_party:
  "sv_sessions (refuse n why s) = sv_sessions s" "sv_sources (refuse n why s) = sv_sources s"
  "sv_store (refuse n why s) = sv_store s"
  "sv_sessions (snd (decode_payload l n b p s)) = sv_sessions s"
  "sv_sources (snd (decode_payload l n b p s)) = sv_sources s"
  "sv_store (snd (decode_payload l n b p s)) = sv_store s"
  by (auto simp: decode_payload_def refuse_def count_refusal_def split: payload.split)

lemma receipt_queues:
  assumes "sv_queue (snd (on_receipt g w m r s)) \<noteq> sv_queue s"
  obtains e where "rp_event r = Some e" "rp_reason r = None"
    "sv_queue (snd (on_receipt g w m r s)) = sv_queue s @ [e]"
    "int (length (sv_queue s)) < queue_depth (su_limits g)"
    "sv_store (snd (on_receipt g w m r s)) = sv_store s"
proof -
  have q: "sv_queue (settle m u) = sv_queue u" "sv_store (settle m u) = sv_store u"
    "sv_queue (refuse n why u) = sv_queue u" for u :: "'a service" and n why
    by (simp_all add: settle_def emit_def refuse_def count_refusal_def)
  have full: "sv_queue (snd (enqueue l w n e u)) = sv_queue u \<or>
      (int (length (sv_queue u)) < queue_depth l \<and> sv_queue (snd (enqueue l w n e u)) = sv_queue u @ [e] \<and>
       sv_store (snd (enqueue l w n e u)) = sv_store u)" for l n e and u :: "'a service"
    by (auto simp: enqueue_def Let_def q split: prod.split sum.split store_failure.split)
  show thesis
  proof (cases "rp_reason r")
    case (Some why)
    then show thesis using assms by (simp add: on_receipt_def Let_def q split: if_splits)
  next
    case None
    show thesis
    proof (cases "rp_event r")
      case None
      with \<open>rp_reason r = None\<close> show thesis using assms
        by (simp add: on_receipt_def Let_def q split: if_splits)
    next
      case (Some e)
      define u where "u = (if rp_settle r then settle m (s\<lparr>sv_health := note_waited (wo_wall w) (im_node m) (rp_waited r) (sv_health s)\<rparr>)
        else s\<lparr>sv_health := note_waited (wo_wall w) (im_node m) (rp_waited r) (sv_health s)\<rparr>)"
      define v where "v = u\<lparr>sv_accepted := sv_accepted u + 1, sv_health := note_accepted (im_node m) (sv_health u)\<rparr>"
      have v: "sv_queue v = sv_queue s" "sv_store v = sv_store s" by (simp_all add: v_def u_def q)
      have "on_receipt g w m r s = enqueue (su_limits g) w (im_node m) e v"
        using None Some by (simp add: on_receipt_def Let_def v_def u_def)
      with full [of "su_limits g" "im_node m" e v] v assms that [OF Some None] show thesis by auto
    qed
  qed
qed

lemma is_current_session:
  "is_current sm n c ep \<longleftrightarrow>
     (\<exists>se. current_session sm n = Some se \<and> c = se_connection se \<and> (ep = None \<or> ep = Some (se_epoch se)))"
  by (auto simp: is_current_def split: option.split)

lemma permitted_iff:
  "permitted w n d sm \<longleftrightarrow>
     (\<exists>c. ed_connection d = Some c \<and>
        (case ed_epoch d of None \<Rightarrow> is_current sm n c None | Some None \<Rightarrow> False
         | Some (Some i) \<Rightarrow> is_current sm n c (Some i))) \<and>
     (\<exists>i. ed_grant d = Some i \<and> grant_is_current sm (wo_mono w) n i ''events'')"
  by (cases "ed_epoch d"; cases "current_session sm n")
    (auto simp: permitted_def is_current_session grant_is_current_def granted_def split: option.splits)

definition event_message :: "world \<Rightarrow> 'doc incoming \<Rightarrow> 'doc event_document \<Rightarrow> 'doc message" where
  "event_message w m d =
     \<lparr>msg_node = im_node m, msg_doc = ed_body d, msg_retained = im_retained m, msg_now = wo_wall w,
      msg_mono = wo_mono w, msg_read = wo_read w, msg_write = wo_write w\<rparr>"

lemma on_events_permitted:
  "on_events g w m d s =
     (if \<not> ed_whole d then turn_away ''not_an_envelope'' m s
      else if permitted w (im_node m) d (sv_sessions s)
      then (case accept (the_door g s) (sv_store s) (event_message w m d) of
              (Inl e, st) \<Rightarrow> (Inl (StoreFails e), s\<lparr>sv_store := st\<rparr>)
            | (Inr r, st) \<Rightarrow> on_receipt g w m r (s\<lparr>sv_store := st\<rparr>))
      else on_events g w m d s)"
  by (auto simp: on_events_def permitted_iff Let_def event_message_def split: option.splits)

lemma on_events_unpermitted:
  "ed_whole d \<Longrightarrow> \<not> permitted w (im_node m) d (sv_sessions s) \<Longrightarrow>
     \<exists>why. on_events g w m d s = turn_away why m s"
  by (auto simp: on_events_def permitted_iff Let_def split: option.splits)

text \<open>What it takes for a message to put an event in the queue.\<close>

definition put_in_queue ::
  "'doc wiring \<Rightarrow> world \<Rightarrow> 'doc incoming \<Rightarrow> 'doc service \<Rightarrow> 'doc service \<Rightarrow> normalized \<Rightarrow> bool" where
  "put_in_queue g w m u t e \<longleftrightarrow>
     (\<exists>claimed d rec. im_content m = OnEvents (Says claimed d) \<and> pred_option (\<lambda>c. c = im_node m) claimed \<and>
        im_size m \<le> event_max_bytes (su_limits g) \<and>
        permitted w (im_node m) d (sv_sessions u) \<and>
        reg_get (sv_sources u) (ref_id (no_ref e)) = Some rec \<and> rec_state rec \<noteq> Disabled \<and>
        no_node e = im_node m \<and> no_eligible e \<and>
        sv_queue t = sv_queue u @ [e] \<and> int (length (sv_queue t)) \<le> queue_depth (su_limits g) \<and>
        entry_of e \<in> jr_entry ` set (journal (sv_store t)))"

lemma accept_queues:
  assumes "accept gd st msg = (Inr r, st')" "rp_event r = Some e"
  obtains rec where "reg_get (in_sources gd) (ref_id (no_ref e)) = Some rec" "rec_state rec \<noteq> Disabled"
    "no_node e = msg_node msg" "no_eligible e" "entry_of e \<in> jr_entry ` set (journal st')"
  using assms
proof (cases rule: accept_cases [of gd st msg])
  case (stored e' m m' st'')
  then have e: "e' = e" "no_eligible e" "st'' = st'" using assms by (auto split: if_splits)
  from stored(2) obtain v rec cls why where
    "admissible gd msg v rec" "e' = normalize gd msg (on_node (msg_node msg) (ev_source (env_event v))) rec v cls why"
    unfolding stored_as_def by blast
  moreover from this(2) have "ref_id (no_ref e') = source_key (msg_node msg) (ev_source (env_event v))"
    by (simp add: normalize_def Let_def on_node_def)
  ultimately have "reg_get (in_sources gd) (ref_id (no_ref e)) = Some rec" "rec_state rec \<noteq> Disabled"
    using e(1) by (simp_all add: admissible_def)
  moreover have "entry_of e \<in> jr_entry ` set (journal st')"
    using stored_as_facts(7) [OF stored(2)] e by simp
  ultimately show thesis using that e stored_as_facts(8) [OF stored(2)] by blast
qed (use assms in auto)

lemma events_queue:
  assumes "sv_queue (snd (on_events g w m d s)) \<noteq> sv_queue s"
  shows "permitted w (im_node m) d (sv_sessions s) \<and>
    (\<exists>e rec. reg_get (sv_sources s) (ref_id (no_ref e)) = Some rec \<and> rec_state rec \<noteq> Disabled \<and>
        no_node e = im_node m \<and> no_eligible e \<and>
        sv_queue (snd (on_events g w m d s)) = sv_queue s @ [e] \<and>
        int (length (sv_queue s)) < queue_depth (su_limits g) \<and>
        entry_of e \<in> jr_entry ` set (journal (sv_store (snd (on_events g w m d s)))))"
proof -
  have away: "sv_queue (snd (turn_away why m s)) = sv_queue s" for why
    by (simp add: turn_away_def settle_def emit_def refuse_def count_refusal_def)
  have whole: "ed_whole d"
  proof (rule ccontr)
    assume "\<not> ed_whole d"
    then have "on_events g w m d s = turn_away ''not_an_envelope'' m s"
      by (simp add: on_events_def Let_def)
    with assms away show False by simp
  qed
  have ok: "permitted w (im_node m) d (sv_sessions s)"
  proof (rule ccontr)
    assume "\<not> permitted w (im_node m) d (sv_sessions s)"
    from on_events_unpermitted [OF whole this] obtain why where "on_events g w m d s = turn_away why m s" by blast
    with assms away show False by simp
  qed
  obtain r st where acc: "accept (the_door g s) (sv_store s) (event_message w m d) = (r, st)" by fastforce
  show ?thesis
  proof (cases r)
    case (Inl e)
    then show ?thesis using assms acc on_events_permitted [of g w m d s] whole ok by simp
  next
    case (Inr rc)
    let ?s = "s\<lparr>sv_store := st\<rparr>"
    have go: "on_events g w m d s = on_receipt g w m rc ?s"
      using acc Inr on_events_permitted [of g w m d s] whole ok by simp
    then have "sv_queue (snd (on_receipt g w m rc ?s)) \<noteq> sv_queue ?s" using assms by simp
    then obtain e where e: "rp_event rc = Some e"
      "sv_queue (snd (on_receipt g w m rc ?s)) = sv_queue ?s @ [e]"
      "int (length (sv_queue ?s)) < queue_depth (su_limits g)"
      "sv_store (snd (on_receipt g w m rc ?s)) = sv_store ?s" by (rule receipt_queues)
    from acc Inr e(1) obtain rec where "reg_get (in_sources (the_door g s)) (ref_id (no_ref e)) = Some rec"
      "rec_state rec \<noteq> Disabled" "no_node e = msg_node (event_message w m d)" "no_eligible e"
      "entry_of e \<in> jr_entry ` set (journal st)"
      by (auto elim: accept_queues)
    then show ?thesis using ok e go by (auto simp: the_door_def event_message_def)
  qed
qed

lemma take_early_same: "sv_sources (snd (take_early n s)) = sv_sources s" "sv_sessions (snd (take_early n s)) = sv_sessions s"
  by (simp_all add: take_early_def)

lemma dispatch_events:
  assumes "sv_queue (snd (dispatch g w m u)) \<noteq> sv_queue u"
  shows "\<exists>e. put_in_queue g w m u (snd (dispatch g w m u)) e"
proof -
  have "on_events_channel (im_content m)"
    using assms queue_dispatch [of m g w u] by (auto simp: kept_apart_def)
  then obtain p where p: "im_content m = OnEvents p" by (cases "im_content m") simp_all
  have away: "sv_queue (snd (turn_away why m v)) = sv_queue v" for why and v :: "'a service"
    by (simp add: turn_away_def settle_def emit_def refuse_def count_refusal_def)
  obtain b left where a: "allow (sv_limiter u) (wo_mono w, im_node m) = (b, left)" by fastforce
  let ?u = "u\<lparr>sv_limiter := left\<rparr>"
  have b: "b = None" using assms p a away [of _ ?u] by (cases b) (simp_all add: dispatch_def)
  obtain q v where dec: "decode_payload (su_limits g) (im_node m) (im_size m) p ?u = (q, v)" by fastforce
  have v: "sv_queue v = sv_queue u" "sv_sessions v = sv_sessions u" "sv_sources v = sv_sources u"
    using queue_simps(7) [of "su_limits g" "im_node m" "im_size m" p ?u] dec
      same_party(4,5) [of "su_limits g" "im_node m" "im_size m" p ?u]
    by (simp_all add: kept_apart_def)
  have set: "sv_queue (settle m z) = sv_queue z" "sv_store (settle m z) = sv_store z" for z :: "'a service"
    by (simp_all add: settle_def emit_def)
  show ?thesis
  proof (cases q)
    case None
    then show ?thesis using assms p a b dec v set by (simp add: dispatch_def said_def)
  next
    case (Some d)
    from dec Some obtain claimed where c: "p = Says claimed d" "pred_option (\<lambda>c. c = im_node m) claimed"
      "im_size m \<le> event_max_bytes (su_limits g)"
      by (auto simp: decode_payload_def split: payload.splits if_splits)
    obtain r z where on: "on_events g w m d v = (r, z)" by fastforce
    have go: "snd (dispatch g w m u) = z" using p a b dec Some on
      by (cases r) (simp_all add: dispatch_def said_def)
    then have "sv_queue (snd (on_events g w m d v)) \<noteq> sv_queue v" using assms on v by simp
    from events_queue [OF this] on v show ?thesis unfolding go
      by (auto simp: put_in_queue_def p c)
  qed
qed

lemma try_keeps:
  assumes "P (snd r) = a" "\<And>x. P (snd (f x (snd r))) = a"
  shows "P (snd (try_then r f)) = a"
  using assms by (cases r; cases "fst r") (auto simp: try_then_def)

lemma said_keeps:
  assumes "P (snd (decode_payload (su_limits g) (im_node m) (im_size m) p s)) = P s"
    "\<And>b t. P (snd (handler b t)) = P t" "\<And>s. P (settle m s) = P s"
  shows "P (snd (said g w m p handler s)) = P s"
proof (cases "decode_payload (su_limits g) (im_node m) (im_size m) p s")
  case (Pair b t)
  then have "P t = P s" using assms(1) by simp
  then show ?thesis using Pair assms(2,3)
    by (auto simp: said_def intro!: try_keeps [of P] split: option.split)
qed

lemma early_ok_dispatch:
  assumes "early_ok u"
  shows "early_ok (snd (dispatch g w m u))"
proof (cases "on_events_channel (im_content m)")
  case False
  then show ?thesis using queue_dispatch [of m g w u] early_ok_kept assms by blast
next
  case True
  then obtain p where p: "im_content m = OnEvents p" by (cases "im_content m") simp_all
  have early: "sv_early (refuse n why s) = sv_early s" "sv_early (settle m s) = sv_early s" for n why and s :: "'a service"
    by (simp_all add: refuse_def count_refusal_def settle_def emit_def)
  have enq: "sv_early (snd (enqueue l w n e s)) = sv_early s" for l n e and s :: "'a service"
    by (auto simp: enqueue_def Let_def early split: prod.split sum.split store_failure.split)
  have rc: "sv_early (snd (on_receipt g w m r s)) = sv_early s" for r and s :: "'a service"
    by (auto simp: on_receipt_def Let_def early enq split: option.split)
  have away: "sv_early (snd (turn_away why m s)) = sv_early s" for why and s :: "'a service"
    by (simp add: turn_away_def early)
  have ev: "sv_early (snd (on_events g w m d s)) = sv_early s" for d and s :: "'a service"
    by (auto simp: on_events_def Let_def rc away split: option.split prod.split sum.split)
  have dec: "sv_early (snd (decode_payload l n b q s)) = sv_early s" for l n b q and s :: "'a service"
    by (auto simp: decode_payload_def early split: payload.split)
  have said: "sv_early (snd (said g w m p (on_events g w m) s)) = sv_early s" for s :: "'a service"
    by (rule said_keeps) (simp_all add: dec ev early)
  have "sv_early (snd (dispatch g w m u)) = sv_early u"
    by (auto simp: dispatch_def p said away split: prod.split option.split)
  then show ?thesis using assms by (simp add: early_ok_def)
qed

lemma handle_queue:
  assumes "early_ok s"
  shows "early_ok (snd (handle g w m s)) \<and>
    (sv_queue (snd (handle g w m s)) = sv_queue s \<or>
     (\<exists>u e. admitted_at g w m s u \<and> sv_queue u = sv_queue s \<and> put_in_queue g w m u (snd (handle g w m s)) e))"
  using assms
proof (cases rule: handle_cases [of s g w m])
  case raised
  then show ?thesis by simp
next
  case (turned t why)
  then show ?thesis using early_ok_turned_down [of t why m] by simp
next
  case (let_in u)
  then show ?thesis using dispatch_events [of g w m u] early_ok_dispatch [of u g w m] by auto
qed

lemma early_state: "early_ok s \<Longrightarrow> dict_get (sv_early s) n = Some k \<Longrightarrow> \<not> on_events_channel (im_content k)"
  unfolding early_ok_def by (metis on_events_channel.simps on_state_channel.elims(2))

lemma approve_queue:
  assumes ok: "early_ok s"
  shows "early_ok (snd (approve g fp f w n c p s)) \<and> sv_queue (snd (approve g fp f w n c p s)) = sv_queue s"
proof -
  obtain r nodes' where a: "approve_node fp (wo_wall w) f n c p (sv_nodes s) = (r, nodes')" by fastforce
  let ?s = "s\<lparr>sv_nodes := nodes'\<rparr>"
  have s: "early_ok ?s" "sv_queue ?s = sv_queue s" using ok by (simp_all add: early_ok_def)
  have t: "early_ok (snd (take_early n ?s))" "sv_queue (snd (take_early n ?s)) = sv_queue s"
    using early_ok_take [OF s(1)] by simp_all
  show ?thesis
  proof (cases r)
    case (Inr x)
    show ?thesis
    proof (cases "dict_get (sv_early s) n")
      case None
      then show ?thesis using a Inr t by (simp add: approve_def take_early_def)
    next
      case (Some k)
      let ?h = "handle g w k (snd (take_early n ?s))"
      have go: "snd (approve g fp f w n c p s) = snd ?h"
        using a Inr Some by (cases ?h; cases "fst ?h") (simp_all add: approve_def take_early_def)
      have "\<not> put_in_queue g w k u v e" for u v e
        using early_state [OF ok Some] by (auto simp: put_in_queue_def)
      with handle_queue [OF t(1), of g w k] t(2) show ?thesis unfolding go by auto
    qed
  qed (use a s in \<open>simp add: approve_def\<close>)
qed

lemma configure_kept: "kept_apart (snd (configure z w i n es s)) = kept_apart s"
proof -
  have "kept_apart (snd (send_configuration w i n s)) = kept_apart s" by (simp add: send_configuration_def Let_def)
  then show ?thesis by (simp add: configure_def split: option.split)
qed

lemma renew_kept: "kept_apart (snd (renew_due_grants w s)) = kept_apart s"
proof -
  have "kept_apart (snd (renew_each w xs s)) = kept_apart s" for xs
    by (induction xs arbitrary: s) (auto split: prod.split sum.split)
  then show ?thesis by (simp add: renew_due_grants_def)
qed

lemma tidy_kept: "kept_apart (snd (tidy g w s)) = kept_apart s"
  by (auto simp: tidy_def split: prod.split sum.split)

lemma stop_kept: "kept_apart (stop_service s) = kept_apart s"
proof -
  have "kept_apart (fold (\<lambda>r. command (f r) a) rs u) = kept_apart u" for rs :: "node_record list" and f a and u :: "'a service"
    by (induction rs arbitrary: u) simp_all
  then show ?thesis by (simp add: stop_service_def Let_def)
qed

lemma service_step:
  assumes ok: "early_ok s"
  shows "early_ok (snd (do_service g fp z s x)) \<and>
    (sv_queue (snd (do_service g fp z s x)) = sv_queue s \<or>
     sv_queue (snd (do_service g fp z s x)) = tl (sv_queue s) \<or>
     (\<exists>w m u e. x = Receives w m \<and> admitted_at g w m s u \<and> sv_queue u = sv_queue s \<and>
        put_in_queue g w m u (snd (do_service g fp z s x)) e))"
proof -
  have same: ?thesis if "kept_apart (snd (do_service g fp z s x)) = kept_apart s"
    using that early_ok_kept [OF that] ok by (simp add: kept_apart_def)
  show ?thesis
  proof (cases x)
    case (Receives w m)
    then show ?thesis using handle_queue [OF ok, of g w m] by auto
  next
    case (Approves f w n c p)
    then show ?thesis using approve_queue [OF ok, of g fp f w n c p] by simp
  next
    case (Revokes f w n why)
    show ?thesis
    proof (cases "revoke_node (wo_wall w) f n why (sv_nodes s)")
      case (Pair r nodes')
      then show ?thesis using Revokes ok
        by (cases r) (auto simp: revoke_def Let_def early_ok_def emit_def command_def)
    qed
  next
    case TakesEvent
    then show ?thesis using ok by (simp add: take_event_def early_ok_def split: list.split)
  next
    case (Configures w i n es)
    then show ?thesis by (intro same) (simp add: configure_kept)
  next
  qed (intro same; simp add: renew_kept tidy_kept stop_kept link_up_def link_down_def)+
qed

interpretation service_machine: machine "do_service g fp z" early_ok for g fp z
  by unfold_locales (use service_step in blast)

lemma authenticated_approved:
  assumes "authenticated n s = (Inr None, t)"
  shows "\<exists>x. get_node (sv_nodes t) n = Some x \<and> nd_status x = Approved"
proof -
  have "\<exists>x. get_node (snd (authenticate n c r)) n = Some x \<and> nd_status x = Approved"
    if "fst (authenticate n c r) = Inr y" for c r y
    using that
    by (cases "refresh r"; cases "fst (refresh r)")
      (auto simp: authenticate_def require_node_def may_publish_def split: option.splits if_splits)
  note held = this
  obtain r nodes' where a: "authenticate n \<lparr>cr_username = None, cr_client = None, cr_fingerprint = None\<rparr> (sv_nodes s) = (r, nodes')"
    by fastforce
  show ?thesis
  proof (cases r)
    case (Inl e)
    then show ?thesis using assms a by (cases e) (simp_all add: authenticated_def)
  next
    case (Inr y)
    then show ?thesis
      using assms a held [of "\<lparr>cr_username = None, cr_client = None, cr_fingerprint = None\<rparr>" "sv_nodes s" y]
      by (auto simp: authenticated_def)
  qed
qed

text \<open>
  C3. An event reaches the queue to the rules only when everything speaks for it at that moment: it
  arrived in a message on the events topic of a node that the registry holds as approved, it is of
  the session that node has now and carries the grant that session has now, its source is known
  and not switched off, the door marked it eligible and it is written in the journal. The queue never
  grows beyond its depth, and nothing but a received message puts anything in it.
\<close>

theorem only_the_permitted_are_heard:
  fixes g fp z s0 xs x
  defines "s \<equiv> snd (run (do_service g fp z) s0 xs)"
  defines "t \<equiv> snd (do_service g fp z s x)"
  assumes "sv_early s0 = []" "length (sv_queue s) < length (sv_queue t)"
  shows "\<exists>w m u e claimed d rec a nd.
    x = Receives w m \<and> admitted_at g w m s u \<and>
    authenticated (im_node m) s = (Inr None, a) \<and>
    get_node (sv_nodes a) (im_node m) = Some nd \<and> nd_status nd = Approved \<and>
    im_content m = OnEvents (Says claimed d) \<and> pred_option (\<lambda>c. c = im_node m) claimed \<and>
    permitted w (im_node m) d (sv_sessions u) \<and>
    reg_get (sv_sources u) (ref_id (no_ref e)) = Some rec \<and> rec_state rec \<noteq> Disabled \<and>
    no_node e = im_node m \<and> no_eligible e \<and> entry_of e \<in> jr_entry ` set (journal (sv_store t)) \<and>
    sv_queue t = sv_queue s @ [e] \<and> int (length (sv_queue t)) \<le> queue_depth (su_limits g)"
proof -
  have "early_ok s0" using assms(3) by (simp add: early_ok_def)
  then have ok: "early_ok s" unfolding s_def by (rule service_machine.run_inv)
  from service_step [OF ok, of g fp z x] assms(4) obtain w m u e where
    x: "x = Receives w m" "admitted_at g w m s u" "sv_queue u = sv_queue s" "put_in_queue g w m u t e"
    unfolding t_def by auto
  from x(2) obtain a where a: "authenticated (im_node m) s = (Inr None, a)" by (auto simp: admitted_at_def)
  from authenticated_approved [OF a] obtain nd where "get_node (sv_nodes a) (im_node m) = Some nd" "nd_status nd = Approved"
    by blast
  with x a show ?thesis unfolding put_in_queue_def by metis
qed

subsection \<open>A hub with one satellite\<close>

definition hall_hub :: "envelope service" where
  "hall_hub =
     \<lparr>sv_nodes = hub_registry [hall_node], sv_sessions = idle_manager, sv_sources = [], sv_health = [],
      sv_store = new_store None, sv_limiter = new_limiter default_limits 0, sv_queue = [],
      sv_early = [], sv_revisions = [], sv_configurations = [], sv_cameras = {}, sv_microphones = {},
      sv_accepted = 0, sv_refused = 0, sv_reasons = [], sv_effects = []\<rparr>"

definition hall_wiring :: "envelope wiring" where
  "hall_wiring =
     \<lparr>su_decode = Some, su_digest = (\<lambda>_. ''digest''), su_limits = default_limits,
      su_has_cameras = False, su_has_microphones = False\<rparr>"

definition calm :: "seconds \<Rightarrow> world" where
  "calm t =
     \<lparr>wo_wall = t, wo_mono = t, wo_epoch = Some 2, wo_grant = ''g'', wo_read = DiskOk,
      wo_write = DiskOk, wo_mark = DiskOk, wo_published = True\<rparr>"

definition hall_says :: "nat \<Rightarrow> envelope content \<Rightarrow> envelope incoming" where
  "hall_says k c =
     \<lparr>im_node = ''hall'', im_content = c, im_size = 300, im_retained = False, im_mid = k, im_qos = 1\<rparr>"

definition hall_hello :: "declared \<Rightarrow> envelope incoming" where
  "hall_hello ds = hall_says 1 (OnState (Says (Some ''hall'')
     \<lparr>sd_version = Some (JInt 1), sd_online = True, sd_connection = Some ''c'', sd_boot = Some ''b'',
      sd_agent = None, sd_revision = None, sd_sources = ds\<rparr>))"

definition hall_pir :: declared where
  "hall_pir = Listed [Some \<lparr>ds_id = Some ''pir'', ds_kind = KindText ''gpio'', ds_off = False, ds_display = NoDisplay\<rparr>]"

definition hall_event :: "envelope incoming" where
  "hall_event = hall_says 2 (OnEvents (Says None
     \<lparr>ed_whole = True, ed_connection = Some ''c'', ed_epoch = Some (Some 8), ed_grant = Some ''g'',
      ed_body = msg_doc (sample_message False 100 (sample_event ''a'' ''b'' 1 100))\<rparr>))"

lemma hall_heard:
  "(\<lambda>s. (length (sv_queue s), length (sv_queue (snd (do_service hall_wiring Some length s (Receives (calm 101) hall_event))))))
     (snd (run (do_service hall_wiring Some length) hall_hub [Receives (calm 100) (hall_hello hall_pir)])) = (0, 1)"
  by code_simp

lemma only_the_permitted_are_heard_witness:
  "\<exists>e (rec :: source_record). sv_queue (snd (do_service hall_wiring Some length
       (snd (run (do_service hall_wiring Some length) hall_hub [Receives (calm 100) (hall_hello hall_pir)]))
       (Receives (calm 101) hall_event))) = [e] \<and> no_node e = ''hall'' \<and> no_eligible e \<and> rec_state rec \<noteq> Disabled"
proof -
  let ?s = "snd (run (do_service hall_wiring Some length) hall_hub [Receives (calm 100) (hall_hello hall_pir)])"
  let ?t = "snd (do_service hall_wiring Some length ?s (Receives (calm 101) hall_event))"
  have a: "sv_early hall_hub = []" by (simp add: hall_hub_def)
  have b: "length (sv_queue ?s) < length (sv_queue ?t)" using hall_heard by simp
  from only_the_permitted_are_heard [OF a b] obtain e w m and rec :: source_record where "Receives (calm 101) hall_event = Receives w m" "rec_state rec \<noteq> Disabled"
    "no_node e = im_node m" "no_eligible e" "sv_queue ?t = sv_queue ?s @ [e]"
    by (elim exE conjE) (rule that; assumption)
  moreover have "sv_queue ?s = []" using hall_heard by simp
  ultimately show ?thesis by (auto simp: hall_event_def hall_says_def)
qed

end
