(* ===== verification/Documents.thy ===== *)
theory Documents
  imports Prelude
begin

section \<open>Documents a satellite reads\<close>

text \<open>
  What \<open>json.loads\<close> and \<open>tomllib.load\<close> return on the satellite: scalars, lists, tables with their
  keys in order, and the dates and times of TOML, of which the code never looks inside. A number
  of a document is finite; JSON's \<open>NaN\<close> and \<open>Infinity\<close> are not modelled.
\<close>

datatype document = Plain json_value | Many "document list" | Table "(string \<times> document) list" | Date

abbreviation Text :: "string \<Rightarrow> document" where "Text s \<equiv> Plain (JStr s)"
abbreviation Whole :: "int \<Rightarrow> document" where "Whole i \<equiv> Plain (JInt i)"
abbreviation Nothing :: document where "Nothing \<equiv> Plain JNull"

text \<open>\<open>document.get(key, default)\<close>.\<close>

definition get_or :: "document \<Rightarrow> (string, document) dict \<Rightarrow> string \<Rightarrow> document" where
  "get_or d t k = (case dict_get t k of None \<Rightarrow> d | Some v \<Rightarrow> v)"

text \<open>Python's \<open>==\<close>: numbers and truth values are compared by their value.\<close>

fun number_of :: "json_value \<Rightarrow> rat option" where
  "number_of (JBool b) = Some (if b then 1 else 0)"
| "number_of (JInt i) = Some (of_int i)"
| "number_of (JFloat x) = Some x"
| "number_of _ = None"

definition same_value :: "json_value \<Rightarrow> json_value \<Rightarrow> bool" where
  "same_value a b =
     (case (number_of a, number_of b) of (Some x, Some y) \<Rightarrow> x = y | (None, None) \<Rightarrow> a = b | _ \<Rightarrow> False)"

fun same_document :: "document \<Rightarrow> document \<Rightarrow> bool" where
  "same_document (Plain a) (Plain b) = same_value a b"
| "same_document a b = (a = b)"

text \<open>\<open>float(i)\<close> raises for a whole number that no double is near.\<close>

definition float_overflows :: "int \<Rightarrow> bool" where
  "float_overflows i \<longleftrightarrow> 2 ^ 1024 - 2 ^ 970 \<le> abs i"

lemma same_value_refl [simp]: "same_value a a"
  by (cases a) (simp_all add: same_value_def)

lemma same_value_text [simp]: "same_value (JStr s) b \<longleftrightarrow> b = JStr s" "same_value b (JStr s) \<longleftrightarrow> b = JStr s"
  by (cases b; auto simp: same_value_def)+

text \<open>A check that raises ends the ones after it.\<close>

definition and_then :: "'e + 'a \<Rightarrow> ('a \<Rightarrow> 'e + 'b) \<Rightarrow> 'e + 'b" where
  "and_then r f = (case r of Inl e \<Rightarrow> Inl e | Inr x \<Rightarrow> f x)"

lemma and_then_simps [simp]: "and_then (Inl e) f = Inl e" "and_then (Inr x) f = f x"
  by (simp_all add: and_then_def)

lemma and_then_inr: "and_then r f = Inr y \<longleftrightarrow> (\<exists>x. r = Inr x \<and> f x = Inr y)"
  by (cases r) simp_all

definition check_that :: "bool \<Rightarrow> 'e \<Rightarrow> 'e + unit" where
  "check_that ok e = (if ok then Inr () else Inl e)"

lemma check_that_inr [simp]: "check_that ok e = Inr u \<longleftrightarrow> ok"
  by (simp add: check_that_def)

end
