(* ===== verification/SatConfig.thy ===== *)
theory SatConfig
  imports Names Documents
begin

section \<open>The configuration of a satellite\<close>

text \<open>
  \<open>satellite/src/sentry_satellite/config.py\<close> and the checks of \<open>remote.py\<close>: what each kind of source
  takes, the whole check of a configuration, and the overlay the hub may put in place of its
  sources. A refusal is data instead of a sentence.
\<close>

subsection \<open>What each kind of source takes\<close>

datatype option_type = BoolOpt | IntOpt | FloatOpt | StrOpt

datatype option_check =
  Anything
| Between rat rat
| OneOf "json_value list"
| EventKind
| AlsaDevice
| OnewireId
| BleAddress
| BeaconUuid
| AdapterName

record option_rule =
  or_type :: option_type
  or_default :: "json_value option"
  or_check :: option_check

definition opt :: "option_type \<Rightarrow> json_value \<Rightarrow> option_check \<Rightarrow> option_rule" where
  "opt t d c = \<lparr>or_type = t, or_default = Some d, or_check = c\<rparr>"

definition required :: "option_type \<Rightarrow> option_check \<Rightarrow> option_rule" where
  "required t c = \<lparr>or_type = t, or_default = None, or_check = c\<rparr>"

definition one_text :: "string list \<Rightarrow> option_check" where
  "one_text xs = OneOf (map JStr xs)"

definition one_number :: "int list \<Rightarrow> option_check" where
  "one_number xs = OneOf (map JInt xs)"

definition csi_sizes :: "(int \<times> int) list" where
  "csi_sizes = [(320, 240), (640, 480), (1280, 720)]"

definition i2c_lines :: "int \<Rightarrow> int list" where
  "i2c_lines bus = (if bus = 1 then [2, 3] else [])"

definition i2s_lines :: "int list" where
  "i2s_lines = [18, 19, 20, 21]"

type_synonym option_rules = "(string, option_rule) dict"

definition common_options :: option_rules where
  "common_options = [(''enabled'', opt BoolOpt (JBool True) Anything)]"

definition interval_option :: option_rules where
  "interval_option = [(''interval_seconds'', opt FloatOpt (JFloat 30) (Between 1 3600))]"

definition source_options :: "(string, option_rules) dict" where
  "source_options =
     [(''gpio'',
        [(''chip'', opt StrOpt (JStr ''/dev/gpiochip0'') Anything),
         (''line_numbering'', required StrOpt (one_text [''bcm''])),
         (''line'', required IntOpt (Between 0 53)),
         (''active_high'', opt BoolOpt (JBool True) Anything),
         (''bias'', opt StrOpt (JStr ''disabled'')
            (one_text [''disabled'', ''pull_up'', ''pull_down'', ''as_is''])),
         (''debounce_ms'', opt IntOpt (JInt 50) (Between 0 5000)),
         (''settle_seconds'', opt FloatOpt (JFloat 0) (Between 0 600)),
         (''event_kind'', opt StrOpt (JStr ''sensor.motion'') EventKind)]),
      (''onewire'',
        [(''device'', required StrOpt OnewireId),
         (''line'', opt IntOpt (JInt 4) (Between 0 53)),
         (''event_kind'', opt StrOpt (JStr ''climate.temperature'') EventKind)] @ interval_option),
      (''bme280'',
        [(''bus'', opt IntOpt (JInt 1) (Between 0 20)),
         (''address'', opt IntOpt (JInt 0x76) (one_number [0x76, 0x77])),
         (''measure'', required StrOpt (one_text [''temperature'', ''humidity'', ''pressure'']))] @
        interval_option),
      (''adc'',
        [(''chip'', opt StrOpt (JStr ''ads1115'') (one_text [''ads1115''])),
         (''bus'', opt IntOpt (JInt 1) (Between 0 20)),
         (''address'', opt IntOpt (JInt 0x48) (one_number [0x48, 0x49, 0x4A, 0x4B])),
         (''channel'', required IntOpt (Between 0 3)),
         (''output'', opt StrOpt (JStr ''ratio'') (one_text [''ratio'', ''volts''])),
         (''reference_volts'', opt FloatOpt (JFloat (33 / 10)) (Between (1 / 10) (4096 / 1000))),
         (''event_kind'', opt StrOpt (JStr ''light.level'') EventKind)] @ interval_option),
      (''board'',
        [(''measure'', required StrOpt (one_text [''temperature'', ''cpu'']))] @ interval_option),
      (''dummy'',
        [(''interval_seconds'', opt FloatOpt (JFloat 1) (Between (1 / 100) 3600))]),
      (''csi'',
        [(''profile'', opt StrOpt (JStr ''h264-tls'') (one_text [''h264-tls''])),
         (''width'', opt IntOpt (JInt 640) (one_number [320, 640, 1280])),
         (''height'', opt IntOpt (JInt 480) (one_number [240, 480, 720])),
         (''fps'', opt IntOpt (JInt 10) (Between 1 15)),
         (''bitrate_kbps'', opt IntOpt (JInt 1000) (Between 100 4000)),
         (''keyframe_seconds'', opt FloatOpt (JFloat 2) (Between (1 / 2) 10))]),
      (''microphone'',
        [(''device'', opt StrOpt (JStr ''default'') AlsaDevice),
         (''interface'', opt StrOpt (JStr ''i2s'') (one_text [''i2s'', ''usb''])),
         (''activity'', opt BoolOpt (JBool False) Anything),
         (''activity_threshold_dbfs'', opt FloatOpt (JFloat (- 35)) (Between (- 90) (- 1))),
         (''activity_min_seconds'', opt FloatOpt (JFloat (3 / 10)) (Between (1 / 10) 10)),
         (''activity_hold_seconds'', opt FloatOpt (JFloat 3) (Between (1 / 2) 120)),
         (''event_kind'', opt StrOpt (JStr ''audio.activity'') EventKind)]),
      (''ble'',
        [(''adapter'', opt StrOpt (JStr ''hci0'') AdapterName),
         (''address'', opt StrOpt (JStr '''') BleAddress),
         (''ibeacon_uuid'', opt StrOpt (JStr '''') BeaconUuid),
         (''ibeacon_major'', opt IntOpt (JInt (- 1)) (Between (- 1) 65535)),
         (''ibeacon_minor'', opt IntOpt (JInt (- 1)) (Between (- 1) 65535)),
         (''rssi_min'', opt IntOpt (JInt (- 100)) (Between (- 127) 0)),
         (''enter_sightings'', opt IntOpt (JInt 3) (Between 1 20)),
         (''enter_window_seconds'', opt FloatOpt (JFloat 10) (Between 1 120)),
         (''absent_after_seconds'', opt FloatOpt (JFloat 120) (Between 10 3600)),
         (''event_kind'', opt StrOpt (JStr ''presence.state'') EventKind)])]"

text \<open>The regular expressions: a run of characters at a length, or groups between separators.\<close>

definition hex_lower :: string where "hex_lower = digits @ ''abcdef''"
definition hex_upper :: string where "hex_upper = digits @ ''ABCDEF''"

definition all_in :: "string \<Rightarrow> string \<Rightarrow> bool" where
  "all_in cs s = list_all (\<lambda>c. c \<in> set cs) s"

fun grouped :: "string \<Rightarrow> char \<Rightarrow> nat list \<Rightarrow> string \<Rightarrow> bool" where
  "grouped cs sep [] s = (s = [])"
| "grouped cs sep [n] s = (length s = n \<and> all_in cs s)"
| "grouped cs sep (n # m # ns) s =
     (n < length s \<and> all_in cs (take n s) \<and> s ! n = sep \<and> grouped cs sep (m # ns) (drop (Suc n) s))"

fun text_fits :: "option_check \<Rightarrow> string \<Rightarrow> bool" where
  "text_fits EventKind s = valid_kind s"
| "text_fits AlsaDevice s =
     (s \<noteq> [] \<and> length s \<le> 64 \<and> hd s \<in> set (upper @ lower @ digits @ ''_'') \<and>
      all_in (upper @ lower @ digits @ ''_:=,.-'') (tl s))"
| "text_fits OnewireId s = (take 3 s = ''28-'' \<and> length s = 15 \<and> all_in hex_lower (drop 3 s))"
| "text_fits BleAddress s = (s = [] \<or> grouped hex_upper (CHR '':'') [2, 2, 2, 2, 2, 2] s)"
| "text_fits BeaconUuid s = (s = [] \<or> grouped hex_lower (CHR ''-'') [8, 4, 4, 4, 12] s)"
| "text_fits AdapterName s =
     (take 3 s = ''hci'' \<and> length s \<in> {4, 5} \<and> all_in digits (drop 3 s))"
| "text_fits _ s = False"

fun value_fits :: "option_check \<Rightarrow> json_value \<Rightarrow> bool" where
  "value_fits Anything v = True"
| "value_fits (Between low high) v =
     (case number_of v of Some x \<Rightarrow> low \<le> x \<and> x \<le> high | None \<Rightarrow> False)"
| "value_fits (OneOf vs) v = (v \<in> set vs)"
| "value_fits c v = (case v of JStr s \<Rightarrow> text_fits c s | _ \<Rightarrow> False)"

primrec value_typed :: "option_type \<Rightarrow> document \<Rightarrow> bool" where
  "value_typed BoolOpt d = (case d of Plain (JBool _) \<Rightarrow> True | _ \<Rightarrow> False)"
| "value_typed IntOpt d = (case d of Plain (JInt _) \<Rightarrow> True | _ \<Rightarrow> False)"
| "value_typed FloatOpt d = (case d of Plain (JFloat _) \<Rightarrow> True | _ \<Rightarrow> False)"
| "value_typed StrOpt d = (case d of Plain (JStr _) \<Rightarrow> True | _ \<Rightarrow> False)"

text \<open>\<open>Overflows\<close> is the \<open>OverflowError\<close> of \<open>float()\<close>, which is no \<open>ConfigError\<close>.\<close>

datatype config_error =
  NotSources
| NotATable nat
| BadId nat
| Twice nat string
| UnknownKind nat string
| NotInProfile nat string
| NoDriverFor nat string
| UnknownOptions "string list"
| MissingOption string
| WrongType string
| BadOption string
| Overflows string
| NoDevice string
| BeaconParts string
| SameDevice string string
| CsiSize string
| OneCamera string string
| SameAddress string string
| SameReading string string
| SameProbe string string
| SameCapture string string
| SameLine string string
| LineTaken string string
| MissingSection string
| SectionNotATable string
| BadProfile
| BadProtocol
| NotPositive string

type_synonym options = "(string, document) dict"

fun widened :: "option_type \<Rightarrow> document \<Rightarrow> document option" where
  "widened FloatOpt (Plain (JInt i)) = (if float_overflows i then None else Some (Plain (JFloat (of_int i))))"
| "widened _ d = Some d"

definition check_option :: "string \<Rightarrow> option_rule \<Rightarrow> options \<Rightarrow> config_error + document" where
  "check_option name r given =
     (case dict_get given name of
        None \<Rightarrow> (case or_default r of None \<Rightarrow> Inl (MissingOption name) | Some v \<Rightarrow> Inr (Plain v))
      | Some d \<Rightarrow>
          (case widened (or_type r) d of
             None \<Rightarrow> Inl (Overflows name)
           | Some d' \<Rightarrow>
               if \<not> value_typed (or_type r) d' then Inl (WrongType name)
               else (case d' of
                       Plain v \<Rightarrow> if value_fits (or_check r) v then Inr d' else Inl (BadOption name)
                     | _ \<Rightarrow> Inl (WrongType name))))"

fun check_each :: "option_rules \<Rightarrow> options \<Rightarrow> config_error + options" where
  "check_each [] given = Inr []"
| "check_each ((name, r) # rs) given =
     (case check_option name r given of
        Inl e \<Rightarrow> Inl e
      | Inr v \<Rightarrow> (case check_each rs given of Inl e \<Rightarrow> Inl e | Inr vs \<Rightarrow> Inr ((name, v) # vs)))"

text \<open>A kind without rules, a USB camera, keeps its options as they are.\<close>

definition unknown_keys :: "string list \<Rightarrow> (string, document) dict \<Rightarrow> string list" where
  "unknown_keys known t = filter (\<lambda>k. k \<notin> set known) (map fst t)"

definition check_options :: "string \<Rightarrow> options \<Rightarrow> config_error + options" where
  "check_options kind given =
     (case dict_get source_options kind of
        None \<Rightarrow>
          (case get_or (Plain (JBool True)) given ''enabled'' of
             Plain (JBool b) \<Rightarrow> Inr (dict_set ''enabled'' (Plain (JBool b)) given)
           | _ \<Rightarrow> Inl (WrongType ''enabled''))
      | Some rules \<Rightarrow>
          (let rs = common_options @ rules in
           case unknown_keys (map fst rs) given of
             [] \<Rightarrow> check_each rs given
           | ks \<Rightarrow> Inl (UnknownOptions ks)))"

subsection \<open>What may not be claimed twice\<close>

record source =
  so_id :: string
  so_kind :: string
  so_options :: options

fun truthy_document :: "document \<Rightarrow> bool" where
  "truthy_document (Plain JNull) = False"
| "truthy_document (Plain (JBool b)) = b"
| "truthy_document (Plain (JInt i)) = (i \<noteq> 0)"
| "truthy_document (Plain (JFloat x)) = (x \<noteq> 0)"
| "truthy_document (Plain (JStr s)) = (s \<noteq> [])"
| "truthy_document (Many xs) = (xs \<noteq> [])"
| "truthy_document (Table t) = (t \<noteq> [])"
| "truthy_document Date = True"

definition source_enabled :: "source \<Rightarrow> bool" where
  "source_enabled s = truthy_document (get_or (Plain (JBool True)) (so_options s) ''enabled'')"

text \<open>An option of a source that was checked, so it is there and of its type.\<close>

definition text_option :: "string \<Rightarrow> source \<Rightarrow> string" where
  "text_option k s = (case get_or Nothing (so_options s) k of Plain (JStr t) \<Rightarrow> t | _ \<Rightarrow> [])"

definition number_option :: "string \<Rightarrow> source \<Rightarrow> int" where
  "number_option k s = (case get_or Nothing (so_options s) k of Plain (JInt i) \<Rightarrow> i | _ \<Rightarrow> 0)"

datatype part =
  BlePart string string string int int
| CsiPart
| ReadingPart "int \<times> int" document
| ProbePart string
| CapturePart string

record claims =
  cl_lines :: "(string \<times> int, string) dict"
  cl_reserved :: "(int, string) dict"
  cl_devices :: "(int \<times> int, string \<times> string) dict"
  cl_parts :: "(part, string) dict"

definition no_claims :: claims where
  "no_claims = \<lparr>cl_lines = [], cl_reserved = [], cl_devices = [], cl_parts = []\<rparr>"

definition set_default :: "'k \<Rightarrow> 'v \<Rightarrow> ('k, 'v) dict \<Rightarrow> ('k, 'v) dict" where
  "set_default k v d = (case dict_get d k of None \<Rightarrow> dict_set k v d | Some _ \<Rightarrow> d)"

definition take_part :: "(string \<Rightarrow> string \<Rightarrow> config_error) \<Rightarrow> part \<Rightarrow> source \<Rightarrow> claims \<Rightarrow> config_error + claims" where
  "take_part err p s c =
     (case dict_get (cl_parts c) p of
        Some other \<Rightarrow> Inl (err (so_id s) other)
      | None \<Rightarrow> Inr (c\<lparr>cl_parts := dict_set p (so_id s) (cl_parts c)\<rparr>))"

definition ble_part :: "source \<Rightarrow> part" where
  "ble_part s =
     BlePart (text_option ''adapter'' s) (text_option ''address'' s) (text_option ''ibeacon_uuid'' s)
       (number_option ''ibeacon_major'' s) (number_option ''ibeacon_minor'' s)"

definition i2c_key :: "source \<Rightarrow> int \<times> int" where
  "i2c_key s = (number_option ''bus'' s, number_option ''address'' s)"

definition reading_part :: "source \<Rightarrow> part" where
  "reading_part s =
     ReadingPart (i2c_key s) (get_or Nothing (so_options s)
       (if so_kind s = ''bme280'' then ''measure'' else ''channel''))"

definition reserve :: "int list \<Rightarrow> string \<Rightarrow> claims \<Rightarrow> claims" where
  "reserve ls owner c = c\<lparr>cl_reserved := fold (\<lambda>l. set_default l owner) ls (cl_reserved c)\<rparr>"

definition claim :: "source \<Rightarrow> claims \<Rightarrow> config_error + claims" where
  "claim s c =
     (if \<not> source_enabled s then Inr c
      else if so_kind s = ''ble'' then
        (if (text_option ''address'' s \<noteq> []) = (text_option ''ibeacon_uuid'' s \<noteq> []) then Inl (NoDevice (so_id s))
         else if text_option ''address'' s \<noteq> [] \<and>
           (0 \<le> number_option ''ibeacon_major'' s \<or> 0 \<le> number_option ''ibeacon_minor'' s)
         then Inl (BeaconParts (so_id s))
         else take_part SameDevice (ble_part s) s c)
      else if so_kind s = ''csi'' then
        (if (number_option ''width'' s, number_option ''height'' s) \<notin> set csi_sizes then Inl (CsiSize (so_id s))
         else take_part OneCamera CsiPart s c)
      else if so_kind s \<in> {''bme280'', ''adc''} then
        (case dict_get (cl_devices c) (i2c_key s) of
           Some (k, other) \<Rightarrow>
             if k \<noteq> so_kind s then Inl (SameAddress (so_id s) other)
             else (case take_part SameReading (reading_part s) s c of
                     Inl e \<Rightarrow> Inl e
                   | Inr c' \<Rightarrow> Inr (reserve (i2c_lines (number_option ''bus'' s)) (so_id s) c'))
         | None \<Rightarrow>
             (case take_part SameReading (reading_part s) s
                     (c\<lparr>cl_devices := dict_set (i2c_key s) (so_kind s, so_id s) (cl_devices c)\<rparr>) of
                Inl e \<Rightarrow> Inl e
              | Inr c' \<Rightarrow> Inr (reserve (i2c_lines (number_option ''bus'' s)) (so_id s) c')))
      else if so_kind s = ''onewire'' then
        (case take_part SameProbe (ProbePart (text_option ''device'' s)) s c of
           Inl e \<Rightarrow> Inl e
         | Inr c' \<Rightarrow> Inr (reserve [number_option ''line'' s] (so_id s) c'))
      else if so_kind s = ''microphone'' then
        (case take_part SameCapture (CapturePart (text_option ''device'' s)) s c of
           Inl e \<Rightarrow> Inl e
         | Inr c' \<Rightarrow>
             Inr (if text_option ''interface'' s = ''i2s'' then reserve i2s_lines (so_id s) c' else c'))
      else Inr c)"

definition line_key :: "source \<Rightarrow> string \<times> int" where
  "line_key s = (text_option ''chip'' s, number_option ''line'' s)"

definition claim_line :: "source \<Rightarrow> claims \<Rightarrow> config_error + claims" where
  "claim_line s c =
     (if so_kind s \<noteq> ''gpio'' \<or> \<not> source_enabled s then Inr c
      else case dict_get (cl_lines c) (line_key s) of
        Some other \<Rightarrow> Inl (SameLine (so_id s) other)
      | None \<Rightarrow>
          (case dict_get (cl_reserved c) (number_option ''line'' s) of
             Some owner \<Rightarrow> Inl (LineTaken (so_id s) owner)
           | None \<Rightarrow> Inr (c\<lparr>cl_lines := dict_set (line_key s) (so_id s) (cl_lines c)\<rparr>)))"

fun claim_all :: "(source \<Rightarrow> claims \<Rightarrow> config_error + claims) \<Rightarrow> source list \<Rightarrow> claims \<Rightarrow> config_error + claims" where
  "claim_all f [] c = Inr c"
| "claim_all f (s # ss) c = (case f s c of Inl e \<Rightarrow> Inl e | Inr c' \<Rightarrow> claim_all f ss c')"

definition check_conflicts :: "source list \<Rightarrow> config_error + unit" where
  "check_conflicts ss =
     (case claim_all claim ss no_claims of
        Inl e \<Rightarrow> Inl e
      | Inr c \<Rightarrow> (case claim_all claim_line ss c of Inl e \<Rightarrow> Inl e | Inr _ \<Rightarrow> Inr ()))"

subsection \<open>The list of sources\<close>

definition profiles :: "string list" where
  "profiles = [''camera-sensor'', ''sensor-presence'', ''audio-sensor'']"

definition source_kinds_known :: "string list" where
  "source_kinds_known =
     [''gpio'', ''onewire'', ''bme280'', ''adc'', ''csi'', ''uvc'', ''microphone'', ''ble'', ''board'', ''dummy'']"

definition kinds_by_profile :: "(string, string list) dict" where
  "kinds_by_profile =
     [(''camera-sensor'',
        [''gpio'', ''onewire'', ''bme280'', ''adc'', ''csi'', ''uvc'', ''microphone'', ''board'', ''dummy'']),
      (''sensor-presence'', [''gpio'', ''onewire'', ''bme280'', ''adc'', ''ble'', ''board'', ''dummy'']),
      (''audio-sensor'', [''gpio'', ''onewire'', ''bme280'', ''adc'', ''microphone'', ''board'', ''dummy''])]"

definition kinds_of_profile :: "string \<Rightarrow> string list" where
  "kinds_of_profile p = (case dict_get kinds_by_profile p of None \<Rightarrow> [] | Some ks \<Rightarrow> ks)"

definition board_readings :: "(string \<times> string) list" where
  "board_readings = [(''board-temperature'', ''temperature''), (''board-cpu'', ''cpu'')]"

definition required_text :: "config_error \<Rightarrow> config_error \<Rightarrow> string \<Rightarrow> options \<Rightarrow> config_error + string" where
  "required_text missing wrong k t =
     (case dict_get t k of
        None \<Rightarrow> Inl missing
      | Some (Plain (JStr s)) \<Rightarrow> Inr s
      | Some _ \<Rightarrow> Inl wrong)"

definition parse_source ::
  "string \<Rightarrow> string \<Rightarrow> string list option \<Rightarrow> nat \<Rightarrow> string set \<Rightarrow> document \<Rightarrow> config_error + source" where
  "parse_source node_id profile kinds i seen entry =
     (case entry of
        Table t \<Rightarrow>
          (case required_text (MissingOption ''id'') (WrongType ''id'') ''id'' t of
             Inl e \<Rightarrow> Inl e
           | Inr v \<Rightarrow>
               (case local_name v node_id of
                  Inl _ \<Rightarrow> Inl (BadId i)
                | Inr n \<Rightarrow>
                    if n \<in> seen then Inl (Twice i n)
                    else (case required_text (MissingOption ''kind'') (WrongType ''kind'') ''kind'' t of
                            Inl e \<Rightarrow> Inl e
                          | Inr k \<Rightarrow>
                              if k \<notin> set source_kinds_known then Inl (UnknownKind i k)
                              else if k \<notin> set (kinds_of_profile profile) then Inl (NotInProfile i k)
                              else if \<not> pred_option (\<lambda>ks. k \<in> set ks) kinds then Inl (NoDriverFor i k)
                              else (case check_options k (filter (\<lambda>(key, _). key \<notin> {''id'', ''kind''}) t) of
                                      Inl e \<Rightarrow> Inl e
                                    | Inr os \<Rightarrow> Inr \<lparr>so_id = n, so_kind = k, so_options = os\<rparr>))))
      | _ \<Rightarrow> Inl (NotATable i))"

fun parse_each ::
  "string \<Rightarrow> string \<Rightarrow> string list option \<Rightarrow> nat \<Rightarrow> string set \<Rightarrow> document list \<Rightarrow> config_error + source list" where
  "parse_each node_id profile kinds i seen [] = Inr []"
| "parse_each node_id profile kinds i seen (d # ds) =
     (case parse_source node_id profile kinds i seen d of
        Inl e \<Rightarrow> Inl e
      | Inr s \<Rightarrow>
          (case parse_each node_id profile kinds (Suc i) (insert (so_id s) seen) ds of
             Inl e \<Rightarrow> Inl e
           | Inr ss \<Rightarrow> Inr (s # ss)))"

definition board_source :: "string \<times> string \<Rightarrow> config_error + source" where
  "board_source b =
     (case check_options ''board'' [(''measure'', Text (snd b))] of
        Inl e \<Rightarrow> Inl e
      | Inr os \<Rightarrow> Inr \<lparr>so_id = fst b, so_kind = ''board'', so_options = os\<rparr>)"

definition measured :: "source list \<Rightarrow> document set" where
  "measured ss = (\<lambda>s. get_or Nothing (so_options s) ''measure'') ` {s \<in> set ss. so_kind s = ''board''}"

fun add_board :: "source list \<Rightarrow> (string \<times> string) list \<Rightarrow> config_error + source list" where
  "add_board ss [] = Inr []"
| "add_board ss (b # bs) =
     (if Text (snd b) \<in> measured ss \<or> fst b \<in> so_id ` set ss then add_board ss bs
      else case board_source b of
        Inl e \<Rightarrow> Inl e
      | Inr s \<Rightarrow> (case add_board ss bs of Inl e \<Rightarrow> Inl e | Inr xs \<Rightarrow> Inr (s # xs)))"

definition the_board_itself :: "source list \<Rightarrow> config_error + source list" where
  "the_board_itself ss = add_board ss board_readings"

definition parse_sources ::
  "document \<Rightarrow> string \<Rightarrow> string \<Rightarrow> string list option \<Rightarrow> config_error + source list" where
  "parse_sources entries node_id profile kinds =
     (case entries of
        Many ds \<Rightarrow>
          (case parse_each node_id profile kinds 0 {} ds of
             Inl e \<Rightarrow> Inl e
           | Inr ss \<Rightarrow>
               (case the_board_itself ss of
                  Inl e \<Rightarrow> Inl e
                | Inr bs \<Rightarrow>
                    (case check_conflicts (ss @ bs) of Inl e \<Rightarrow> Inl e | Inr _ \<Rightarrow> Inr (ss @ bs))))
      | _ \<Rightarrow> Inl NotSources)"

subsection \<open>The file\<close>

record satellite_limits =
  lm_count :: int
  lm_bytes :: int
  lm_age :: int
  lm_heartbeat :: int

record satellite_config =
  sc_node :: string
  sc_profile :: string
  sc_host :: string
  sc_port :: int
  sc_files :: "string \<times> string \<times> string"
  sc_limits :: satellite_limits
  sc_sources :: "source list"

definition section_in :: "options \<Rightarrow> string \<Rightarrow> config_error + options" where
  "section_in doc name =
     (case get_or Nothing doc name of
        Plain JNull \<Rightarrow> Inl (MissingSection name)
      | Table t \<Rightarrow> Inr t
      | _ \<Rightarrow> Inl (SectionNotATable name))"

definition only_keys :: "string list \<Rightarrow> options \<Rightarrow> config_error + unit" where
  "only_keys known t = check_that (unknown_keys known t = []) (UnknownOptions (unknown_keys known t))"

definition text_in :: "string \<Rightarrow> options \<Rightarrow> config_error + string" where
  "text_in k t = required_text (MissingOption k) (WrongType k) k t"

definition positive_in :: "string \<Rightarrow> int \<Rightarrow> options \<Rightarrow> config_error + int" where
  "positive_in k d t =
     (case get_or (Whole d) t k of
        Plain (JInt i) \<Rightarrow> if i \<le> 0 then Inl (NotPositive k) else Inr i
      | _ \<Rightarrow> Inl (NotPositive k))"

definition parse_limits :: "options \<Rightarrow> config_error + satellite_limits" where
  "parse_limits doc =
     (case get_or (Table []) doc ''limits'' of
        Table t \<Rightarrow>
          and_then (only_keys [''event_max_count'', ''event_max_bytes'', ''event_max_age_seconds'', ''heartbeat_seconds''] t) (\<lambda>_.
          and_then (positive_in ''event_max_count'' 256 t) (\<lambda>n.
          and_then (positive_in ''event_max_bytes'' 1048576 t) (\<lambda>b.
          and_then (positive_in ''event_max_age_seconds'' 300 t) (\<lambda>age.
          and_then (positive_in ''heartbeat_seconds'' 15 t) (\<lambda>beat.
            Inr \<lparr>lm_count = n, lm_bytes = b, lm_age = age, lm_heartbeat = beat\<rparr>)))))
      | _ \<Rightarrow> Inl (SectionNotATable ''limits''))"

definition parse_config :: "options \<Rightarrow> config_error + satellite_config" where
  "parse_config doc =
     and_then (section_in doc ''node'') (\<lambda>node.
     and_then (only_keys [''id'', ''profile''] node) (\<lambda>_.
     and_then (text_in ''id'' node) (\<lambda>i.
     and_then (check_that (valid_name i) (BadId 0)) (\<lambda>_.
     and_then (text_in ''profile'' node) (\<lambda>profile.
     and_then (check_that (profile \<in> set profiles) BadProfile) (\<lambda>_.
     and_then (section_in doc ''hub'') (\<lambda>hub.
     and_then (only_keys [''mqtt_host'', ''mqtt_port'', ''protocol''] hub) (\<lambda>_.
     and_then (check_that (same_document (get_or (Whole 5) hub ''protocol'') (Whole 5)) BadProtocol) (\<lambda>_.
     and_then (text_in ''mqtt_host'' hub) (\<lambda>host.
     and_then (positive_in ''mqtt_port'' 8883 hub) (\<lambda>port.
     and_then (section_in doc ''tls'') (\<lambda>tls.
     and_then (only_keys [''ca_file'', ''cert_file'', ''key_file''] tls) (\<lambda>_.
     and_then (text_in ''ca_file'' tls) (\<lambda>ca.
     and_then (text_in ''cert_file'' tls) (\<lambda>cert.
     and_then (text_in ''key_file'' tls) (\<lambda>key.
     and_then (parse_limits doc) (\<lambda>limits.
     and_then (parse_sources (get_or (Many []) doc ''sources'') i profile None) (\<lambda>sources.
     and_then (only_keys [''node'', ''hub'', ''tls'', ''limits'', ''sources''] doc) (\<lambda>_.
       Inr \<lparr>sc_node = i, sc_profile = profile, sc_host = host, sc_port = port, sc_files = (ca, cert, key),
            sc_limits = limits, sc_sources = sources\<rparr>)))))))))))))))))))"

subsection \<open>Sources from the hub\<close>

datatype remote_error = NotNewer int int | BadSources config_error | RaisesOverflow

definition remote_check ::
  "satellite_config \<Rightarrow> int \<Rightarrow> document \<Rightarrow> int \<Rightarrow> string list \<Rightarrow> remote_error + satellite_config" where
  "remote_check c revision entries current kinds =
     (if revision \<le> current then Inl (NotNewer revision current)
      else case parse_sources entries (sc_node c) (sc_profile c) (Some kinds) of
        Inl (Overflows _) \<Rightarrow> Inl RaisesOverflow
      | Inl e \<Rightarrow> Inl (BadSources e)
      | Inr ss \<Rightarrow> Inr (c\<lparr>sc_sources := ss\<rparr>))"

definition as_entries :: "source list \<Rightarrow> document" where
  "as_entries ss = Many (map (\<lambda>s. Table ((''id'', Text (so_id s)) # (''kind'', Text (so_kind s)) # so_options s)) ss)"

text \<open>The overlay's file: not there, not readable as JSON, or a document.\<close>

datatype overlay_file = NoOverlay | Garbled | Overlay document

definition overlay_load ::
  "overlay_file \<Rightarrow> satellite_config \<Rightarrow> string list \<Rightarrow> remote_error + int \<times> satellite_config" where
  "overlay_load f c kinds =
     (case f of
        Overlay (Table t) \<Rightarrow>
          (case get_or Nothing t ''revision'' of
             Plain (JInt revision) \<Rightarrow>
               if get_or Nothing t ''node_id'' \<noteq> Text (sc_node c) then Inr (0, c)
               else (case remote_check c revision (get_or Nothing t ''sources'') 0 kinds of
                       Inl RaisesOverflow \<Rightarrow> Inl RaisesOverflow
                     | Inl _ \<Rightarrow> Inr (0, c)
                     | Inr c' \<Rightarrow> Inr (revision, c'))
           | _ \<Rightarrow> Inr (0, c))
      | _ \<Rightarrow> Inr (0, c))"

definition overlay_save :: "satellite_config \<Rightarrow> int \<Rightarrow> overlay_file" where
  "overlay_save c revision =
     Overlay (Table [(''schema_version'', Whole 1), (''node_id'', Text (sc_node c)),
       (''revision'', Whole revision), (''sources'', as_entries (sc_sources c))])"

end
