(* ===== verification/Wiring.thy ===== *)
theory Wiring
  imports SatConfig
begin

section \<open>Configurations that are accepted\<close>

text \<open>
  What the check of a satellite's configuration (\<open>SatConfig\<close>) finds: which claims of two sources
  exclude each other, and that a list of sources from the hub is the same after a restart.
\<close>

subsection \<open>Claims\<close>

definition is_on_i2c :: "source \<Rightarrow> bool" where
  "is_on_i2c s \<longleftrightarrow> so_kind s \<in> {''bme280'', ''adc''}"

definition sound_alone :: "source \<Rightarrow> bool" where
  "sound_alone s \<longleftrightarrow>
     (so_kind s = ''ble'' \<longrightarrow>
        (text_option ''address'' s \<noteq> []) \<noteq> (text_option ''ibeacon_uuid'' s \<noteq> []) \<and>
        (text_option ''address'' s \<noteq> [] \<longrightarrow>
           number_option ''ibeacon_major'' s < 0 \<and> number_option ''ibeacon_minor'' s < 0)) \<and>
     (so_kind s = ''csi'' \<longrightarrow> (number_option ''width'' s, number_option ''height'' s) \<in> set csi_sizes)"

definition part_of :: "source \<Rightarrow> part option" where
  "part_of s =
     (if so_kind s = ''ble'' then Some (ble_part s)
      else if so_kind s = ''csi'' then Some CsiPart
      else if is_on_i2c s then Some (reading_part s)
      else if so_kind s = ''onewire'' then Some (ProbePart (text_option ''device'' s))
      else if so_kind s = ''microphone'' then Some (CapturePart (text_option ''device'' s))
      else None)"

definition pins_held :: "source \<Rightarrow> int list" where
  "pins_held s =
     (if is_on_i2c s then i2c_lines (number_option ''bus'' s)
      else if so_kind s = ''onewire'' then [number_option ''line'' s]
      else if so_kind s = ''microphone'' \<and> text_option ''interface'' s = ''i2s'' then i2s_lines
      else [])"

definition same_part :: "source \<Rightarrow> source \<Rightarrow> bool" where
  "same_part a b \<longleftrightarrow>
     (part_of a \<noteq> None \<and> part_of a = part_of b) \<or>
     (is_on_i2c a \<and> is_on_i2c b \<and> i2c_key a = i2c_key b \<and> so_kind a \<noteq> so_kind b)"

definition same_line :: "source \<Rightarrow> source \<Rightarrow> bool" where
  "same_line a b \<longleftrightarrow> so_kind a = ''gpio'' \<and> so_kind b = ''gpio'' \<and> line_key a = line_key b"

definition line_taken :: "source \<Rightarrow> source \<Rightarrow> bool" where
  "line_taken a b \<longleftrightarrow> so_kind a = ''gpio'' \<and> number_option ''line'' a \<in> set (pins_held b)"

text \<open>The two sources exclude each other.\<close>

definition clash :: "source \<Rightarrow> source \<Rightarrow> bool" where
  "clash a b \<longleftrightarrow> same_part a b \<or> same_line a b \<or> line_taken a b \<or> line_taken b a"

text \<open>What the claims know after some sources.\<close>

definition device_known :: "source set \<Rightarrow> int \<times> int \<Rightarrow> (string \<times> string) option \<Rightarrow> bool" where
  "device_known ps k d \<longleftrightarrow>
     (case d of
        None \<Rightarrow> \<forall>s \<in> ps. \<not> (is_on_i2c s \<and> i2c_key s = k)
      | Some x \<Rightarrow> (\<exists>s \<in> ps. is_on_i2c s \<and> i2c_key s = k) \<and>
          (\<forall>s \<in> ps. is_on_i2c s \<and> i2c_key s = k \<longrightarrow> so_kind s = fst x))"

definition claims_of :: "source set \<Rightarrow> claims \<Rightarrow> bool" where
  "claims_of ps c \<longleftrightarrow>
     (\<forall>p. dict_get (cl_parts c) p = None \<longleftrightarrow> (\<forall>s \<in> ps. part_of s \<noteq> Some p)) \<and>
     (\<forall>k. device_known ps k (dict_get (cl_devices c) k)) \<and>
     (\<forall>l. dict_get (cl_reserved c) l = None \<longleftrightarrow> (\<forall>s \<in> ps. l \<notin> set (pins_held s)))"

lemma set_default_known: "dict_get (set_default k v d) k' = None \<longleftrightarrow> k' \<noteq> k \<and> dict_get d k' = None"
  by (auto simp: set_default_def split: option.splits)

lemma reserve_known:
  "dict_get (cl_reserved (reserve ls owner c)) l = None \<longleftrightarrow> l \<notin> set ls \<and> dict_get (cl_reserved c) l = None"
proof -
  have "dict_get (fold (\<lambda>l. set_default l owner) ls d) l = None \<longleftrightarrow> l \<notin> set ls \<and> dict_get d l = None" for d
    by (induction ls arbitrary: d) (auto simp: set_default_known)
  then show ?thesis by (simp add: reserve_def)
qed

lemma reserve_same [simp]:
  "cl_parts (reserve ls o' c) = cl_parts c" "cl_devices (reserve ls o' c) = cl_devices c"
  "cl_lines (reserve ls o' c) = cl_lines c"
  by (simp_all add: reserve_def)

lemma reserve_none [simp]: "reserve [] owner c = c"
  by (simp add: reserve_def)

text \<open>What one source does to the claims, whatever its kind.\<close>

definition with_device :: "source \<Rightarrow> claims \<Rightarrow> claims" where
  "with_device s c =
     (if is_on_i2c s \<and> dict_get (cl_devices c) (i2c_key s) = None
      then c\<lparr>cl_devices := dict_set (i2c_key s) (so_kind s, so_id s) (cl_devices c)\<rparr> else c)"

lemma with_device_same [simp]:
  "cl_parts (with_device s c) = cl_parts c" "cl_reserved (with_device s c) = cl_reserved c"
  "cl_lines (with_device s c) = cl_lines c"
  by (simp_all add: with_device_def)

definition claimed :: "source \<Rightarrow> claims \<Rightarrow> claims" where
  "claimed s c =
     reserve (pins_held s) (so_id s)
       (case part_of s of
          None \<Rightarrow> with_device s c
        | Some p \<Rightarrow> (with_device s c)\<lparr>cl_parts := dict_set p (so_id s) (cl_parts c)\<rparr>)"

definition free_for :: "source \<Rightarrow> claims \<Rightarrow> bool" where
  "free_for s c \<longleftrightarrow>
     sound_alone s \<and> (\<forall>p. part_of s = Some p \<longrightarrow> dict_get (cl_parts c) p = None) \<and>
     (is_on_i2c s \<longrightarrow> (case dict_get (cl_devices c) (i2c_key s) of None \<Rightarrow> True | Some x \<Rightarrow> fst x = so_kind s))"

lemma claim_enabled:
  assumes "source_enabled s"
  shows "(free_for s c \<longrightarrow> claim s c = Inr (claimed s c)) \<and> (\<not> free_for s c \<longrightarrow> (\<exists>e. claim s c = Inl e))"
proof -
  consider "so_kind s = ''ble''" | "so_kind s = ''csi''" | "is_on_i2c s" | "so_kind s = ''onewire''"
    | "so_kind s = ''microphone''" | "so_kind s \<notin> {''ble'', ''csi'', ''bme280'', ''adc'', ''onewire'', ''microphone''}"
    unfolding is_on_i2c_def by blast
  then show ?thesis
  proof cases
    case 1
    then show ?thesis using assms
      by (auto simp: claim_def free_for_def claimed_def sound_alone_def part_of_def is_on_i2c_def pins_held_def
          take_part_def with_device_def split: option.split)
  next
    case 2
    then show ?thesis using assms
      by (auto simp: claim_def free_for_def claimed_def sound_alone_def part_of_def is_on_i2c_def pins_held_def
          take_part_def with_device_def split: option.split)
  next
    case 3
    then have k: "so_kind s \<noteq> ''ble''" "so_kind s \<noteq> ''csi''" "so_kind s \<in> {''bme280'', ''adc''}"
      by (auto simp: is_on_i2c_def)
    then show ?thesis using assms 3
      by (cases "dict_get (cl_devices c) (i2c_key s)")
        (auto simp: claim_def free_for_def claimed_def sound_alone_def part_of_def pins_held_def
          take_part_def with_device_def split: option.split)
  next
    case 4
    then show ?thesis using assms
      by (auto simp: claim_def free_for_def claimed_def sound_alone_def part_of_def is_on_i2c_def pins_held_def
          take_part_def with_device_def split: option.split)
  next
    case 5
    then show ?thesis using assms
      by (auto simp: claim_def free_for_def claimed_def sound_alone_def part_of_def is_on_i2c_def pins_held_def
          take_part_def with_device_def split: option.split)
  next
    case 6
    then show ?thesis using assms
      by (auto simp: claim_def free_for_def claimed_def sound_alone_def part_of_def is_on_i2c_def pins_held_def
          with_device_def)
  qed
qed

lemma free_iff:
  assumes "claims_of ps c"
  shows "free_for s c \<longleftrightarrow> sound_alone s \<and> (\<forall>p \<in> ps. \<not> same_part p s)"
proof -
  have parts: "(\<forall>p. part_of s = Some p \<longrightarrow> dict_get (cl_parts c) p = None) \<longleftrightarrow>
      (\<forall>p \<in> ps. \<not> (part_of p \<noteq> None \<and> part_of p = part_of s))"
    using assms unfolding claims_of_def by (cases "part_of s") auto
  have "device_known ps (i2c_key s) (dict_get (cl_devices c) (i2c_key s))"
    using assms unfolding claims_of_def by blast
  then have devices: "(is_on_i2c s \<longrightarrow> (case dict_get (cl_devices c) (i2c_key s) of None \<Rightarrow> True | Some x \<Rightarrow> fst x = so_kind s)) \<longleftrightarrow>
      (\<forall>p \<in> ps. \<not> (is_on_i2c p \<and> is_on_i2c s \<and> i2c_key p = i2c_key s \<and> so_kind p \<noteq> so_kind s))"
    by (cases "dict_get (cl_devices c) (i2c_key s)") (auto simp: device_known_def)
  show ?thesis unfolding free_for_def same_part_def parts devices by blast
qed

lemma claims_of_claimed:
  assumes "claims_of ps c" "free_for s c"
  shows "claims_of (insert s ps) (claimed s c)"
proof -
  have "dict_get (cl_parts (claimed s c)) p = None \<longleftrightarrow> (\<forall>q \<in> insert s ps. part_of q \<noteq> Some p)" for p
    using assms(1) by (cases "part_of s") (auto simp: claimed_def claims_of_def)
  moreover have "dict_get (cl_reserved (claimed s c)) l = None \<longleftrightarrow> (\<forall>q \<in> insert s ps. l \<notin> set (pins_held q))" for l
    using assms(1) by (cases "part_of s") (simp_all add: claimed_def reserve_known claims_of_def)
  moreover have "cl_devices (claimed s c) = cl_devices (with_device s c)"
    by (simp add: claimed_def split: option.split)
  moreover have "device_known (insert s ps) k (dict_get (cl_devices (with_device s c)) k)" for k
  proof -
    from assms(1) have d: "device_known ps k (dict_get (cl_devices c) k)"
      unfolding claims_of_def by blast
    show ?thesis
    proof (cases "is_on_i2c s \<and> i2c_key s = k")
      case False
      then have "dict_get (cl_devices (with_device s c)) k = dict_get (cl_devices c) k"
        by (auto simp: with_device_def)
      then show ?thesis using d False by (auto simp: device_known_def split: option.splits)
    next
      case True
      then show ?thesis using d assms(2)
        by (cases "dict_get (cl_devices c) k") (auto simp: with_device_def free_for_def device_known_def)
    qed
  qed
  ultimately show ?thesis unfolding claims_of_def by simp
qed

lemma claim_all_enabled:
  assumes "\<And>s c. \<not> source_enabled s \<Longrightarrow> f s c = Inr c"
  shows "claim_all f ss c = claim_all f (filter source_enabled ss) c"
  using assms by (induction ss arbitrary: c) (auto split: sum.split)

lemma claimed_lines [simp]: "cl_lines (claimed s c) = cl_lines c"
  by (simp add: claimed_def split: option.split)

lemma claim_all_iff:
  assumes "claims_of ps c" "\<forall>s \<in> set ss. source_enabled s"
  shows "(case claim_all claim ss c of
      Inl _ \<Rightarrow> \<not> ((\<forall>s \<in> set ss. sound_alone s \<and> (\<forall>p \<in> ps. \<not> same_part p s)) \<and> sorted_wrt (\<lambda>a b. \<not> same_part a b) ss)
    | Inr c' \<Rightarrow> (\<forall>s \<in> set ss. sound_alone s \<and> (\<forall>p \<in> ps. \<not> same_part p s)) \<and> sorted_wrt (\<lambda>a b. \<not> same_part a b) ss \<and>
        claims_of (ps \<union> set ss) c' \<and> cl_lines c' = cl_lines c)"
  using assms
proof (induction ss arbitrary: ps c)
  case Nil
  then show ?case by simp
next
  case (Cons s ss)
  show ?case
  proof (cases "free_for s c")
    case False
    with claim_enabled [of s c] Cons.prems(2) obtain e where "claim s c = Inl e" by auto
    moreover have "\<not> (sound_alone s \<and> (\<forall>p \<in> ps. \<not> same_part p s))"
      using free_iff [OF Cons.prems(1)] False by blast
    ultimately show ?thesis by auto
  next
    case True
    with claim_enabled [of s c] Cons.prems(2) have c: "claim s c = Inr (claimed s c)" by auto
    have s: "sound_alone s" "\<forall>p \<in> ps. \<not> same_part p s" using free_iff [OF Cons.prems(1)] True by auto
    from Cons.IH [OF claims_of_claimed [OF Cons.prems(1) True]] Cons.prems(2) s
    show ?thesis by (auto simp: c split: sum.splits)
  qed
qed

lemma claim_line_iff:
  assumes "\<forall>s \<in> set ss. source_enabled s"
    and "\<forall>k. dict_get (cl_lines c) k = None \<longleftrightarrow> (\<forall>p \<in> ps. so_kind p = ''gpio'' \<longrightarrow> line_key p \<noteq> k)"
    and "\<forall>l. dict_get (cl_reserved c) l = None \<longleftrightarrow> (\<forall>q \<in> R. l \<notin> set (pins_held q))"
  shows "(\<exists>c'. claim_all claim_line ss c = Inr c') \<longleftrightarrow>
    (\<forall>s \<in> set ss. (\<forall>p \<in> ps. \<not> same_line p s) \<and> (\<forall>q \<in> R. \<not> line_taken s q)) \<and>
    sorted_wrt (\<lambda>a b. \<not> same_line a b) ss"
  using assms
proof (induction ss arbitrary: ps c)
  case Nil
  then show ?case by simp
next
  case (Cons s ss)
  show ?case
  proof (cases "so_kind s = ''gpio''")
    case False
    then have c: "claim_line s c = Inr c" by (simp add: claim_line_def)
    have "\<not> same_line s b" "\<not> same_line b s" "\<not> line_taken s b" for b
      using False by (auto simp: same_line_def line_taken_def)
    then show ?thesis using Cons.IH [of c ps] Cons.prems by (simp add: c)
  next
    case True
    have free: "dict_get (cl_lines c) (line_key s) = None \<longleftrightarrow> (\<forall>p \<in> ps. \<not> same_line p s)"
      using spec [OF Cons.prems(2), of "line_key s"] True by (auto simp: same_line_def)
    have open_pin: "dict_get (cl_reserved c) (number_option ''line'' s) = None \<longleftrightarrow> (\<forall>q \<in> R. \<not> line_taken s q)"
      using Cons.prems(3) True by (auto simp: line_taken_def)
    show ?thesis
    proof (cases "(\<forall>p \<in> ps. \<not> same_line p s) \<and> (\<forall>q \<in> R. \<not> line_taken s q)")
      case False
      then have "\<exists>e. claim_line s c = Inl e"
        using True Cons.prems(1) free open_pin by (auto simp: claim_line_def split: option.split)
      then show ?thesis using False by auto
    next
      case ok: True
      let ?c = "c\<lparr>cl_lines := dict_set (line_key s) (so_id s) (cl_lines c)\<rparr>"
      have c: "claim_line s c = Inr ?c"
        using True Cons.prems(1) free open_pin ok by (auto simp: claim_line_def)
      have "(\<exists>c'. claim_all claim_line ss ?c = Inr c') \<longleftrightarrow>
          (\<forall>x \<in> set ss. (\<forall>p \<in> insert s ps. \<not> same_line p x) \<and> (\<forall>q \<in> R. \<not> line_taken x q)) \<and>
          sorted_wrt (\<lambda>a b. \<not> same_line a b) ss"
        using Cons.prems True by (intro Cons.IH) auto
      then show ?thesis using ok by (auto simp: c)
    qed
  qed
qed

lemma claims_of_none: "claims_of {} no_claims"
  by (simp add: claims_of_def no_claims_def device_known_def)

lemma sorted_wrt_clash:
  "sorted_wrt (\<lambda>a b. \<not> clash a b) ss \<longleftrightarrow>
     sorted_wrt (\<lambda>a b. \<not> same_part a b) ss \<and> sorted_wrt (\<lambda>a b. \<not> same_line a b) ss \<and>
     sorted_wrt (\<lambda>a b. \<not> line_taken a b \<and> \<not> line_taken b a) ss"
  by (induction ss) (auto simp: clash_def)

lemma line_not_own: "\<not> line_taken s s"
  by (auto simp: line_taken_def pins_held_def is_on_i2c_def)

lemma no_line_taken: "(\<forall>a \<in> set ss. \<forall>b \<in> set ss. \<not> line_taken a b) \<longleftrightarrow>
    sorted_wrt (\<lambda>a b. \<not> line_taken a b \<and> \<not> line_taken b a) ss"
  by (induction ss) (auto simp: line_not_own)


text \<open>A probe and a door contact: two lines, and the same line.\<close>

definition on_line :: "string \<Rightarrow> string \<Rightarrow> int \<Rightarrow> source" where
  "on_line i kind l =
     \<lparr>so_id = i, so_kind = kind,
      so_options = [(''enabled'', Plain (JBool True)), (''chip'', Text ''/dev/gpiochip0''), (''line'', Whole l)]\<rparr>"


text \<open>
  Lines that two buses hold are never compared with each other: a 1-Wire bus on the data line of
  an I2C bus in use passes the check, and so do two readings of the board's own temperature.
\<close>

definition at_address :: "string \<Rightarrow> source" where
  "at_address i =
     \<lparr>so_id = i, so_kind = ''bme280'',
      so_options = [(''enabled'', Plain (JBool True)), (''bus'', Whole 1), (''address'', Whole 0x76),
        (''measure'', Text ''temperature'')]\<rparr>"

lemma two_buses_on_one_line:
  "check_conflicts [at_address ''climate'', on_line ''bus'' ''onewire'' 2] = Inr () \<and>
   2 \<in> set (pins_held (at_address ''climate'')) \<inter> set (pins_held (on_line ''bus'' ''onewire'' 2))"
  by (simp add: check_conflicts_def claim_def claim_line_def on_line_def at_address_def source_enabled_def get_or_def
      is_on_i2c_def pins_held_def number_option_def text_option_def no_claims_def take_part_def reading_part_def
      i2c_key_def reserve_def i2c_lines_def set_default_def)

subsection \<open>Reading back what was accepted\<close>

definition rule_sound :: "option_rule \<Rightarrow> bool" where
  "rule_sound r \<longleftrightarrow>
     (case or_default r of None \<Rightarrow> True | Some v \<Rightarrow> value_typed (or_type r) (Plain v) \<and> value_fits (or_check r) v)"

lemma widened_typed: "value_typed t (Plain v) \<Longrightarrow> widened t (Plain v) = Some (Plain v)"
  by (cases t; cases v) simp_all

lemma check_option_again:
  assumes "rule_sound r" "check_option name r given = Inr d"
  shows "\<exists>v. d = Plain v \<and> value_typed (or_type r) d \<and> value_fits (or_check r) v"
  using assms by (auto simp: check_option_def rule_sound_def split: option.splits if_splits document.splits)

lemma check_option_fixed:
  "dict_get given name = Some (Plain v) \<Longrightarrow> value_typed (or_type r) (Plain v) \<Longrightarrow> value_fits (or_check r) v \<Longrightarrow>
     check_option name r given = Inr (Plain v)"
  by (simp add: check_option_def widened_typed)

lemma check_each_keys: "check_each rs given = Inr os \<Longrightarrow> map fst os = map fst rs"
  by (induction rs arbitrary: os) (auto split: sum.splits)

lemma check_each_again:
  assumes "list_all (\<lambda>x. rule_sound (snd x)) rs" "check_each rs given = Inr os" "distinct (map fst rs)"
    "\<forall>(n, d) \<in> set os. dict_get given' n = Some d"
  shows "check_each rs given' = Inr os"
  using assms
proof (induction rs arbitrary: os)
  case (Cons nr rs)
  obtain n r where nr: "nr = (n, r)" by fastforce
  with Cons.prems(2) obtain d os' where os: "os = (n, d) # os'" "check_option n r given = Inr d" "check_each rs given = Inr os'"
    by (auto split: sum.splits)
  from check_option_again [OF _ os(2)] Cons.prems(1) nr obtain v where
    "d = Plain v" "value_typed (or_type r) d" "value_fits (or_check r) v" by auto
  then have "check_option n r given' = Inr d"
    using Cons.prems(4) os(1) by (auto intro: check_option_fixed)
  moreover have "check_each rs given' = Inr os'" using Cons os nr by (intro Cons.IH) auto
  ultimately show ?case by (simp add: nr os(1))
qed simp

text \<open>The rules are sound and name no option twice, nor any \<open>id\<close> or \<open>kind\<close>.\<close>

definition rules_sound :: "option_rules \<Rightarrow> bool" where
  "rules_sound rs \<longleftrightarrow>
     list_all (\<lambda>x. rule_sound (snd x)) rs \<and> distinct (map fst rs) \<and>
     ''id'' \<notin> set (map fst rs) \<and> ''kind'' \<notin> set (map fst rs)"

lemma source_options_sound: "list_all (\<lambda>x. rules_sound (common_options @ snd x)) source_options"
  by code_simp

definition ruled :: "string \<Rightarrow> option_rules \<Rightarrow> bool" where
  "ruled k rs \<longleftrightarrow> dict_get source_options k = Some rs"

lemma ruledD:
  assumes "ruled k rs"
  shows "rules_sound (common_options @ rs)"
proof -
  have "(k, rs) \<in> set source_options" using assms by (auto simp: ruled_def dict_get_in)
  then show ?thesis using source_options_sound by (auto simp: list_all_iff)
qed

lemma check_options_again:
  assumes "ruled k rs" "check_options k given = Inr os"
  shows "check_options k os = Inr os \<and> map fst os = map fst (common_options @ rs)"
proof -
  let ?rs = "common_options @ rs"
  from assms have os: "check_each ?rs given = Inr os"
    by (auto simp: check_options_def ruled_def Let_def split: list.splits)
  then have keys: "map fst os = map fst ?rs" by (rule check_each_keys)
  note sound = ruledD [OF assms(1), unfolded rules_sound_def]
  have "distinct (map fst os)" using sound keys by simp
  then have "\<forall>(n, d) \<in> set os. dict_get os n = Some d" by auto
  from check_each_again [OF _ os _ this] sound have "check_each ?rs os = Inr os" by blast
  moreover have "unknown_keys (map fst ?rs) os = []" by (simp add: unknown_keys_def keys)
  ultimately show ?thesis using assms(1) keys by (simp add: check_options_def ruled_def Let_def)
qed

definition entry_for :: "source \<Rightarrow> document" where
  "entry_for s = Table ((''id'', Text (so_id s)) # (''kind'', Text (so_kind s)) # so_options s)"

lemma as_entries_eq: "as_entries ss = Many (map entry_for ss)"
  by (simp add: as_entries_def entry_for_def)

text \<open>What makes a source read back as itself.\<close>

definition settled :: "string \<Rightarrow> string list option \<Rightarrow> source \<Rightarrow> bool" where
  "settled profile kinds s \<longleftrightarrow>
     valid_name (so_id s) \<and> so_kind s \<in> set source_kinds_known \<and> so_kind s \<in> set (kinds_of_profile profile) \<and>
     pred_option (\<lambda>ks. so_kind s \<in> set ks) kinds \<and>
     (\<exists>rs. ruled (so_kind s) rs \<and> map fst (so_options s) = map fst (common_options @ rs)) \<and>
     check_options (so_kind s) (so_options s) = Inr (so_options s)"

lemma local_name_local: "valid_name n \<Longrightarrow> local_name n node = Inr n"
  by (simp add: local_name_def check_name_def py_partition_none valid_name_no_dot)

lemma parse_entry_for:
  assumes "settled profile kinds s" "so_id s \<notin> seen"
  shows "parse_source node profile kinds i seen (entry_for s) = Inr s"
proof -
  from assms(1) obtain rs where rs: "ruled (so_kind s) rs" "map fst (so_options s) = map fst (common_options @ rs)"
    by (auto simp: settled_def)
  have "''id'' \<notin> set (map fst (so_options s))" "''kind'' \<notin> set (map fst (so_options s))"
    using ruledD [OF rs(1)] unfolding rs(2) rules_sound_def by blast+
  then have "filter (\<lambda>(key, _). key \<notin> {''id'', ''kind''}) (so_options s) = so_options s"
    by (intro filter_True) force
  then show ?thesis using assms
    by (simp add: parse_source_def entry_for_def required_text_def settled_def local_name_local)
qed

lemma parse_entries:
  assumes "\<forall>s \<in> set ss. settled profile kinds s" "distinct (map so_id ss)" "so_id ` set ss \<inter> seen = {}"
  shows "parse_each node profile kinds i seen (map entry_for ss) = Inr ss"
  using assms
proof (induction ss arbitrary: i seen)
  case (Cons s ss)
  then have "parse_source node profile kinds i seen (entry_for s) = Inr s" by (intro parse_entry_for) auto
  moreover have "parse_each node profile kinds (Suc i) (insert (so_id s) seen) (map entry_for ss) = Inr ss"
    using Cons.prems by (intro Cons.IH) auto
  ultimately show ?case by simp
qed simp

lemma parsed_source:
  assumes "parse_source node profile kinds i seen d = Inr s" "valid_name node"
    "\<forall>ks. kinds = Some ks \<longrightarrow> set ks \<subseteq> fst ` set source_options" "kinds \<noteq> None"
  shows "settled profile kinds s \<and> so_id s \<notin> seen"
proof -
  from assms(1) obtain t v k where t: "d = Table t" "local_name v node = Inr (so_id s)" "so_id s \<notin> seen"
    "so_kind s \<in> set source_kinds_known" "so_kind s \<in> set (kinds_of_profile profile)"
    "pred_option (\<lambda>ks. so_kind s \<in> set ks) kinds"
    "check_options (so_kind s) (filter (\<lambda>(key, _). key \<notin> {''id'', ''kind''}) t) = Inr (so_options s)"
    unfolding parse_source_def by (auto split: document.splits sum.splits if_splits)
  have "valid_name (so_id s)"
    using t(2) by (auto simp: local_name_def check_name_def split: prod.splits option.splits if_splits)
  moreover obtain rs where "ruled (so_kind s) rs"
  proof -
    from assms(3,4) t(6) have "so_kind s \<in> fst ` set source_options" by auto
    then show thesis using that by (metis map_of_eq_None_iff not_None_eq ruled_def)
  qed
  ultimately show ?thesis using t check_options_again by (auto simp: settled_def)
qed

lemma parsed_each:
  assumes "parse_each node profile kinds i seen ds = Inr ss" "valid_name node"
    "\<forall>ks. kinds = Some ks \<longrightarrow> set ks \<subseteq> fst ` set source_options" "kinds \<noteq> None"
  shows "(\<forall>s \<in> set ss. settled profile kinds s) \<and> distinct (map so_id ss) \<and> so_id ` set ss \<inter> seen = {}"
  using assms(1)
proof (induction ds arbitrary: i seen ss)
  case (Cons d ds)
  then obtain s ss' where s: "parse_source node profile kinds i seen d = Inr s" "ss = s # ss'"
    "parse_each node profile kinds (Suc i) (insert (so_id s) seen) ds = Inr ss'"
    by (auto split: sum.splits)
  from parsed_source [OF s(1) assms(2-4)] Cons.IH [OF s(3)] show ?case by (auto simp: s(2))
qed simp

lemma board_source_settled:
  assumes "board_source b = Inr s" "b \<in> set board_readings" "profile \<in> set profiles" "''board'' \<in> set ks"
  shows "settled profile (Some ks) s \<and> so_id s = fst b \<and> so_kind s = ''board''"
proof -
  from assms(1) obtain os where os: "check_options ''board'' [(''measure'', Text (snd b))] = Inr os"
    "s = \<lparr>so_id = fst b, so_kind = ''board'', so_options = os\<rparr>"
    by (auto simp: board_source_def split: sum.splits)
  obtain rs where rs: "ruled ''board'' rs"
    by (simp add: ruled_def source_options_def)
  have "valid_name (fst b)" using assms(2)
    by (auto simp: board_readings_def valid_name_def lower_def digits_def)
  moreover have "''board'' \<in> set (kinds_of_profile profile)" using assms(3)
    by (auto simp: profiles_def kinds_of_profile_def kinds_by_profile_def)
  ultimately show ?thesis using os check_options_again [OF rs os(1)] rs assms(4)
    by (auto simp: settled_def source_kinds_known_def)
qed

lemma added_board:
  assumes "add_board ss bs = Inr xs" "set bs \<subseteq> set board_readings" "distinct (map fst bs)" "profile \<in> set profiles"
    "''board'' \<in> set ks"
  shows "(\<forall>s \<in> set xs. settled profile (Some ks) s) \<and> distinct (map so_id xs) \<and>
    so_id ` set xs \<inter> so_id ` set ss = {} \<and> so_id ` set xs \<subseteq> fst ` set bs \<and>
    (\<forall>b \<in> set bs. Text (snd b) \<in> measured ss \<or> fst b \<in> so_id ` set ss \<or> fst b \<in> so_id ` set xs)"
  using assms(1-3)
proof (induction bs arbitrary: xs)
  case (Cons b bs)
  show ?case
  proof (cases "Text (snd b) \<in> measured ss \<or> fst b \<in> so_id ` set ss")
    case True
    then show ?thesis using Cons by auto
  next
    case False
    then obtain s xs' where s: "board_source b = Inr s" "add_board ss bs = Inr xs'" "xs = s # xs'"
      using Cons.prems by (auto split: sum.splits)
    from board_source_settled [OF s(1) _ assms(4,5)] Cons.prems(2)
    have b: "settled profile (Some ks) s" "so_id s = fst b" by auto
    from Cons.IH [OF s(2)] Cons.prems have
      "\<forall>s \<in> set xs'. settled profile (Some ks) s" "distinct (map so_id xs')" "so_id ` set xs' \<inter> so_id ` set ss = {}"
      "so_id ` set xs' \<subseteq> fst ` set bs"
      "\<forall>b \<in> set bs. Text (snd b) \<in> measured ss \<or> fst b \<in> so_id ` set ss \<or> fst b \<in> so_id ` set xs'" by auto
    moreover have "fst b \<notin> fst ` set bs" using Cons.prems(3) by simp
    ultimately show ?thesis using b s(3) False by (auto simp: image_iff)
  qed
qed simp

lemma board_is_there:
  assumes "\<forall>b \<in> set bs. Text (snd b) \<in> measured ss \<or> fst b \<in> so_id ` set ss"
  shows "add_board ss bs = Inr []"
  using assms by (induction bs) auto

definition supported_kinds :: "string list" where
  "supported_kinds =
     [''gpio'', ''onewire'', ''bme280'', ''adc'', ''csi'', ''microphone'', ''ble'', ''board'', ''dummy'']"

lemma supported_ruled: "set supported_kinds \<subseteq> fst ` set source_options" "''board'' \<in> set supported_kinds"
  by (simp_all add: supported_kinds_def source_options_def)

lemma parse_sources_again:
  assumes "parse_sources d node profile (Some supported_kinds) = Inr ss" "valid_name node" "profile \<in> set profiles"
  shows "parse_sources (as_entries ss) node profile (Some supported_kinds) = Inr ss"
proof -
  from assms(1) obtain ds xs bs where p: "parse_each node profile (Some supported_kinds) 0 {} ds = Inr xs"
    "the_board_itself xs = Inr bs" "check_conflicts (xs @ bs) = Inr ()" "ss = xs @ bs"
    by (auto simp: parse_sources_def split: document.splits sum.splits)
  have b: "distinct (map fst board_readings)" by (simp add: board_readings_def)
  from parsed_each [OF p(1) assms(2)] supported_ruled(1)
  have xs: "\<forall>s \<in> set xs. settled profile (Some supported_kinds) s" "distinct (map so_id xs)" by auto
  note bs = added_board [OF p(2) [unfolded the_board_itself_def] subset_refl b assms(3) supported_ruled(2)]
  have "parse_each node profile (Some supported_kinds) 0 {} (map entry_for ss) = Inr ss"
    using xs bs by (intro parse_entries) (auto simp: p(4))
  moreover have "the_board_itself ss = Inr []"
    unfolding the_board_itself_def using bs by (intro board_is_there) (auto simp: p(4) measured_def)
  ultimately show ?thesis using p(3,4) by (simp add: parse_sources_def as_entries_eq)
qed

text \<open>
  C40. The sources a hub configured survive a restart of the satellite: when the request was
  accepted and its overlay written, the agent that starts with the installed file and this
  overlay has exactly the accepted configuration, every default filled in as it was, at the
  same revision.
\<close>

theorem overlay_comes_back:
  assumes "remote_check c revision entries current supported_kinds = Inr c'" "0 \<le> current"
    "valid_name (sc_node c)" "sc_profile c \<in> set profiles"
  shows "overlay_load (overlay_save c' revision) c supported_kinds = Inr (revision, c')"
proof -
  from assms(1) obtain ss where ss: "current < revision"
    "parse_sources entries (sc_node c) (sc_profile c) (Some supported_kinds) = Inr ss" "c' = c\<lparr>sc_sources := ss\<rparr>"
    by (auto simp: remote_check_def split: if_splits sum.splits config_error.splits)
  from parse_sources_again [OF ss(2) assms(3,4)]
  have "parse_sources (as_entries ss) (sc_node c) (sc_profile c) (Some supported_kinds) = Inr ss" .
  then show ?thesis using ss(1,3) assms(2)
    by (simp add: overlay_load_def overlay_save_def remote_check_def get_or_def)
qed

definition porch_config :: satellite_config where
  "porch_config =
     \<lparr>sc_node = ''porch'', sc_profile = ''camera-sensor'', sc_host = ''hub'', sc_port = 8883,
      sc_files = (''ca'', ''cert'', ''key''),
      sc_limits = \<lparr>lm_count = 256, lm_bytes = 1048576, lm_age = 300, lm_heartbeat = 15\<rparr>, sc_sources = []\<rparr>"

definition porch_request :: document where
  "porch_request =
     Many [Table [(''id'', Text ''porch.pir''), (''kind'', Text ''gpio''), (''line_numbering'', Text ''bcm''),
                  (''line'', Whole 17)],
           Table [(''id'', Text ''eye''), (''kind'', Text ''csi''), (''keyframe_seconds'', Whole 3)]]"

lemma porch_accepted:
  "(case remote_check porch_config 4 porch_request 3 supported_kinds of
      Inl _ \<Rightarrow> None | Inr c \<Rightarrow> Some (map so_id (sc_sources c))) =
   Some [''pir'', ''eye'', ''board-temperature'', ''board-cpu'']"
  by code_simp

lemma overlay_comes_back_witness:
  "\<exists>c'. remote_check porch_config 4 porch_request 3 supported_kinds = Inr c' \<and>
     map so_id (sc_sources c') = [''pir'', ''eye'', ''board-temperature'', ''board-cpu''] \<and>
     overlay_load (overlay_save c' 4) porch_config supported_kinds = Inr (4, c')"
proof -
  from porch_accepted obtain c' where c: "remote_check porch_config 4 porch_request 3 supported_kinds = Inr c'"
    "map so_id (sc_sources c') = [''pir'', ''eye'', ''board-temperature'', ''board-cpu'']"
    by (auto split: sum.splits)
  from overlay_comes_back [OF c(1)] have "overlay_load (overlay_save c' 4) porch_config supported_kinds = Inr (4, c')"
    by (simp add: porch_config_def valid_name_def lower_def digits_def profiles_def)
  with c show ?thesis by (intro exI [of _ c'] conjI)
qed

end
