(* ===== verification/Spool.thy ===== *)
theory Spool
  imports Prelude "HOL-Library.Multiset"
begin

section \<open>The spool of a satellite\<close>

text \<open>
  \<open>satellite/src/sentry_satellite/spool.py\<close>: what the agent holds while the hub is not listening,
  bounded in number, size and age. The clock is an argument of every operation that reads it.
  The item is whatever the agent puts there.
\<close>

record 'a held =
  hl_item :: 'a
  hl_size :: nat
  hl_at :: seconds
  hl_topic :: string
  hl_initial :: bool

record drops =
  dr_count :: nat
  dr_bytes :: nat
  dr_age :: nat

record 'a spool =
  sl_max_count :: nat
  sl_max_bytes :: int
  sl_max_age :: seconds
  sl_items :: "'a held list"
  sl_bytes :: int
  sl_drops :: drops

datatype drop_reason = ForCount | ForBytes | ForAge

definition drops_total :: "drops \<Rightarrow> nat" where
  "drops_total d = dr_count d + dr_bytes d + dr_age d"

definition new_spool :: "nat \<Rightarrow> int \<Rightarrow> seconds \<Rightarrow> 'a spool" where
  "new_spool n b age =
     \<lparr>sl_max_count = n, sl_max_bytes = b, sl_max_age = age, sl_items = [], sl_bytes = 0,
      sl_drops = \<lparr>dr_count = 0, dr_bytes = 0, dr_age = 0\<rparr>\<rparr>"

definition count_drop :: "drop_reason \<Rightarrow> drops \<Rightarrow> drops" where
  "count_drop r d =
     (case r of
        ForCount \<Rightarrow> d\<lparr>dr_count := dr_count d + 1\<rparr>
      | ForBytes \<Rightarrow> d\<lparr>dr_bytes := dr_bytes d + 1\<rparr>
      | ForAge \<Rightarrow> d\<lparr>dr_age := dr_age d + 1\<rparr>)"

text \<open>\<open>_discard\<close>: the oldest goes. Both callers look first whether there is one.\<close>

definition discard :: "drop_reason \<Rightarrow> 'a spool \<Rightarrow> 'a spool" where
  "discard r s =
     (case sl_items s of
        [] \<Rightarrow> s
      | h # hs \<Rightarrow> s\<lparr>sl_items := hs, sl_bytes := sl_bytes s - int (hl_size h),
                      sl_drops := count_drop r (sl_drops s)\<rparr>)"

text \<open>The loops around it: as long as there is something to discard and a reason to.\<close>

function discard_while :: "('a spool \<Rightarrow> bool) \<Rightarrow> drop_reason \<Rightarrow> 'a spool \<Rightarrow> 'a spool" where
  "discard_while P r s =
     (if sl_items s \<noteq> [] \<and> P s then discard_while P r (discard r s) else s)"
  by pat_completeness auto
termination
  by (relation "measure (\<lambda>(P, r, s). length (sl_items s))") (auto simp: discard_def split: list.split)

declare discard_while.simps [simp del]

definition expire_spool :: "seconds \<Rightarrow> 'a spool \<Rightarrow> 'a spool" where
  "expire_spool now =
     discard_while (\<lambda>s. hl_at (hd (sl_items s)) < now - sl_max_age s) ForAge"

definition put_spool :: "seconds \<Rightarrow> string \<Rightarrow> 'a \<Rightarrow> nat \<Rightarrow> bool \<Rightarrow> 'a spool \<Rightarrow> 'a spool" where
  "put_spool now topic x bytes initial s =
     (let h = \<lparr>hl_item = x, hl_size = bytes, hl_at = now, hl_topic = topic, hl_initial = initial\<rparr>;
          s1 = expire_spool now (s\<lparr>sl_items := sl_items s @ [h], sl_bytes := sl_bytes s + int bytes\<rparr>);
          s2 = discard_while (\<lambda>s. sl_max_count s < length (sl_items s)) ForCount s1
      in discard_while (\<lambda>s. sl_max_bytes s < sl_bytes s) ForBytes s2)"

fun take_each :: "nat \<Rightarrow> 'a spool \<Rightarrow> 'a held list \<times> 'a spool" where
  "take_each 0 s = ([], s)"
| "take_each (Suc n) s =
     (case sl_items s of
        [] \<Rightarrow> ([], s)
      | h # hs \<Rightarrow>
          (case take_each n (s\<lparr>sl_items := hs, sl_bytes := sl_bytes s - int (hl_size h)\<rparr>) of
             (taken, t) \<Rightarrow> (h # taken, t)))"

definition take_spool :: "seconds \<Rightarrow> nat \<Rightarrow> 'a spool \<Rightarrow> 'a held list \<times> 'a spool" where
  "take_spool now n s = take_each n (expire_spool now s)"

definition queued_ms :: "seconds \<Rightarrow> 'a held \<Rightarrow> int" where
  "queued_ms now h = max 0 \<lfloor>(now - hl_at h) * 1000\<rfloor>"

definition drop_newest :: "'a spool \<Rightarrow> 'a spool" where
  "drop_newest s =
     s\<lparr>sl_items := butlast (sl_items s), sl_bytes := sl_bytes s - int (hl_size (last (sl_items s))),
       sl_drops := count_drop ForCount (sl_drops s)\<rparr>"

function drop_to_count :: "'a spool \<Rightarrow> 'a spool" where
  "drop_to_count s =
     (if sl_max_count s < length (sl_items s) then drop_to_count (drop_newest s) else s)"
  by pat_completeness auto
termination
  by (relation "measure (\<lambda>s. length (sl_items s))") (auto simp: drop_newest_def)

declare drop_to_count.simps [simp del]

definition requeue :: "'a held \<Rightarrow> 'a spool \<Rightarrow> 'a spool" where
  "requeue h s =
     drop_to_count (s\<lparr>sl_items := h # sl_items s, sl_bytes := sl_bytes s + int (hl_size h)\<rparr>)"

subsection \<open>What it holds\<close>

text \<open>The bytes are those of the items, and there are never more items than allowed.\<close>

definition weight :: "'a held list \<Rightarrow> int" where
  "weight hs = (\<Sum>h\<leftarrow>hs. int (hl_size h))"

lemma weight_simps [simp]:
  "weight [] = 0" "weight (h # hs) = int (hl_size h) + weight hs" "weight (hs @ gs) = weight hs + weight gs"
  by (simp_all add: weight_def)

lemma weight_nonneg [simp]: "0 \<le> weight hs"
  by (induction hs) auto

definition spool_ok :: "'a spool \<Rightarrow> bool" where
  "spool_ok s \<longleftrightarrow> sl_bytes s = weight (sl_items s) \<and> length (sl_items s) \<le> sl_max_count s"

abbreviation lost :: "'a spool \<Rightarrow> nat" where
  "lost s \<equiv> drops_total (sl_drops s)"

definition same_bounds :: "'a spool \<Rightarrow> 'a spool \<Rightarrow> bool" where
  "same_bounds s t \<longleftrightarrow>
     sl_max_count s = sl_max_count t \<and> sl_max_bytes s = sl_max_bytes t \<and> sl_max_age s = sl_max_age t"

lemma same_bounds_refl [simp]: "same_bounds s s"
  by (simp add: same_bounds_def)

lemma same_bounds_trans: "same_bounds s t \<Longrightarrow> same_bounds t u \<Longrightarrow> same_bounds s u"
  by (simp add: same_bounds_def)

lemma count_drop_total [simp]: "drops_total (count_drop r d) = drops_total d + 1"
  by (cases r) (simp_all add: count_drop_def drops_total_def)

text \<open>
  Discarding in a loop takes a beginning off: what is left is the rest, everything in the part
  taken off gave a reason, and each is counted.
\<close>

lemma discard_while_drops:
  assumes "sl_bytes s = weight (sl_items s)"
  obtains k where "sl_items (discard_while P r s) = drop k (sl_items s)" "k \<le> length (sl_items s)"
    "sl_bytes (discard_while P r s) = weight (drop k (sl_items s))"
    "lost (discard_while P r s) = lost s + k" "same_bounds (discard_while P r s) s"
    "\<not> (sl_items (discard_while P r s) \<noteq> [] \<and> P (discard_while P r s))"
  using assms
proof (induction P r s arbitrary: thesis rule: discard_while.induct)
  case (1 P r s)
  show ?case
  proof (cases "sl_items s \<noteq> [] \<and> P s")
    case False
    then have "discard_while P r s = s" by (subst discard_while.simps) auto
    then show ?thesis using "1.prems"(1) [of 0] "1.prems"(2) False by auto
  next
    case True
    then obtain h hs where i: "sl_items s = h # hs" by (cases "sl_items s") auto
    have d: "sl_items (discard r s) = hs" "sl_bytes (discard r s) = weight hs"
      "lost (discard r s) = lost s + 1" "same_bounds (discard r s) s"
      using i "1.prems"(2) by (simp_all add: discard_def same_bounds_def)
    have eq: "discard_while P r s = discard_while P r (discard r s)"
      using True by (simp add: discard_while.simps [of P r s])
    from "1.IH" [OF True _ d(2) [folded d(1)]] obtain k where
      "sl_items (discard_while P r (discard r s)) = drop k (sl_items (discard r s))"
      "k \<le> length (sl_items (discard r s))"
      "sl_bytes (discard_while P r (discard r s)) = weight (drop k (sl_items (discard r s)))"
      "lost (discard_while P r (discard r s)) = lost (discard r s) + k"
      "same_bounds (discard_while P r (discard r s)) (discard r s)"
      "\<not> (sl_items (discard_while P r (discard r s)) \<noteq> [] \<and> P (discard_while P r (discard r s)))" by blast
    then show ?thesis using d i by (intro "1.prems"(1) [of "Suc k"]) (auto simp: eq intro: same_bounds_trans)
  qed
qed

lemma discard_while_none: "\<not> P s \<Longrightarrow> discard_while P r s = s"
  by (simp add: discard_while.simps)

lemma take_each_eq:
  "take_each n s =
     (take n (sl_items s),
      s\<lparr>sl_items := drop n (sl_items s), sl_bytes := sl_bytes s - weight (take n (sl_items s))\<rparr>)"
  by (induction n arbitrary: s) (auto split: list.split)

lemma drop_to_count_takes:
  assumes "sl_bytes s = weight (sl_items s)"
  shows "sl_items (drop_to_count s) = take (sl_max_count s) (sl_items s) \<and>
    sl_bytes (drop_to_count s) = weight (take (sl_max_count s) (sl_items s)) \<and>
    lost (drop_to_count s) = lost s + (length (sl_items s) - sl_max_count s) \<and>
    same_bounds (drop_to_count s) s"
  using assms
proof (induction s rule: drop_to_count.induct)
  case (1 s)
  show ?case
  proof (cases "sl_max_count s < length (sl_items s)")
    case False
    then show ?thesis using "1.prems" by (simp add: drop_to_count.simps [of s])
  next
    case True
    then obtain hs h where i: "sl_items s = hs @ [h]" by (cases "sl_items s" rule: rev_cases) auto
    have d: "sl_items (drop_newest s) = hs" "sl_bytes (drop_newest s) = weight hs"
      "lost (drop_newest s) = lost s + 1" "sl_max_count (drop_newest s) = sl_max_count s"
      "same_bounds (drop_newest s) s"
      using i "1.prems" by (simp_all add: drop_newest_def same_bounds_def)
    from "1.IH" [OF True] d True i show ?thesis
      by (auto simp: drop_to_count.simps [of s] intro: same_bounds_trans)
  qed
qed

lemma discard_bounds: "same_bounds (discard_while P r s) s"
proof (induction P r s rule: discard_while.induct)
  case (1 P r s)
  have "same_bounds (discard r s) s" by (simp add: discard_def same_bounds_def split: list.split)
  with 1 show ?case by (subst discard_while.simps) (auto intro: same_bounds_trans)
qed

lemma drop_to_count_bounds: "same_bounds (drop_to_count s) s"
proof (induction s rule: drop_to_count.induct)
  case (1 s)
  have "same_bounds (drop_newest s) s" by (simp add: drop_newest_def same_bounds_def)
  with 1 show ?case by (subst drop_to_count.simps) (auto intro: same_bounds_trans)
qed

lemmas bounds_kept_simps [simp] =
  discard_bounds [unfolded same_bounds_def, THEN conjunct1]
  drop_to_count_bounds [unfolded same_bounds_def, THEN conjunct1]

text \<open>The same with the number taken off named once.\<close>

lemma discarded:
  assumes "sl_bytes s = weight (sl_items s)"
  shows "\<exists>k. sl_items (discard_while P r s) = drop k (sl_items s) \<and> k \<le> length (sl_items s) \<and>
    sl_bytes (discard_while P r s) = weight (sl_items (discard_while P r s)) \<and>
    lost (discard_while P r s) = lost s + k \<and>
    (sl_items (discard_while P r s) = [] \<or> \<not> P (discard_while P r s))"
  by (rule discard_while_drops [OF assms, of P r]) auto

end
