(* ===== verification/Commands.thy ===== *)
theory Commands
  imports Names Documents
begin

section \<open>Commands to a satellite\<close>

text \<open>
  \<open>satellite/src/sentry_satellite/commands.py\<close>: what the hub may tell a node to do, the check of a
  message on the commands topic, and the memory of commands already handled. A refusal is
  data instead of a sentence.
\<close>

definition capability_names :: "string list" where
  "capability_names = [''events'', ''video'', ''audio'']"

definition video_actions :: "string list" where
  "video_actions = [''video_start'', ''video_renew'', ''video_stop'']"

definition audio_actions :: "string list" where
  "audio_actions = [''audio_start'', ''audio_renew'', ''audio_stop'']"

definition media_actions :: "string list" where
  "media_actions = video_actions @ audio_actions"

definition actions_known :: "string list" where
  "actions_known = [''grant'', ''renew'', ''revoke'', ''stop'', ''configure''] @ media_actions"

definition most_sources :: nat where "most_sources = 32"
definition most_video_seconds :: rat where "most_video_seconds = 600"

definition video_fields :: "string list" where
  "video_fields = [''stream_id'', ''source_id'', ''port'', ''token'']"

definition command_fields :: "string list" where
  "command_fields =
     [''command_id'', ''action'', ''node_id'', ''hub_epoch'', ''capability'', ''grant_id'', ''duration_seconds'',
      ''sequence'', ''revision'', ''sources''] @ video_fields"

definition word_of :: "nat \<Rightarrow> nat \<Rightarrow> string \<Rightarrow> bool" where
  "word_of low high s \<longleftrightarrow>
     low \<le> length s \<and> length s \<le> high \<and> list_all (\<lambda>c. c \<in> set (upper @ lower @ digits @ ''_-'')) s"

definition stream_name :: "string \<Rightarrow> bool" where "stream_name = word_of 8 64"
definition stream_token :: "string \<Rightarrow> bool" where "stream_token = word_of 32 128"

datatype outcome = Received | Applied | CommandFailed

record stream_request =
  rq_stream :: string
  rq_source :: "string option"
  rq_port :: int
  rq_token :: "string option"

record command =
  cm_id :: string
  cm_action :: string
  cm_node :: string
  cm_epoch :: int
  cm_capability :: document
  cm_grant :: document
  cm_duration :: rat
  cm_sequence :: int
  cm_revision :: int
  cm_sources :: "document list"
  cm_stream :: "stream_request option"

text \<open>\<open>TooLong\<close> is the \<open>OverflowError\<close> of \<open>float()\<close>, which is no \<open>CommandError\<close>.\<close>

datatype command_error =
  NotAnObject
| UnknownFields "string list"
| NoCommandId
| UnknownAction
| BadNode
| NotForUs string
| NoEpoch
| NoCapability
| BadDuration
| BadSequence
| BadRevision
| BadSourceList
| BadSourceEntry
| NotAConfiguration
| NotAStream
| NoStreamName
| OnlyItsName
| StreamDuration
| BadStreamSource
| BadPort
| BadToken
| TooLong

definition table_only :: "document \<Rightarrow> bool" where
  "table_only d = (case d of Table _ \<Rightarrow> True | _ \<Rightarrow> False)"

definition is_text :: "string list \<Rightarrow> document \<Rightarrow> bool" where
  "is_text ss d \<longleftrightarrow> d \<in> set (map Text ss)"

definition whole_from :: "int \<Rightarrow> document \<Rightarrow> 'e \<Rightarrow> 'e + int" where
  "whole_from low d err = (case d of Plain (JInt i) \<Rightarrow> if i < low then Inl err else Inr i | _ \<Rightarrow> Inl err)"

definition name_in :: "document \<Rightarrow> 'e \<Rightarrow> 'e + string" where
  "name_in d err = (case d of Plain (JStr s) \<Rightarrow> if valid_name s then Inr s else Inl err | _ \<Rightarrow> Inl err)"

definition duration_in :: "document \<Rightarrow> command_error + json_value" where
  "duration_in d =
     (case d of
        Plain (JInt i) \<Rightarrow> if i < 0 then Inl BadDuration else Inr (JInt i)
      | Plain (JFloat x) \<Rightarrow> if x < 0 then Inl BadDuration else Inr (JFloat x)
      | _ \<Rightarrow> Inl BadDuration)"

definition as_float :: "json_value \<Rightarrow> command_error + rat" where
  "as_float v =
     (case v of
        JInt i \<Rightarrow> if float_overflows i then Inl TooLong else Inr (of_int i)
      | JFloat x \<Rightarrow> Inr x
      | _ \<Rightarrow> Inl BadDuration)"

definition seconds_of :: "json_value \<Rightarrow> rat" where
  "seconds_of v = (case number_of v of None \<Rightarrow> 0 | Some x \<Rightarrow> x)"

definition has_any :: "string list \<Rightarrow> (string, document) dict \<Rightarrow> bool" where
  "has_any ks m \<longleftrightarrow> list_ex (\<lambda>k. dict_get m k \<noteq> None) ks"

text \<open>\<open>_video\<close>: what a media command says of its stream. The step is what follows the last part.\<close>

definition ends_with :: "string \<Rightarrow> string \<Rightarrow> bool" where
  "ends_with tail s \<longleftrightarrow> length tail \<le> length s \<and> drop (length s - length tail) s = tail"

definition video_part ::
  "string \<Rightarrow> (string, document) dict \<Rightarrow> json_value \<Rightarrow> command_error + stream_request" where
  "video_part action m duration =
     (case get_or Nothing m ''stream_id'' of
        Plain (JStr stream) \<Rightarrow>
          if \<not> stream_name stream then Inl NoStreamName
          else
            (let only = \<lparr>rq_stream = stream, rq_source = None, rq_port = 0, rq_token = None\<rparr>;
                 more = has_any [''source_id'', ''port'', ''token''] m in
             if ends_with ''_stop'' action then (if more then Inl OnlyItsName else Inr only)
             else if \<not> (0 < seconds_of duration \<and> seconds_of duration \<le> most_video_seconds) then Inl StreamDuration
             else if ends_with ''_renew'' action then (if more then Inl OnlyItsName else Inr only)
             else
               and_then (name_in (get_or (Text '''') m ''source_id'') BadStreamSource) (\<lambda>src.
               and_then (whole_from 1024 (get_or Nothing m ''port'') BadPort) (\<lambda>port.
               and_then (check_that (port \<le> 65535) BadPort) (\<lambda>_.
                 case get_or Nothing m ''token'' of
                   Plain (JStr token) \<Rightarrow>
                     if stream_token token
                     then Inr \<lparr>rq_stream = stream, rq_source = Some src, rq_port = port, rq_token = Some token\<rparr>
                     else Inl BadToken
                 | _ \<Rightarrow> Inl BadToken))))
      | _ \<Rightarrow> Inl NoStreamName)"

definition configuration_part ::
  "string \<Rightarrow> (string, document) dict \<Rightarrow> command_error + int \<times> document list" where
  "configuration_part action m =
     (if action = ''configure'' then
        and_then (whole_from 1 (get_or (Whole 0) m ''revision'') BadRevision) (\<lambda>revision.
          case get_or (Many []) m ''sources'' of
            Many ds \<Rightarrow>
              if most_sources < length ds then Inl BadSourceList
              else if \<not> list_all table_only ds then Inl BadSourceEntry
              else Inr (revision, ds)
          | _ \<Rightarrow> Inl BadSourceList)
      else if has_any [''revision'', ''sources''] m then Inl NotAConfiguration
      else Inr (0, []))"

definition stream_part ::
  "string \<Rightarrow> (string, document) dict \<Rightarrow> json_value \<Rightarrow> command_error + stream_request option" where
  "stream_part action m duration =
     (if action \<in> set media_actions then and_then (video_part action m duration) (\<lambda>r. Inr (Some r))
      else if has_any video_fields m then Inl NotAStream
      else Inr None)"

definition parse_command :: "string \<Rightarrow> document \<Rightarrow> command_error + command" where
  "parse_command node_id doc =
     (case doc of
        Table m \<Rightarrow>
          and_then (check_that (filter (\<lambda>k. k \<notin> set command_fields) (map fst m) = [])
              (UnknownFields (filter (\<lambda>k. k \<notin> set command_fields) (map fst m)))) (\<lambda>_.
          and_then (case get_or Nothing m ''command_id'' of
              Plain (JStr i) \<Rightarrow> if i = [] then Inl NoCommandId else Inr i | _ \<Rightarrow> Inl NoCommandId) (\<lambda>i.
          and_then (case get_or Nothing m ''action'' of
              Plain (JStr a) \<Rightarrow> if a \<in> set actions_known then Inr a else Inl UnknownAction
            | _ \<Rightarrow> Inl UnknownAction) (\<lambda>action.
          and_then (name_in (get_or (Text '''') m ''node_id'') BadNode) (\<lambda>node.
          and_then (check_that (node = node_id) (NotForUs node)) (\<lambda>_.
          and_then (whole_from 0 (get_or Nothing m ''hub_epoch'') NoEpoch) (\<lambda>epoch.
          and_then (check_that (action \<in> {''grant'', ''renew'', ''revoke''} \<longrightarrow>
              is_text capability_names (get_or Nothing m ''capability'')) NoCapability) (\<lambda>_.
          and_then (duration_in (get_or (Whole 0) m ''duration_seconds'')) (\<lambda>duration.
          and_then (whole_from 0 (get_or (Whole 0) m ''sequence'') BadSequence) (\<lambda>sequence.
          and_then (configuration_part action m) (\<lambda>(revision, sources).
          and_then (stream_part action m duration) (\<lambda>stream.
          and_then (as_float duration) (\<lambda>lasts.
            Inr \<lparr>cm_id = i, cm_action = action, cm_node = node, cm_epoch = epoch,
                 cm_capability = get_or Nothing m ''capability'', cm_grant = get_or Nothing m ''grant_id'',
                 cm_duration = lasts, cm_sequence = sequence, cm_revision = revision,
                 cm_sources = sources, cm_stream = stream\<rparr>))))))))))))
      | _ \<Rightarrow> Inl NotAnObject)"

subsection \<open>Commands already handled\<close>

record seen =
  se_capacity :: nat
  se_outcomes :: "(string, outcome) dict"

definition nothing_seen :: seen where
  "nothing_seen = \<lparr>se_capacity = 256, se_outcomes = []\<rparr>"

definition move_to_end :: "string \<Rightarrow> outcome \<Rightarrow> (string, outcome) dict \<Rightarrow> (string, outcome) dict" where
  "move_to_end i x d = dict_pop i d @ [(i, x)]"

definition remember_outcome :: "string \<Rightarrow> outcome \<Rightarrow> seen \<Rightarrow> seen" where
  "remember_outcome i x s =
     (let d = move_to_end i x (se_outcomes s)
      in s\<lparr>se_outcomes := drop (length d - se_capacity s) d\<rparr>)"

definition outcome_of :: "string \<Rightarrow> seen \<Rightarrow> outcome option \<times> seen" where
  "outcome_of i s =
     (case dict_get (se_outcomes s) i of
        None \<Rightarrow> (None, s)
      | Some x \<Rightarrow> (Some x, s\<lparr>se_outcomes := move_to_end i x (se_outcomes s)\<rparr>))"

text \<open>What the node remembers is one outcome for each command, and never more than it has room for.\<close>

definition seen_ok :: "seen \<Rightarrow> bool" where
  "seen_ok s \<longleftrightarrow> wf_dict (se_outcomes s) \<and> length (se_outcomes s) \<le> se_capacity s"

lemma dict_pop_gone: "i \<notin> fst ` set (dict_pop i d)"
  by (subst map_of_eq_None_iff [symmetric]) simp

lemma move_to_end_ok: "wf_dict d \<Longrightarrow> wf_dict (move_to_end i x d)"
  by (simp add: move_to_end_def dict_pop_gone)

lemma seen_remember: "seen_ok s \<Longrightarrow> seen_ok (remember_outcome i x s)"
  using move_to_end_ok [of "se_outcomes s" i x]
  by (simp add: seen_ok_def remember_outcome_def Let_def drop_map [symmetric])

lemma seen_remembered:
  assumes "seen_ok s" "0 < se_capacity s"
  shows "dict_get (se_outcomes (remember_outcome i x s)) i = Some x"
proof -
  let ?d = "move_to_end i x (se_outcomes s)"
  have wf: "wf_dict (drop (length ?d - se_capacity s) ?d)"
    using assms(1) move_to_end_ok [of "se_outcomes s" i x] by (simp add: seen_ok_def drop_map [symmetric])
  have "(i, x) \<in> set (drop (length ?d - se_capacity s) ?d)"
    using assms(2) by (simp add: move_to_end_def)
  then show ?thesis using wf by (simp add: remember_outcome_def Let_def dict_in_get)
qed

lemma dict_pop_room: "length (dict_pop i d) + (if dict_get d i = None then 0 else 1) \<le> length d"
proof (induction d)
  case (Cons x d)
  then show ?case by (cases x) (auto split: if_splits)
qed simp

lemma seen_outcome: "seen_ok s \<Longrightarrow> seen_ok (snd (outcome_of i s))"
  using dict_pop_room [of i "se_outcomes s"] move_to_end_ok [of "se_outcomes s" i]
  by (auto simp: outcome_of_def seen_ok_def move_to_end_def split: option.splits)

lemma outcome_same: "dict_get (se_outcomes (snd (outcome_of i s))) j = dict_get (se_outcomes s) j"
  by (auto simp: outcome_of_def move_to_end_def map_add_def split: option.split)

end
