(* ===== verification/Agent.thy ===== *)
theory Agent
  imports Events Spool Commands SatConfig
begin

section \<open>The agent on a satellite\<close>

text \<open>
  \<open>satellite/src/sentry_satellite/agent.py\<close>, with the events of \<open>protocol.py\<close> and the overlay of
  \<open>remote.py\<close>: readings become events, wait in the spool and are sent under a grant; commands give
  and take the grant, start and end streams and replace the sources. Every turn of a thread is
  an input: a driver numbers its reading in one and puts it in the spool in another, the network
  thread takes a batch and sends its items one by one. What the code asks the world (clocks,
  fresh identifiers, whether the link took a message, what drivers and publishers do) comes with
  the input; the sizes of messages as JSON are parameters. Documents for the eye (health, the
  state snapshot beyond its revision, the details of answers) are left out.
\<close>

subsection \<open>Events\<close>

text \<open>A reading's value: a scalar, a float that is not finite, or something else. No offset: naive.\<close>

datatype read_value = Reads json_value | NotFinite | NoScalar

record reading =
  rd_source :: string
  rd_kind :: string
  rd_value :: read_value
  rd_occurred :: "moment option"
  rd_unit :: "string option"
  rd_quality :: string
  rd_initial :: bool

definition qualities :: "quality list" where
  "qualities = [Valid, DegradedReading, Unavailable, UnknownQuality]"

definition quality_of :: "string \<Rightarrow> quality option" where
  "quality_of s = List.find (\<lambda>q. quality_value q = s) qualities"

text \<open>\<open>Sequencer.take\<close>.\<close>

definition take_number :: "string \<Rightarrow> (string, int) dict \<Rightarrow> int \<times> (string, int) dict" where
  "take_number src d =
     (let n = (case dict_get d src of None \<Rightarrow> 0 | Some i \<Rightarrow> i) in (n, dict_set src (n + 1) d))"

text \<open>\<open>timestamp\<close>: the moment is written in UTC. A naive one raises.\<close>

definition in_utc :: "moment \<Rightarrow> moment" where
  "in_utc t = t\<lparr>mom_offset := 0\<rparr>"

text \<open>\<open>Events.event\<close>. A number is used up even when the moment or the value is refused.\<close>

definition make_event ::
  "string \<Rightarrow> string \<Rightarrow> clock_status \<Rightarrow> string \<Rightarrow> reading \<Rightarrow> (string, int) dict \<Rightarrow>
     satellite_event option \<times> (string, int) dict" where
  "make_event node boot clock i r d =
     (case quality_of (rd_quality r) of
        None \<Rightarrow> (None, d)
      | Some q \<Rightarrow>
          if \<not> valid_name (rd_source r) \<or> \<not> valid_kind (rd_kind r) \<or>
             \<not> pred_option (\<lambda>u. length u \<le> 16) (rd_unit r)
          then (None, d)
          else (case take_number (rd_source r) d of
                  (n, d') \<Rightarrow>
                    (case (rd_occurred r, rd_value r) of
                       (Some t, Reads v) \<Rightarrow>
                         (Some \<lparr>ev_id = i, ev_node = node, ev_source = rd_source r, ev_boot = boot,
                                ev_sequence = n, ev_kind = rd_kind r, ev_occurred = in_utc t,
                                ev_clock = clock, ev_value = v, ev_unit = rd_unit r, ev_quality = q\<rparr>, d')
                     | _ \<Rightarrow> (None, d'))))"

definition message_limit :: nat where "message_limit = 8192"

subsection \<open>State\<close>

record agent_grant =
  gt_id :: document
  gt_capability :: document
  gt_epoch :: int
  gt_expires :: seconds
  gt_sequence :: int

definition grant_valid :: "seconds \<Rightarrow> agent_grant \<Rightarrow> bool" where
  "grant_valid now x \<longleftrightarrow> now < gt_expires x"

record media_stream =
  ms_id :: string
  ms_kind :: string
  ms_source :: string
  ms_expires :: seconds

record agent =
  at_node :: string
  at_boot :: string
  at_config :: satellite_config
  at_kinds :: "string list option"
  at_overlay :: "overlay_file option"
  at_revision :: int
  at_running :: "source list"
  at_grant :: "agent_grant option"
  at_spool :: "satellite_event spool"
  at_numbers :: "(string, int) dict"
  at_making :: "(satellite_event \<times> bool) list"
  at_flying :: "satellite_event held list"
  at_connected :: bool
  at_connection :: string
  at_linked :: seconds
  at_clock :: clock_status
  at_seen :: seen
  at_configuring :: "command option"
  at_streams :: "(string, media_stream) dict"
  at_published :: nat
  at_refused :: nat
  at_stopping :: bool

record weights =
  wt_event :: "satellite_event \<Rightarrow> nat"
  wt_envelope :: "envelope \<Rightarrow> nat"

datatype sent =
  SendsEvent envelope
| SendsAnswer string outcome
| SendsState bool string int
| SendsHealth

definition enabled_sources :: "satellite_config \<Rightarrow> source list" where
  "enabled_sources c = filter source_enabled (sc_sources c)"

text \<open>\<open>Agent(...)\<close> with the configuration, the overlay that was loaded over it and the drivers of both.\<close>

definition new_agent ::
  "string \<Rightarrow> string \<Rightarrow> satellite_config \<Rightarrow> string list option \<Rightarrow> overlay_file option \<Rightarrow> int \<Rightarrow> agent" where
  "new_agent node boot c kinds overlay revision =
     \<lparr>at_node = node, at_boot = boot, at_config = c, at_kinds = kinds, at_overlay = overlay,
      at_revision = revision, at_running = enabled_sources c, at_grant = None,
      at_spool = new_spool (nat (lm_count (sc_limits c))) (lm_bytes (sc_limits c)) (of_int (lm_age (sc_limits c))),
      at_numbers = [], at_making = [], at_flying = [], at_connected = False, at_connection = '''',
      at_linked = 0, at_clock = ClockUnknown, at_seen = nothing_seen, at_configuring = None,
      at_streams = [], at_published = 0, at_refused = 0, at_stopping = False\<rparr>"

subsection \<open>Readings\<close>

text \<open>\<open>_record\<close> in two halves: the event is made and numbered, and then put in the spool.\<close>

definition start_record :: "string \<Rightarrow> reading \<Rightarrow> agent \<Rightarrow> agent" where
  "start_record i r s =
     (case make_event (at_node s) (at_boot s) (at_clock s) i r (at_numbers s) of
        (None, d) \<Rightarrow> s\<lparr>at_numbers := d, at_refused := at_refused s + 1\<rparr>
      | (Some e, d) \<Rightarrow> s\<lparr>at_numbers := d, at_making := at_making s @ [(e, rd_initial r)]\<rparr>)"

definition finish_record :: "weights \<Rightarrow> seconds \<Rightarrow> nat \<Rightarrow> agent \<Rightarrow> agent" where
  "finish_record w now k s =
     (if k < length (at_making s)
      then (case at_making s ! k of
              (e, initial) \<Rightarrow>
                s\<lparr>at_making := take k (at_making s) @ drop (Suc k) (at_making s),
                  at_spool := put_spool now ''events'' e (wt_event w e) initial (at_spool s)\<rparr>)
      else s)"

text \<open>The same on one thread without a pause, for the baselines after a grant.\<close>

definition record_now :: "weights \<Rightarrow> seconds \<Rightarrow> string \<times> reading \<Rightarrow> agent \<Rightarrow> agent" where
  "record_now w now ir s =
     (case make_event (at_node s) (at_boot s) (at_clock s) (fst ir) (snd ir) (at_numbers s) of
        (None, d) \<Rightarrow> s\<lparr>at_numbers := d, at_refused := at_refused s + 1\<rparr>
      | (Some e, d) \<Rightarrow>
          s\<lparr>at_numbers := d,
            at_spool := put_spool now ''events'' e (wt_event w e) (rd_initial (snd ir)) (at_spool s)\<rparr>)"

definition baselines :: "weights \<Rightarrow> seconds \<Rightarrow> (string \<times> reading) list \<Rightarrow> agent \<Rightarrow> agent" where
  "baselines w now = fold (record_now w now)"

subsection \<open>The network thread\<close>

definition has_events_grant :: "seconds \<Rightarrow> agent \<Rightarrow> bool" where
  "has_events_grant now s =
     (case at_grant s of
        None \<Rightarrow> False
      | Some x \<Rightarrow> gt_capability x = Text ''events'' \<and> grant_valid now x)"

definition batch :: nat where "batch = 8"

definition take_batch :: "seconds \<Rightarrow> agent \<Rightarrow> agent" where
  "take_batch now s =
     (if at_stopping s \<or> at_flying s \<noteq> [] \<or> \<not> at_connected s \<or> \<not> has_events_grant now s then s
      else (case take_spool now batch (at_spool s) of
              (taken, sl) \<Rightarrow> s\<lparr>at_flying := taken, at_spool := sl\<rparr>))"

text \<open>An identifier of a grant that is no text goes out as null; the hub refuses both.\<close>

definition delivery_of :: "seconds \<Rightarrow> int \<Rightarrow> bool \<Rightarrow> bool \<Rightarrow> agent \<Rightarrow> delivery option" where
  "delivery_of now queued initial replayed s =
     (case at_grant s of
        None \<Rightarrow> None
      | Some x \<Rightarrow>
          if \<not> grant_valid now x then None
          else Some \<lparr>dl_connection = at_connection s, dl_epoch = gt_epoch x,
                     dl_grant = (case gt_id x of Plain (JStr i) \<Rightarrow> Some i | _ \<Rightarrow> None),
                     dl_queued = queued, dl_replayed = replayed, dl_initial = initial\<rparr>)"

definition envelope_of :: "seconds \<Rightarrow> satellite_event held \<Rightarrow> agent \<Rightarrow> envelope option" where
  "envelope_of now h s =
     (let queued = queued_ms now h in
      case delivery_of now queued (hl_initial h) (now - of_int queued / 1000 < at_linked s) s of
        None \<Rightarrow> None
      | Some d \<Rightarrow> Some \<lparr>env_version = 1, env_event = hl_item h, env_delivery = d\<rparr>)"

definition put_back :: "satellite_event held \<Rightarrow> agent \<Rightarrow> agent" where
  "put_back h s = s\<lparr>at_spool := requeue h (at_spool s)\<rparr>"

definition send_next :: "weights \<Rightarrow> seconds \<Rightarrow> bool \<Rightarrow> agent \<Rightarrow> sent list \<times> agent" where
  "send_next w now taken s =
     (case at_flying s of
        [] \<Rightarrow> ([], s)
      | h # hs \<Rightarrow>
          (let s1 = s\<lparr>at_flying := hs\<rparr> in
           case envelope_of now h s of
             None \<Rightarrow> ([], put_back h s1)
           | Some v \<Rightarrow>
               if message_limit < wt_envelope w v then ([], s1\<lparr>at_refused := at_refused s1 + 1\<rparr>)
               else if taken then ([SendsEvent v], s1\<lparr>at_published := at_published s1 + 1\<rparr>)
               else ([], put_back h s1)))"

text \<open>\<open>_connect\<close>: the connection gets its name before anybody knows whether it works.\<close>

definition connect_link :: "seconds \<Rightarrow> string \<Rightarrow> bool \<Rightarrow> agent \<Rightarrow> sent list \<times> agent" where
  "connect_link now i works s =
     (if at_stopping s \<or> at_connected s \<or> at_flying s \<noteq> [] then ([], s)
      else if works
      then ([SendsState True i (at_revision s), SendsHealth],
            s\<lparr>at_connection := i, at_connected := True, at_linked := now\<rparr>)
      else ([], s\<lparr>at_connection := i\<rparr>))"

subsection \<open>Streams\<close>

text \<open>What a driver has, as the code finds out: something to capture, something to run.\<close>

record driver_view =
  dv_capture :: bool
  dv_missing :: bool
  dv_argv :: bool
  dv_argv_ok :: bool

record view =
  vw_alive :: "media_stream \<Rightarrow> bool"
  vw_driver :: "string \<Rightarrow> driver_view option"
  vw_connects :: bool
  vw_baselines :: "(string \<times> reading) list"

definition media_kind :: "string \<Rightarrow> string" where
  "media_kind action = fst (py_partition (CHR ''_'') action)"

definition media_step :: "string \<Rightarrow> string" where
  "media_step action = (case snd (py_partition (CHR ''_'') action) of None \<Rightarrow> [] | Some x \<Rightarrow> x)"

definition running_stream :: "string \<Rightarrow> string \<Rightarrow> agent \<Rightarrow> media_stream option" where
  "running_stream kind i s = List.find (\<lambda>p. ms_id p = i \<and> ms_kind p = kind) (dict_values (at_streams s))"

definition end_stream :: "media_stream \<Rightarrow> agent \<Rightarrow> agent" where
  "end_stream p s =
     (if dict_get (at_streams s) (ms_source p) = Some p
      then s\<lparr>at_streams := dict_pop (ms_source p) (at_streams s)\<rparr> else s)"

definition renew_stream :: "media_stream \<Rightarrow> seconds \<Rightarrow> agent \<Rightarrow> agent" where
  "renew_stream p until s = s\<lparr>at_streams := dict_set (ms_source p) (p\<lparr>ms_expires := until\<rparr>) (at_streams s)\<rparr>"

definition start_stream ::
  "view \<Rightarrow> string \<Rightarrow> stream_request \<Rightarrow> seconds \<Rightarrow> agent \<Rightarrow> outcome \<times> agent" where
  "start_stream v kind r until s =
     (let src = (case rq_source r of None \<Rightarrow> [] | Some x \<Rightarrow> x);
          started = (Applied, s\<lparr>at_streams := dict_set src
            \<lparr>ms_id = rq_stream r, ms_kind = kind, ms_source = src, ms_expires = until\<rparr> (at_streams s)\<rparr>) in
      if \<not> vw_connects v then (CommandFailed, s)
      else case vw_driver v src of
        None \<Rightarrow> (CommandFailed, s)
      | Some d \<Rightarrow>
          if kind = ''audio''
          then (if \<not> dv_capture d \<or> dv_missing d then (CommandFailed, s) else started)
          else (if \<not> dv_argv d \<or> \<not> dv_argv_ok d then (CommandFailed, s) else started))"

definition apply_media :: "seconds \<Rightarrow> view \<Rightarrow> command \<Rightarrow> stream_request \<Rightarrow> agent \<Rightarrow> outcome \<times> agent" where
  "apply_media now v c r s =
     (let kind = media_kind (cm_action c); step = media_step (cm_action c);
          until = now + cm_duration c; current = running_stream kind (rq_stream r) s in
      if step = ''stop''
      then (Applied, case current of None \<Rightarrow> s | Some p \<Rightarrow> end_stream p s)
      else case at_grant s of
        None \<Rightarrow> (CommandFailed, s)
      | Some x \<Rightarrow>
          if \<not> grant_valid now x \<or> gt_capability x \<noteq> Text ''events'' then (CommandFailed, s)
          else if gt_epoch x \<noteq> cm_epoch c then (CommandFailed, s)
          else (case current of
                  Some p \<Rightarrow>
                    if vw_alive v p then (Applied, renew_stream p until s)
                    else if step = ''renew'' then (CommandFailed, s)
                    else start_stream v kind r until s
                | None \<Rightarrow>
                    if step = ''renew'' then (CommandFailed, s) else start_stream v kind r until s))"

subsection \<open>Commands\<close>

definition give_grant :: "weights \<Rightarrow> seconds \<Rightarrow> view \<Rightarrow> command \<Rightarrow> agent \<Rightarrow> outcome \<times> agent" where
  "give_grant w now v c s =
     (if cm_grant c = Nothing \<or> cm_capability c = Nothing then (CommandFailed, s)
      else if cm_duration c \<le> 0 then (CommandFailed, s)
      else
        (let same = (case at_grant s of None \<Rightarrow> False | Some x \<Rightarrow> same_document (gt_id x) (cm_grant c));
             older = (case at_grant s of None \<Rightarrow> False | Some x \<Rightarrow> cm_sequence c \<le> gt_sequence x);
             s1 = s\<lparr>at_grant := Some \<lparr>gt_id = cm_grant c, gt_capability = cm_capability c,
                                     gt_epoch = cm_epoch c, gt_expires = now + cm_duration c,
                                     gt_sequence = cm_sequence c\<rparr>\<rparr>
         in if cm_action c = ''renew'' \<and> (\<not> same \<or> older) then (CommandFailed, s)
            else (Applied, if same then s1 else baselines w now (vw_baselines v) s1)))"

definition apply_command :: "weights \<Rightarrow> seconds \<Rightarrow> view \<Rightarrow> command \<Rightarrow> agent \<Rightarrow> outcome \<times> agent" where
  "apply_command w now v c s =
     (if cm_action c = ''stop'' then (Applied, s\<lparr>at_stopping := True\<rparr>)
      else if cm_action c = ''revoke'' then (Applied, s\<lparr>at_grant := None, at_streams := []\<rparr>)
      else case cm_stream c of
        Some r \<Rightarrow> apply_media now v c r s
      | None \<Rightarrow> if cm_action c \<in> {''grant'', ''renew''} then give_grant w now v c s else (CommandFailed, s))"

definition remember_answer :: "string \<Rightarrow> outcome \<Rightarrow> agent \<Rightarrow> agent" where
  "remember_answer i x s = s\<lparr>at_seen := remember_outcome i x (at_seen s)\<rparr>"

definition begin_configure :: "command \<Rightarrow> agent \<Rightarrow> sent list \<times> agent" where
  "begin_configure c s =
     (if at_configuring s \<noteq> None then ([SendsAnswer (cm_id c) CommandFailed], s)
      else ([SendsAnswer (cm_id c) Received],
            remember_answer (cm_id c) Received (s\<lparr>at_configuring := Some c\<rparr>)))"

definition handle_command :: "weights \<Rightarrow> seconds \<Rightarrow> view \<Rightarrow> command \<Rightarrow> agent \<Rightarrow> sent list \<times> agent" where
  "handle_command w now v c s =
     (case outcome_of (cm_id c) (at_seen s) of
        (Some x, seen') \<Rightarrow> ([SendsAnswer (cm_id c) x], s\<lparr>at_seen := seen'\<rparr>)
      | (None, seen') \<Rightarrow>
          if cm_action c = ''configure'' then begin_configure c (s\<lparr>at_seen := seen'\<rparr>)
          else (case apply_command w now v c (s\<lparr>at_seen := seen'\<rparr>) of
                  (x, t) \<Rightarrow> ([SendsAnswer (cm_id c) x], remember_answer (cm_id c) x t)))"

text \<open>\<open>_on_command\<close>: what is no command is dropped; an overflow is the caller's to log.\<close>

definition on_command :: "weights \<Rightarrow> seconds \<Rightarrow> view \<Rightarrow> document option \<Rightarrow> agent \<Rightarrow> sent list \<times> agent" where
  "on_command w now v doc s =
     (case doc of
        None \<Rightarrow> ([], s)
      | Some d \<Rightarrow>
          (case parse_command (at_node s) d of
             Inl _ \<Rightarrow> ([], s)
           | Inr c \<Rightarrow> handle_command w now v c s))"

subsection \<open>Replacing the sources\<close>

text \<open>How an attempt goes: the drivers can be built, they start, nothing fails while they are
  watched, the overlay is written, and the old drivers start again.\<close>

record attempt =
  tr_builds :: bool
  tr_starts :: bool
  tr_healthy :: bool
  tr_written :: bool
  tr_restored :: bool

text \<open>\<open>_replace_drivers\<close>: streams end and the old drivers stop first; building may raise after that.\<close>

definition replace_drivers :: "bool \<Rightarrow> satellite_config \<Rightarrow> agent \<Rightarrow> bool \<times> agent" where
  "replace_drivers ok c s =
     (let s1 = s\<lparr>at_streams := [], at_running := []\<rparr>
      in if ok then (True, s1\<lparr>at_config := c, at_running := enabled_sources c\<rparr>) else (False, s1))"

definition put_sources_back :: "attempt \<Rightarrow> satellite_config \<Rightarrow> agent \<Rightarrow> sent list \<times> outcome \<times> agent" where
  "put_sources_back x previous s =
     (case replace_drivers (tr_restored x) previous s of
        (False, t) \<Rightarrow> ([], CommandFailed, t)
      | (True, t) \<Rightarrow> ([SendsState True (at_connection t) (at_revision t)], CommandFailed, t))"

definition configure_sources :: "attempt \<Rightarrow> command \<Rightarrow> agent \<Rightarrow> sent list \<times> outcome \<times> agent" where
  "configure_sources x c s =
     (case at_kinds s of
        None \<Rightarrow> ([], CommandFailed, s)
      | Some kinds \<Rightarrow>
          (case remote_check (at_config s) (cm_revision c) (Many (cm_sources c)) (at_revision s) kinds of
             Inl _ \<Rightarrow> ([], CommandFailed, s)
           | Inr proposed \<Rightarrow>
               if \<not> tr_builds x then ([], CommandFailed, s)
               else (case replace_drivers (tr_starts x) proposed s of
                       (False, t) \<Rightarrow> put_sources_back x (at_config s) t
                     | (True, t) \<Rightarrow>
                         if \<not> tr_healthy x \<or> at_overlay t \<noteq> None \<and> \<not> tr_written x
                         then put_sources_back x (at_config s) t
                         else
                           (let t1 = t\<lparr>at_revision := cm_revision c,
                                       at_overlay := map_option (\<lambda>_. overlay_save proposed (cm_revision c)) (at_overlay t)\<rparr>
                            in ([SendsState True (at_connection t1) (at_revision t1)], Applied, t1)))))"

definition finish_configure :: "attempt \<Rightarrow> agent \<Rightarrow> sent list \<times> agent" where
  "finish_configure x s =
     (case at_configuring s of
        None \<Rightarrow> ([], s)
      | Some c \<Rightarrow>
          (case configure_sources x c s of
             (out, answer, t) \<Rightarrow>
               (out @ [SendsAnswer (cm_id c) answer],
                remember_answer (cm_id c) answer (t\<lparr>at_configuring := None\<rparr>))))"

subsection \<open>The agent as a machine\<close>

datatype agent_input =
  Makes string reading
| Puts seconds nat
| TakesBatch seconds
| SendsNext seconds bool
| Connects seconds string bool
| LinkLost
| Hears seconds view "document option"
| FinishesConfiguring attempt
| Beats clock_status
| AskedToStop

fun do_agent :: "weights \<Rightarrow> agent \<Rightarrow> agent_input \<Rightarrow> sent list \<times> agent" where
  "do_agent w s (Makes i r) = ([], if at_stopping s then s else start_record i r s)"
| "do_agent w s (Puts now k) = ([], finish_record w now k s)"
| "do_agent w s (TakesBatch now) = ([], take_batch now s)"
| "do_agent w s (SendsNext now taken) = send_next w now taken s"
| "do_agent w s (Connects now i works) = connect_link now i works s"
| "do_agent w s LinkLost = ([], s\<lparr>at_connected := False\<rparr>)"
| "do_agent w s (Hears now v doc) = on_command w now v doc s"
| "do_agent w s (FinishesConfiguring x) = finish_configure x s"
| "do_agent w s (Beats c) = ([SendsHealth], s\<lparr>at_clock := c\<rparr>)"
| "do_agent w s AskedToStop = ([], s\<lparr>at_stopping := True\<rparr>)"

end
