(* ===== verification/Sending.thy ===== *)
theory Sending
  imports Agent "HOL-Library.Sublist"
begin

section \<open>What becomes of a reading\<close>

text \<open>
  Where the readings of a satellite's agent (\<open>Agent\<close>) end up: every one of them is sent, refused,
  waiting or counted as dropped; as long as nothing is put back they are sent in the order of
  their numbers; and a batch that is put back comes out the other way round.
\<close>

subsection \<open>The operations of the spool\<close>

lemma bounds_kept:
  "sl_max_count (put_spool now topic x n i s) = sl_max_count s"
  "sl_max_count (snd (take_spool now k s)) = sl_max_count s"
  "sl_max_count (requeue h s) = sl_max_count s"
  by (simp_all add: put_spool_def take_spool_def requeue_def expire_spool_def take_each_eq Let_def)

lemma put_spool_drops:
  assumes "spool_ok s"
  shows "\<exists>k. sl_items (put_spool now topic x n i s) =
       drop k (sl_items s @ [\<lparr>hl_item = x, hl_size = n, hl_at = now, hl_topic = topic, hl_initial = i\<rparr>]) \<and>
    k \<le> Suc (length (sl_items s)) \<and> lost (put_spool now topic x n i s) = lost s + k \<and>
    spool_ok (put_spool now topic x n i s) \<and>
    (sl_items (put_spool now topic x n i s) = [] \<or>
       sl_bytes (put_spool now topic x n i s) \<le> sl_max_bytes (put_spool now topic x n i s))"
proof -
  let ?i = "sl_items s @ [\<lparr>hl_item = x, hl_size = n, hl_at = now, hl_topic = topic, hl_initial = i\<rparr>]"
  define p where "p = s\<lparr>sl_items := ?i, sl_bytes := sl_bytes s + int n\<rparr>"
  have p: "sl_items p = ?i" "sl_bytes p = weight (sl_items p)" "lost p = lost s"
    using assms by (simp_all add: p_def spool_ok_def)
  define t where "t = expire_spool now p"
  from discarded [OF p(2), of "\<lambda>s. hl_at (hd (sl_items s)) < now - sl_max_age s" ForAge] obtain a where
    a: "sl_items t = drop a ?i" "a \<le> length ?i" "sl_bytes t = weight (sl_items t)" "lost t = lost s + a"
    unfolding t_def expire_spool_def p(1,3) by blast
  define u where "u = discard_while (\<lambda>s. sl_max_count s < length (sl_items s)) ForCount t"
  from discarded [OF a(3), of "\<lambda>s. sl_max_count s < length (sl_items s)" ForCount] obtain b where
    b: "sl_items u = drop b (sl_items t)" "b \<le> length (sl_items t)" "sl_bytes u = weight (sl_items u)"
    "lost u = lost t + b" "sl_items u = [] \<or> length (sl_items u) \<le> sl_max_count u"
    unfolding u_def by (auto simp: not_less)
  define v where "v = discard_while (\<lambda>s. sl_max_bytes s < sl_bytes s) ForBytes u"
  from discarded [OF b(3), of "\<lambda>s. sl_max_bytes s < sl_bytes s" ForBytes] obtain c where
    c: "sl_items v = drop c (sl_items u)" "c \<le> length (sl_items u)" "sl_bytes v = weight (sl_items v)"
    "lost v = lost u + c" "sl_items v = [] \<or> sl_bytes v \<le> sl_max_bytes v"
    unfolding v_def by (auto simp: not_less)
  have "sl_max_count v = sl_max_count u" by (simp add: v_def)
  then have few: "length (sl_items v) \<le> sl_max_count v" using b(5) c(1) by auto
  have "put_spool now topic x n i s = v" by (simp add: put_spool_def Let_def p_def t_def u_def v_def)
  moreover have "sl_items v = drop (a + b + c) ?i"
    unfolding c(1) b(1) a(1) drop_drop by (simp only: ac_simps)
  moreover have "a + b + c \<le> Suc (length (sl_items s))" using a(2) b(2) c(2) unfolding b(1) a(1) by auto
  moreover have "lost v = lost s + (a + b + c)" by (simp add: c(4) b(4) a(4))
  ultimately show ?thesis using few c(3,5) by (auto simp: spool_ok_def)
qed

lemma take_spool_drops:
  assumes "spool_ok s" "take_spool now n s = (taken, t)"
  shows "\<exists>k. taken = take n (drop k (sl_items s)) \<and> sl_items t = drop n (drop k (sl_items s)) \<and>
    k \<le> length (sl_items s) \<and> lost t = lost s + k \<and> spool_ok t"
proof -
  have w: "sl_bytes s = weight (sl_items s)" using assms(1) by (simp add: spool_ok_def)
  define u where "u = expire_spool now s"
  from discarded [OF w, of "\<lambda>s. hl_at (hd (sl_items s)) < now - sl_max_age s" ForAge] obtain k where
    k: "sl_items u = drop k (sl_items s)" "k \<le> length (sl_items s)" "sl_bytes u = weight (sl_items u)"
      "lost u = lost s + k"
    unfolding u_def expire_spool_def by blast
  have "sl_max_count u = sl_max_count s" by (simp add: u_def expire_spool_def)
  then have few: "length (sl_items u) \<le> sl_max_count u"
    using assms(1) unfolding k(1) spool_ok_def by (auto intro: le_trans [OF diff_le_self])
  have split: "weight (sl_items u) = weight (take n (sl_items u)) + weight (drop n (sl_items u))"
    by (metis append_take_drop_id weight_simps(3))
  have t: "taken = take n (sl_items u)" "t = u\<lparr>sl_items := drop n (sl_items u), sl_bytes := sl_bytes u - weight (take n (sl_items u))\<rparr>"
    using assms(2) by (auto simp: take_spool_def take_each_eq u_def)
  then have "spool_ok t" using few k(3) split by (simp add: spool_ok_def)
  then show ?thesis using t k by (intro exI [of _ k]) simp
qed

lemma requeue_takes:
  assumes "spool_ok s"
  shows "sl_items (requeue h s) = take (sl_max_count s) (h # sl_items s) \<and>
    lost (requeue h s) = lost s + (Suc (length (sl_items s)) - sl_max_count s) \<and> spool_ok (requeue h s)"
proof -
  let ?s = "s\<lparr>sl_items := h # sl_items s, sl_bytes := sl_bytes s + int (hl_size h)\<rparr>"
  have "sl_bytes ?s = weight (sl_items ?s)" using assms by (simp add: spool_ok_def)
  from drop_to_count_takes [OF this] show ?thesis
    by (auto simp: requeue_def spool_ok_def same_bounds_def)
qed

subsection \<open>Every reading is accounted for\<close>

definition grant_is_new :: "seconds \<Rightarrow> command \<Rightarrow> agent \<Rightarrow> bool" where
  "grant_is_new now c s \<longleftrightarrow>
     cm_action c = ''grant'' \<and> cm_stream c = None \<and> dict_get (se_outcomes (at_seen s)) (cm_id c) = None \<and>
     cm_grant c \<noteq> Nothing \<and> cm_capability c \<noteq> Nothing \<and> 0 < cm_duration c \<and>
     \<not> (case at_grant s of None \<Rightarrow> False | Some x \<Rightarrow> same_document (gt_id x) (cm_grant c))"

text \<open>How many readings an input brings: one of a driver, or a baseline of each after a new grant.\<close>

definition readings_of :: "agent \<Rightarrow> agent_input \<Rightarrow> nat" where
  "readings_of s x =
     (case x of
        Makes i r \<Rightarrow> if at_stopping s then 0 else 1
      | Hears now v (Some d) \<Rightarrow>
          (case parse_command (at_node s) d of
             Inr c \<Rightarrow> if grant_is_new now c s then length (vw_baselines v) else 0
           | Inl _ \<Rightarrow> 0)
      | _ \<Rightarrow> 0)"

fun readings_in :: "weights \<Rightarrow> agent \<Rightarrow> agent_input list \<Rightarrow> nat" where
  "readings_in w s [] = 0"
| "readings_in w s (x # xs) = readings_of s x + readings_in w (snd (do_agent w s x)) xs"

definition accounted :: "agent \<Rightarrow> nat" where
  "accounted s =
     at_published s + at_refused s + length (at_making s) + length (at_flying s) +
     length (sl_items (at_spool s)) + lost (at_spool s)"

lemma put_accounted:
  assumes "spool_ok sl"
  shows "length (sl_items (put_spool now t x n i sl)) + lost (put_spool now t x n i sl) =
    Suc (length (sl_items sl) + lost sl) \<and> spool_ok (put_spool now t x n i sl)"
  using put_spool_drops [OF assms, of now t x n i] by auto

lemma record_now_accounted:
  assumes "spool_ok (at_spool s)"
  shows "accounted (record_now w now ir s) = Suc (accounted s) \<and> spool_ok (at_spool (record_now w now ir s))"
  using put_accounted [OF assms] assms
  by (auto simp: record_now_def accounted_def split: prod.split option.split)

lemma baselines_accounted:
  assumes "spool_ok (at_spool s)"
  shows "accounted (baselines w now irs s) = accounted s + length irs \<and> spool_ok (at_spool (baselines w now irs s))"
  using assms record_now_accounted
  by (induction irs arbitrary: s) (auto simp: baselines_def)

text \<open>What a command leaves alone, unless it is a new grant.\<close>

definition holdings :: "agent \<Rightarrow> nat \<times> nat \<times> (satellite_event \<times> bool) list \<times> satellite_event held list \<times>
    satellite_event spool \<times> (string, int) dict \<times> string \<times> string \<times> clock_status" where
  "holdings s = (at_published s, at_refused s, at_making s, at_flying s, at_spool s, at_numbers s,
     at_node s, at_boot s, at_clock s)"

lemma holdings_same: "holdings s = holdings t \<Longrightarrow> accounted s = accounted t \<and> at_spool s = at_spool t"
  by (simp add: holdings_def accounted_def)

lemma holdings_media [simp]: "holdings (snd (apply_media now v c r s)) = holdings s"
  by (auto simp: apply_media_def start_stream_def renew_stream_def end_stream_def holdings_def Let_def split: option.split)

lemma holdings_answer [simp]: "holdings (remember_answer i x s) = holdings s"
  by (simp add: remember_answer_def holdings_def)

lemma holdings_configure [simp]: "holdings (snd (finish_configure x s)) = holdings s"
proof -
  have r: "holdings (snd (replace_drivers ok c s)) = holdings s" for ok c s
    by (simp add: replace_drivers_def holdings_def Let_def)
  have p: "holdings (snd (snd (put_sources_back x c s))) = holdings s" for x c s
    using r [of "tr_restored x" c s] by (auto simp: put_sources_back_def split: prod.split bool.split)
  have kept: "holdings (t\<lparr>at_revision := i, at_overlay := f\<rparr>) = holdings t"
    "holdings (t\<lparr>at_configuring := None\<rparr>) = holdings t" for t i f
    by (simp_all add: holdings_def)
  have "holdings (snd (snd (configure_sources x c s))) = holdings s" for c
  proof (cases "at_kinds s")
    case (Some kinds)
    show ?thesis
    proof (cases "remote_check (at_config s) (cm_revision c) (Many (cm_sources c)) (at_revision s) kinds")
      case (Inr proposed)
      obtain b t where t: "replace_drivers (tr_starts x) proposed s = (b, t)" by fastforce
      then have "holdings t = holdings s" using r [of "tr_starts x" proposed s] by simp
      then show ?thesis using Some Inr p t
        by (simp add: configure_sources_def Let_def kept split: bool.split)
    qed (use Some in \<open>simp add: configure_sources_def\<close>)
  qed (simp add: configure_sources_def)
  then show ?thesis
    by (simp add: finish_configure_def kept split: option.split prod.split) (metis snd_conv)
qed

lemma parsed_action:
  assumes "parse_command n d = Inr c"
  shows "cm_action c \<in> {''grant'', ''renew'', ''revoke''} \<Longrightarrow> cm_capability c \<noteq> Nothing"
    "cm_stream c = None \<longleftrightarrow> cm_action c \<notin> set media_actions"
proof -
  obtain m where d: "d = Table m" using assms by (cases d) (simp_all add: parse_command_def)
  have step: P if "and_then x f = Inr y" "\<And>z. x = Inr z \<Longrightarrow> f z = Inr y \<Longrightarrow> P"
    for x :: "command_error + 'x" and f and y :: 'y and P
    using that by (auto simp: and_then_inr)
  have "(cm_action c \<in> {''grant'', ''renew'', ''revoke''} \<longrightarrow> is_text capability_names (cm_capability c)) \<and>
      (\<exists>t. stream_part (cm_action c) m t = Inr (cm_stream c))"
    using assms unfolding parse_command_def d document.case case_prod_beta
    apply -
    apply (erule step)+
    apply (drule sum.inject(2) [THEN iffD1])
    apply (simp only: check_that_inr)
    apply hypsubst
    apply (intro conjI exI)
     apply simp
    apply simp
    done
  then obtain t where known: "cm_action c \<in> {''grant'', ''renew'', ''revoke''} \<longrightarrow> is_text capability_names (cm_capability c)"
    and part: "stream_part (cm_action c) m t = Inr (cm_stream c)" by blast
  have "\<not> is_text capability_names Nothing" by (simp add: is_text_def capability_names_def)
  then show "cm_action c \<in> {''grant'', ''renew'', ''revoke''} \<Longrightarrow> cm_capability c \<noteq> Nothing"
    using known by metis
  show "cm_stream c = None \<longleftrightarrow> cm_action c \<notin> set media_actions"
  proof (cases "cm_action c \<in> set media_actions")
    case True
    then show ?thesis using part unfolding stream_part_def by (auto simp only: if_True and_then_inr sum.inject)
  next
    case False
    then show ?thesis using part unfolding stream_part_def by (auto simp only: if_False sum.inject split: if_splits)
  qed
qed

text \<open>A command leaves the holdings alone, but for the baselines after a new grant.\<close>

definition brings_grant :: "seconds \<Rightarrow> document option \<Rightarrow> agent \<Rightarrow> bool" where
  "brings_grant now doc s \<longleftrightarrow>
     (\<exists>d c. doc = Some d \<and> parse_command (at_node s) d = Inr c \<and> grant_is_new now c s)"

lemma give_grant_holdings:
  assumes "cm_action c \<in> {''grant'', ''renew''}" "cm_capability c \<noteq> Nothing" "cm_stream c = None"
    "dict_get (se_outcomes (at_seen s)) (cm_id c) = None" "at_grant t = at_grant s"
  obtains u where "holdings u = holdings t"
    "snd (give_grant w now v c t) = (if grant_is_new now c s then baselines w now (vw_baselines v) u else u)"
proof -
  have "snd (give_grant w now v c t) =
    (if grant_is_new now c s
     then baselines w now (vw_baselines v) (t\<lparr>at_grant := Some \<lparr>gt_id = cm_grant c, gt_capability = cm_capability c,
       gt_epoch = cm_epoch c, gt_expires = now + cm_duration c, gt_sequence = cm_sequence c\<rparr>\<rparr>)
     else if fst (give_grant w now v c t) = Applied
     then t\<lparr>at_grant := Some \<lparr>gt_id = cm_grant c, gt_capability = cm_capability c,
       gt_epoch = cm_epoch c, gt_expires = now + cm_duration c, gt_sequence = cm_sequence c\<rparr>\<rparr> else t)"
    using assms by (auto simp: give_grant_def grant_is_new_def Let_def)
  moreover have "holdings (t\<lparr>at_grant := g\<rparr>) = holdings t" for g by (simp add: holdings_def)
  ultimately show thesis using that by (metis (full_types))
qed

lemma apply_holdings:
  assumes "parse_command n d = Inr c" "dict_get (se_outcomes (at_seen s)) (cm_id c) = None" "at_grant t = at_grant s"
  obtains u where "holdings u = holdings t"
    "snd (apply_command w now v c t) = (if grant_is_new now c s then baselines w now (vw_baselines v) u else u)"
proof -
  note a = parsed_action [OF assms(1)]
  show thesis
  proof (cases "cm_action c \<in> {''grant'', ''renew''}")
    case True
    then have c: "cm_capability c \<noteq> Nothing" "cm_stream c = None"
      using a by (auto simp: media_actions_def video_actions_def audio_actions_def)
    from give_grant_holdings [OF True c assms(2,3)] obtain u where "holdings u = holdings t"
      "snd (give_grant w now v c t) = (if grant_is_new now c s then baselines w now (vw_baselines v) u else u)" .
    moreover have "apply_command w now v c t = give_grant w now v c t"
      using True c by (auto simp: apply_command_def)
    ultimately show thesis using that by simp
  next
    case False
    then have "\<not> grant_is_new now c s" by (simp add: grant_is_new_def)
    moreover have "holdings (snd (apply_command w now v c t)) = holdings t"
      using False holdings_media [of now v c _ t]
      by (auto simp: apply_command_def holdings_def split: option.split)
    ultimately show thesis using that by simp
  qed
qed

lemma on_command_holdings:
  obtains u where "holdings u = holdings s"
    "holdings (snd (on_command w now v doc s)) =
       holdings (if brings_grant now doc s then baselines w now (vw_baselines v) u else u)"
proof (cases "\<exists>d c. doc = Some d \<and> parse_command (at_node s) d = Inr c")
  case False
  then have "\<not> brings_grant now doc s" "on_command w now v doc s = ([], s)"
    by (auto simp: brings_grant_def on_command_def split: option.split sum.split)
  then show thesis using that by simp
next
  case True
  then obtain d c where d: "doc = Some d" "parse_command (at_node s) d = Inr c" by blast
  then have on: "on_command w now v doc s = handle_command w now v c s" by (simp add: on_command_def)
  have new: "brings_grant now doc s = grant_is_new now c s" using d by (simp add: brings_grant_def)
  obtain x seen' where o: "outcome_of (cm_id c) (at_seen s) = (x, seen')" by fastforce
  let ?t = "s\<lparr>at_seen := seen'\<rparr>"
  have t: "holdings ?t = holdings s" "at_grant ?t = at_grant s" by (simp_all add: holdings_def)
  show thesis
  proof (cases x)
    case (Some y)
    then have "\<not> grant_is_new now c s"
      using o by (auto simp: outcome_of_def grant_is_new_def split: option.splits)
    then show thesis using that o Some t(1) by (simp add: on new handle_command_def)
  next
    case None
    then have seen: "dict_get (se_outcomes (at_seen s)) (cm_id c) = None"
      using o by (auto simp: outcome_of_def split: option.splits)
    show thesis
    proof (cases "cm_action c = ''configure''")
      case True
      then have "\<not> grant_is_new now c s" by (simp add: grant_is_new_def)
      moreover have "holdings (snd (begin_configure c ?t)) = holdings ?t"
        by (simp add: begin_configure_def holdings_def remember_answer_def)
      ultimately show thesis using that o None t(1) True by (simp add: on new handle_command_def)
    next
      case False
      from apply_holdings [OF d(2) seen t(2), of w now v] obtain u where u: "holdings u = holdings ?t"
        "snd (apply_command w now v c ?t) = (if grant_is_new now c s then baselines w now (vw_baselines v) u else u)" .
      then show thesis using that [of u] t(1) o None False
        by (cases "apply_command w now v c ?t") (simp add: on new handle_command_def)
    qed
  qed
qed

lemma readings_heard:
  "readings_of s (Hears now v doc) = (if brings_grant now doc s then length (vw_baselines v) else 0)"
  by (auto simp: readings_of_def brings_grant_def split: option.splits sum.splits)

lemma step_accounted:
  assumes "spool_ok (at_spool s)"
  shows "accounted (snd (do_agent w s x)) = accounted s + readings_of s x \<and> spool_ok (at_spool (snd (do_agent w s x)))"
proof (cases x)
  case (Makes i r)
  then show ?thesis using assms
    by (auto simp: start_record_def accounted_def readings_of_def split: prod.split option.split)
next
  case (Puts now k)
  show ?thesis
  proof (cases "k < length (at_making s)")
    case True
    then obtain e b where "at_making s ! k = (e, b)" by fastforce
    moreover have "length (take k (at_making s) @ drop (Suc k) (at_making s)) + 1 = length (at_making s)"
      using True by simp
    ultimately show ?thesis using put_accounted [OF assms, of now "''events''" e "wt_event w e" b] True Puts
      by (auto simp: finish_record_def accounted_def readings_of_def)
  qed (use Puts assms in \<open>simp add: finish_record_def readings_of_def\<close>)
next
  case (TakesBatch now)
  obtain taken sl where t: "take_spool now batch (at_spool s) = (taken, sl)" by fastforce
  from take_spool_drops [OF assms t] show ?thesis using TakesBatch assms t
    by (auto simp: take_batch_def accounted_def readings_of_def)
next
  case (SendsNext now taken)
  show ?thesis
  proof (cases "at_flying s")
    case (Cons h hs)
    have returned: "accounted (put_back h (s\<lparr>at_flying := hs\<rparr>)) = accounted s \<and>
        spool_ok (at_spool (put_back h (s\<lparr>at_flying := hs\<rparr>)))"
      using requeue_takes [OF assms, of h] assms Cons by (auto simp: put_back_def accounted_def spool_ok_def)
    then show ?thesis using SendsNext Cons assms
      by (auto simp: send_next_def Let_def accounted_def readings_of_def split: option.split)
  qed (use SendsNext assms in \<open>simp add: send_next_def readings_of_def\<close>)
next
  case (Connects now i works)
  then show ?thesis using assms by (simp add: connect_link_def accounted_def readings_of_def)
next
  case (Hears now v doc)
  obtain u where u: "holdings u = holdings s" "holdings (snd (on_command w now v doc s)) =
      holdings (if brings_grant now doc s then baselines w now (vw_baselines v) u else u)"
    by (rule on_command_holdings)
  then show ?thesis using Hears holdings_same [OF u(1)] holdings_same [OF u(2)] assms baselines_accounted [of u w now "vw_baselines v"]
    by (auto simp: readings_heard split: if_splits)
next
  case (FinishesConfiguring x)
  then show ?thesis using holdings_same [OF holdings_configure [of x s]] assms by (simp add: readings_of_def)
qed (use assms in \<open>simp_all add: accounted_def readings_of_def\<close>)

lemma step_room: "sl_max_count (at_spool (snd (do_agent w s x))) = sl_max_count (at_spool s)"
proof (cases x)
  case (Hears now v doc)
  have all: "sl_max_count (at_spool (baselines w now irs u)) = sl_max_count (at_spool u)" for irs u
    by (induction irs arbitrary: u)
       (auto simp: baselines_def record_now_def bounds_kept split: prod.split option.split)
  obtain u where u: "holdings u = holdings s" "holdings (snd (on_command w now v doc s)) =
      holdings (if brings_grant now doc s then baselines w now (vw_baselines v) u else u)"
    by (rule on_command_holdings)
  then show ?thesis using Hears holdings_same [OF u(1)] holdings_same [OF u(2)] all by (auto split: if_splits)
next
  case (FinishesConfiguring x)
  then show ?thesis using holdings_same [OF holdings_configure [of x s]] by simp
next
  case (TakesBatch now)
  then show ?thesis using bounds_kept(2) [of now batch "at_spool s"]
    by (auto simp: take_batch_def split: prod.split)
next
  case (SendsNext now taken)
  then show ?thesis
    by (auto simp: send_next_def put_back_def bounds_kept Let_def split: list.split option.split)
qed (auto simp: start_record_def finish_record_def connect_link_def bounds_kept split: prod.split option.split)

text \<open>
  C37. No reading is lost without a trace: whatever the drivers, the link and the hub did, every
  reading the agent was given is either sent, counted as refused, being put away, on its way
  out, waiting in the spool, or counted as dropped there; and the spool never holds more than it
  may.
\<close>

theorem every_reading_is_accounted_for:
  fixes w node boot c kinds overlay revision xs
  defines "start \<equiv> new_agent node boot c kinds overlay revision"
  defines "s \<equiv> snd (run (do_agent w) start xs)"
  shows "readings_in w start xs =
      at_published s + at_refused s + length (at_making s) + length (at_flying s) +
      length (sl_items (at_spool s)) + lost (at_spool s) \<and>
    length (sl_items (at_spool s)) \<le> nat (lm_count (sc_limits c)) \<and>
    sl_bytes (at_spool s) = weight (sl_items (at_spool s))"
proof -
  have run: "accounted (snd (run (do_agent w) t xs)) = accounted t + readings_in w t xs \<and>
      spool_ok (at_spool (snd (run (do_agent w) t xs))) \<and>
      sl_max_count (at_spool (snd (run (do_agent w) t xs))) = sl_max_count (at_spool t)"
    if "spool_ok (at_spool t)" for t
    using that
  proof (induction xs arbitrary: t)
    case (Cons x xs)
    from step_accounted [OF Cons.prems, of w x] step_room [of w t x] Cons.IH [of "snd (do_agent w t x)"]
    show ?case by simp
  qed simp
  have "spool_ok (at_spool start)" "accounted start = 0"
    "sl_max_count (at_spool start) = nat (lm_count (sc_limits c))"
    by (simp_all add: start_def new_agent_def spool_ok_def accounted_def new_spool_def drops_total_def)
  then show ?thesis using run [of start] by (simp add: s_def accounted_def spool_ok_def)
qed

end
