(* ===== verification/Ordered.thy ===== *)
theory Ordered
  imports Sending
begin

section \<open>Sent in the order of the readings\<close>

text \<open>
  As long as nothing has to be put back, a satellite sends the readings of a source in the order
  of their numbers, however the threads of its drivers take turns; and a batch that is put back
  comes out the other way round.
\<close>

subsection \<open>The line\<close>

text \<open>Everything that has a number and is not sent, the next to go first.\<close>

definition line :: "agent \<Rightarrow> satellite_event list" where
  "line s = map hl_item (at_flying s) @ map hl_item (sl_items (at_spool s)) @ map fst (at_making s)"

definition of_source :: "string \<Rightarrow> satellite_event list \<Rightarrow> satellite_event list" where
  "of_source src = filter (\<lambda>e. ev_source e = src)"

definition next_number :: "agent \<Rightarrow> string \<Rightarrow> int" where
  "next_number s src = fst (take_number src (at_numbers s))"

definition stamp :: "agent \<Rightarrow> string \<times> string" where
  "stamp s = (at_node s, at_boot s)"

lemma stamp_updates [simp]:
  "stamp (s\<lparr>at_numbers := d\<rparr>) = stamp s" "stamp (s\<lparr>at_refused := n\<rparr>) = stamp s"
  "stamp (s\<lparr>at_making := m\<rparr>) = stamp s" "stamp (s\<lparr>at_spool := sl\<rparr>) = stamp s"
  "stamp (s\<lparr>at_flying := f\<rparr>) = stamp s" "stamp (s\<lparr>at_published := n\<rparr>) = stamp s"
  "stamp (s\<lparr>at_connected := b\<rparr>) = stamp s" "stamp (s\<lparr>at_connection := i\<rparr>) = stamp s"
  "stamp (s\<lparr>at_linked := now\<rparr>) = stamp s" "stamp (s\<lparr>at_clock := c\<rparr>) = stamp s"
  "stamp (s\<lparr>at_stopping := b\<rparr>) = stamp s"
  by (simp_all add: stamp_def)

definition in_order :: "string \<times> string \<Rightarrow> satellite_event list \<Rightarrow> (string \<Rightarrow> int) \<Rightarrow> bool" where
  "in_order st es n \<longleftrightarrow>
     (\<forall>e \<in> set es. (ev_node e, ev_boot e) = st) \<and>
     (\<forall>src. sorted_wrt (<) (map ev_sequence (of_source src es)) \<and>
        (\<forall>e \<in> set (of_source src es). ev_sequence e < n src))"

lemma of_source_append [simp]: "of_source src (xs @ ys) = of_source src xs @ of_source src ys"
  by (simp add: of_source_def)

lemma sorted_wrt_subseq: "subseq xs ys \<Longrightarrow> sorted_wrt P ys \<Longrightarrow> sorted_wrt P xs"
  by (induction rule: list_emb.induct) (auto dest: list_emb_set)

lemma in_order_fewer:
  assumes "in_order st es n" "subseq fs es"
  shows "in_order st fs n"
proof -
  have sub: "subseq (of_source src fs) (of_source src es)" for src using assms(2) by (simp add: of_source_def)
  then have "sorted_wrt (<) (map ev_sequence (of_source src fs))" for src
    using assms(1) unfolding in_order_def by (blast intro: sorted_wrt_subseq subseq_map)
  moreover have "set (of_source src fs) \<subseteq> set (of_source src es)" for src using sub by (blast dest: list_emb_set)
  moreover have "set fs \<subseteq> set es" using assms(2) by (blast dest: list_emb_set)
  ultimately show ?thesis using assms(1) unfolding in_order_def by blast
qed

lemma in_order_next:
  assumes "in_order st es n" "ev_sequence e = n (ev_source e)" "(ev_node e, ev_boot e) = st"
  shows "in_order st (es @ [e]) (n(ev_source e := n (ev_source e) + 1))"
  using assms by (auto simp: in_order_def of_source_def sorted_wrt_append) force+

text \<open>Two events of different sources may change places.\<close>

lemma of_source_swap:
  assumes "\<forall>a \<in> set as. ev_source a \<noteq> ev_source e"
  shows "of_source src (xs @ as @ e # bs) = of_source src (xs @ e # as @ bs)"
  using assms by (auto simp: of_source_def filter_empty_conv)

lemma in_order_same: "(\<And>src. of_source src es = of_source src fs) \<Longrightarrow> in_order st es n \<Longrightarrow> in_order st fs n"
proof -
  assume *: "\<And>src. of_source src es = of_source src fs" "in_order st es n"
  have "e \<in> set es \<longleftrightarrow> e \<in> set fs" for e
    using arg_cong [OF *(1) [of "ev_source e"], of set] by (auto simp: of_source_def)
  with * show ?thesis by (simp add: in_order_def)
qed

text \<open>A new event has the next number of its source.\<close>

lemma made_event:
  assumes "make_event node boot clock i r d = (x, d')"
  shows "(case x of
      Some e \<Rightarrow> ev_source e = rd_source r \<and> ev_sequence e = fst (take_number (rd_source r) d) \<and>
        ev_node e = node \<and> ev_boot e = boot \<and> ev_id e = i \<and>
        (\<lambda>src. fst (take_number src d')) = (\<lambda>src. fst (take_number src d))
          (rd_source r := fst (take_number (rd_source r) d) + 1)
    | None \<Rightarrow> \<forall>src. fst (take_number src d) \<le> fst (take_number src d'))"
  using assms
  by (auto simp: make_event_def take_number_def Let_def fun_eq_iff
      split: option.splits if_splits prod.splits read_value.splits)

lemma in_order_more: "in_order st es n \<Longrightarrow> (\<And>src. n src \<le> m src) \<Longrightarrow> in_order st es m"
  unfolding in_order_def by (blast intro: less_le_trans)

subsection \<open>A run without disturbance\<close>

text \<open>
  A driver puts its reading away before it makes the next, no baseline is taken of a source whose
  reading is just being put away, and what goes out finds a grant and a link that takes it.
\<close>

fun undisturbed_step :: "agent \<Rightarrow> agent_input \<Rightarrow> bool" where
  "undisturbed_step s (Makes i r) = (rd_source r \<notin> ev_source ` fst ` set (at_making s))"
| "undisturbed_step s (SendsNext now taken) =
     (case at_flying s of [] \<Rightarrow> True | h # _ \<Rightarrow> taken \<and> envelope_of now h s \<noteq> None)"
| "undisturbed_step s (Hears now v doc) =
     list_all (\<lambda>(i, r). rd_source r \<notin> ev_source ` fst ` set (at_making s)) (vw_baselines v)"
| "undisturbed_step s _ = True"

fun undisturbed :: "weights \<Rightarrow> agent \<Rightarrow> agent_input list \<Rightarrow> bool" where
  "undisturbed w s [] = True"
| "undisturbed w s (x # xs) = (undisturbed_step s x \<and> undisturbed w (snd (do_agent w s x)) xs)"

fun sent_event :: "sent \<Rightarrow> envelope option" where
  "sent_event (SendsEvent v) = Some v"
| "sent_event _ = None"

definition events_out :: "sent list list \<Rightarrow> envelope list" where
  "events_out outs = List.map_filter sent_event (concat outs)"

definition apart :: "agent \<Rightarrow> bool" where
  "apart s \<longleftrightarrow> distinct (map (ev_source \<circ> fst) (at_making s))"

text \<open>What every step does to the line.\<close>

definition follows :: "agent \<Rightarrow> satellite_event list \<Rightarrow> agent \<Rightarrow> bool" where
  "follows s out t \<longleftrightarrow>
     (stamp t = stamp s \<and> (\<forall>sent. in_order (stamp s) (sent @ line s) (next_number s) \<longrightarrow>
       in_order (stamp t) (sent @ out @ line t) (next_number t)))"

lemma follows_refl [simp]: "follows s [] s"
  by (simp add: follows_def)

lemma follows_trans [trans]: "follows s out t \<Longrightarrow> follows t [] u \<Longrightarrow> follows s out u"
  by (auto simp: follows_def) (metis append.assoc append_Nil)

lemma follows_same: "line t = line s \<Longrightarrow> at_numbers t = at_numbers s \<Longrightarrow> stamp t = stamp s \<Longrightarrow> follows s [] t"
  by (simp add: follows_def next_number_def [abs_def])

lemma follows_fewer: "subseq (out @ line t) (line s) \<Longrightarrow> at_numbers t = at_numbers s \<Longrightarrow> stamp t = stamp s \<Longrightarrow> follows s out t"
  unfolding follows_def next_number_def [abs_def] by (auto elim!: in_order_fewer simp: subseq_append')

lemma follows_holdings: "holdings t = holdings s \<Longrightarrow> follows s [] t"
  by (intro follows_same) (simp_all add: holdings_def line_def stamp_def)

lemma start_record_follows: "follows s [] (start_record i r s)"
proof -
  obtain x d where m: "make_event (at_node s) (at_boot s) (at_clock s) i r (at_numbers s) = (x, d)" by fastforce
  show ?thesis
  proof (cases x)
    case None
    then show ?thesis using made_event [OF m] m
      by (auto simp: start_record_def follows_def line_def next_number_def elim!: in_order_more)
  next
    case (Some e)
    then have n: "ev_sequence e = next_number s (ev_source e)"
      "next_number (start_record i r s) = (next_number s)(ev_source e := next_number s (ev_source e) + 1)"
      "line (start_record i r s) = line s @ [e]"
      using made_event [OF m] m by (simp_all add: start_record_def line_def next_number_def [abs_def])
    show ?thesis unfolding follows_def n(2,3)
      using in_order_next [of "stamp s" _ "next_number s" e] n(1) made_event [OF m] m Some
      by (simp add: start_record_def stamp_def flip: append_assoc)
  qed
qed

lemma start_record_apart:
  assumes "apart s" "rd_source r \<notin> ev_source ` fst ` set (at_making s)"
  shows "apart (start_record i r s)"
  using assms made_event [of "at_node s" "at_boot s" "at_clock s" i r "at_numbers s"]
  by (force simp: start_record_def apart_def image_image split: prod.split option.split)

lemma finish_record_follows:
  assumes "spool_ok (at_spool s)" "apart s"
  shows "follows s [] (finish_record w now k s) \<and> apart (finish_record w now k s)"
proof (cases "k < length (at_making s)")
  case True
  then obtain e b where m: "at_making s ! k = (e, b)" by fastforce
  have making: "at_making s = take k (at_making s) @ (e, b) # drop (Suc k) (at_making s)"
    using True m id_take_nth_drop by metis
  have own: "\<forall>a \<in> set (map fst (take k (at_making s))). ev_source a \<noteq> ev_source e"
    using assms(2) unfolding apart_def by (subst (asm) making) (auto simp: image_iff)
  from put_spool_drops [OF assms(1), of now "''events''" e "wt_event w e" b] obtain j where
    j: "sl_items (put_spool now ''events'' e (wt_event w e) b (at_spool s)) =
      drop j (sl_items (at_spool s) @ [\<lparr>hl_item = e, hl_size = wt_event w e, hl_at = now, hl_topic = ''events'', hl_initial = b\<rparr>])"
    by blast
  let ?t = "finish_record w now k s" and ?f = "map hl_item (at_flying s)" and ?i = "map hl_item (sl_items (at_spool s))"
  let ?a = "map fst (take k (at_making s))" and ?b = "map fst (drop (Suc k) (at_making s))"
  have t: "line ?t = ?f @ drop j (?i @ [e]) @ ?a @ ?b" "at_numbers ?t = at_numbers s" "stamp ?t = stamp s"
    using True m j by (simp_all add: finish_record_def line_def drop_map [symmetric])
  have s: "line s = (?f @ ?i) @ ?a @ e # ?b"
    unfolding line_def by (subst making) simp
  have "in_order (stamp ?t) (sent @ line ?t) (next_number ?t)" if "in_order (stamp s) (sent @ line s) (next_number s)" for sent
  proof (rule in_order_fewer)
    have "of_source src (sent @ line s) = of_source src (sent @ (?f @ ?i) @ e # ?a @ ?b)" for src
      unfolding s using of_source_swap [OF own, of src "?f @ ?i" ?b] by simp
    from in_order_same [OF this that]
    show "in_order (stamp ?t) (sent @ (?f @ ?i) @ e # ?a @ ?b) (next_number ?t)" using t(2,3) by (simp add: next_number_def [abs_def])
    have "subseq (drop j (?i @ [e]) @ ?a @ ?b) ((?i @ [e]) @ ?a @ ?b)"
      by (intro list_emb_append_mono) (auto intro: suffix_imp_subseq suffix_drop simp del: drop_append)
    then show "subseq (sent @ line ?t) (sent @ (?f @ ?i) @ e # ?a @ ?b)"
      unfolding t by (simp add: subseq_append' del: drop_append)
  qed
  moreover have "apart ?t"
    using assms(2) True m unfolding apart_def by (subst (asm) making) (simp add: finish_record_def)
  ultimately show ?thesis using t(3) by (simp add: follows_def)
qed (use assms in \<open>simp add: finish_record_def\<close>)

lemma record_now_follows:
  assumes "spool_ok (at_spool s)" "rd_source (snd ir) \<notin> ev_source ` fst ` set (at_making s)"
  shows "follows s [] (record_now w now ir s) \<and> at_making (record_now w now ir s) = at_making s"
proof -
  obtain x d where m: "make_event (at_node s) (at_boot s) (at_clock s) (fst ir) (snd ir) (at_numbers s) = (x, d)"
    by fastforce
  show ?thesis
  proof (cases x)
    case None
    then show ?thesis using made_event [OF m] m
      by (auto simp: record_now_def follows_def line_def next_number_def elim!: in_order_more)
  next
    case (Some e)
    let ?t = "record_now w now ir s"
    have n: "ev_sequence e = next_number s (ev_source e)" "ev_source e = rd_source (snd ir)"
      "next_number ?t = (next_number s)(ev_source e := next_number s (ev_source e) + 1)"
      "stamp ?t = stamp s" "(ev_node e, ev_boot e) = stamp s"
      using made_event [OF m] m Some by (simp_all add: record_now_def next_number_def [abs_def] stamp_def)
    from put_spool_drops [OF assms(1), of now "''events''" e "wt_event w e" "rd_initial (snd ir)"] obtain j where
      j: "sl_items (put_spool now ''events'' e (wt_event w e) (rd_initial (snd ir)) (at_spool s)) =
        drop j (sl_items (at_spool s) @ [\<lparr>hl_item = e, hl_size = wt_event w e, hl_at = now,
          hl_topic = ''events'', hl_initial = rd_initial (snd ir)\<rparr>])"
      by blast
    let ?f = "map hl_item (at_flying s)" and ?i = "map hl_item (sl_items (at_spool s))" and ?m = "map fst (at_making s)"
    have t: "line ?t = ?f @ drop j (?i @ [e]) @ ?m"
      using m Some j by (simp add: record_now_def line_def drop_map [symmetric])
    have own: "\<forall>a \<in> set ?m. ev_source a \<noteq> ev_source e" using assms(2) n(2) by force
    have "in_order (stamp ?t) (sent @ line ?t) (next_number ?t)" if "in_order (stamp s) (sent @ line s) (next_number s)" for sent
    proof (rule in_order_fewer)
      from in_order_next [OF that n(1,5)] n(4) have "in_order (stamp ?t) (sent @ (?f @ ?i) @ ?m @ e # []) (next_number ?t)"
        unfolding n(3) line_def by simp
      moreover have "of_source src (sent @ (?f @ ?i) @ ?m @ e # []) = of_source src (sent @ (?f @ ?i) @ e # ?m)" for src
        using of_source_swap [OF own, of src "?f @ ?i" "[]"] by simp
      ultimately show "in_order (stamp ?t) (sent @ (?f @ ?i) @ e # ?m) (next_number ?t)" using in_order_same by blast
      have "subseq (drop j (?i @ [e]) @ ?m) ((?i @ [e]) @ ?m)"
        by (intro list_emb_append_mono) (auto intro: suffix_imp_subseq suffix_drop simp del: drop_append)
      then show "subseq (sent @ line ?t) (sent @ (?f @ ?i) @ e # ?m)"
        unfolding t by (simp add: subseq_append' del: drop_append)
    qed
    then show ?thesis using m Some n(4) by (simp add: follows_def record_now_def)
  qed
qed

lemma baselines_follow:
  assumes "spool_ok (at_spool s)" "list_all (\<lambda>(i, r). rd_source r \<notin> ev_source ` fst ` set (at_making s)) irs"
  shows "follows s [] (baselines w now irs s) \<and> at_making (baselines w now irs s) = at_making s"
  using assms
proof (induction irs arbitrary: s)
  case (Cons ir irs)
  let ?t = "record_now w now ir s"
  have t: "follows s [] ?t" "at_making ?t = at_making s" "spool_ok (at_spool ?t)"
    using record_now_follows [of s ir w now] record_now_accounted [of s w now ir] Cons.prems by (auto simp: case_prod_beta)
  have "follows ?t [] (baselines w now irs ?t) \<and> at_making (baselines w now irs ?t) = at_making ?t"
    using Cons.prems t by (intro Cons.IH) simp_all
  then show ?case using t follows_trans by (simp add: baselines_def)
qed (simp add: baselines_def)

subsection \<open>Every step\<close>

lemma events_out_append [simp]: "events_out (xs @ ys) = events_out xs @ events_out ys"
  by (simp add: events_out_def map_filter_def)

lemma events_out_cons: "events_out (x # xs) = events_out [x] @ events_out xs"
  using events_out_append [of "[x]" xs] by simp

lemma no_events_out [simp]:
  "events_out [[]] = []" "events_out [[SendsAnswer i x]] = []" "events_out [[SendsState b c n, SendsHealth]] = []"
  "events_out [[SendsHealth]] = []" "events_out [[SendsEvent v]] = [v]" "events_out [] = []"
  by (simp_all add: events_out_def map_filter_def)

lemma command_sends_no_event [simp]: "events_out [fst (on_command w now v doc s)] = []"
proof -
  have "events_out [fst (handle_command w now v c s)] = []" for c s
    by (auto simp: handle_command_def begin_configure_def split: prod.split option.split)
  then show ?thesis by (simp add: on_command_def split: option.split sum.split)
qed

lemma configuring_sends_no_event [simp]: "events_out [fst (finish_configure x s)] = []"
proof -
  have state: "events_out [[SendsState b c n]] = []" "events_out [[SendsState b c n, SendsAnswer i a]] = []" for b c n i a
    by (simp_all add: events_out_def map_filter_def)
  have p: "fst (put_sources_back x c s) = [] \<or> (\<exists>i n. fst (put_sources_back x c s) = [SendsState True i n])" for c s
    by (auto simp: put_sources_back_def split: prod.split bool.split)
  have "fst (configure_sources x c s) = [] \<or> (\<exists>i n. fst (configure_sources x c s) = [SendsState True i n])" for c
    using p by (simp add: configure_sources_def Let_def split: option.split sum.split prod.split bool.split)
  then have "events_out [fst (configure_sources x c s) @ [SendsAnswer i a]] = []" for c i a
    using no_events_out(2) state(2) by (metis append_Cons append_Nil)
  then show ?thesis by (simp add: finish_configure_def split: option.split prod.split) (metis fst_conv)
qed

lemma step_follows:
  assumes "spool_ok (at_spool s)" "apart s" "undisturbed_step s x"
  shows "follows s (map env_event (events_out [fst (do_agent w s x)])) (snd (do_agent w s x)) \<and>
    apart (snd (do_agent w s x))"
proof (cases x)
  case (Makes i r)
  then show ?thesis using assms start_record_follows start_record_apart by simp
next
  case (Puts now k)
  then show ?thesis using assms finish_record_follows by simp
next
  case (TakesBatch now)
  obtain taken sl where t: "take_spool now batch (at_spool s) = (taken, sl)" by fastforce
  from take_spool_drops [OF assms(1) t] obtain k where k: "taken = take batch (drop k (sl_items (at_spool s)))"
    "sl_items sl = drop batch (drop k (sl_items (at_spool s)))" by blast
  have "taken @ sl_items sl = drop k (sl_items (at_spool s))" unfolding k by (rule append_take_drop_id)
  then have l: "map hl_item taken @ map hl_item (sl_items sl) = drop k (map hl_item (sl_items (at_spool s)))"
    by (simp add: drop_map flip: map_append)
  have "follows s [] (s\<lparr>at_flying := taken, at_spool := sl\<rparr>)" if "at_flying s = []"
  proof (rule follows_fewer)
    have "subseq (drop k (map hl_item (sl_items (at_spool s))) @ map fst (at_making s)) (line s)"
      unfolding line_def that by (auto intro: list_emb_append_mono suffix_imp_subseq suffix_drop)
    then show "subseq ([] @ line (s\<lparr>at_flying := taken, at_spool := sl\<rparr>)) (line s)"
      by (simp add: line_def [of "s\<lparr>at_flying := taken, at_spool := sl\<rparr>"] flip: l)
  qed (simp_all add: stamp_def)
  then show ?thesis using TakesBatch assms t by (simp add: take_batch_def apart_def)
next
  case (SendsNext now taken)
  show ?thesis
  proof (cases "at_flying s")
    case Nil
    then show ?thesis using SendsNext assms by (simp add: send_next_def)
  next
    case (Cons h hs)
    then obtain v where v: "taken" "envelope_of now h s = Some v" using assms(3) SendsNext by auto
    then have e: "env_event v = hl_item h" by (auto simp: envelope_of_def Let_def split: option.splits)
    have "subseq (line (s\<lparr>at_flying := hs, at_refused := n\<rparr>)) (line s)" for n
      using Cons by (simp add: line_def list_emb_Cons)
    then have refused: "follows s [] (s\<lparr>at_flying := hs, at_refused := n\<rparr>)" for n
      by (intro follows_fewer) simp_all
    have "follows s [hl_item h] (s\<lparr>at_flying := hs, at_published := n\<rparr>)" for n
      using Cons by (intro follows_fewer) (simp_all add: line_def)
    then show ?thesis using refused SendsNext Cons v e assms(2) by (simp add: send_next_def Let_def apart_def)
  qed
next
  case (Connects now i works)
  then show ?thesis using assms(2) by (auto simp: connect_link_def apart_def line_def intro: follows_same)
next
  case (Hears now v doc)
  obtain u where u: "holdings u = holdings s" "holdings (snd (on_command w now v doc s)) =
      holdings (if brings_grant now doc s then baselines w now (vw_baselines v) u else u)"
    by (rule on_command_holdings)
  have same: "at_making u = at_making s" "at_spool u = at_spool s" using u(1) by (simp_all add: holdings_def)
  have "follows u [] (baselines w now (vw_baselines v) u) \<and> at_making (baselines w now (vw_baselines v) u) = at_making u"
    using assms Hears same by (intro baselines_follow) simp_all
  moreover have "at_making t = at_making (if brings_grant now doc s then baselines w now (vw_baselines v) u else u)"
    if "t = snd (on_command w now v doc s)" for t
    using u(2) that by (simp add: holdings_def)
  ultimately have "follows u [] (if brings_grant now doc s then baselines w now (vw_baselines v) u else u)"
    and kept: "at_making (snd (on_command w now v doc s)) = at_making s"
    using same by simp_all
  then have "follows s [] (snd (on_command w now v doc s))"
    using follows_holdings [OF u(1)] follows_holdings [OF u(2)] by (blast intro: follows_trans)
  with kept show ?thesis using Hears assms(2) by (simp add: apart_def)
next
  case (FinishesConfiguring x)
  have "at_making (snd (finish_configure x s)) = at_making s"
    using holdings_configure [of x s] by (simp add: holdings_def)
  then show ?thesis using FinishesConfiguring assms(2) follows_holdings [OF holdings_configure [of x s]]
    by (simp add: apart_def)
qed (use assms(2) in \<open>auto simp: apart_def line_def intro: follows_same\<close>)

definition sent_by :: "weights \<Rightarrow> agent \<Rightarrow> agent_input list \<Rightarrow> envelope list" where
  "sent_by w s xs = events_out (fst (run (do_agent w) s xs))"

lemma sent_by_simps [simp]:
  "sent_by w s [] = []"
  "sent_by w s (x # xs) = events_out [fst (do_agent w s x)] @ sent_by w (snd (do_agent w s x)) xs"
  unfolding sent_by_def run.simps fst_conv by (rule no_events_out, rule events_out_cons)

lemma sent_by_append:
  "sent_by w s (xs @ ys) = sent_by w s xs @ sent_by w (snd (run (do_agent w) s xs)) ys"
  by (simp add: sent_by_def run_append)

lemma run_in_order:
  assumes "spool_ok (at_spool s)" "apart s" "undisturbed w s xs" "in_order (stamp s) (sent @ line s) (next_number s)"
  shows "in_order (stamp s) (sent @ map env_event (sent_by w s xs)) (next_number (snd (run (do_agent w) s xs)))"
  using assms
proof (induction xs arbitrary: s sent)
  case Nil
  then show ?case by (auto elim!: in_order_fewer simp: subseq_append')
next
  case (Cons x xs)
  let ?t = "snd (do_agent w s x)" and ?out = "map env_event (events_out [fst (do_agent w s x)])"
  have t: "follows s ?out ?t" "apart ?t" using step_follows [of s x w] Cons.prems by simp_all
  have "in_order (stamp ?t) ((sent @ ?out) @ line ?t) (next_number ?t)"
    using t(1) Cons.prems(4) unfolding follows_def append_assoc by blast
  moreover have "spool_ok (at_spool ?t)" using step_accounted [of s w x] Cons.prems(1) by simp
  ultimately have "in_order (stamp ?t) ((sent @ ?out) @ map env_event (sent_by w ?t xs))
      (next_number (snd (run (do_agent w) ?t xs)))"
    using t(2) Cons.prems(3) by (intro Cons.IH) simp_all
  then show ?case using t(1) by (simp add: follows_def)
qed

subsection \<open>What waits goes out\<close>

lemma sent_in_order:
  assumes "undisturbed w (new_agent node boot c kinds overlay revision) xs"
  shows "\<exists>n. in_order (node, boot) (map env_event (sent_by w (new_agent node boot c kinds overlay revision) xs)) n"
proof -
  let ?s = "new_agent node boot c kinds overlay revision"
  have "spool_ok (at_spool ?s)" "apart ?s" "in_order (stamp ?s) ([] @ line ?s) (next_number ?s)"
    by (simp_all add: new_agent_def spool_ok_def new_spool_def apart_def in_order_def line_def of_source_def)
  from run_in_order [OF this(1,2) assms this(3)] show ?thesis by (auto simp: stamp_def new_agent_def)
qed

text \<open>One round of the network thread: a batch is taken, and its items are sent at these times.\<close>

definition a_round :: "seconds \<times> seconds list \<Rightarrow> agent_input list" where
  "a_round r = TakesBatch (fst r) # map (\<lambda>now. SendsNext now True) (snd r)"

lemma grant_lasts: "has_events_grant until s \<Longrightarrow> now \<le> until \<Longrightarrow> envelope_of now h s \<noteq> None"
  by (auto simp: has_events_grant_def envelope_of_def delivery_of_def grant_valid_def Let_def split: option.splits)

lemma sends_all:
  assumes "has_events_grant until s" "\<forall>now \<in> set ts. now \<le> until" "length (at_flying s) \<le> length ts"
    "\<forall>v. wt_envelope w v \<le> message_limit"
  shows "map env_event (sent_by w s (map (\<lambda>now. SendsNext now True) ts)) = map hl_item (at_flying s) \<and>
    snd (run (do_agent w) s (map (\<lambda>now. SendsNext now True) ts)) =
      s\<lparr>at_flying := [], at_published := at_published s + length (at_flying s)\<rparr>"
  using assms
proof (induction ts arbitrary: s)
  case (Cons t ts)
  show ?case
  proof (cases "at_flying s")
    case Nil
    then have "map env_event (sent_by w s (map (\<lambda>now. SendsNext now True) ts)) = map hl_item (at_flying s) \<and>
      snd (run (do_agent w) s (map (\<lambda>now. SendsNext now True) ts)) =
        s\<lparr>at_flying := [], at_published := at_published s + length (at_flying s)\<rparr>"
      using Cons.prems by (intro Cons.IH) simp_all
    then show ?thesis using Nil by (simp add: send_next_def)
  next
    case (Cons h hs)
    obtain v where v: "envelope_of t h s = Some v" using grant_lasts [of until s t h] Cons.prems by auto
    then have e: "env_event v = hl_item h" by (auto simp: envelope_of_def Let_def split: option.splits)
    let ?s = "s\<lparr>at_flying := hs, at_published := Suc (at_published s)\<rparr>"
    have "\<not> message_limit < wt_envelope w v" using Cons.prems(4) by (simp add: not_less)
    then have step: "do_agent w s (SendsNext t True) = ([SendsEvent v], ?s)"
      using Cons v by (simp add: send_next_def Let_def)
    have "map env_event (sent_by w ?s (map (\<lambda>now. SendsNext now True) ts)) = map hl_item (at_flying ?s) \<and>
      snd (run (do_agent w) ?s (map (\<lambda>now. SendsNext now True) ts)) =
        ?s\<lparr>at_flying := [], at_published := at_published ?s + length (at_flying ?s)\<rparr>"
      using Cons.prems Cons by (intro Cons.IH) (simp_all add: has_events_grant_def)
    then show ?thesis using step e Cons by simp
  qed
qed simp

lemma take_young:
  assumes "\<forall>h \<in> set (sl_items s). now - sl_max_age s \<le> hl_at h"
  shows "take_spool now n s = (take n (sl_items s),
    s\<lparr>sl_items := drop n (sl_items s), sl_bytes := sl_bytes s - weight (take n (sl_items s))\<rparr>)"
proof -
  have "sl_items s \<noteq> [] \<Longrightarrow> \<not> hl_at (hd (sl_items s)) < now - sl_max_age s" using assms by (simp add: not_less)
  then have "expire_spool now s = s" by (subst expire_spool_def, subst discard_while.simps) auto
  then show ?thesis by (simp add: take_spool_def take_each_eq)
qed

lemma put_young:
  assumes "\<forall>h \<in> set (sl_items s). now - sl_max_age s \<le> hl_at h" "0 \<le> sl_max_age s"
    "length (sl_items s) < sl_max_count s" "sl_bytes s + int n \<le> sl_max_bytes s"
  shows "put_spool now topic x n i s =
    s\<lparr>sl_items := sl_items s @ [\<lparr>hl_item = x, hl_size = n, hl_at = now, hl_topic = topic, hl_initial = i\<rparr>],
      sl_bytes := sl_bytes s + int n\<rparr>"
proof -
  let ?s = "s\<lparr>sl_items := sl_items s @ [\<lparr>hl_item = x, hl_size = n, hl_at = now, hl_topic = topic, hl_initial = i\<rparr>],
      sl_bytes := sl_bytes s + int n\<rparr>"
  have young: "\<not> hl_at (hd (sl_items ?s)) < now - sl_max_age ?s"
    using assms(1,2) by (cases "sl_items s") (auto simp: not_less)
  have "expire_spool now ?s = ?s"
    unfolding expire_spool_def by (subst discard_while.simps) (use young in simp)
  moreover have "discard_while (\<lambda>s. sl_max_count s < length (sl_items s)) ForCount ?s = ?s"
    by (subst discard_while.simps) (use assms(3) in simp)
  moreover have "discard_while (\<lambda>s. sl_max_bytes s < sl_bytes s) ForBytes ?s = ?s"
    by (subst discard_while.simps) (use assms(4) in simp)
  ultimately show ?thesis by (simp add: put_spool_def Let_def)
qed


subsection \<open>A batch that comes back\<close>

text \<open>
  A batch that cannot be sent comes back the other way round: when the link refuses the items
  of a batch, they are at the front of the spool again, but the last of them first.
\<close>

lemma returned_batch_is_reversed:
  assumes "spool_ok (at_spool s)" "length (at_flying s) + length (sl_items (at_spool s)) \<le> sl_max_count (at_spool s)"
    "\<forall>v. wt_envelope w v \<le> message_limit" "length ts = length (at_flying s)"
  shows "at_flying (snd (run (do_agent w) s (map (\<lambda>now. SendsNext now False) ts))) = [] \<and>
    sl_items (at_spool (snd (run (do_agent w) s (map (\<lambda>now. SendsNext now False) ts)))) =
      rev (at_flying s) @ sl_items (at_spool s) \<and>
    sent_by w s (map (\<lambda>now. SendsNext now False) ts) = []"
  using assms
proof (induction ts arbitrary: s)
  case (Cons t ts)
  then obtain h hs where f: "at_flying s = h # hs" by (cases "at_flying s") simp_all
  let ?s = "put_back h (s\<lparr>at_flying := hs\<rparr>)"
  have "\<not> message_limit < wt_envelope w v" for v using Cons.prems(3) by (simp add: not_less)
  then have step: "do_agent w s (SendsNext t False) = ([], ?s)"
    using f by (simp add: send_next_def Let_def split: option.split)
  have returned: "spool_ok (at_spool ?s)" "sl_items (at_spool ?s) = h # sl_items (at_spool s)" "at_flying ?s = hs"
    "sl_max_count (at_spool ?s) = sl_max_count (at_spool s)"
    using requeue_takes [OF Cons.prems(1), of h] Cons.prems(2) f by (simp_all add: put_back_def bounds_kept)
  have "at_flying (snd (run (do_agent w) ?s (map (\<lambda>now. SendsNext now False) ts))) = [] \<and>
    sl_items (at_spool (snd (run (do_agent w) ?s (map (\<lambda>now. SendsNext now False) ts)))) =
      rev (at_flying ?s) @ sl_items (at_spool ?s) \<and>
    sent_by w ?s (map (\<lambda>now. SendsNext now False) ts) = []"
    using Cons.prems returned f by (intro Cons.IH) simp_all
  then show ?case using step returned f by simp
qed simp

subsection \<open>Examples\<close>

definition attic_reading :: "int \<Rightarrow> satellite_event held" where
  "attic_reading n =
     \<lparr>hl_item = \<lparr>ev_id = ''e'' @ replicate (nat n) (CHR ''x''), ev_node = ''attic'', ev_source = ''door'',
        ev_boot = ''b'', ev_sequence = n, ev_kind = ''sensor.motion'',
        ev_occurred = \<lparr>mom_us = 1000000, mom_offset = 0\<rparr>, ev_clock = Synced, ev_value = JBool True,
        ev_unit = None, ev_quality = Valid\<rparr>,
      hl_size = 100, hl_at = of_int n, hl_topic = ''events'', hl_initial = False\<rparr>"

definition attic :: agent where
  "attic =
     (new_agent ''attic'' ''b''
        \<lparr>sc_node = ''attic'', sc_profile = ''camera-sensor'', sc_host = ''hub'', sc_port = 8883,
         sc_files = ('''', '''', ''''),
         sc_limits = \<lparr>lm_count = 256, lm_bytes = 1048576, lm_age = 300, lm_heartbeat = 15\<rparr>,
         sc_sources = []\<rparr> None None 0)
     \<lparr>at_connected := True,
      at_grant := Some \<lparr>gt_id = Text ''g'', gt_capability = Text ''events'', gt_epoch = 1,
        gt_expires = 60, gt_sequence = 0\<rparr>\<rparr>"

definition light :: weights where
  "light = \<lparr>wt_event = \<lambda>_. 100, wt_envelope = \<lambda>_. 200\<rparr>"

definition attic_waits :: agent where
  "attic_waits = attic\<lparr>at_spool := (at_spool attic)\<lparr>sl_items := map attic_reading [0, 1, 2], sl_bytes := 300\<rparr>\<rparr>"


lemma returned_batch_is_reversed_witness:
  "sl_items (at_spool (snd (run (do_agent light) (attic\<lparr>at_flying := map attic_reading [0, 1, 2]\<rparr>)
       (map (\<lambda>now. SendsNext now False) [7, 8, 9])))) = map attic_reading [2, 1, 0]"
proof -
  let ?s = "attic\<lparr>at_flying := map attic_reading [0, 1, 2]\<rparr>"
  have "at_flying (snd (run (do_agent light) ?s (map (\<lambda>now. SendsNext now False) [7, 8, 9]))) = [] \<and>
    sl_items (at_spool (snd (run (do_agent light) ?s (map (\<lambda>now. SendsNext now False) [7, 8, 9])))) =
      rev (at_flying ?s) @ sl_items (at_spool ?s) \<and>
    sent_by light ?s (map (\<lambda>now. SendsNext now False) [7, 8, 9]) = []"
    by (rule returned_batch_is_reversed)
      (simp_all add: attic_def new_agent_def new_spool_def spool_ok_def light_def message_limit_def)
  moreover have "sl_items (at_spool attic) = []" by (simp add: attic_def new_agent_def new_spool_def)
  ultimately show ?thesis by simp
qed

end
