(* ===== verification/Arriving.thy ===== *)
theory Arriving
  imports Ordered Ingress
begin

section \<open>From a driver to a rule\<close>

text \<open>
  The satellite's agent and the hub's door together: what a satellite sends in a run without
  disturbance is journalled by the hub, every bit of it, and is news to the rules exactly when
  the satellite meant it as news.
\<close>

text \<open>A message that brings an envelope as it was sent, in time, to a hub whose disk works.\<close>

definition brings :: "'doc door \<Rightarrow> envelope \<Rightarrow> 'doc message \<Rightarrow> bool" where
  "brings g v msg \<longleftrightarrow>
     model_validate (in_decode g) (msg_doc msg) = Some v \<and> msg_node msg = ev_node (env_event v) \<and>
     (\<exists>rec. reg_get (in_sources g) (source_key (msg_node msg) (ev_source (env_event v))) = Some rec \<and>
        rec_state rec \<noteq> Disabled) \<and>
     \<not> msg_retained msg \<and> msg_read msg = DiskOk \<and> msg_write msg = DiskOk \<and>
     ev_clock (env_event v) = Synced \<and>
     - of_int (future_tolerance (in_limits g)) \<le> age_of (msg_now msg) (env_event v) \<and>
     age_of (msg_now msg) (env_event v) \<le> of_int (accept_within (in_limits g)) \<and>
     sqlite_int (ev_sequence (env_event v)) \<and> sqlite_int (dl_queued (env_delivery v)) \<and>
     sqlite_int (dl_epoch (env_delivery v))"

definition is_news :: "envelope \<Rightarrow> bool" where
  "is_news v \<longleftrightarrow> \<not> dl_initial (env_delivery v) \<and> \<not> dl_replayed (env_delivery v)"

text \<open>The hub has heard nothing of this boot beyond what comes now.\<close>

definition ready_for :: "string \<Rightarrow> string \<Rightarrow> envelope list \<Rightarrow> store \<Rightarrow> bool" where
  "ready_for n b vs st \<longleftrightarrow>
     store_inv st \<and> connected st \<and>
     (\<forall>src m t. dict_get (marks st) (source_key n src) = Some (m, t) \<and> mark_boot m = b \<longrightarrow> mark_time m = TimeOk) \<and>
     (\<forall>v \<in> set vs. reached n (ev_source (env_event v)) b st < ev_sequence (env_event v) \<and>
        (n, ev_id (env_event v)) \<notin> id_key ` set (receipts st) \<and>
        (n, b, ev_source (env_event v), ev_sequence (env_event v)) \<notin> stream_key ` set (receipts st))"

lemma position_ready:
  assumes "ready_for n b vs st"
  obtains m where "position DiskOk st n src b = Inr m" "mark_time m = TimeOk" "mark_boot m = b"
    "mark_key m = source_key n src" "high_water m = reached n src b st"
proof -
  have "connected st" "store_inv st" using assms by (simp_all add: ready_for_def)
  then obtain m where m: "position DiskOk st n src b = Inr m" using position_read by (metis sum.exhaust)
  have "mark_time m = TimeOk"
  proof (cases "dict_get (marks st) (source_key n src)")
    case None
    then show ?thesis using m \<open>connected st\<close>
      by (auto simp: position_def get_mark_def query_def fresh_mark_def)
  next
    case (Some k)
    then show ?thesis using m \<open>connected st\<close> assms
      by (cases k) (auto simp: position_def get_mark_def query_def fresh_mark_def ready_for_def split: if_splits)
  qed
  then show thesis using that m position_some [OF m \<open>store_inv st\<close>] by blast
qed

lemma classify_ready:
  assumes "brings g v msg" "mark_time m = TimeOk" "high_water m < ev_sequence (env_event v)"
  shows "(case classify (in_limits g) (env_event v) (env_delivery v) m (msg_retained msg) (msg_now msg) of
      (cls, why, m') \<Rightarrow> (why = None \<longleftrightarrow> is_news v) \<and> high_water m' = ev_sequence (env_event v) \<and>
        mark_time m' = TimeOk \<and> mark_boot m' = mark_boot m \<and> mark_key m' = mark_key m)"
  using assms by (auto simp: classify_def Let_def clock_bad_def brings_def is_news_def mark_key_def max_def not_less not_le)

text \<open>One message.\<close>

lemma brought:
  assumes b: "brings g v msg" and r: "ready_for n b (v # vs) st"
    and e: "ev_node (env_event v) = n" "ev_boot (env_event v) = b"
    and later: "\<forall>u \<in> set vs. ev_id (env_event u) \<noteq> ev_id (env_event v) \<and>
      (ev_source (env_event u) = ev_source (env_event v) \<longrightarrow> ev_sequence (env_event v) < ev_sequence (env_event u))"
  obtains x where "fst (accept g st msg) = Inr (stored_receipt x)" "no_node x = n" "no_boot x = b"
    "no_source x = ev_source (env_event v)" "no_sequence x = ev_sequence (env_event v)"
    "no_event x = ev_id (env_event v)" "no_eligible x = is_news v" "ready_for n b vs (snd (accept g st msg))"
proof -
  let ?src = "ev_source (env_event v)" and ?q = "ev_sequence (env_event v)"
  obtain rec where adm: "admissible g msg v rec" using b by (auto simp: brings_def admissible_def)
  have n: "msg_node msg = n" using b e by (simp add: brings_def)
  obtain m where m: "position DiskOk st n ?src b = Inr m" "mark_time m = TimeOk" "mark_boot m = b"
    "mark_key m = source_key n ?src" "high_water m = reached n ?src b st"
    by (rule position_ready [OF r])
  have fresh: "high_water m < ?q" "(n, ev_id (env_event v)) \<notin> id_key ` set (receipts st)"
    "(n, b, ?src, ?q) \<notin> stream_key ` set (receipts st)" "connected st" "store_inv st"
    using r m(5) by (simp_all add: ready_for_def)
  obtain cls why m' where c: "classify (in_limits g) (env_event v) (env_delivery v) m (msg_retained msg) (msg_now msg) =
      (cls, why, m')" by (metis prod_cases3)
  have m': "why = None \<longleftrightarrow> is_news v" "high_water m' = ?q" "mark_time m' = TimeOk" "mark_boot m' = b"
    "mark_key m' = source_key n ?src"
    using classify_ready [OF b m(2) fresh(1)] m(3,4) unfolding c by simp_all
  let ?x = "normalize g msg (on_node (msg_node msg) ?src) rec v cls why"
  let ?st = "write_mark (msg_now msg) m' (write_journal (entry_of ?x)
    (st\<lparr>receipts := receipts st @ [receipt_of (in_digest g) (entry_of ?x)]\<rparr>))"
  have "fst (admit (in_digest g) (msg_now msg) DiskOk st (entry_of ?x) (Some m')) = Inr Stored"
    using fresh b e n m'(2) by (intro admit_fresh) (simp_all add: entry_stream_def entry_fits_def brings_def)
  then have stored: "admit (in_digest g) (msg_now msg) (msg_write msg) st (entry_of ?x) (Some m') = (Inr Stored, ?st)"
    using admit_stored [of "in_digest g" "msg_now msg" DiskOk st "entry_of ?x" "Some m'"] b
    by (cases "admit (in_digest g) (msg_now msg) DiskOk st (entry_of ?x) (Some m')") (auto simp: brings_def)
  have acc: "accept g st msg = (Inr (stored_receipt ?x), ?st)"
    using accept_admissible [OF adm, of st] m(1) c n e stored b
    by (simp add: brings_def write_down_def stored_receipt_def)
  have marks: "marks (write_journal (entry_of ?x) (st\<lparr>receipts := receipts st @ [receipt_of (in_digest g) (entry_of ?x)]\<rparr>)) = marks st"
    by (simp add: write_journal_def)
  have vn: "valid_name n" using adm model_validate_ok [of "in_decode g" "msg_doc msg" v] n
    by (auto simp: admissible_def envelope_ok_def event_ok_def)
  have reached: "reached n src b ?st = (if src = ?src then ?q else reached n src b st)" for src
    using source_key_inj [OF vn vn, of src ?src] m'
    by (simp add: reached_write_mark reached_marks [OF marks])
  have "ready_for n b vs ?st"
    unfolding ready_for_def
  proof (intro conjI ballI allI impI)
    show "store_inv ?st" using store_inv_accept [OF fresh(5), of g msg] unfolding acc by simp
    show "connected ?st" using fresh(4) by (simp add: write_mark_def write_journal_def)
  next
    fix src mk t
    assume "dict_get (marks ?st) (source_key n src) = Some (mk, t) \<and> mark_boot mk = b"
    then show "mark_time mk = TimeOk" using r m'(3) marks
      by (auto simp: marks_write_mark ready_for_def split: if_splits option.splits)
  next
    fix u
    assume u: "u \<in> set vs"
    then show "reached n (ev_source (env_event u)) b ?st < ev_sequence (env_event u)"
      using reached later r by (simp add: ready_for_def)
    show "(n, ev_id (env_event u)) \<notin> id_key ` set (receipts ?st)"
      using u later r n by (auto simp: write_mark_def write_journal_def ready_for_def)
    show "(n, b, ev_source (env_event u), ev_sequence (env_event u)) \<notin> stream_key ` set (receipts ?st)"
      using u later r n e by (force simp: write_mark_def write_journal_def ready_for_def entry_stream_def)
  qed
  then show thesis using that [of ?x] acc n e m'(1) by simp
qed

lemma all_brought:
  assumes "list_all2 (brings g) vs msgs" "ready_for n b vs st"
    "distinct (map (ev_id \<circ> env_event) vs)" "in_order (n, b) (map env_event vs) k"
  shows "list_all2 (\<lambda>v a. \<exists>r. a = Inr r \<and> rp_stored r \<and>
      map_option (\<lambda>e. (no_source e, no_sequence e)) (rp_event r) =
        (if is_news v then Some (ev_source (env_event v), ev_sequence (env_event v)) else None))
    vs (fst (run (accept g) st msgs))"
  using assms
proof (induction vs msgs arbitrary: st rule: list_all2_induct)
  case (Cons v vs msg msgs)
  have e: "ev_node (env_event v) = n" "ev_boot (env_event v) = b" using Cons.prems(3) by (simp_all add: in_order_def)
  have rising: "ev_sequence (env_event v) < ev_sequence (env_event u)"
    if "u \<in> set vs" "ev_source (env_event u) = ev_source (env_event v)" for u
  proof -
    have "sorted_wrt (<) (map ev_sequence (of_source (ev_source (env_event v)) (map env_event (v # vs))))"
      using Cons.prems(3) unfolding in_order_def by blast
    moreover have "env_event u \<in> set (of_source (ev_source (env_event v)) (map env_event vs))"
      using that by (simp add: of_source_def)
    ultimately show ?thesis by (simp add: of_source_def)
  qed
  have later: "\<forall>u \<in> set vs. ev_id (env_event u) \<noteq> ev_id (env_event v) \<and>
      (ev_source (env_event u) = ev_source (env_event v) \<longrightarrow> ev_sequence (env_event v) < ev_sequence (env_event u))"
    using rising Cons.prems(2) by (auto simp: image_iff)
  obtain x where x: "fst (accept g st msg) = Inr (stored_receipt x)" "no_node x = n" "no_boot x = b"
    "no_source x = ev_source (env_event v)" "no_sequence x = ev_sequence (env_event v)"
    "no_event x = ev_id (env_event v)" "no_eligible x = is_news v" "ready_for n b vs (snd (accept g st msg))"
    by (rule brought [OF Cons.hyps(1) Cons.prems(1) e later])
  have "in_order (n, b) (map env_event vs) k"
    using Cons.prems(3) by (rule in_order_fewer) (simp add: list_emb_Cons)
  with x Cons.IH [OF x(8)] Cons.prems(2) show ?case by simp
qed simp


definition attic_grant :: document where
  "attic_grant =
     Table [(''command_id'', Text ''k''), (''action'', Text ''grant''), (''node_id'', Text ''attic''),
       (''hub_epoch'', Whole 1), (''capability'', Text ''events''), (''grant_id'', Text ''g''),
       (''duration_seconds'', Whole 60)]"

definition attic_view :: view where
  "attic_view = \<lparr>vw_alive = \<lambda>_. False, vw_driver = \<lambda>_. None, vw_connects = False, vw_baselines = []\<rparr>"

definition attic_sees :: "int \<Rightarrow> bool \<Rightarrow> reading" where
  "attic_sees t b =
     \<lparr>rd_source = ''door'', rd_kind = ''sensor.motion'', rd_value = Reads (JBool b),
      rd_occurred = Some \<lparr>mom_us = t * 1000000, mom_offset = 0\<rparr>, rd_unit = None, rd_quality = ''valid'',
      rd_initial = False\<rparr>"

definition attic_day :: "agent_input list" where
  "attic_day =
     [Beats Synced, Connects 5 ''c'' True, Hears 6 attic_view (Some attic_grant),
      Makes ''e1'' (attic_sees 7 True), Puts 7 0, Makes ''e2'' (attic_sees 8 False), Puts 8 0,
      TakesBatch 9, SendsNext 9 True, SendsNext 9 True]"

definition attic_start :: agent where
  "attic_start =
     new_agent ''attic'' ''b''
        \<lparr>sc_node = ''attic'', sc_profile = ''camera-sensor'', sc_host = ''hub'', sc_port = 8883,
         sc_files = ('''', '''', ''''),
         sc_limits = \<lparr>lm_count = 256, lm_bytes = 1048576, lm_age = 300, lm_heartbeat = 15\<rparr>,
         sc_sources = []\<rparr> None None 0"

definition attic_command :: command where
  "attic_command =
     \<lparr>cm_id = ''k'', cm_action = ''grant'', cm_node = ''attic'', cm_epoch = 1, cm_capability = Text ''events'',
      cm_grant = Text ''g'', cm_duration = 60, cm_sequence = 0, cm_revision = 0, cm_sources = [], cm_stream = None\<rparr>"

lemma attic_granted: "parse_command ''attic'' attic_grant = Inr attic_command"
  by code_simp

lemmas attic_run =
  attic_day_def attic_start_def new_agent_def new_spool_def nothing_seen_def attic_granted on_command_def
  handle_command_def outcome_of_def apply_command_def attic_command_def give_grant_def baselines_def
  attic_view_def remember_answer_def remember_outcome_def move_to_end_def start_record_def make_event_def
  take_number_def quality_of_def qualities_def finish_record_def put_young
  take_young take_batch_def batch_def has_events_grant_def grant_valid_def
  send_next_def envelope_of_def delivery_of_def queued_ms_def connect_link_def attic_sees_def Let_def
  light_def message_limit_def valid_name_def valid_kind_def py_partition_def lower_def digits_def

lemma attic_undisturbed: "undisturbed light attic_start attic_day"
  by (simp add: attic_run)

definition attic_sent :: "string \<Rightarrow> int \<Rightarrow> bool \<Rightarrow> envelope" where
  "attic_sent i q b =
     \<lparr>env_version = 1,
      env_event = \<lparr>ev_id = i, ev_node = ''attic'', ev_source = ''door'', ev_boot = ''b'', ev_sequence = q,
        ev_kind = ''sensor.motion'', ev_occurred = \<lparr>mom_us = (7 + q) * 1000000, mom_offset = 0\<rparr>,
        ev_clock = Synced, ev_value = JBool b, ev_unit = None, ev_quality = Valid\<rparr>,
      env_delivery = \<lparr>dl_connection = ''c'', dl_epoch = 1, dl_grant = Some ''g'',
        dl_queued = (2 - q) * 1000, dl_replayed = False, dl_initial = False\<rparr>\<rparr>"

definition attic_says :: "envelope list" where
  "attic_says = [attic_sent ''e1'' 0 True, attic_sent ''e2'' 1 False]"

lemma attic_sends: "sent_by light attic_start attic_day = attic_says"
  by (simp add: attic_run attic_says_def attic_sent_def in_utc_def)

definition hub_door :: "envelope door" where
  "hub_door =
     \<lparr>in_decode = Some, in_digest = (\<lambda>b. ''digest''),
      in_sources = [(source_key ''attic'' ''door'', sample_source)], in_limits = default_limits,
      in_zone_of = (\<lambda>n. None)\<rparr>"

definition in_the_hall :: "envelope \<Rightarrow> envelope message" where
  "in_the_hall v =
     \<lparr>msg_node = ''attic'', msg_doc = v, msg_retained = False, msg_now = 10, msg_mono = 10,
      msg_read = DiskOk, msg_write = DiskOk\<rparr>"


end
