(* ===== verification/Scheduler.thy ===== *)
theory Scheduler
  imports Prelude "HOL-Library.List_Lexorder" "HOL-Library.Char_ord" "HOL-Library.Product_Lexorder"
begin

section \<open>One model for every camera\<close>

text \<open>
  \<open>src/sentry_mode/vision/scheduler.py\<close>: each camera offers its newest frame into a slot of one,
  and one worker picks the source whose turn has come, runs the model and hands the result back.
  What the model finds, how long it takes and whether it raises are inputs, and so are the clock
  and whether the model can be built. A thread is a worker of the state: a stopped one may still
  be inside the model while its successor runs, as the code allows. Owners and callbacks are the
  names of the demands. Waiting for threads and the page of figures are left out.
\<close>

definition max_rate :: rat where "max_rate = 10"
definition most_boost :: seconds where "most_boost = 30"
definition rate_window :: nat where "rate_window = 20"

subsection \<open>State\<close>

record 'f frame_packet =
  pk_source :: string
  pk_epoch :: int
  pk_sequence :: int
  pk_captured :: seconds
  pk_frame :: 'f

record vision_demand =
  vd_fps :: rat
  vd_confidence :: rat
  vd_epoch :: int

record 'f vision_source =
  vs_demands :: "(string, vision_demand) dict"
  vs_pending :: "'f frame_packet option"
  vs_last :: "int \<times> int"
  vs_due :: seconds
  vs_boost_until :: seconds
  vs_boost_factor :: rat
  vs_served :: "seconds list"
  vs_skipped :: nat
  vs_inferences :: nat

definition new_vision_source :: "'f vision_source" where
  "new_vision_source =
     \<lparr>vs_demands = [], vs_pending = None, vs_last = (-1, -1), vs_due = 0, vs_boost_until = 0,
      vs_boost_factor = 1, vs_served = [], vs_skipped = 0, vs_inferences = 0\<rparr>"

definition rate_of :: "seconds \<Rightarrow> 'f vision_source \<Rightarrow> rat" where
  "rate_of now v =
     (case dict_values (vs_demands v) of
        [] \<Rightarrow> 0
      | d # ds \<Rightarrow>
          (let asked = fold (\<lambda>x. max (vd_fps x)) ds (vd_fps d)
           in min (if now < vs_boost_until v then asked * vs_boost_factor v else asked) max_rate))"

definition effective_rate :: "seconds \<Rightarrow> 'f vision_source \<Rightarrow> rat" where
  "effective_rate now v =
     (case vs_served v of
        first # x # xs \<Rightarrow>
          (let newest = last (x # xs) in
           if now - newest > 5 then 0
           else of_nat (length (vs_served v) - 1) / max (1 / 1000000) (newest - first))
      | _ \<Rightarrow> 0)"

text \<open>What a worker is busy with: the frame it took, for which model, and when it began.\<close>

record 'f inference_job =
  jb_source :: string
  jb_packet :: "'f frame_packet"
  jb_model :: "nat option"
  jb_confidence :: rat
  jb_started :: seconds

record 'f vision_worker =
  vk_running :: bool
  vk_stop :: bool
  vk_job :: "'f inference_job option"

text \<open>A model is the number of its loading, so an old one is not taken for the new one.\<close>

record 'f scheduler =
  sd_budget :: rat
  sd_confidence :: rat
  sd_process :: bool
  sd_sources :: "(string, 'f vision_source) dict"
  sd_model :: "nat option"
  sd_loads :: nat
  sd_workers :: "'f vision_worker list"
  sd_slot :: seconds
  sd_error :: "string option"
  sd_elapsed :: "seconds option"

definition new_scheduler :: "rat \<Rightarrow> rat \<Rightarrow> bool \<Rightarrow> 'f scheduler" where
  "new_scheduler budget confidence process =
     \<lparr>sd_budget = budget, sd_confidence = confidence, sd_process = process, sd_sources = [],
      sd_model = None, sd_loads = 0, sd_workers = [], sd_slot = 0, sd_error = None, sd_elapsed = None\<rparr>"

definition put_vision :: "string \<Rightarrow> 'f vision_source \<Rightarrow> 'f scheduler \<Rightarrow> 'f scheduler" where
  "put_vision i v s = s\<lparr>sd_sources := dict_set i v (sd_sources s)\<rparr>"

definition demanded :: "'f scheduler \<Rightarrow> bool" where
  "demanded s \<longleftrightarrow> list_ex (\<lambda>v. vs_demands v \<noteq> []) (dict_values (sd_sources s))"

subsection \<open>Demands\<close>

text \<open>\<open>load\<close>: the model that cannot be built is an error for the caller.\<close>

definition load_model :: "string option \<Rightarrow> 'f scheduler \<Rightarrow> (string + unit) \<times> 'f scheduler" where
  "load_model raises s =
     (if sd_model s \<noteq> None then (Inr (), s)
      else case raises of
        Some e \<Rightarrow> (Inl e, s)
      | None \<Rightarrow> (Inr (), s\<lparr>sd_model := Some (sd_loads s + 1), sd_loads := sd_loads s + 1, sd_error := None\<rparr>))"

text \<open>\<open>_start\<close>: the thread the scheduler knows is the last one.\<close>

definition start_worker :: "'f scheduler \<Rightarrow> 'f scheduler" where
  "start_worker s =
     (if sd_workers s \<noteq> [] \<and> vk_running (last (sd_workers s)) \<and> \<not> vk_stop (last (sd_workers s)) then s
      else s\<lparr>sd_workers := sd_workers s @ [\<lparr>vk_running = True, vk_stop = False, vk_job = None\<rparr>]\<rparr>)"

definition stop_worker :: "'f scheduler \<Rightarrow> 'f scheduler" where
  "stop_worker s =
     (if sd_workers s = [] then s
      else s\<lparr>sd_workers := butlast (sd_workers s) @ [(last (sd_workers s))\<lparr>vk_stop := True\<rparr>]\<rparr>)"

text \<open>The second half of \<open>demand\<close>, after the model was loaded.\<close>

definition add_demand :: "string \<Rightarrow> string \<Rightarrow> vision_demand \<Rightarrow> 'f scheduler \<Rightarrow> 'f scheduler" where
  "add_demand i owner d s =
     (let v = (case dict_get (sd_sources s) i of None \<Rightarrow> new_vision_source | Some v \<Rightarrow> v)
      in start_worker (put_vision i (v\<lparr>vs_demands := dict_set owner d (vs_demands v)\<rparr>) s))"

definition demand_vision ::
  "string option \<Rightarrow> string \<Rightarrow> string \<Rightarrow> vision_demand \<Rightarrow> 'f scheduler \<Rightarrow> (string + unit) \<times> 'f scheduler" where
  "demand_vision raises i owner d s =
     (case load_model raises s of
        (Inl e, t) \<Rightarrow> (Inl e, t)
      | (Inr _, t) \<Rightarrow> (Inr (), add_demand i owner d t))"

definition release_vision :: "string \<Rightarrow> string \<Rightarrow> 'f scheduler \<Rightarrow> 'f scheduler" where
  "release_vision i owner s =
     (case dict_get (sd_sources s) i of
        None \<Rightarrow> s
      | Some v \<Rightarrow>
          if dict_get (vs_demands v) owner = None then s
          else
            (let left = dict_pop owner (vs_demands v);
                 s1 = put_vision i (v\<lparr>vs_demands := left,
                        vs_pending := (if left = [] then None else vs_pending v)\<rparr>) s
             in if demanded s1 then s1 else stop_worker s1))"

text \<open>The clock is read twice.\<close>

definition boost_vision :: "seconds \<Rightarrow> seconds \<Rightarrow> string \<Rightarrow> rat \<Rightarrow> seconds \<Rightarrow> 'f scheduler \<Rightarrow> 'f scheduler" where
  "boost_vision now now' i factor lasts s =
     (case dict_get (sd_sources s) i of
        None \<Rightarrow> s
      | Some v \<Rightarrow>
          if vs_demands v = [] then s
          else put_vision i (v\<lparr>vs_boost_factor := max 1 factor,
                 vs_boost_until := now + min (max 0 lasts) most_boost,
                 vs_due := min (vs_due v) now'\<rparr>) s)"

definition offer_frame :: "'f frame_packet \<Rightarrow> 'f scheduler \<Rightarrow> bool \<times> 'f scheduler" where
  "offer_frame p s =
     (case dict_get (sd_sources s) (pk_source p) of
        None \<Rightarrow> (False, s)
      | Some v \<Rightarrow>
          if vs_demands v = [] then (False, s)
          else if \<not> list_ex (\<lambda>d. vd_epoch d = pk_epoch p) (dict_values (vs_demands v)) then (False, s)
          else if (pk_epoch p, pk_sequence p) \<le> vs_last v then (False, s)
          else (True, put_vision (pk_source p) (v\<lparr>vs_pending := Some p,
                  vs_skipped := vs_skipped v + (if vs_pending v = None then 0 else 1)\<rparr>) s))"

definition frames_pending :: "'f scheduler \<Rightarrow> nat" where
  "frames_pending s = length (filter (\<lambda>v. vs_pending v \<noteq> None) (dict_values (sd_sources s)))"

subsection \<open>The worker\<close>

definition ready_sources :: "'f scheduler \<Rightarrow> (seconds \<times> string) list" where
  "ready_sources s =
     map (\<lambda>(i, v). (vs_due v, i)) (filter (\<lambda>(i, v). vs_pending v \<noteq> None \<and> vs_demands v \<noteq> []) (sd_sources s))"

fun earliest :: "(seconds \<times> string) list \<Rightarrow> (seconds \<times> string) option" where
  "earliest [] = None"
| "earliest (k # ks) = (case earliest ks of None \<Rightarrow> Some k | Some l \<Rightarrow> Some (if l < k then l else k))"

definition pick_source :: "'f scheduler \<Rightarrow> string option" where
  "pick_source s = map_option snd (earliest (ready_sources s))"

definition wait_time :: "seconds \<Rightarrow> 'f scheduler \<Rightarrow> seconds option" where
  "wait_time now s =
     map_option (\<lambda>k. max 0 (max (fst k - now) (sd_slot s - now))) (earliest (ready_sources s))"

definition least_confidence :: "'f scheduler \<Rightarrow> rat" where
  "least_confidence s =
     (case concat (map (\<lambda>v. map vd_confidence (dict_values (vs_demands v))) (dict_values (sd_sources s))) of
        [] \<Rightarrow> sd_confidence s
      | c # cs \<Rightarrow> fold min cs c)"

definition put_worker :: "nat \<Rightarrow> 'f vision_worker \<Rightarrow> 'f scheduler \<Rightarrow> 'f scheduler" where
  "put_worker k w s = s\<lparr>sd_workers := (sd_workers s)[k := w]\<rparr>"

text \<open>
  The frame is taken out of its slot. A rate of nothing divides by zero, outside of what is
  caught: the thread ends.
\<close>

definition take_frame ::
  "seconds \<Rightarrow> seconds \<Rightarrow> nat \<Rightarrow> 'f vision_worker \<Rightarrow> string \<Rightarrow> 'f vision_source \<Rightarrow> 'f frame_packet \<Rightarrow>
     'f scheduler \<Rightarrow> 'f scheduler" where
  "take_frame now started k w i v p s =
     (let v1 = v\<lparr>vs_pending := None, vs_last := (pk_epoch p, pk_sequence p)\<rparr> in
      if rate_of now v1 = 0 then put_worker k (w\<lparr>vk_running := False\<rparr>) (put_vision i v1 s)
      else
        (let s1 = put_vision i (v1\<lparr>vs_due := now + 1 / rate_of now v1\<rparr>) s
                  \<lparr>sd_slot := now + 1 / sd_budget s\<rparr>
         in put_worker k (w\<lparr>vk_job := Some \<lparr>jb_source = i, jb_packet = p, jb_model = sd_model s1,
              jb_confidence = least_confidence s1, jb_started = started\<rparr>\<rparr>) s1))"

text \<open>A turn of the loop before the model is called; the answer is the frame that was taken.\<close>

definition worker_turn :: "seconds \<Rightarrow> seconds \<Rightarrow> nat \<Rightarrow> 'f scheduler \<Rightarrow> 'f frame_packet option \<times> 'f scheduler" where
  "worker_turn now started k s =
     (if \<not> k < length (sd_workers s) then (None, s)
      else
        (let w = sd_workers s ! k in
         if \<not> vk_running w \<or> vk_job w \<noteq> None then (None, s)
         else if vk_stop w then (None, put_worker k (w\<lparr>vk_running := False\<rparr>) s)
         else if wait_time now s \<noteq> Some 0 then (None, s)
         else (case pick_source s of
                 None \<Rightarrow> (None, s)
               | Some i \<Rightarrow>
                   (case dict_get (sd_sources s) i of
                      None \<Rightarrow> (None, s)
                    | Some v \<Rightarrow>
                        (case vs_pending v of
                           None \<Rightarrow> (None, s)
                         | Some p \<Rightarrow> (Some p, take_frame now started k w i v p s))))))"

text \<open>How a call of the model ends.\<close>

datatype 'd inference_end = Found 'd seconds | Raised string

datatype ('f, 'd) vision_out =
  Refused string
| Offered bool
| Took "'f frame_packet"
| Delivers string string "'f frame_packet" 'd
| TellsError string string string

definition owners_of :: "'f scheduler \<Rightarrow> (string \<times> string) list" where
  "owners_of s = concat (map (\<lambda>(i, v). map (\<lambda>(o', d). (i, o')) (vs_demands v)) (sd_sources s))"

definition clear_demands :: "'f scheduler \<Rightarrow> 'f scheduler" where
  "clear_demands s =
     s\<lparr>sd_sources := map (\<lambda>(i, v). (i, v\<lparr>vs_demands := [], vs_pending := None\<rparr>)) (sd_sources s)\<rparr>"

text \<open>\<open>_failed\<close>: every source hears of it and loses its demand; a child process that failed is gone.\<close>

definition inference_failed ::
  "nat \<Rightarrow> 'f vision_worker \<Rightarrow> nat option \<Rightarrow> string \<Rightarrow> 'f scheduler \<Rightarrow> ('f, 'd) vision_out list \<times> 'f scheduler" where
  "inference_failed k w model e s =
     (if vk_stop w then ([], put_worker k (w\<lparr>vk_running := False, vk_job := None\<rparr>) s)
      else
        (let gone = (sd_process s \<and> model \<noteq> None \<and> sd_model s = model);
             s1 = put_worker k (w\<lparr>vk_running := False, vk_stop := True, vk_job := None\<rparr>) s
                    \<lparr>sd_error := Some e, sd_model := (if gone then None else sd_model s)\<rparr>
         in (map (\<lambda>(i, owner). TellsError i owner e) (owners_of s1), clear_demands s1)))"

definition add_served :: "seconds \<Rightarrow> seconds list \<Rightarrow> seconds list" where
  "add_served t ts = drop (Suc (length ts) - rate_window) (ts @ [t])"

definition inference_done ::
  "nat \<Rightarrow> 'f vision_worker \<Rightarrow> 'f inference_job \<Rightarrow> 'd \<Rightarrow> seconds \<Rightarrow> 'f scheduler \<Rightarrow> ('f, 'd) vision_out list \<times> 'f scheduler" where
  "inference_done k w j found elapsed s =
     (if vk_stop w then ([], put_worker k (w\<lparr>vk_running := False, vk_job := None\<rparr>) s)
      else case dict_get (sd_sources s) (jb_source j) of
        None \<Rightarrow> ([], s)
      | Some v \<Rightarrow>
          (map (\<lambda>(owner, d). Delivers (jb_source j) owner (jb_packet j) found)
             (filter (\<lambda>(owner, d). vd_epoch d = pk_epoch (jb_packet j)) (vs_demands v)),
           put_worker k (w\<lparr>vk_job := None\<rparr>)
             (put_vision (jb_source j) (v\<lparr>vs_served := add_served (jb_started j) (vs_served v),
                vs_inferences := vs_inferences v + 1\<rparr>) s\<lparr>sd_elapsed := Some elapsed\<rparr>)))"

definition worker_ends ::
  "nat \<Rightarrow> 'd inference_end \<Rightarrow> 'f scheduler \<Rightarrow> ('f, 'd) vision_out list \<times> 'f scheduler" where
  "worker_ends k x s =
     (if \<not> k < length (sd_workers s) then ([], s)
      else
        (let w = sd_workers s ! k in
         case vk_job w of
           None \<Rightarrow> ([], s)
         | Some j \<Rightarrow>
             (case jb_model j of
                None \<Rightarrow> inference_failed k w None ''Object detection is not loaded.'' s
              | Some m \<Rightarrow>
                  (case x of
                     Raised e \<Rightarrow> inference_failed k w (Some m) e s
                   | Found d elapsed \<Rightarrow> inference_done k w j d elapsed s))))"

definition close_scheduler :: "'f scheduler \<Rightarrow> 'f scheduler" where
  "close_scheduler s = (clear_demands (stop_worker s))\<lparr>sd_model := None\<rparr>"

subsection \<open>The scheduler as a machine\<close>

datatype ('f, 'd) vision_input =
  LoadsModel "string option"
| AddsDemand string string vision_demand
| Releases string string
| Boosts seconds seconds string rat seconds
| Offers "'f frame_packet"
| TurnsWorker seconds seconds nat
| EndsInference nat "'d inference_end"
| ClosesScheduler

fun do_vision :: "'f scheduler \<Rightarrow> ('f, 'd) vision_input \<Rightarrow> ('f, 'd) vision_out list \<times> 'f scheduler" where
  "do_vision s (LoadsModel raises) =
     (case load_model raises s of (Inl e, t) \<Rightarrow> ([Refused e], t) | (Inr _, t) \<Rightarrow> ([], t))"
| "do_vision s (AddsDemand i owner d) = ([], add_demand i owner d s)"
| "do_vision s (Releases i owner) = ([], release_vision i owner s)"
| "do_vision s (Boosts now now' i factor lasts) = ([], boost_vision now now' i factor lasts s)"
| "do_vision s (Offers p) = (case offer_frame p s of (b, t) \<Rightarrow> ([Offered b], t))"
| "do_vision s (TurnsWorker now started k) =
     (case worker_turn now started k s of (None, t) \<Rightarrow> ([], t) | (Some p, t) \<Rightarrow> ([Took p], t))"
| "do_vision s (EndsInference k x) = worker_ends k x s"
| "do_vision s ClosesScheduler = ([], close_scheduler s)"

end
