(* ===== verification/Turns.thy ===== *)
theory Turns
  imports Scheduler
begin

section \<open>A fair share of the model\<close>

text \<open>
  What the scheduler of \<open>Scheduler\<close> promises: frames of a source are served newest last and once,
  inferences keep their distance, a source whose turn has come waits for no other source twice,
  and results go to those who asked for that frame's time.
\<close>

lemma earliest_some:
  "earliest ks = Some k \<longleftrightarrow> k \<in> set ks \<and> (\<forall>l \<in> set ks. k \<le> l)"
proof (induction ks arbitrary: k)
  case (Cons x ks)
  show ?case
  proof (cases "earliest ks")
    case None
    then have "ks = []" by (cases ks) (auto split: option.splits)
    then show ?thesis by auto
  next
    case (Some l)
    then have l: "l \<in> set ks" "\<forall>a \<in> set ks. l \<le> a" using Cons.IH [of l] by simp_all
    show ?thesis
    proof
      assume "k \<in> set (x # ks) \<and> (\<forall>a \<in> set (x # ks). k \<le> a)"
      then have "k \<in> set (x # ks)" "k \<le> x" "k \<le> l" using l(1) by simp_all
      then show "earliest (x # ks) = Some k" using Some l(2) by (auto intro: order.antisym)
    qed (use Some l in \<open>auto split: if_splits\<close>)
  qed
qed simp

lemma earliest_none: "earliest ks = None \<longleftrightarrow> ks = []"
  by (cases ks) (auto split: option.splits)

subsection \<open>The invariant\<close>

text \<open>A frame that waits is its source's own, newer than the last one served, and asked for.\<close>

definition slot_ok :: "string \<Rightarrow> 'f vision_source \<Rightarrow> bool" where
  "slot_ok i v \<longleftrightarrow>
     (\<forall>p. vs_pending v = Some p \<longrightarrow>
        pk_source p = i \<and> vs_last v < (pk_epoch p, pk_sequence p) \<and> vs_demands v \<noteq> [])"

definition vision_inv :: "'f scheduler \<Rightarrow> bool" where
  "vision_inv s \<longleftrightarrow> wf_dict (sd_sources s) \<and> (\<forall>i v. dict_get (sd_sources s) i = Some v \<longrightarrow> slot_ok i v)"

lemma vision_inv_set:
  assumes "vision_inv s" "sd_sources t = dict_set i v (sd_sources s)" "slot_ok i v"
  shows "vision_inv t"
  using assms unfolding vision_inv_def by (simp add: wf_dict_set)

lemma vision_inv_same: "sd_sources t = sd_sources s \<Longrightarrow> vision_inv t = vision_inv s"
  by (simp add: vision_inv_def)

lemma sources_simps [simp]:
  "sd_sources (put_worker k w s) = sd_sources s" "sd_sources (start_worker s) = sd_sources s"
  "sd_sources (stop_worker s) = sd_sources s"
  "sd_sources (put_vision i v s) = dict_set i v (sd_sources s)"
  by (simp_all add: put_worker_def start_worker_def stop_worker_def put_vision_def)

lemma slot_of: "vision_inv s \<Longrightarrow> dict_get (sd_sources s) i = Some v \<Longrightarrow> slot_ok i v"
  by (simp add: vision_inv_def)

lemma cleared_get:
  "dict_get (sd_sources (clear_demands s)) i =
     map_option (\<lambda>v. v\<lparr>vs_demands := [], vs_pending := None\<rparr>) (dict_get (sd_sources s) i)"
  by (simp add: clear_demands_def map_of_map)

lemma vision_inv_clear: "vision_inv s \<Longrightarrow> vision_inv (clear_demands s)"
  unfolding vision_inv_def cleared_get
  by (auto simp: clear_demands_def slot_ok_def comp_def case_prod_beta)

text \<open>What a turn of the worker does when it takes a frame.\<close>

lemma turn_cases:
  assumes "vision_inv s"
  obtains (idle) t where "worker_turn now started k s = (None, t)" "sd_sources t = sd_sources s" "sd_slot t = sd_slot s"
      "sd_budget t = sd_budget s"
    | (took) i v p w where "worker_turn now started k s = (Some p, take_frame now started k w i v p s)"
      "dict_get (sd_sources s) i = Some v" "vs_pending v = Some p" "vs_demands v \<noteq> []" "pk_source p = i"
      "vs_due v \<le> now" "sd_slot s \<le> now"
      "\<And>j u. dict_get (sd_sources s) j = Some u \<Longrightarrow> vs_pending u \<noteq> None \<Longrightarrow> vs_demands u \<noteq> [] \<Longrightarrow>
         (vs_due v, i) \<le> (vs_due u, j)" "vk_job w = None"
proof (cases "worker_turn now started k s")
  case (Pair x t)
  show thesis
  proof (cases x)
    case None
    then show thesis using idle [of t] Pair
      by (auto simp: worker_turn_def put_worker_def Let_def split: if_splits option.splits)
  next
    case (Some p)
    then obtain w i v where t: "wait_time now s = Some 0" "pick_source s = Some i" "dict_get (sd_sources s) i = Some v"
      "vs_pending v = Some p" "t = take_frame now started k w i v p s" "vk_job w = None"
      using Pair by (auto simp: worker_turn_def Let_def split: if_splits option.splits)
    then obtain d where e: "earliest (ready_sources s) = Some (d, i)" by (auto simp: pick_source_def)
    have wf: "wf_dict (sd_sources s)" using assms by (simp add: vision_inv_def)
    have mem: "(vs_due u, j) \<in> set (ready_sources s)"
      if "dict_get (sd_sources s) j = Some u" "vs_pending u \<noteq> None" "vs_demands u \<noteq> []" for j u
      using that dict_get_in [of "sd_sources s" j u] by (force simp: ready_sources_def)
    from e have "(d, i) \<in> set (ready_sources s)" by (simp add: earliest_some)
    then have d: "d = vs_due v" "vs_demands v \<noteq> []"
      using t(3) dict_in_get [OF wf] by (auto simp: ready_sources_def)
    moreover have "d \<le> now" "sd_slot s \<le> now" using t(1) e by (auto simp: wait_time_def max_def split: if_splits)
    moreover have "pk_source p = i" using slot_of [OF assms t(3)] t(4) by (simp add: slot_ok_def)
    moreover have "(vs_due v, i) \<le> (vs_due u, j)"
      if "dict_get (sd_sources s) j = Some u" "vs_pending u \<noteq> None" "vs_demands u \<noteq> []" for j u
      using mem [OF that] e d(1) unfolding earliest_some by blast
    moreover have "worker_turn now started k s = (Some p, take_frame now started k w i v p s)"
      using Pair Some t(5) by simp
    ultimately show thesis using took t(3,4,6) by blast
  qed
qed

definition served_source :: "seconds \<Rightarrow> 'f frame_packet \<Rightarrow> 'f vision_source \<Rightarrow> 'f vision_source" where
  "served_source now p v =
     (let v1 = v\<lparr>vs_pending := None, vs_last := (pk_epoch p, pk_sequence p)\<rparr>
      in if rate_of now v1 = 0 then v1 else v1\<lparr>vs_due := now + 1 / rate_of now v1\<rparr>)"

lemma rate_of_served [simp]:
  fixes v :: "'f vision_source" and x :: "'f frame_packet option"
  shows "rate_of now (v\<lparr>vs_pending := x, vs_last := l\<rparr>) = rate_of now v"
  by (simp add: rate_of_def Let_def split: list.split)

lemma dict_set_not_empty: "dict_set k v d \<noteq> []"
proof
  assume "dict_set k v d = []"
  then have "dict_get (dict_set k v d) k = None" by simp
  then show False by simp
qed

lemma served_simps [simp]:
  "vs_pending (served_source now p v) = None" "vs_last (served_source now p v) = (pk_epoch p, pk_sequence p)"
  "vs_demands (served_source now p v) = vs_demands v"
  by (simp_all add: served_source_def Let_def)

lemma take_frame_simps [simp]:
  "sd_sources (take_frame now started k w i v p s) = dict_set i (served_source now p v) (sd_sources s)"
  "sd_budget (take_frame now started k w i v p s) = sd_budget s"
  by (simp_all add: take_frame_def served_source_def Let_def put_worker_def put_vision_def)

lemma take_frame_slot:
  "sd_slot (take_frame now started k w i v p s) = (if rate_of now v = 0 then sd_slot s else now + 1 / sd_budget s)"
  by (simp add: take_frame_def Let_def put_worker_def put_vision_def)

lemma slot_ok_empty [simp]: "vs_pending v = None \<Longrightarrow> slot_ok i v"
  by (simp add: slot_ok_def)

lemma release_sources:
  obtains "sd_sources (release_vision i owner s) = sd_sources s"
  | v left where "dict_get (sd_sources s) i = Some v" "left = dict_pop owner (vs_demands v)"
    "sd_sources (release_vision i owner s) = dict_set i
       (v\<lparr>vs_demands := left, vs_pending := (if left = [] then None else vs_pending v)\<rparr>) (sd_sources s)"
proof (cases "dict_get (sd_sources s) i")
  case (Some v)
  show thesis
  proof (cases "dict_get (vs_demands v) owner = None")
    case False
    then have "sd_sources (release_vision i owner s) = dict_set i
       (v\<lparr>vs_demands := dict_pop owner (vs_demands v),
          vs_pending := (if dict_pop owner (vs_demands v) = [] then None else vs_pending v)\<rparr>) (sd_sources s)"
      using Some by (auto simp: release_vision_def Let_def)
    then show thesis using that(2) Some by blast
  qed (use that(1) Some in \<open>simp add: release_vision_def\<close>)
qed (use that(1) in \<open>simp add: release_vision_def\<close>)

lemma done_sources:
  obtains "sd_sources (snd (inference_done k w j x el s)) = sd_sources s"
  | v where "dict_get (sd_sources s) (jb_source j) = Some v"
    "sd_sources (snd (inference_done k w j x el s)) = dict_set (jb_source j)
       (v\<lparr>vs_served := add_served (jb_started j) (vs_served v), vs_inferences := vs_inferences v + 1\<rparr>) (sd_sources s)"
proof (cases "vk_stop w \<or> dict_get (sd_sources s) (jb_source j) = None")
  case True
  then have "sd_sources (snd (inference_done k w j x el s)) = sd_sources s"
    by (auto simp: inference_done_def split: option.split)
  then show thesis by (rule that(1))
next
  case False
  then obtain v where "dict_get (sd_sources s) (jb_source j) = Some v" by auto
  then show thesis using that(2) [of v] False by (simp add: inference_done_def)
qed

text \<open>A failing worker changes no source, or clears them all.\<close>

lemma failed_sources:
  obtains "sd_sources (snd (inference_failed k w m e s)) = sd_sources s"
  | t where "snd (inference_failed k w m e s) = clear_demands t" "sd_sources t = sd_sources s"
  by (cases "vk_stop w") (auto simp: inference_failed_def Let_def put_worker_def)

lemma ends_sources:
  obtains (same) "sd_sources (snd (worker_ends k x s)) = sd_sources s"
  | (cleared) t where "snd (worker_ends k x s) = clear_demands t" "sd_sources t = sd_sources s"
  | (counted) i v ts n where "dict_get (sd_sources s) i = Some v"
    "sd_sources (snd (worker_ends k x s)) = dict_set i (v\<lparr>vs_served := ts, vs_inferences := n\<rparr>) (sd_sources s)"
proof (cases "k < length (sd_workers s)")
  case True
  let ?w = "sd_workers s ! k"
  show thesis
  proof (cases "vk_job ?w")
    case (Some j)
    show thesis
    proof (cases "jb_model j = None \<or> (\<exists>e. x = Raised e)")
      case True
      then obtain m e where "worker_ends k x s = inference_failed k ?w m e s"
        using \<open>k < length (sd_workers s)\<close> Some by (cases "jb_model j") (auto simp: worker_ends_def Let_def)
      then show thesis using same cleared by (metis failed_sources)
    next
      case False
      then obtain d el where "worker_ends k x s = inference_done k ?w j d el s"
        using \<open>k < length (sd_workers s)\<close> Some by (cases x) (auto simp: worker_ends_def Let_def)
      then show thesis using same counted by (metis done_sources)
    qed
  qed (use True same in \<open>simp add: worker_ends_def Let_def\<close>)
qed (use same in \<open>simp add: worker_ends_def\<close>)

lemma load_sources [simp]:
  "sd_sources (snd (load_model r s)) = sd_sources s" "sd_slot (snd (load_model r s)) = sd_slot s"
  "sd_budget (snd (load_model r s)) = sd_budget s" "sd_workers (snd (load_model r s)) = sd_workers s"
  by (simp_all add: load_model_def split: option.split)

lemma do_vision_load [simp]: "snd (do_vision s (LoadsModel r)) = snd (load_model r s)"
  by (simp split: prod.split sum.split)

lemma do_vision_turn [simp]: "snd (do_vision s (TurnsWorker now started k)) = snd (worker_turn now started k s)"
  by (simp split: prod.split option.split)

lemma do_vision_offer [simp]: "snd (do_vision s (Offers p)) = snd (offer_frame p s)"
  by (simp split: prod.split)

declare do_vision.simps(1,5,6) [simp del]

lemma vision_inv_step: "vision_inv s \<Longrightarrow> vision_inv (snd (do_vision s x))"
proof (cases x)
  case (AddsDemand i owner d)
  assume inv: "vision_inv s"
  let ?v = "case dict_get (sd_sources s) i of None \<Rightarrow> new_vision_source | Some v \<Rightarrow> v"
  have "slot_ok i (?v\<lparr>vs_demands := dict_set owner d (vs_demands ?v)\<rparr>)"
    using slot_of [OF inv, of i]
    by (auto simp: slot_ok_def new_vision_source_def dict_set_not_empty split: option.split)
  then show ?thesis using AddsDemand by (intro vision_inv_set [OF inv]) (simp_all add: add_demand_def Let_def)
next
  case (Releases i owner)
  assume inv: "vision_inv s"
  show ?thesis
  proof (cases rule: release_sources [of i owner s])
    case 1
    then show ?thesis using inv Releases vision_inv_same [of "release_vision i owner s" s] by simp
  next
    case (2 v left)
    have "slot_ok i (v\<lparr>vs_demands := left, vs_pending := (if left = [] then None else vs_pending v)\<rparr>)"
      using slot_of [OF inv 2(1)] by (simp add: slot_ok_def)
    with 2(3) show ?thesis using Releases by (intro vision_inv_set [OF inv]) simp_all
  qed
next
  case (Boosts now now' i factor lasts)
  assume inv: "vision_inv s"
  show ?thesis
  proof (cases "dict_get (sd_sources s) i")
    case (Some v)
    have "slot_ok i (v\<lparr>vs_boost_factor := f, vs_boost_until := u, vs_due := d\<rparr>)" for f u d
      using slot_of [OF inv Some] by (simp add: slot_ok_def)
    then show ?thesis using Boosts Some inv vision_inv_set [OF inv]
      by (simp add: boost_vision_def)
  qed (use Boosts inv in \<open>simp add: boost_vision_def\<close>)
next
  case (Offers p)
  assume inv: "vision_inv s"
  show ?thesis
  proof (cases "fst (offer_frame p s)")
    case True
    then obtain v where v: "dict_get (sd_sources s) (pk_source p) = Some v" "vs_demands v \<noteq> []"
      "vs_last v < (pk_epoch p, pk_sequence p)"
      by (auto simp: offer_frame_def not_le split: option.splits if_splits)
    then have "slot_ok (pk_source p) (v\<lparr>vs_pending := Some p, vs_skipped := n\<rparr>)" for n
      by (simp add: slot_ok_def)
    then show ?thesis using True Offers v(1) vision_inv_set [OF inv]
      by (auto simp: offer_frame_def split: if_splits)
  next
    case False
    then have "snd (offer_frame p s) = s" by (auto simp: offer_frame_def split: option.splits if_splits)
    then show ?thesis unfolding Offers do_vision_offer using inv by simp
  qed
next
  case (TurnsWorker now started k)
  assume inv: "vision_inv s"
  then show ?thesis
  proof (cases rule: turn_cases [of s now started k])
    case (took i v p w)
    have "slot_ok i (served_source now p v)" by (rule slot_ok_empty) simp
    then show ?thesis using took(1) TurnsWorker
      by (intro vision_inv_set [OF inv, where i = i and v = "served_source now p v"]) simp_all
  next
    case (idle t)
    then show ?thesis using inv TurnsWorker vision_inv_same [of t s] by simp
  qed
next
  case (EndsInference k y)
  assume inv: "vision_inv s"
  show ?thesis
  proof (cases rule: ends_sources [of k y s])
    case same
    then show ?thesis using inv EndsInference vision_inv_same [of "snd (worker_ends k y s)" s] by simp
  next
    case (cleared t)
    then show ?thesis using inv EndsInference vision_inv_clear [of t] vision_inv_same [of t s] by simp
  next
    case (counted i v ts n)
    have "slot_ok i (v\<lparr>vs_served := ts, vs_inferences := n\<rparr>)"
      using slot_of [OF inv counted(1)] by (simp add: slot_ok_def)
    then show ?thesis using counted(2) EndsInference by (intro vision_inv_set [OF inv]) simp_all
  qed
next
  case ClosesScheduler
  assume "vision_inv s"
  then have "vision_inv (clear_demands (stop_worker s))"
    using vision_inv_same [of "stop_worker s" s] by (intro vision_inv_clear) simp
  then show ?thesis using ClosesScheduler
    vision_inv_same [of "close_scheduler s" "clear_demands (stop_worker s)"] by (simp add: close_scheduler_def)
next
  case (LoadsModel r)
  assume "vision_inv s"
  then show ?thesis using LoadsModel vision_inv_same [of "snd (load_model r s)" s] by simp
qed

interpretation vision: machine do_vision vision_inv
  by unfold_locales (rule vision_inv_step)

subsection \<open>What a step does to a source\<close>

definition source_at :: "'f scheduler \<Rightarrow> string \<Rightarrow> 'f vision_source" where
  "source_at s i = (case dict_get (sd_sources s) i of None \<Rightarrow> new_vision_source | Some v \<Rightarrow> v)"

fun took_of :: "('f, 'd) vision_out list \<Rightarrow> 'f frame_packet option" where
  "took_of [Took p] = Some p"
| "took_of _ = None"

lemma source_at_same: "sd_sources t = sd_sources s \<Longrightarrow> source_at t = source_at s"
  by (simp add: source_at_def fun_eq_iff)

lemma source_at_set: "sd_sources t = dict_set i v (sd_sources s) \<Longrightarrow> source_at t = (source_at s)(i := v)"
  by (simp add: source_at_def fun_eq_iff)

lemma source_at_known: "dict_get (sd_sources s) i = Some v \<Longrightarrow> source_at s i = v"
  by (simp add: source_at_def)

lemma source_at_cleared:
  "sd_sources t = sd_sources s \<Longrightarrow> vs_last (source_at (clear_demands t) i) = vs_last (source_at s i) \<and>
     vs_due (source_at (clear_demands t) i) = vs_due (source_at s i)"
  by (simp add: source_at_def cleared_get split: option.split)

lemma ends_take_nothing [simp]: "took_of (fst (worker_ends k y s)) = None"
proof -
  have tells: "took_of (map (\<lambda>(i, owner). TellsError i owner e) xs) = None" for xs e
    by (cases xs; cases "tl xs") (auto simp: case_prod_beta)
  have gives: "took_of (map (\<lambda>(owner, d). Delivers i owner p x) xs) = None" for xs i p x
    by (cases xs; cases "tl xs") (auto simp: case_prod_beta)
  show ?thesis
    by (simp add: worker_ends_def inference_failed_def inference_done_def Let_def tells gives
        split: option.split inference_end.split)
qed

lemma took_by_turn:
  assumes "vision_inv s" "took_of (fst (do_vision s x)) = Some p"
  obtains now started k w v where "x = TurnsWorker now started k"
    "snd (do_vision s x) = take_frame now started k w (pk_source p) v p s"
    "dict_get (sd_sources s) (pk_source p) = Some v" "vs_pending v = Some p" "vs_demands v \<noteq> []"
    "vs_due v \<le> now" "sd_slot s \<le> now"
    "\<And>j u. dict_get (sd_sources s) j = Some u \<Longrightarrow> vs_pending u \<noteq> None \<Longrightarrow> vs_demands u \<noteq> [] \<Longrightarrow>
       (vs_due v, pk_source p) \<le> (vs_due u, j)"
proof (cases x)
  case (TurnsWorker now started k)
  show thesis
    using assms(1)
  proof (cases rule: turn_cases [of s now started k])
    case (idle t)
    then show thesis using assms(2) TurnsWorker by (simp add: do_vision.simps)
  next
    case (took i v q w)
    then have "q = p" using assms(2) TurnsWorker by (simp add: do_vision.simps)
    then show thesis using that [of now started k w v] took TurnsWorker by simp
  qed
qed (use assms(2) in \<open>simp_all add: do_vision.simps split: prod.splits sum.splits\<close>)

text \<open>All that a step can do to one source.\<close>

inductive moves ::
  "('f, 'd) vision_input \<Rightarrow> 'f frame_packet option \<Rightarrow> string \<Rightarrow> 'f vision_source \<Rightarrow> 'f vision_source \<Rightarrow> bool" where
  stays: "\<forall>p. out = Some p \<longrightarrow> pk_source p \<noteq> j \<Longrightarrow> moves x out j v v"
| asked: "moves (AddsDemand j owner d) None j v (v\<lparr>vs_demands := dict_set owner d (vs_demands v)\<rparr>)"
| released: "left = dict_pop owner (vs_demands v) \<Longrightarrow>
    moves (Releases j owner) None j v (v\<lparr>vs_demands := left, vs_pending := (if left = [] then None else vs_pending v)\<rparr>)"
| boosted: "moves (Boosts now now' j f l) None j v
    (v\<lparr>vs_boost_factor := max 1 f, vs_boost_until := u, vs_due := min (vs_due v) now'\<rparr>)"
| offered: "moves (Offers p) None j v (v\<lparr>vs_pending := Some p, vs_skipped := n\<rparr>)"
| served: "pk_source p = j \<Longrightarrow> vs_due v \<le> now \<Longrightarrow> vs_demands v \<noteq> [] \<Longrightarrow>
    moves (TurnsWorker now started k) (Some p) j v (served_source now p v)"
| counted: "moves (EndsInference k y) None j v (v\<lparr>vs_served := ts, vs_inferences := n\<rparr>)"
| ended: "moves x None j v (v\<lparr>vs_demands := [], vs_pending := None\<rparr>)"

lemma moves_one: "source_at t = (source_at s)(i := v) \<Longrightarrow> (i = j \<Longrightarrow> moves x None j (source_at s j) v) \<Longrightarrow>
    moves x None j (source_at s j) (source_at t j)"
  by (cases "i = j") (auto intro: moves.stays)

lemma moves_none: "source_at t = source_at s \<Longrightarrow> moves x None j (source_at s j) (source_at t j)"
  by (simp add: moves.stays)

lemma moves_cleared:
  assumes "sd_sources t = sd_sources s"
  shows "moves x None j (source_at s j) (source_at (clear_demands t) j)"
proof (cases "dict_get (sd_sources s) j")
  case None
  then show ?thesis using assms by (simp add: source_at_def cleared_get moves.stays)
next
  case (Some v)
  then have "source_at (clear_demands t) j = (source_at s j)\<lparr>vs_demands := [], vs_pending := None\<rparr>"
    using assms by (simp add: source_at_def cleared_get)
  then show ?thesis using moves.ended by simp
qed

lemma step_moves:
  assumes "vision_inv s"
  shows "moves x (took_of (fst (do_vision s x))) j (source_at s j) (source_at (snd (do_vision s x)) j)"
proof -
  let ?t = "snd (do_vision s x)"
  have quiet: "took_of (fst (do_vision s x)) = None" if "\<forall>now started k. x \<noteq> TurnsWorker now started k"
    using that by (cases x) (simp_all add: do_vision.simps split: prod.split sum.split)
  show ?thesis
  proof (cases x)
    case (AddsDemand i owner d)
    have "sd_sources ?t = dict_set i ((source_at s i)\<lparr>vs_demands := dict_set owner d (vs_demands (source_at s i))\<rparr>) (sd_sources s)"
      using AddsDemand by (simp add: add_demand_def source_at_def Let_def)
    then have "moves x None j (source_at s j) (source_at ?t j)"
      by (rule moves_one [OF source_at_set]) (simp add: AddsDemand moves.asked)
    then show ?thesis using quiet AddsDemand by simp
  next
    case (Releases i owner)
    show ?thesis
    proof (cases rule: release_sources [of i owner s])
      case 1
      then show ?thesis using moves_none [OF source_at_same, of ?t s] Releases by simp
    next
      case (2 v left)
      have "moves (Releases i owner) None j (source_at s j) (source_at (release_vision i owner s) j)"
        by (rule moves_one [OF source_at_set [OF 2(3)]])
          (use source_at_known [OF 2(1)] moves.released [OF 2(2)] in auto)
      then show ?thesis using Releases by simp
    qed
  next
    case (Boosts now now' i f l)
    show ?thesis
    proof (cases "\<exists>v. dict_get (sd_sources s) i = Some v \<and> vs_demands v \<noteq> []")
      case True
      then obtain v where v: "dict_get (sd_sources s) i = Some v" "vs_demands v \<noteq> []" by blast
      then have "sd_sources ?t = dict_set i (v\<lparr>vs_boost_factor := max 1 f,
          vs_boost_until := now + min (max 0 l) most_boost, vs_due := min (vs_due v) now'\<rparr>) (sd_sources s)"
        using Boosts by (simp add: boost_vision_def)
      then have "moves x None j (source_at s j) (source_at ?t j)"
        by (rule moves_one [OF source_at_set]) (use source_at_known [OF v(1)] Boosts moves.boosted in auto)
      then show ?thesis using quiet Boosts by simp
    next
      case False
      then have "?t = s" using Boosts by (auto simp: boost_vision_def split: option.split)
      then show ?thesis using quiet Boosts by (simp add: moves.stays)
    qed
  next
    case (Offers p)
    show ?thesis
    proof (cases "fst (offer_frame p s)")
      case True
      then obtain v where v: "dict_get (sd_sources s) (pk_source p) = Some v"
        "sd_sources ?t = dict_set (pk_source p) (v\<lparr>vs_pending := Some p,
           vs_skipped := vs_skipped v + (if vs_pending v = None then 0 else 1)\<rparr>) (sd_sources s)"
        using Offers by (auto simp: offer_frame_def split: option.splits if_splits)
      have "moves x None j (source_at s j) (source_at ?t j)"
      proof (rule moves_one [OF source_at_set [OF v(2)]])
        assume "pk_source p = j"
        then have "source_at s j = v" using source_at_known [OF v(1)] by simp
        then show "moves x None j (source_at s j) (v\<lparr>vs_pending := Some p,
           vs_skipped := vs_skipped v + (if vs_pending v = None then 0 else 1)\<rparr>)"
          unfolding Offers by (simp only: moves.offered)
      qed
      then show ?thesis using quiet Offers by simp
    next
      case False
      then have "?t = s" using Offers by (auto simp: offer_frame_def split: option.splits if_splits)
      then show ?thesis using quiet Offers by (simp add: moves.stays)
    qed
  next
    case (TurnsWorker now started k)
    show ?thesis
      using assms(1)
    proof (cases rule: turn_cases [of s now started k])
      case (idle t)
      then show ?thesis using moves_none [OF source_at_same, of t s] TurnsWorker by (simp add: do_vision.simps)
    next
      case (took i v p w)
      have "sd_sources ?t = dict_set i (served_source now p v) (sd_sources s)" using took(1) TurnsWorker by simp
      from source_at_set [OF this] have t: "source_at ?t = (source_at s)(i := served_source now p v)" .
      have out: "took_of (fst (do_vision s x)) = Some p" using took(1) TurnsWorker by (simp add: do_vision.simps)
      show ?thesis
      proof (cases "i = j")
        case True
        then show ?thesis using t out took TurnsWorker source_at_known [OF took(2)] by (simp add: moves.served)
      next
        case False
        then show ?thesis using t out took(5) by (auto intro: moves.stays)
      qed
    qed
  next
    case (EndsInference k y)
    show ?thesis
    proof (cases rule: ends_sources [of k y s])
      case same
      then show ?thesis using moves_none [OF source_at_same, of ?t s] EndsInference by simp
    next
      case (cleared t)
      then show ?thesis using moves_cleared [OF cleared(2)] EndsInference by simp
    next
      case (counted i v ts n)
      have "moves x None j (source_at s j) (source_at (snd (worker_ends k y s)) j)"
        by (rule moves_one [OF source_at_set [OF counted(2)]])
          (use source_at_known [OF counted(1)] EndsInference moves.counted in auto)
      then show ?thesis using EndsInference by simp
    qed
  next
    case ClosesScheduler
    have "sd_sources ?t = sd_sources (clear_demands (stop_worker s))"
      using ClosesScheduler by (simp add: close_scheduler_def)
    from source_at_same [OF this] show ?thesis
      using moves_cleared [of "stop_worker s" s x j] quiet ClosesScheduler by simp
  next
    case (LoadsModel r)
    then show ?thesis using moves_none [OF source_at_same, of ?t s] quiet by simp
  qed
qed

lemma step_keeps_source:
  assumes "vision_inv s" "\<And>p. took_of (fst (do_vision s x)) = Some p \<Longrightarrow> pk_source p \<noteq> j"
  shows "vs_last (source_at (snd (do_vision s x)) j) = vs_last (source_at s j)"
    "vs_due (source_at (snd (do_vision s x)) j) = vs_due (source_at s j) \<or>
       (\<exists>now now' f l. x = Boosts now now' j f l \<and>
          vs_due (source_at (snd (do_vision s x)) j) = min (vs_due (source_at s j)) now')"
  using step_moves [OF assms(1), of x j] assms(2) by (cases rule: moves.cases; auto)+

subsection \<open>Frames once, and in order\<close>

definition last_served :: "string \<Rightarrow> 'f scheduler \<Rightarrow> int \<times> int" where
  "last_served i s = vs_last (source_at s i)"

definition place_of :: "string \<Rightarrow> ('f, 'd) vision_out list \<Rightarrow> (int \<times> int) option" where
  "place_of i out =
     (case took_of out of
        None \<Rightarrow> None
      | Some p \<Rightarrow> if pk_source p = i then Some (pk_epoch p, pk_sequence p) else None)"

lemma step_serves:
  assumes "vision_inv s"
  shows "last_served i s \<le> last_served i (snd (do_vision s x)) \<and>
    (place_of i (fst (do_vision s x)) = Some r \<longrightarrow>
       last_served i s < r \<and> r \<le> last_served i (snd (do_vision s x)))"
proof (cases "\<exists>p. took_of (fst (do_vision s x)) = Some p \<and> pk_source p = i")
  case True
  then obtain p where p: "took_of (fst (do_vision s x)) = Some p" "pk_source p = i" by blast
  obtain now started k w v where t: "snd (do_vision s x) = take_frame now started k w (pk_source p) v p s"
    "dict_get (sd_sources s) (pk_source p) = Some v" "vs_pending v = Some p"
    using took_by_turn [OF assms p(1)] by metis
  have "last_served i (snd (do_vision s x)) = (pk_epoch p, pk_sequence p)"
    using source_at_set [of "snd (do_vision s x)" i _ s] t(1) p(2) by (simp add: last_served_def)
  moreover have "last_served i s < (pk_epoch p, pk_sequence p)"
    using slot_of [OF assms t(2)] t(3) source_at_known [OF t(2)] p(2) by (simp add: slot_ok_def last_served_def)
  ultimately show ?thesis using p by (auto simp: place_of_def)
next
  case False
  then show ?thesis using step_keeps_source(1) [OF assms, of x i]
    by (auto simp: place_of_def last_served_def split: option.split)
qed

interpretation served_places: rising do_vision vision_inv "\<lambda>x. True" "last_served i" "place_of i" for i
  by unfold_locales (use step_serves in blast)+

lemma vision_inv_new: "vision_inv (new_scheduler b c p)"
  by (simp add: vision_inv_def new_scheduler_def)

text \<open>What a worker is at work on was taken before.\<close>

definition at_work :: "'f scheduler \<Rightarrow> (string \<times> 'f frame_packet) set" where
  "at_work s = {(jb_source j, jb_packet j) | j. Some j \<in> vk_job ` set (sd_workers s)}"

lemma at_work_put:
  "at_work (put_worker k w s) \<subseteq> at_work s \<union> {(jb_source j, jb_packet j) | j. vk_job w = Some j}"
  using set_update_subset_insert [of "sd_workers s" k w] by (force simp: at_work_def put_worker_def)

lemma at_work_same: "sd_workers t = sd_workers s \<Longrightarrow> at_work t = at_work s"
  by (simp add: at_work_def)

lemma at_work_vision [simp]:
  "at_work (put_vision i v s) = at_work s" "at_work (s\<lparr>sd_slot := now\<rparr>) = at_work s"
  by (simp_all add: at_work_def put_vision_def)

lemma at_work_take:
  assumes "vk_job w = None"
  shows "at_work (take_frame now started k w i v p s) \<subseteq> at_work s \<union> {(i, p)}"
proof -
  have idle: "at_work (put_worker k (w\<lparr>vk_running := False\<rparr>) t) \<subseteq> at_work t" for t
    using at_work_put [of k "w\<lparr>vk_running := False\<rparr>" t] assms by simp
  have busy: "at_work (put_worker k (w\<lparr>vk_job := Some j\<rparr>) t) \<subseteq> at_work t \<union> {(jb_source j, jb_packet j)}" for t j
    using at_work_put [of k "w\<lparr>vk_job := Some j\<rparr>" t] by simp
  show ?thesis
  proof (cases "rate_of now v = 0")
    case True
    then show ?thesis using idle [of "put_vision i _ s"] by (auto simp: take_frame_def Let_def)
  next
    case False
    show ?thesis unfolding take_frame_def Let_def rate_of_served if_not_P [OF False]
      by (rule order_trans [OF busy]) simp
  qed
qed

lemma at_work_start: "at_work (start_worker s) = at_work s"
  by (auto simp: at_work_def start_worker_def)

lemma at_work_stop: "at_work (stop_worker s) = at_work s"
proof (cases "sd_workers s = []")
  case False
  then have "vk_job ` set (sd_workers s) = vk_job ` set (butlast (sd_workers s) @ [last (sd_workers s)])"
    by (subst append_butlast_last_id [OF False, symmetric]) (rule refl)
  also have "\<dots> = vk_job ` set (sd_workers (stop_worker s))"
    using False by (simp add: stop_worker_def del: append_butlast_last_id)
  finally show ?thesis by (simp add: at_work_def)
qed (simp add: stop_worker_def)

lemma at_work_ends: "at_work (snd (worker_ends k y s)) \<subseteq> at_work s"
proof -
  have f: "at_work (snd (inference_failed k w m e s)) \<subseteq> at_work s" for w m e
    using at_work_put [of k "w\<lparr>vk_running := False, vk_job := None\<rparr>" s]
      at_work_put [of k "w\<lparr>vk_running := False, vk_stop := True, vk_job := None\<rparr>" s]
    by (auto simp: inference_failed_def Let_def at_work_def clear_demands_def)
  have d: "at_work (snd (inference_done k w j x el s)) \<subseteq> at_work s" for w j x el
    using at_work_put [of k "w\<lparr>vk_running := False, vk_job := None\<rparr>" s]
      at_work_put [of k "w\<lparr>vk_job := None\<rparr>" s]
    by (auto simp: inference_done_def at_work_def put_vision_def put_worker_def split: option.split)
  have "at_work (snd (case jb_model j of None \<Rightarrow> inference_failed k w None e s
      | Some m \<Rightarrow> (case y of Raised e \<Rightarrow> inference_failed k w (Some m) e s
          | Found x el \<Rightarrow> inference_done k w j x el s))) \<subseteq> at_work s" for j w e
    by (cases "jb_model j"; cases y) (simp_all only: option.case inference_end.case f d)
  then show ?thesis by (simp add: worker_ends_def Let_def split: option.split)
qed

lemma at_work_step:
  assumes "vision_inv s" "(i, q) \<in> at_work (snd (do_vision s x))"
  shows "(i, q) \<in> at_work s \<or> (took_of (fst (do_vision s x)) = Some q \<and> pk_source q = i)"
proof (cases x)
  case (TurnsWorker now started k)
  show ?thesis
    using assms(1)
  proof (cases rule: turn_cases [of s now started k])
    case (idle t)
    then have "at_work t \<subseteq> at_work s"
      using at_work_put [of k "(sd_workers s ! k)\<lparr>vk_running := False\<rparr>" s]
      by (auto simp: worker_turn_def Let_def at_work_def split: if_splits option.splits)
    then show ?thesis using assms(2) idle TurnsWorker by auto
  next
    case (took j v p w)
    have "at_work (take_frame now started k w j v p s) \<subseteq> at_work s \<union> {(j, p)}"
      by (rule at_work_take [OF took(9)])
    then show ?thesis using assms(2) took(1,5) TurnsWorker by (auto simp: do_vision.simps)
  qed
next
  case (EndsInference k y)
  then show ?thesis using assms(2) at_work_ends [of k y s] by auto
next
  case (LoadsModel r)
  then show ?thesis using assms(2) at_work_same [of "snd (load_model r s)" s] by simp
next
  case (AddsDemand j owner d)
  then show ?thesis using assms(2) by (simp add: add_demand_def Let_def at_work_start)
next
  case (Releases j owner)
  then show ?thesis using assms(2)
    by (auto simp: release_vision_def Let_def at_work_stop split: option.splits if_splits)
next
  case (Boosts now now' j f l)
  then show ?thesis using assms(2) by (auto simp: boost_vision_def split: option.splits if_splits)
next
  case (Offers p)
  then show ?thesis using assms(2) by (auto simp: offer_frame_def split: option.splits if_splits)
next
  case ClosesScheduler
  then have "(i, q) \<in> at_work (close_scheduler s)" using assms(2) by simp
  moreover have "at_work (close_scheduler s) = at_work (stop_worker s)"
    by (rule at_work_same) (simp add: close_scheduler_def clear_demands_def)
  ultimately show ?thesis by (simp add: at_work_stop)
qed

lemma at_work_run:
  assumes "vision_inv s" "(i, q) \<in> at_work (snd (run do_vision s xs))"
  shows "(i, q) \<in> at_work s \<or> (Some q \<in> took_of ` set (fst (run do_vision s xs)) \<and> pk_source q = i)"
  using assms
proof (induction xs arbitrary: s)
  case (Cons x xs)
  then have "(i, q) \<in> at_work (snd (do_vision s x)) \<or>
      (Some q \<in> took_of ` set (fst (run do_vision (snd (do_vision s x)) xs)) \<and> pk_source q = i)"
    using vision_inv_step [of s x] by (intro Cons.IH) simp_all
  then show ?case using at_work_step [OF Cons.prems(1), of i q x] by (auto simp: image_iff)
qed simp

lemma delivers_to:
  assumes "Delivers i owner q found \<in> set (fst (do_vision s x))"
  shows "(i, q) \<in> at_work s \<and> (\<exists>d. (owner, d) \<in> set (vs_demands (source_at s i)) \<and> vd_epoch d = pk_epoch q)"
proof -
  obtain k y where x: "x = EndsInference k y" using assms
    by (cases x) (auto simp: do_vision.simps split: prod.splits sum.splits option.splits)
  have "Delivers i owner q found \<in> set (fst (worker_ends k y s))" using assms x by simp
  then obtain j v where j: "k < length (sd_workers s)" "vk_job (sd_workers s ! k) = Some j"
    "i = jb_source j" "q = jb_packet j" "dict_get (sd_sources s) i = Some v"
    "\<exists>d. (owner, d) \<in> set (vs_demands v) \<and> vd_epoch d = pk_epoch q"
    by (fastforce simp: worker_ends_def Let_def inference_failed_def inference_done_def
        split: if_splits option.splits inference_end.splits)
  moreover have "(jb_source j, jb_packet j) \<in> at_work s"
    using j(1,2) unfolding at_work_def by (force simp: image_iff intro: nth_mem)
  ultimately show ?thesis by (simp add: source_at_def)
qed

text \<open>
  C16. A result belongs to a frame that was taken from its own source, and goes only to those who
  still ask for that source at the time the frame was taken in; and the frames of a source are
  taken one after another, each newer than the ones before it.
\<close>

theorem results_belong_to_their_frame:
  assumes "Delivers i owner q found \<in> set (fst (do_vision (snd (run do_vision (new_scheduler b c p) xs)) x))"
  shows "pk_source q = i \<and> Some q \<in> took_of ` set (fst (run do_vision (new_scheduler b c p) xs)) \<and>
    (\<exists>d. (owner, d) \<in> set (vs_demands (source_at (snd (run do_vision (new_scheduler b c p) xs)) i)) \<and>
       vd_epoch d = pk_epoch q) \<and>
    sorted_wrt (<) (List.map_filter (place_of i) (fst (run do_vision (new_scheduler b c p) xs)))"
proof -
  have "at_work (new_scheduler b c p) = {}" by (simp add: at_work_def new_scheduler_def)
  then show ?thesis
    using delivers_to [OF assms] at_work_run [OF vision_inv_new, of i q b c p xs]
      served_places.run_strictly_rising [OF vision_inv_new, of xs i b c p] by auto
qed

subsection \<open>Inferences keep their distance\<close>

text \<open>Something that happens only when its gate is open, and then shuts the gate for a while.\<close>

locale spaced = guarded_machine step inv allowed
  for step :: "'s \<Rightarrow> 'e \<Rightarrow> 'o \<times> 's" and inv :: "'s \<Rightarrow> bool" and allowed :: "'e \<Rightarrow> bool" +
  fixes gate :: "'s \<Rightarrow> rat" and happens :: "'e \<times> 'o \<Rightarrow> rat option" and gap :: rat
  assumes gap_positive: "0 \<le> gap"
    and gate_stays: "inv s \<Longrightarrow> allowed e \<Longrightarrow> happens (e, fst (step s e)) = None \<Longrightarrow> gate s \<le> gate (snd (step s e))"
    and gate_shuts: "inv s \<Longrightarrow> allowed e \<Longrightarrow> happens (e, fst (step s e)) = Some t \<Longrightarrow>
      gate s \<le> t \<and> t + gap \<le> gate (snd (step s e))"
begin

lemma run_spaced:
  "inv s \<Longrightarrow> \<forall>e \<in> set es. allowed e \<Longrightarrow>
     sorted_wrt (\<lambda>t u. t + gap \<le> u) (List.map_filter happens (trace step s es)) \<and>
     (\<forall>t \<in> set (List.map_filter happens (trace step s es)). gate s \<le> t)"
proof (induction es arbitrary: s)
  case Nil
  then show ?case by (simp add: List.map_filter_simps)
next
  case (Cons e es)
  let ?t = "snd (step s e)"
  have tail: "trace step s (e # es) = (e, fst (step s e)) # trace step ?t es" by (simp add: trace_def)
  have ih: "sorted_wrt (\<lambda>t u. t + gap \<le> u) (List.map_filter happens (trace step ?t es))"
    "\<forall>t \<in> set (List.map_filter happens (trace step ?t es)). gate ?t \<le> t"
    using Cons.IH [of ?t] Cons.prems step_keeps [of s e] by simp_all
  show ?case
  proof (cases "happens (e, fst (step s e))")
    case None
    then have "gate s \<le> gate ?t" using gate_stays Cons.prems by simp
    then show ?thesis using ih None unfolding tail by (auto simp: List.map_filter_simps intro: order_trans)
  next
    case (Some t)
    then have "gate s \<le> t" "t + gap \<le> gate ?t" using gate_shuts Cons.prems by auto
    then show ?thesis using ih Some gap_positive unfolding tail
      by (auto simp: List.map_filter_simps intro: order_trans)
  qed
qed

lemma run_rate:
  assumes "inv s" "\<forall>e \<in> set es. allowed e" "m + n < length (List.map_filter happens (trace step s es))"
  shows "List.map_filter happens (trace step s es) ! m + of_nat n * gap \<le> List.map_filter happens (trace step s es) ! (m + n)"
  using assms(3)
proof (induction n)
  case (Suc n)
  let ?ts = "List.map_filter happens (trace step s es)"
  have "?ts ! (m + n) + gap \<le> ?ts ! (m + Suc n)"
    using run_spaced [OF assms(1,2)] Suc.prems by (auto simp: sorted_wrt_iff_nth_less)
  then show ?case using Suc by (simp add: algebra_simps)
qed simp

end

definition pays :: "'f vision_source \<Rightarrow> bool" where
  "pays v \<longleftrightarrow> (\<forall>(i, d) \<in> set (vs_demands v). 0 < vd_fps d) \<and> 1 \<le> vs_boost_factor v"

fun sensible :: "('f, 'd) vision_input \<Rightarrow> bool" where
  "sensible (AddsDemand i owner d) = (0 < vd_fps d)"
| "sensible _ = True"

lemma moves_pays: "moves x out j v v' \<Longrightarrow> sensible x \<Longrightarrow> pays v \<Longrightarrow> pays v'"
  by (induction rule: moves.induct)
    (auto simp: pays_def served_source_def Let_def dest!: dict_set_in dict_pop_in)

lemma rate_positive:
  assumes "pays v" "vs_demands v \<noteq> []"
  shows "0 < rate_of now v" "rate_of now v \<le> max_rate"
proof -
  obtain d ds where d: "dict_values (vs_demands v) = d # ds"
    using assms(2) by (cases "dict_values (vs_demands v)") auto
  then have "0 < vd_fps d" using assms(1) by (cases "vs_demands v") (auto simp: pays_def)
  moreover have "x \<le> fold (\<lambda>y. max (vd_fps y)) ds x" for x
  proof (induction ds arbitrary: x)
    case (Cons d ds)
    have "x \<le> max (vd_fps d) x" by simp
    also have "\<dots> \<le> fold (\<lambda>y. max (vd_fps y)) ds (max (vd_fps d) x)" by (rule Cons.IH)
    finally show ?case by simp
  qed simp
  ultimately have "0 < fold (\<lambda>y. max (vd_fps y)) ds (vd_fps d)" by (metis less_le_trans)
  then show "0 < rate_of now v" "rate_of now v \<le> max_rate"
    using assms(1) d by (simp_all add: rate_of_def Let_def pays_def max_rate_def)
qed

definition vision_ok :: "rat \<Rightarrow> 'f scheduler \<Rightarrow> bool" where
  "vision_ok b s \<longleftrightarrow> vision_inv s \<and> (\<forall>i. pays (source_at s i)) \<and> sd_budget s = b \<and> 0 < b"

lemma vision_ok_new [simp]: "0 < b \<Longrightarrow> vision_ok b (new_scheduler b c p)"
  using vision_inv_new by (auto simp: vision_ok_def source_at_def new_scheduler_def new_vision_source_def pays_def)

text \<open>The time of a frame that is taken, of any source or of one.\<close>

fun taken_at :: "('f frame_packet \<Rightarrow> bool) \<Rightarrow> ('f, 'd) vision_input \<times> ('f, 'd) vision_out list \<Rightarrow> rat option" where
  "taken_at P (TurnsWorker now started k, out) =
     (case took_of out of None \<Rightarrow> None | Some p \<Rightarrow> if P p then Some now else None)"
| "taken_at P _ = None"

lemma slot_step:
  assumes "vision_inv s"
  shows "sd_budget (snd (do_vision s x)) = sd_budget s \<and>
    (took_of (fst (do_vision s x)) = None \<longrightarrow> sd_slot (snd (do_vision s x)) = sd_slot s)"
proof (cases x)
  case (TurnsWorker now started k)
  show ?thesis
    using assms
  proof (cases rule: turn_cases [of s now started k])
    case (took i v p w)
    then show ?thesis using TurnsWorker by (simp add: do_vision.simps)
  qed (simp add: TurnsWorker)
next
  case (EndsInference k y)
  then show ?thesis
    by (simp add: worker_ends_def inference_failed_def inference_done_def clear_demands_def put_worker_def
        put_vision_def Let_def split: option.split inference_end.split)
qed (auto simp: do_vision.simps add_demand_def release_vision_def boost_vision_def offer_frame_def
    close_scheduler_def clear_demands_def load_model_def start_worker_def stop_worker_def put_vision_def Let_def
    split: option.split)

lemma vision_ok_step:
  assumes "vision_ok b s" "sensible x"
  shows "vision_ok b (snd (do_vision s x))"
proof -
  have inv: "vision_inv s" and pay: "\<forall>i. pays (source_at s i)" "sd_budget s = b" "0 < b" using assms(1) by (auto simp: vision_ok_def)
  have "pays (source_at (snd (do_vision s x)) i)" for i
    by (rule moves_pays [OF step_moves [OF inv] assms(2)]) (use pay in simp)
  then show ?thesis using vision_inv_step [OF inv, of x] slot_step [OF inv, of x] pay by (simp add: vision_ok_def)
qed

lemma take_shuts:
  assumes "vision_ok b s" "took_of (fst (do_vision s x)) = Some p"
  obtains now started k v where "x = TurnsWorker now started k" "sd_slot s \<le> now"
    "sd_slot (snd (do_vision s x)) = now + 1 / b" "vs_due (source_at s (pk_source p)) \<le> now"
    "now + 1 / max_rate \<le> vs_due (source_at (snd (do_vision s x)) (pk_source p))"
    "source_at s (pk_source p) = v" "vs_pending v = Some p" "vs_demands v \<noteq> []"
    "\<forall>j u. dict_get (sd_sources s) j = Some u \<and> vs_pending u \<noteq> None \<and> vs_demands u \<noteq> [] \<longrightarrow>
       (vs_due v, pk_source p) \<le> (vs_due u, j)"
proof -
  have inv: "vision_inv s" using assms(1) by (simp add: vision_ok_def)
  obtain now started k w v where t: "x = TurnsWorker now started k"
    "snd (do_vision s x) = take_frame now started k w (pk_source p) v p s"
    "dict_get (sd_sources s) (pk_source p) = Some v" "vs_pending v = Some p" "vs_demands v \<noteq> []"
    "vs_due v \<le> now" "sd_slot s \<le> now"
    "\<And>j u. dict_get (sd_sources s) j = Some u \<Longrightarrow> vs_pending u \<noteq> None \<Longrightarrow> vs_demands u \<noteq> [] \<Longrightarrow>
       (vs_due v, pk_source p) \<le> (vs_due u, j)"
    by (rule took_by_turn [OF inv assms(2)]) (rule that)
  have v: "source_at s (pk_source p) = v" using t(3) by (simp add: source_at_def)
  then have "pays v" using assms(1) by (auto simp: vision_ok_def)
  note r = rate_positive [OF this t(5), of now]
  have slot: "sd_slot (snd (do_vision s x)) = now + 1 / b"
    unfolding t(2) take_frame_slot using r(1) assms(1) by (simp add: vision_ok_def)
  have "source_at (snd (do_vision s x)) (pk_source p) = served_source now p v"
    unfolding t(2) by (simp add: source_at_def)
  then have "vs_due (source_at (snd (do_vision s x)) (pk_source p)) = now + 1 / rate_of now v"
    using r(1) by (simp add: served_source_def Let_def)
  moreover have "1 / max_rate \<le> 1 / rate_of now v" using r by (intro divide_left_mono) (simp_all add: max_rate_def)
  ultimately have due: "now + 1 / max_rate \<le> vs_due (source_at (snd (do_vision s x)) (pk_source p))" by simp
  show thesis by (rule that [of now started k v]) (use t v slot due in \<open>simp_all\<close>)
qed

lemma taken_at_some: "taken_at P (x, out) = Some t \<longleftrightarrow>
    (\<exists>started k p. x = TurnsWorker t started k \<and> took_of out = Some p \<and> P p)"
  by (cases x) (auto split: option.splits)

interpretation model_turns: spaced do_vision "vision_ok b" sensible sd_slot "taken_at (\<lambda>p. True)" "max 0 (1 / b)" for b
proof (unfold_locales, goal_cases)
  case (1 s x)
  then show ?case by (rule vision_ok_step)
next
  case 2
  then show ?case by simp
next
  case (3 s x)
  have "took_of (fst (do_vision s x)) = None"
  proof (rule ccontr)
    assume "took_of (fst (do_vision s x)) \<noteq> None"
    then obtain p where out: "took_of (fst (do_vision s x)) = Some p" by blast
    obtain now started k where "x = TurnsWorker now started k" by (rule take_shuts [OF 3(1) out])
    with out have "taken_at (\<lambda>p. True) (x, fst (do_vision s x)) = Some now" unfolding taken_at_some by blast
    then show False using 3(3) by simp
  qed
  then show ?case using slot_step [of s x] 3(1) by (simp add: vision_ok_def)
next
  case (4 s x t)
  then obtain started k p where x: "x = TurnsWorker t started k" "took_of (fst (do_vision s x)) = Some p"
    unfolding taken_at_some by blast
  obtain now' started' k' where "x = TurnsWorker now' started' k'" "sd_slot s \<le> now'"
    "sd_slot (snd (do_vision s x)) = now' + 1 / b"
    by (rule take_shuts [OF 4(1) x(2)])
  moreover have "max 0 (1 / b) = 1 / b" using 4(1) by (simp add: vision_ok_def)
  ultimately show ?case using x(1) by simp
qed

fun boosts :: "string \<Rightarrow> ('f, 'd) vision_input \<Rightarrow> bool" where
  "boosts i (Boosts now now' j factor lasts) = (i = j)"
| "boosts i _ = False"

lemma due_kept:
  assumes "vision_inv s" "\<not> boosts i x" "\<forall>p. took_of (fst (do_vision s x)) = Some p \<longrightarrow> pk_source p \<noteq> i"
  shows "vs_due (source_at (snd (do_vision s x)) i) = vs_due (source_at s i)"
proof -
  have "\<not> (\<exists>now now' f l. x = Boosts now now' i f l)" using assms(2) by auto
  then show ?thesis using step_keeps_source(2) [OF assms(1), of x i] assms(3) by blast
qed

interpretation source_turns: spaced do_vision "vision_ok b" "\<lambda>x. sensible x \<and> \<not> boosts i x"
  "\<lambda>s. vs_due (source_at s i)" "taken_at (\<lambda>p. pk_source p = i)" "1 / max_rate" for b i
proof (unfold_locales, goal_cases)
  case (1 s x)
  then show ?case by (simp add: vision_ok_step)
next
  case 2
  then show ?case by (simp add: max_rate_def)
next
  case (3 s x)
  have "pk_source p \<noteq> i" if out: "took_of (fst (do_vision s x)) = Some p" for p
  proof
    assume i: "pk_source p = i"
    obtain now started k where "x = TurnsWorker now started k" by (rule take_shuts [OF 3(1) out])
    then have "taken_at (\<lambda>p. pk_source p = i) (x, fst (do_vision s x)) = Some now"
      unfolding taken_at_some using out i by blast
    then show False using 3(3) by simp
  qed
  then show ?case using due_kept [of s i x] 3(1,2) by (simp add: vision_ok_def)
next
  case (4 s x t)
  then obtain started k p where x: "x = TurnsWorker t started k" "took_of (fst (do_vision s x)) = Some p"
    "pk_source p = i"
    unfolding taken_at_some by blast
  obtain now' started' k' where "x = TurnsWorker now' started' k'" "vs_due (source_at s (pk_source p)) \<le> now'"
    "now' + 1 / max_rate \<le> vs_due (source_at (snd (do_vision s x)) (pk_source p))"
    by (rule take_shuts [OF 4(1) x(2)])
  then show ?case using x by simp
qed

text \<open>When frames were taken, of any source or of one.\<close>

definition take_times :: "('f frame_packet \<Rightarrow> bool) \<Rightarrow> 'f scheduler \<Rightarrow> ('f, 'd) vision_input list \<Rightarrow> rat list" where
  "take_times P s xs = List.map_filter (taken_at P) (trace do_vision s xs)"

text \<open>
  C18. Whatever the cameras, the rules and the clock do, the model is not called faster than the
  budget: between one frame that is taken and the n-th after it lie at least n times the share
  of the budget. And the frames of a source that nobody boosts are at least a tenth of a second
  apart, whatever rates were asked for.
\<close>

theorem inferences_keep_their_distance:
  assumes "0 < budget" "\<forall>x \<in> set xs. sensible x"
  shows "(\<forall>m n. m + n < length (take_times (\<lambda>p. True) (new_scheduler budget c p) xs) \<longrightarrow>
      take_times (\<lambda>p. True) (new_scheduler budget c p) xs ! m + of_nat n / budget \<le>
        take_times (\<lambda>p. True) (new_scheduler budget c p) xs ! (m + n)) \<and>
    (\<forall>i. (\<forall>x \<in> set xs. \<not> boosts i x) \<longrightarrow>
      sorted_wrt (\<lambda>t u. t + 1 / 10 \<le> u) (take_times (\<lambda>p. pk_source p = i) (new_scheduler budget c p) xs))"
proof (intro conjI allI impI)
  fix m n
  assume "m + n < length (take_times (\<lambda>p. True) (new_scheduler budget c p) xs)"
  from model_turns.run_rate [of budget "new_scheduler budget c p" xs m n] this assms
  show "take_times (\<lambda>p. True) (new_scheduler budget c p) xs ! m + of_nat n / budget \<le>
      take_times (\<lambda>p. True) (new_scheduler budget c p) xs ! (m + n)"
    by (simp add: take_times_def)
next
  fix i
  assume "\<forall>x \<in> set xs. \<not> boosts i x"
  with source_turns.run_spaced [of budget "new_scheduler budget c p" xs i] assms
  show "sorted_wrt (\<lambda>t u. t + 1 / 10 \<le> u) (take_times (\<lambda>p. pk_source p = i) (new_scheduler budget c p) xs)"
    by (simp add: take_times_def max_rate_def)
qed

subsection \<open>Nobody waits for another twice\<close>

text \<open>The source has a frame in its slot and was due at this time.\<close>

definition is_due :: "seconds \<Rightarrow> 'f vision_source \<Rightarrow> bool" where
  "is_due d v \<longleftrightarrow> vs_pending v \<noteq> None \<and> vs_demands v \<noteq> [] \<and> vs_due v \<le> d"

fun clock_after :: "seconds \<Rightarrow> ('f, 'd) vision_input \<Rightarrow> bool" where
  "clock_after d (TurnsWorker now started k) = (d < now)"
| "clock_after d (Boosts now now' i factor lasts) = (d < now')"
| "clock_after d _ = True"

fun keeps_asking :: "string \<Rightarrow> 'f scheduler \<Rightarrow> ('f, 'd) vision_input list \<Rightarrow> bool" where
  "keeps_asking i s [] = True"
| "keeps_asking i s (x # xs) =
     (vs_demands (source_at (snd (do_vision s x)) i) \<noteq> [] \<and> keeps_asking i (snd (do_vision s x)) xs)"

definition takes :: "'f scheduler \<Rightarrow> ('f, 'd) vision_input list \<Rightarrow> string list" where
  "takes s xs = List.map_filter (\<lambda>out. map_option pk_source (took_of out)) (fst (run do_vision s xs))"

lemma takes_simps [simp]:
  "takes s [] = []"
  "takes s (x # xs) =
     (case took_of (fst (do_vision s x)) of None \<Rightarrow> [] | Some p \<Rightarrow> [pk_source p]) @ takes (snd (do_vision s x)) xs"
  by (simp_all add: takes_def List.map_filter_simps split: option.split)

lemma still_due:
  assumes "vision_inv s" "is_due d (source_at s i)" "vs_demands (source_at (snd (do_vision s x)) i) \<noteq> []"
    "\<forall>p. took_of (fst (do_vision s x)) = Some p \<longrightarrow> pk_source p \<noteq> i"
  shows "is_due d (source_at (snd (do_vision s x)) i)"
  using step_moves [OF assms(1), of x i] assms(2-) by (cases rule: moves.cases) (auto simp: is_due_def)

lemma still_later:
  assumes "vision_ok b s" "clock_after d x" "d < vs_due (source_at s j)"
  shows "d < vs_due (source_at (snd (do_vision s x)) j)"
proof (cases "\<exists>p. took_of (fst (do_vision s x)) = Some p \<and> pk_source p = j")
  case True
  then obtain p where p: "took_of (fst (do_vision s x)) = Some p" "pk_source p = j" by blast
  obtain now started k where "x = TurnsWorker now started k"
    "now + 1 / max_rate \<le> vs_due (source_at (snd (do_vision s x)) (pk_source p))"
    by (rule take_shuts [OF assms(1) p(1)])
  then show ?thesis using assms(2) p(2) by (simp add: max_rate_def)
next
  case False
  then have "vs_due (source_at (snd (do_vision s x)) j) = vs_due (source_at s j) \<or>
       (\<exists>now now' f l. x = Boosts now now' j f l \<and>
          vs_due (source_at (snd (do_vision s x)) j) = min (vs_due (source_at s j)) now')"
    using assms(1) by (intro step_keeps_source(2)) (auto simp: vision_ok_def)
  then show ?thesis using assms(2,3) by auto
qed

lemma due_taken:
  assumes "vision_ok b s" "clock_after d x" "is_due d (source_at s i)"
    "took_of (fst (do_vision s x)) = Some p" "pk_source p \<noteq> i"
  shows "vs_due (source_at s (pk_source p)) \<le> d" "d < vs_due (source_at (snd (do_vision s x)) (pk_source p))"
proof -
  obtain now started k v where t: "x = TurnsWorker now started k"
    "now + 1 / max_rate \<le> vs_due (source_at (snd (do_vision s x)) (pk_source p))"
    "source_at s (pk_source p) = v"
    "\<forall>j u. dict_get (sd_sources s) j = Some u \<and> vs_pending u \<noteq> None \<and> vs_demands u \<noteq> [] \<longrightarrow>
       (vs_due v, pk_source p) \<le> (vs_due u, j)"
    by (rule take_shuts [OF assms(1,4)])
  have "dict_get (sd_sources s) i = Some (source_at s i)"
    using assms(3) by (cases "dict_get (sd_sources s) i") (auto simp: is_due_def source_at_def new_vision_source_def)
  then have "vs_due v \<le> vs_due (source_at s i)" using t(4) assms(3) by (fastforce simp: is_due_def)
  then show "vs_due (source_at s (pk_source p)) \<le> d" using assms(3) t(3) by (simp add: is_due_def)
  show "d < vs_due (source_at (snd (do_vision s x)) (pk_source p))" using t(1,2) assms(2) by (simp add: max_rate_def)
qed

lemma overtaken_once:
  assumes "vision_ok b s" "is_due d (source_at s i)" "\<forall>x \<in> set xs. sensible x \<and> clock_after d x"
    "keeps_asking i s xs" "i \<notin> set (takes s xs)"
  shows "distinct (takes s xs) \<and> (\<forall>j \<in> set (takes s xs). vs_due (source_at s j) \<le> d) \<and>
    is_due d (source_at (snd (run do_vision s xs)) i) \<and> vision_ok b (snd (run do_vision s xs))"
  using assms
proof (induction xs arbitrary: s)
  case (Cons x xs)
  let ?t = "snd (do_vision s x)"
  have step: "vision_inv s" "sensible x" "clock_after d x" using Cons.prems by (simp_all add: vision_ok_def)
  have i: "\<forall>p. took_of (fst (do_vision s x)) = Some p \<longrightarrow> pk_source p \<noteq> i"
    using Cons.prems(5) by (auto split: option.splits)
  have "is_due d (source_at ?t i)" using still_due [OF step(1) Cons.prems(2) _ i] Cons.prems(4) by simp
  then have ih: "distinct (takes ?t xs)" "\<forall>j \<in> set (takes ?t xs). vs_due (source_at ?t j) \<le> d"
    "is_due d (source_at (snd (run do_vision ?t xs)) i)" "vision_ok b (snd (run do_vision ?t xs))"
    using Cons.IH [of ?t] vision_ok_step [OF Cons.prems(1) step(2)] Cons.prems by (simp_all split: option.splits)
  have early: "vs_due (source_at s j) \<le> d" if "j \<in> set (takes ?t xs)" for j
    using still_later [OF Cons.prems(1) step(3), of j] ih(2) that by (force simp: not_less)
  show ?case
  proof (cases "took_of (fst (do_vision s x))")
    case None
    then show ?thesis using ih early by simp
  next
    case (Some p)
    note p = due_taken [OF Cons.prems(1) step(3) Cons.prems(2) Some]
    then show ?thesis using ih early i Some by (auto simp: not_le)
  qed
qed simp

text \<open>
  C17. A fair share: from the moment a source has a frame waiting and its turn has come, and as long
  as it keeps asking, no other source is served twice before it; and as long as it waits, a free
  worker whose budget allows an inference never stands idle.
\<close>

theorem nobody_is_served_twice_before:
  assumes "0 < budget" "\<forall>x \<in> set ys. sensible x"
    and "s = snd (run do_vision (new_scheduler budget c p) ys)" "is_due d (source_at s i)"
    and "\<forall>x \<in> set xs. sensible x \<and> clock_after d x" "keeps_asking i s xs" "i \<notin> set (takes s xs)"
  shows "distinct (takes s xs) \<and>
    (\<forall>now started k. k < length (sd_workers (snd (run do_vision s xs))) \<and>
       vk_running (sd_workers (snd (run do_vision s xs)) ! k) \<and>
       \<not> vk_stop (sd_workers (snd (run do_vision s xs)) ! k) \<and>
       vk_job (sd_workers (snd (run do_vision s xs)) ! k) = None \<and>
       d \<le> now \<and> sd_slot (snd (run do_vision s xs)) \<le> now \<longrightarrow>
       took_of (fst (do_vision (snd (run do_vision s xs)) (TurnsWorker now started k))) \<noteq> None)"
proof -
  let ?t = "snd (run do_vision s xs)"
  have "vision_ok budget s" unfolding assms(3) by (rule model_turns.run_keeps) (use assms(1,2) in auto)
  from overtaken_once [OF this assms(4-)] have t: "distinct (takes s xs)" "is_due d (source_at ?t i)" "vision_ok budget ?t"
    by simp_all
  have known: "dict_get (sd_sources ?t) i = Some (source_at ?t i)"
    using t(2) by (cases "dict_get (sd_sources ?t) i") (auto simp: is_due_def source_at_def new_vision_source_def)
  then have mem: "(vs_due (source_at ?t i), i) \<in> set (ready_sources ?t)"
    using dict_get_in [OF known] t(2) by (force simp: ready_sources_def is_due_def)
  then obtain e where e: "earliest (ready_sources ?t) = Some e" using earliest_none by (cases "earliest (ready_sources ?t)") auto
  then have le: "fst e \<le> vs_due (source_at ?t i)" "e \<in> set (ready_sources ?t)"
    using mem unfolding earliest_some by (auto simp: less_eq_prod_def)
  then obtain u where u: "dict_get (sd_sources ?t) (snd e) = Some u" "vs_pending u \<noteq> None"
    using t(3) by (auto simp: ready_sources_def vision_ok_def vision_inv_def dict_in_get)
  have "took_of (fst (do_vision ?t (TurnsWorker now started k))) \<noteq> None"
    if "k < length (sd_workers ?t)" "vk_running (sd_workers ?t ! k)" "\<not> vk_stop (sd_workers ?t ! k)"
      "vk_job (sd_workers ?t ! k) = None" "d \<le> now" "sd_slot ?t \<le> now" for now started k
  proof -
    have "fst e \<le> now" using le(1) t(2) that(5) by (simp add: is_due_def)
    then have "wait_time now ?t = Some 0" using e that(6) by (simp add: wait_time_def)
    then show ?thesis using that u e by (auto simp: do_vision.simps worker_turn_def Let_def pick_source_def)
  qed
  with t(1) show ?thesis by blast
qed

subsection \<open>Two cameras\<close>

text \<open>The door is asked for twice a second, the yard ten times; frames come before every turn.\<close>

definition seen_at :: "string \<Rightarrow> int \<Rightarrow> unit frame_packet" where
  "seen_at i n = \<lparr>pk_source = i, pk_epoch = 1, pk_sequence = n, pk_captured = of_int n, pk_frame = ()\<rparr>"

definition asks :: "rat \<Rightarrow> vision_demand" where
  "asks r = \<lparr>vd_fps = r, vd_confidence = 1 / 2, vd_epoch = 1\<rparr>"

definition two_cameras :: "(unit, nat) vision_input list" where
  "two_cameras =
     [LoadsModel None, AddsDemand ''door'' ''rules'' (asks 2), AddsDemand ''yard'' ''rules'' (asks 10),
      Offers (seen_at ''door'' 1), Offers (seen_at ''yard'' 1)]"

definition first_turns :: "(unit, nat) vision_input list" where
  "first_turns =
     [TurnsWorker 1 1 0, EndsInference 0 (Found 7 (1 / 100)), Offers (seen_at ''door'' 2),
      TurnsWorker 2 2 0, EndsInference 0 (Found 8 (1 / 100))]"

abbreviation watcher :: "unit scheduler" where
  "watcher \<equiv> new_scheduler 10 (1 / 2) False"

lemma results_belong_to_their_frame_witness:
  "pk_source (seen_at ''door'' 1) = ''door'' \<and>
   Some (seen_at ''door'' 1) \<in> took_of ` set (fst (run do_vision watcher (two_cameras @ [TurnsWorker 1 1 0])))"
proof -
  have "Delivers ''door'' ''rules'' (seen_at ''door'' 1) (7 :: nat) \<in>
      set (fst (do_vision (snd (run do_vision watcher (two_cameras @ [TurnsWorker 1 1 0])))
        (EndsInference 0 (Found 7 (1 / 100)))))"
    by code_simp
  from results_belong_to_their_frame [OF this] show ?thesis by blast
qed

lemma inferences_keep_their_distance_witness:
  "take_times (\<lambda>p. True) watcher (two_cameras @ first_turns) = [1, 2] \<and>
   take_times (\<lambda>p. True) watcher (two_cameras @ first_turns) ! 0 + of_nat 1 / 10 \<le>
     take_times (\<lambda>p. True) watcher (two_cameras @ first_turns) ! (0 + 1)"
proof -
  have t: "take_times (\<lambda>p. True) watcher (two_cameras @ first_turns) = [1, 2]" by code_simp
  have "\<forall>x \<in> set (two_cameras @ first_turns). sensible x"
    by (simp add: two_cameras_def first_turns_def asks_def)
  from inferences_keep_their_distance [OF _ this, of 10 "1 / 2" False, THEN conjunct1, rule_format, of 0 1] t
  show ?thesis by simp
qed

lemma nobody_is_served_twice_before_witness:
  "takes (snd (run do_vision watcher two_cameras)) (take 3 first_turns) = [''door''] \<and>
   distinct (takes (snd (run do_vision watcher two_cameras)) (take 3 first_turns))"
proof -
  let ?s = "snd (run do_vision watcher two_cameras)"
  have t: "takes ?s (take 3 first_turns) = [''door'']" by code_simp
  have "\<forall>x \<in> set two_cameras. sensible x" by (simp add: two_cameras_def asks_def)
  moreover have "is_due (1 / 2) (source_at ?s ''yard'')" by code_simp
  moreover have "\<forall>x \<in> set (take 3 first_turns). sensible x \<and> clock_after (1 / 2) x"
    by (simp add: first_turns_def)
  moreover have "keeps_asking ''yard'' ?s (take 3 first_turns)" by code_simp
  ultimately show ?thesis
    using nobody_is_served_twice_before [of 10 two_cameras ?s "1 / 2" False "1 / 2" "''yard''" "take 3 first_turns"] t
    by simp
qed

subsection \<open>Boosts pass the limit of a source\<close>

text \<open>
  A source nobody boosts keeps a tenth of a second between its frames. Boosted again before every
  frame, with a budget of thirty, it is served every thirtieth of a second.
\<close>

lemma boosts_pass_the_limit:
  "take_times (\<lambda>p. True) (new_scheduler 30 (1 / 2) False)
     [LoadsModel None, AddsDemand ''door'' ''rules'' (asks 10), Offers (seen_at ''door'' 0),
      TurnsWorker 0 0 0, EndsInference 0 (Found (7 :: nat) 0), Boosts (1 / 30) (1 / 30) ''door'' 2 0,
      Offers (seen_at ''door'' 1), TurnsWorker (1 / 30) (1 / 30) 0] = [0, 1 / 30]"
  by code_simp

end
