(* ===== verification/Keyframes.thy ===== *)
theory Keyframes
  imports Link
begin

section \<open>Where a stream may begin\<close>

text \<open>
  \<open>keyframe_offset\<close> of \<open>src/sentry_mode/vision/network.py\<close> and the bytes \<open>_carry\<close> of
  \<open>src/sentry_mode/vision/media_gateway.py\<close> holds back until it says where: a decoder is given a
  stream from its first sequence parameter set on, however the bytes arrive.
\<close>

definition start_code :: "byte list" where "start_code = [0, 0, 1]"
definition most_waiting :: nat where "most_waiting = 4 * 1024 * 1024"

function keyframe_from :: "byte list \<Rightarrow> nat \<Rightarrow> nat option" where
  "keyframe_from d p =
     (case find_bytes start_code (drop p d) of
        None \<Rightarrow> None
      | Some k \<Rightarrow>
          (let found = p + k in
           if found + 3 \<ge> length d then None
           else if and (d ! (found + 3)) 31 = 7
           then Some (if found > 0 \<and> d ! (found - 1) = 0 then found - 1 else found)
           else keyframe_from d (found + 3)))"
  by pat_completeness auto
termination by (relation "measure (\<lambda>(d, p). length d - p)") auto

declare keyframe_from.simps [simp del]

definition keyframe_offset :: "byte list \<Rightarrow> nat option" where
  "keyframe_offset d = keyframe_from d 0"

text \<open>
  The screen in front of the sink: what is held back, if anything is, and what of the bytes goes
  on. \<open>Left\<close> in the answer says that the stream was given up.
\<close>

datatype screened = Goes "byte list" | Waits "byte list" | GivesUp

definition screen_bytes :: "byte list option \<Rightarrow> byte list \<Rightarrow> screened" where
  "screen_bytes held bs =
     (case held of
        None \<Rightarrow> Goes bs
      | Some w \<Rightarrow>
          (case keyframe_offset (w @ bs) of
             Some k \<Rightarrow> Goes (drop k (w @ bs))
           | None \<Rightarrow> if length (w @ bs) > most_waiting then GivesUp else Waits (w @ bs)))"

subsection \<open>What it finds\<close>

text \<open>
  The reference: a sequence parameter set is the start code and a byte of that type, with its
  four-byte start code when a zero stands before it; the offset is that of the first.
\<close>

definition sps_at :: "byte list \<Rightarrow> nat \<Rightarrow> bool" where
  "sps_at d i \<longleftrightarrow> i + 3 < length d \<and> take 3 (drop i d) = start_code \<and> and (d ! (i + 3)) 31 = 7"

definition counted_from :: "byte list \<Rightarrow> nat \<Rightarrow> nat" where
  "counted_from d i = (if 0 < i \<and> d ! (i - 1) = 0 then i - 1 else i)"

lemma find_bytes_first:
  assumes "m \<noteq> []"
  shows "find_bytes m d = Some k \<longleftrightarrow>
     take (length m) (drop k d) = m \<and> (\<forall>j < k. take (length m) (drop j d) \<noteq> m)"
proof (induction d arbitrary: k)
  case Nil
  then show ?case using assms by auto
next
  case (Cons b d)
  show ?case
  proof (cases k)
    case 0
    then show ?thesis by (auto split: option.split)
  next
    case (Suc i)
    have "(\<forall>j < Suc i. take (length m) (drop j (b # d)) \<noteq> m) \<longleftrightarrow>
        take (length m) (b # d) \<noteq> m \<and> (\<forall>j < i. take (length m) (drop j d) \<noteq> m)"
      by (simp only: less_Suc_eq_0_disj) auto
    then show ?thesis using Suc Cons.IH [of i] by auto
  qed
qed

lemma length_start_code [simp]: "length start_code = 3" "start_code \<noteq> []"
  by (simp_all add: start_code_def)

lemmas find_start = find_bytes_first [OF length_start_code(2), unfolded length_start_code(1)]

lemma find_start_none: "find_bytes start_code d = None \<longleftrightarrow> (\<forall>j. take 3 (drop j d) \<noteq> start_code)"
proof (cases "find_bytes start_code d")
  case None
  have "take 3 (drop j d) \<noteq> start_code" for j
    using None find_start [of d "LEAST i. take 3 (drop i d) = start_code"]
      LeastI [of "\<lambda>i. take 3 (drop i d) = start_code" j]
      not_less_Least [of _ "\<lambda>i. take 3 (drop i d) = start_code"] by auto
  with None show ?thesis by simp
next
  case (Some k)
  then show ?thesis using find_start [of d k] by auto
qed

text \<open>No start code begins inside of another, so the search may go on behind the one it found.\<close>

lemma start_apart:
  assumes "take 3 (drop i d) = start_code" "take 3 (drop j d) = start_code" "i < j"
  shows "i + 3 \<le> j"
proof -
  have len: "i + 3 \<le> length d" "j + 3 \<le> length d"
    using assms(1,2) by (auto simp: start_code_def dest!: arg_cong [where f = length])
  have "d ! (i + m) = start_code ! m" "d ! (j + m) = start_code ! m" if "m < 3" for m
    using arg_cong [OF assms(1), of "\<lambda>xs. xs ! m"] arg_cong [OF assms(2), of "\<lambda>xs. xs ! m"] that len by simp_all
  from this(1) [of 2] this(2) [of 0] this(2) [of 1]
  have "d ! (i + 2) = 1" "d ! j = 0" "d ! (j + 1) = 0" by (simp_all add: start_code_def)
  then have "j \<noteq> i + 2" "j + 1 \<noteq> i + 2" by (metis zero_neq_one)+
  with assms(3) show ?thesis by linarith
qed

lemma keyframe_from_finds:
  "keyframe_from d p = Some k \<longleftrightarrow>
     (\<exists>i \<ge> p. sps_at d i \<and> (\<forall>j. p \<le> j \<and> j < i \<longrightarrow> \<not> sps_at d j) \<and> k = counted_from d i)"
proof (induction d p arbitrary: k rule: keyframe_from.induct)
  case (1 d p)
  show ?case
  proof (cases "find_bytes start_code (drop p d)")
    case None
    then have "\<not> sps_at d i" if "p \<le> i" for i
      using that unfolding find_start_none sps_at_def by (metis drop_drop le_add_diff_inverse2)
    with None show ?thesis by (subst keyframe_from.simps) auto
  next
    case (Some m)
    then have m: "take 3 (drop (p + m) d) = start_code" "\<And>j. j < m \<Longrightarrow> take 3 (drop (p + j) d) \<noteq> start_code"
      unfolding find_start by (simp_all add: add.commute)
    have before: "\<not> sps_at d j" if "p \<le> j" "j < p + m" for j
      using m(2) [of "j - p"] that by (simp add: sps_at_def)
    show ?thesis
    proof (cases "sps_at d (p + m)")
      case True
      then have "keyframe_from d p = Some (counted_from d (p + m))"
        using Some by (subst keyframe_from.simps) (simp add: sps_at_def counted_from_def Let_def)
      moreover have "i = p + m" if "p \<le> i" "sps_at d i" "\<forall>j. p \<le> j \<and> j < i \<longrightarrow> \<not> sps_at d j" for i
        using that before [of i] True by (meson le_add1 linorder_neqE_nat)
      ultimately show ?thesis using True before by (metis le_add1 option.inject)
    next
      case False
      show ?thesis
      proof (cases "p + m + 3 \<ge> length d")
        case True
        then have "keyframe_from d p = None"
          using Some by (subst keyframe_from.simps) simp
        moreover have "\<not> sps_at d i" if "p \<le> i" for i
          using before [OF that] that True by (cases "i < p + m") (auto simp: sps_at_def)
        ultimately show ?thesis by auto
      next
        case short: False
        then have "keyframe_from d p = keyframe_from d (p + m + 3)"
          using Some False m(1) by (subst keyframe_from.simps) (simp add: sps_at_def)
        moreover have "\<not> sps_at d j" if "p \<le> j" "j < p + m + 3" for j
          using that before [of j] False start_apart [OF m(1), of j]
          by (cases "j < p + m"; cases "j = p + m") (auto simp: sps_at_def)
        moreover have "keyframe_from d (p + m + 3) = Some k \<longleftrightarrow>
            (\<exists>i \<ge> p + m + 3. sps_at d i \<and> (\<forall>j. p + m + 3 \<le> j \<and> j < i \<longrightarrow> \<not> sps_at d j) \<and> k = counted_from d i)" for k
          using 1 [OF Some refl] short False m(1) by (simp add: sps_at_def)
        ultimately show ?thesis
          by (metis (no_types, lifting) add_leD1 linorder_not_less)
      qed
    qed
  qed
qed

lemma keyframe_offset_some:
  "keyframe_offset d = Some k \<longleftrightarrow> (\<exists>i. sps_at d i \<and> (\<forall>j < i. \<not> sps_at d j) \<and> k = counted_from d i)"
  unfolding keyframe_offset_def keyframe_from_finds by simp

lemma keyframe_offset_none: "keyframe_offset d = None \<longleftrightarrow> (\<forall>i. \<not> sps_at d i)"
proof
  assume none: "keyframe_offset d = None"
  show "\<forall>i. \<not> sps_at d i"
  proof (intro allI notI)
    fix i
    assume "sps_at d i"
    then have "sps_at d (LEAST j. sps_at d j)" "\<forall>j < (LEAST j. sps_at d j). \<not> sps_at d j"
      by (auto intro: LeastI dest: not_less_Least)
    then show False using none keyframe_offset_some by (metis option.distinct(1))
  qed
qed (metis keyframe_offset_some not_None_eq)

text \<open>What was found stays found when more arrives, so the place does not depend on the cuts.\<close>

lemma sps_at_append: "sps_at d i \<Longrightarrow> sps_at (d @ e) i"
  by (auto simp: sps_at_def nth_append)

lemma sps_at_prefix: "sps_at (d @ e) i \<Longrightarrow> i + 3 < length d \<Longrightarrow> sps_at d i"
  by (auto simp: sps_at_def nth_append)

lemma keyframe_stays:
  assumes "keyframe_offset d = Some k"
  shows "keyframe_offset (d @ e) = Some k"
proof -
  from assms obtain i where i: "sps_at d i" "\<forall>j < i. \<not> sps_at d j" "k = counted_from d i"
    unfolding keyframe_offset_some by blast
  then have len: "i + 3 < length d" by (simp add: sps_at_def)
  then have "counted_from (d @ e) i = counted_from d i" by (auto simp: counted_from_def nth_append)
  moreover have "\<not> sps_at (d @ e) j" if "j < i" for j
    using i(2) that sps_at_prefix [of d e j] len by auto
  ultimately show ?thesis unfolding keyframe_offset_some using i sps_at_append by metis
qed

lemma keyframe_inside: "keyframe_offset d = Some k \<Longrightarrow> k < length d"
  unfolding keyframe_offset_some by (auto simp: sps_at_def counted_from_def)

definition from_keyframe :: "byte list \<Rightarrow> byte list" where
  "from_keyframe d = (case keyframe_offset d of None \<Rightarrow> [] | Some k \<Rightarrow> drop k d)"

lemma from_keyframe_append:
  "keyframe_offset d \<noteq> None \<Longrightarrow> from_keyframe (d @ e) = from_keyframe d @ e"
  using keyframe_stays [of d _ e] keyframe_inside [of d] by (auto simp: from_keyframe_def less_imp_le)

end
