(* ===== verification/Gateway.thy ===== *)
theory Gateway
  imports Keyframes Settings Nodes Documents
begin

section \<open>The door for video and sound\<close>

text \<open>
  \<open>src/sentry_mode/vision/media_gateway.py\<close>: the hub opens a stream with a ticket, and a node that
  connects with its certificate and the ticket delivers it. A stream is an object that the
  threads of its connection still hold when it has left the table, so the state keeps the
  objects apart from the table of names. Every critical section is a step; what TLS, the
  socket, the sink and \<open>secrets\<close> do are inputs. \<open>json.loads\<close> and SHA-256 are parameters. Log lines
  and the status page are left out.
\<close>

definition most_header :: nat where "most_header = 1024"
definition media_kinds :: "string list" where "media_kinds = [''video'', ''audio'']"

record gateway_world =
  gw_json :: "byte list \<Rightarrow> document option"
  gw_sha :: "string \<Rightarrow> string"

text \<open>Why a stream or a connection ended; \<open>Because\<close> is the word of whoever closed it.\<close>

datatype end_reason =
  NodeClosed
| SilentFor string
| NeverKeyframe
| ConnectionFailed string
| SinkRefused string
| Because string

definition reason_or :: "end_reason option \<Rightarrow> end_reason \<Rightarrow> end_reason" where
  "reason_or a b = (case a of None \<Rightarrow> b | Some r \<Rightarrow> if r = Because '''' then b else r)"

datatype gateway_error = NoSuchKind string | PortNotOpen | TooManyStreams nat

record ticket =
  tk_stream :: string
  tk_token :: string
  tk_port :: int
  tk_expires :: seconds

record gate_stream =
  gs_name :: string
  gs_node :: string
  gs_source :: string
  gs_digest :: string
  gs_expires :: seconds
  gs_kind :: string
  gs_tells :: bool
  gs_connection :: "nat option"
  gs_connections :: nat
  gs_bytes :: nat
  gs_last :: "seconds option"
  gs_ended :: "end_reason option"

text \<open>Where the thread of a connection stands; \<open>Carrying\<close> says whether it waits for bytes.\<close>

datatype phase =
  Greeting
| Recognised string "(string, document) dict"
| Let_in nat
| Carrying nat "byte list option" bool

record gateway =
  gw_media :: media_settings
  gw_listener :: bool
  gw_stopping :: bool
  gw_port :: int
  gw_objects :: "gate_stream list"
  gw_table :: "(string, nat) dict"
  gw_ending :: "(nat \<times> end_reason) list"
  gw_refused :: "(string, nat) dict"
  gw_phases :: "(nat, phase) dict"
  gw_accepted :: nat
  gw_nodes :: node_registry

definition new_gateway :: "media_settings \<Rightarrow> node_registry \<Rightarrow> gateway" where
  "new_gateway m r =
     \<lparr>gw_media = m, gw_listener = False, gw_stopping = False, gw_port = 0, gw_objects = [], gw_table = [],
      gw_ending = [], gw_refused = [], gw_phases = [], gw_accepted = 0, gw_nodes = r\<rparr>"

datatype gateway_out =
  Opened ticket
| NotOpened gateway_error
| Renewed bool
| ClosedStreams nat
| Trusts nat string
| Answers nat "string option"
| Takes nat nat
| Feeds nat nat "byte list"
| ClosesSink nat
| TellsEnd nat end_reason bool
| ShutsDown nat
| RaisesOs

abbreviation object_of :: "gateway \<Rightarrow> nat \<Rightarrow> gate_stream" where
  "object_of s n \<equiv> gw_objects s ! n"

definition put_object :: "nat \<Rightarrow> gate_stream \<Rightarrow> gateway \<Rightarrow> gateway" where
  "put_object n g s = s\<lparr>gw_objects := (gw_objects s)[n := g]\<rparr>"

definition set_phase :: "nat \<Rightarrow> phase \<Rightarrow> gateway \<Rightarrow> gateway" where
  "set_phase c p s = s\<lparr>gw_phases := dict_set c p (gw_phases s)\<rparr>"

definition hangs :: "nat \<Rightarrow> gateway \<Rightarrow> gateway" where
  "hangs c s = s\<lparr>gw_phases := dict_pop c (gw_phases s)\<rparr>"

definition refuse_media :: "string \<Rightarrow> gateway \<Rightarrow> gateway" where
  "refuse_media why s =
     s\<lparr>gw_refused := dict_set why (Suc (case dict_get (gw_refused s) why of None \<Rightarrow> 0 | Some n \<Rightarrow> n)) (gw_refused s)\<rparr>"

subsection \<open>What the hub asks\<close>

definition start_gateway :: "int option \<Rightarrow> gateway \<Rightarrow> gateway_out list \<times> gateway" where
  "start_gateway bound s =
     (case bound of
        None \<Rightarrow> ([RaisesOs], s)
      | Some p \<Rightarrow> ([], s\<lparr>gw_listener := True, gw_port := p, gw_stopping := False\<rparr>))"

definition lasts_for :: "seconds option \<Rightarrow> gateway \<Rightarrow> seconds" where
  "lasts_for secs s =
     (case secs of
        None \<Rightarrow> of_int (stream_seconds (gw_media s))
      | Some x \<Rightarrow> if x = 0 then of_int (stream_seconds (gw_media s)) else x)"

definition live_streams :: "gateway \<Rightarrow> nat list" where
  "live_streams s = filter (\<lambda>n. gs_ended (object_of s n) = None) (dict_values (gw_table s))"

text \<open>\<open>open\<close>: the name and the token come from \<open>secrets\<close>.\<close>

definition open_stream ::
  "gateway_world \<Rightarrow> string \<Rightarrow> string \<Rightarrow> bool \<Rightarrow> seconds option \<Rightarrow> string \<Rightarrow> string \<Rightarrow> string \<Rightarrow> seconds \<Rightarrow>
     gateway \<Rightarrow> (gateway_error + ticket) \<times> gateway" where
  "open_stream w node src tells secs kind name token now s =
     (if kind \<notin> set media_kinds then (Inl (NoSuchKind kind), s)
      else if \<not> gw_listener s \<or> gw_stopping s then (Inl PortNotOpen, s)
      else if int (length (live_streams s)) \<ge> max_streams (gw_media s)
      then (Inl (TooManyStreams (length (live_streams s))), s)
      else
        (let g = \<lparr>gs_name = name, gs_node = node, gs_source = src, gs_digest = gw_sha w token,
                  gs_expires = now + lasts_for secs s, gs_kind = kind, gs_tells = tells,
                  gs_connection = None, gs_connections = 0, gs_bytes = 0, gs_last = None, gs_ended = None\<rparr>
         in (Inr \<lparr>tk_stream = name, tk_token = token, tk_port = gw_port s, tk_expires = gs_expires g\<rparr>,
             s\<lparr>gw_objects := gw_objects s @ [g],
               gw_table := dict_set name (length (gw_objects s)) (gw_table s)\<rparr>)))"

definition renew_ticket :: "string \<Rightarrow> seconds option \<Rightarrow> seconds \<Rightarrow> gateway \<Rightarrow> bool \<times> gateway" where
  "renew_ticket name secs now s =
     (case dict_get (gw_table s) name of
        None \<Rightarrow> (False, s)
      | Some n \<Rightarrow>
          if gs_ended (object_of s n) \<noteq> None then (False, s)
          else (True, put_object n ((object_of s n)\<lparr>gs_expires := now + lasts_for secs s\<rparr>) s))"

text \<open>Streams leave the table first; whoever took them out hangs up on them after that.\<close>

definition take_out :: "nat list \<Rightarrow> end_reason \<Rightarrow> gateway \<Rightarrow> gateway" where
  "take_out ns why s =
     s\<lparr>gw_table := fold (\<lambda>n. dict_pop (gs_name (object_of s n))) ns (gw_table s),
       gw_ending := gw_ending s @ map (\<lambda>n. (n, why)) ns\<rparr>"

definition close_ticket :: "string \<Rightarrow> end_reason \<Rightarrow> gateway \<Rightarrow> gateway" where
  "close_ticket name why s =
     (case dict_get (gw_table s) name of
        None \<Rightarrow> s
      | Some n \<Rightarrow> s\<lparr>gw_table := dict_pop name (gw_table s), gw_ending := gw_ending s @ [(n, why)]\<rparr>)"

definition close_node :: "string \<Rightarrow> end_reason \<Rightarrow> gateway \<Rightarrow> nat \<times> gateway" where
  "close_node node why s =
     (let ns = filter (\<lambda>n. gs_node (object_of s n) = node) (dict_values (gw_table s))
      in (length ns, take_out ns why s))"

definition expire_streams :: "seconds \<Rightarrow> gateway \<Rightarrow> gateway" where
  "expire_streams now s =
     (if gw_stopping s \<or> \<not> gw_listener s then s
      else take_out (filter (\<lambda>n. gs_expires (object_of s n) \<le> now) (dict_values (gw_table s)))
             (Because ''the stream was not renewed'') s)"

definition stop_gateway :: "gateway \<Rightarrow> gateway" where
  "stop_gateway s =
     s\<lparr>gw_stopping := True, gw_table := [],
       gw_ending := gw_ending s @ map (\<lambda>n. (n, Because ''the hub is stopping'')) (dict_values (gw_table s))\<rparr>"

definition hang_up :: "nat \<Rightarrow> end_reason \<Rightarrow> gateway \<Rightarrow> gateway_out list \<times> gateway" where
  "hang_up n why s =
     (let g = object_of s n in
      ((case gs_connection g of
          Some c \<Rightarrow> [ShutsDown c]
        | None \<Rightarrow> if gs_tells g then [TellsEnd n why True] else []),
       put_object n (g\<lparr>gs_ended := Some (reason_or (gs_ended g) why)\<rparr>) s))"

text \<open>One of those who took a stream out goes on.\<close>

definition hang_up_next :: "nat \<Rightarrow> gateway \<Rightarrow> gateway_out list \<times> gateway" where
  "hang_up_next k s =
     (if \<not> k < length (gw_ending s) then ([], s)
      else
        (let (n, why) = gw_ending s ! k
         in hang_up n why (s\<lparr>gw_ending := take k (gw_ending s) @ drop (Suc k) (gw_ending s)\<rparr>)))"

subsection \<open>The port\<close>

text \<open>\<open>_line\<close>, with the bytes the node sends until it closes: no line is an error.\<close>

fun header_line :: "byte list \<Rightarrow> byte list \<Rightarrow> byte list option" where
  "header_line got [] = (if got \<noteq> [] \<and> last got = 10 then Some got else None)"
| "header_line got (b # bs) =
     (if got \<noteq> [] \<and> last got = 10 then Some got
      else if length (got @ [b]) > most_header then None
      else header_line (got @ [b]) bs)"

text \<open>A new connection is served unless twice as many as streams are being served.\<close>

definition accept_media :: "gateway \<Rightarrow> gateway_out list \<times> gateway" where
  "accept_media s =
     (if gw_stopping s \<or> \<not> gw_listener s then ([], s)
      else if int (length (gw_phases s)) \<ge> max_streams (gw_media s) * 2
      then ([], refuse_media ''too_many_connections'' s)
      else ([], set_phase (gw_accepted s) Greeting (s\<lparr>gw_accepted := Suc (gw_accepted s)\<rparr>)))"

text \<open>\<open>_answer\<close>; the thread of a refused connection ends.\<close>

definition turn_down :: "nat \<Rightarrow> string \<Rightarrow> gateway \<Rightarrow> gateway_out list \<times> gateway" where
  "turn_down c why s = ([Answers c (Some why)], refuse_media why (hangs c s))"

definition fail_tls :: "nat \<Rightarrow> gateway \<Rightarrow> gateway" where
  "fail_tls c s = (if dict_get (gw_phases s) c = Some Greeting then refuse_media ''tls'' (hangs c s) else s)"

text \<open>\<open>_admit\<close> up to the registry: the header, the certificate, and whether the node may.\<close>

definition recognise ::
  "gateway_world \<Rightarrow> nat \<Rightarrow> byte list \<Rightarrow> string option \<Rightarrow> string option \<Rightarrow> gateway \<Rightarrow> gateway_out list \<times> gateway" where
  "recognise w c incoming name certificate s =
     (if dict_get (gw_phases s) c \<noteq> Some Greeting then ([], s)
      else case header_line [] incoming of
        None \<Rightarrow> ([], refuse_media ''header'' (hangs c s))
      | Some line \<Rightarrow>
          (case gw_json w line of
             None \<Rightarrow> ([], refuse_media ''header'' (hangs c s))
           | Some (Table t) \<Rightarrow>
               if \<not> same_document (get_or Nothing t ''schema_version'') (Whole 1) then turn_down c ''bad_header'' s
               else case (certificate, name) of
                 (Some f, Some node) \<Rightarrow>
                   (case authenticate node \<lparr>cr_username = None, cr_client = None, cr_fingerprint = Some f\<rparr> (gw_nodes s) of
                      (Inl _, r) \<Rightarrow> turn_down c ''not_trusted'' (s\<lparr>gw_nodes := r\<rparr>)
                    | (Inr _, r) \<Rightarrow> ([Trusts c node], set_phase c (Recognised node t) (s\<lparr>gw_nodes := r\<rparr>)))
               | _ \<Rightarrow> turn_down c ''no_certificate'' s
           | Some _ \<Rightarrow> turn_down c ''bad_header'' s))"

text \<open>The ticket: which stream it is, or what is wrong with it.\<close>

definition stream_named :: "(string, document) dict \<Rightarrow> gateway \<Rightarrow> nat option" where
  "stream_named t s =
     (case dict_get t ''stream_id'' of Some (Plain (JStr i)) \<Rightarrow> dict_get (gw_table s) i | _ \<Rightarrow> None)"

definition token_fits :: "gateway_world \<Rightarrow> (string, document) dict \<Rightarrow> string \<Rightarrow> bool" where
  "token_fits w t digest =
     (case dict_get t ''token'' of Some (Plain (JStr x)) \<Rightarrow> gw_sha w x = digest | _ \<Rightarrow> False)"

definition objection ::
  "gateway_world \<Rightarrow> string \<Rightarrow> (string, document) dict \<Rightarrow> seconds \<Rightarrow> gateway \<Rightarrow> string option" where
  "objection w node t now s =
     (case stream_named t s of
        None \<Rightarrow> Some ''unknown_stream''
      | Some n \<Rightarrow>
          (let g = object_of s n in
           if gs_node g \<noteq> node then Some ''unknown_stream''
           else if dict_get t ''source_id'' \<noteq> Some (Text (gs_source g)) then Some ''wrong_source''
           else if get_or (Text ''video'') t ''kind'' \<noteq> Text (gs_kind g) then Some ''wrong_kind''
           else if \<not> token_fits w t (gs_digest g) then Some ''wrong_token''
           else if gs_ended g \<noteq> None \<or> gs_expires g \<le> now then Some ''expired''
           else if gs_connection g \<noteq> None then Some ''already_connected''
           else None))"

definition let_in :: "gateway_world \<Rightarrow> nat \<Rightarrow> seconds \<Rightarrow> seconds \<Rightarrow> gateway \<Rightarrow> gateway_out list \<times> gateway" where
  "let_in w c now later s =
     (case dict_get (gw_phases s) c of
        Some (Recognised node t) \<Rightarrow>
          (case objection w node t now s of
             Some why \<Rightarrow> turn_down c why s
           | None \<Rightarrow>
               (case stream_named t s of
                  None \<Rightarrow> ([], s)
                | Some n \<Rightarrow>
                    (let g = object_of s n in
                     ([Takes c n, Answers c None],
                      set_phase c (Let_in n)
                        (put_object n (g\<lparr>gs_connection := Some c, gs_connections := Suc (gs_connections g),
                           gs_last := Some later\<rparr>) s)))))
      | _ \<Rightarrow> ([], s))"

subsection \<open>Carrying a stream\<close>

datatype raised_by = OsRaised string | SinkRaised string
datatype received = Bytes "byte list" | TimedOut | Broken string

fun reason_of :: "raised_by \<Rightarrow> end_reason" where
  "reason_of (OsRaised e) = ConnectionFailed e"
| "reason_of (SinkRaised e) = SinkRefused e"

text \<open>The end of \<open>_carry\<close>: the stream is free again, the sink is closed, whoever asked is told.\<close>

definition end_carry :: "nat \<Rightarrow> nat \<Rightarrow> bool \<Rightarrow> end_reason \<Rightarrow> gateway \<Rightarrow> gateway_out list \<times> gateway" where
  "end_carry c n sink why s =
     (let g = object_of s n in
      ((if sink then [ClosesSink c] else []) @
       (if gs_tells g then [TellsEnd n (reason_or (gs_ended g) why) (gs_ended g \<noteq> None)] else []),
       hangs c (put_object n (g\<lparr>gs_connection := None\<rparr>) s)))"

definition connect_sink :: "nat \<Rightarrow> raised_by option \<Rightarrow> gateway \<Rightarrow> gateway_out list \<times> gateway" where
  "connect_sink c raises s =
     (case dict_get (gw_phases s) c of
        Some (Let_in n) \<Rightarrow>
          (case raises of
             Some e \<Rightarrow> end_carry c n False (reason_of e) s
           | None \<Rightarrow> ([], set_phase c (Carrying n (if gs_kind (object_of s n) = ''video'' then Some [] else None) False) s))
      | _ \<Rightarrow> ([], s))"

text \<open>The test of the loop.\<close>

definition goes_on :: "nat \<Rightarrow> gateway \<Rightarrow> gateway_out list \<times> gateway" where
  "goes_on c s =
     (case dict_get (gw_phases s) c of
        Some (Carrying n held False) \<Rightarrow>
          if gw_stopping s then end_carry c n True NodeClosed s else ([], set_phase c (Carrying n held True) s)
      | _ \<Rightarrow> ([], s))"

definition count_bytes :: "nat \<Rightarrow> nat \<Rightarrow> seconds \<Rightarrow> gateway \<Rightarrow> gateway" where
  "count_bytes n k now s =
     put_object n ((object_of s n)\<lparr>gs_bytes := gs_bytes (object_of s n) + k, gs_last := Some now\<rparr>) s"

definition take_bytes ::
  "nat \<Rightarrow> nat \<Rightarrow> byte list option \<Rightarrow> byte list \<Rightarrow> seconds \<Rightarrow> raised_by option \<Rightarrow> gateway \<Rightarrow> gateway_out list \<times> gateway" where
  "take_bytes c n held bs now raises s =
     (let s1 = count_bytes n (length bs) now s in
      case screen_bytes held bs of
        GivesUp \<Rightarrow> end_carry c n True NeverKeyframe s1
      | Waits w \<Rightarrow> ([], set_phase c (Carrying n (Some w) False) s1)
      | Goes out \<Rightarrow>
          (case raises of
             None \<Rightarrow> ([Feeds c n out], set_phase c (Carrying n None False) s1)
           | Some e \<Rightarrow> (Feeds c n out # fst (end_carry c n True (reason_of e) s1), snd (end_carry c n True (reason_of e) s1))))"

definition receive_media ::
  "nat \<Rightarrow> received \<Rightarrow> seconds \<Rightarrow> raised_by option \<Rightarrow> gateway \<Rightarrow> gateway_out list \<times> gateway" where
  "receive_media c r now raises s =
     (case dict_get (gw_phases s) c of
        Some (Carrying n held True) \<Rightarrow>
          (case r of
             TimedOut \<Rightarrow> end_carry c n True (SilentFor (gs_kind (object_of s n))) s
           | Broken e \<Rightarrow> end_carry c n True (ConnectionFailed e) s
           | Bytes bs \<Rightarrow>
               if bs = [] then end_carry c n True NodeClosed s else take_bytes c n held bs now raises s)
      | _ \<Rightarrow> ([], s))"

subsection \<open>Everything that can happen\<close>

datatype gateway_input =
  StartsGateway "int option"
| StopsGateway
| Opens string string bool "seconds option" string string string seconds
| Renews string "seconds option" seconds
| Closes string end_reason
| ClosesNode string end_reason
| Expires seconds
| HangsUp nat
| Accepts
| FailsTls nat
| Greets nat "byte list" "string option" "string option"
| Enters nat seconds seconds
| ConnectsSink nat "raised_by option"
| GoesOn nat
| Receives nat received seconds "raised_by option"
| NodesStep "string \<Rightarrow> string option" node_step

fun do_gateway :: "gateway_world \<Rightarrow> gateway \<Rightarrow> gateway_input \<Rightarrow> gateway_out list \<times> gateway" where
  "do_gateway w s (StartsGateway p) = start_gateway p s"
| "do_gateway w s StopsGateway = ([], stop_gateway s)"
| "do_gateway w s (Opens node src tells secs kind name token now) =
     (case open_stream w node src tells secs kind name token now s of
        (Inl e, t) \<Rightarrow> ([NotOpened e], t) | (Inr k, t) \<Rightarrow> ([Opened k], t))"
| "do_gateway w s (Renews name secs now) = (case renew_ticket name secs now s of (b, t) \<Rightarrow> ([Renewed b], t))"
| "do_gateway w s (Closes name why) = ([], close_ticket name why s)"
| "do_gateway w s (ClosesNode node why) = (case close_node node why s of (k, t) \<Rightarrow> ([ClosedStreams k], t))"
| "do_gateway w s (Expires now) = ([], expire_streams now s)"
| "do_gateway w s (HangsUp k) = hang_up_next k s"
| "do_gateway w s Accepts = accept_media s"
| "do_gateway w s (FailsTls c) = ([], fail_tls c s)"
| "do_gateway w s (Greets c incoming name certificate) = recognise w c incoming name certificate s"
| "do_gateway w s (Enters c now later) = let_in w c now later s"
| "do_gateway w s (ConnectsSink c raises) = connect_sink c raises s"
| "do_gateway w s (GoesOn c) = goes_on c s"
| "do_gateway w s (Receives c r now raises) = receive_media c r now raises s"
| "do_gateway w s (NodesStep fp x) = ([], s\<lparr>gw_nodes := snd (do_node fp (gw_nodes s) x)\<rparr>)"

end
