(* ===== verification/Refining.thy ===== *)
theory Refining
  imports Prelude
begin

section \<open>One machine does what another promises\<close>

text \<open>
  A component and its specification are both machines. An abstraction reads the state of the
  specification off the component's, and a mediator says which events of the specification an
  input of the component stands for: none, one or several. If every step agrees with what its
  events do, every run does, in its answers and in its state.
\<close>

locale simulation = machine step inv
  for step :: "'s \<Rightarrow> 'e \<Rightarrow> 'o list \<times> 's" and inv :: "'s \<Rightarrow> bool" +
  fixes spec :: "'a \<Rightarrow> 'f \<Rightarrow> 'p list \<times> 'a"
    and abs :: "'s \<Rightarrow> 'a"
    and mediates :: "'s \<Rightarrow> 'e \<Rightarrow> 'f list"
    and shows_as :: "'o \<Rightarrow> 'p option"
  assumes step_agrees: "inv s \<Longrightarrow> run spec (abs s) (mediates s e) = (qs, a) \<Longrightarrow>
      concat qs = List.map_filter shows_as (fst (step s e)) \<and> a = abs (snd (step s e))"
begin

fun story :: "'s \<Rightarrow> 'e list \<Rightarrow> 'f list" where
  "story s [] = []"
| "story s (e # es) = mediates s e @ story (snd (step s e)) es"

lemma run_agrees:
  "inv s \<Longrightarrow>
     concat (fst (run spec (abs s) (story s es))) =
       List.map_filter shows_as (concat (fst (run step s es))) \<and>
     snd (run spec (abs s) (story s es)) = abs (snd (run step s es))"
proof (induction es arbitrary: s)
  case Nil
  then show ?case by (simp add: List.map_filter_simps)
next
  case (Cons e es)
  then have rest: "inv (snd (step s e))" by (rule_tac step_inv)
  obtain qs a where q: "run spec (abs s) (mediates s e) = (qs, a)" by fastforce
  with step_agrees [OF Cons.prems this] Cons.IH [OF rest] show ?case
    by (simp add: run_append map_filter_def)
qed

end

end
