(* ===== verification/Tickets.thy ===== *)
theory Tickets
  imports Gateway Refining
begin

section \<open>A stream belongs to its ticket\<close>

text \<open>
  The gateway is a ticket office: it issues passes, extends and withdraws them, and lets one
  holder at a time in. What a connection delivers is traced back to the ticket, the header and
  the word of the registry.
\<close>

declare map_of_eq_Some_iff [simp del] Some_eq_map_of_iff [simp del]

subsection \<open>The invariant\<close>

fun carried_by :: "phase \<Rightarrow> nat option" where
  "carried_by (Let_in n) = Some n"
| "carried_by (Carrying n held waits) = Some n"
| "carried_by _ = None"

definition busy_with :: "gateway \<Rightarrow> nat \<Rightarrow> nat option" where
  "busy_with s c = (case dict_get (gw_phases s) c of None \<Rightarrow> None | Some p \<Rightarrow> carried_by p)"

text \<open>
  Streams in the table are whole and nobody hangs up on them; a stream has a connection exactly
  when the thread of that connection has the stream.
\<close>

definition table_inv :: "gateway \<Rightarrow> bool" where
  "table_inv s \<longleftrightarrow>
     wf_dict (gw_table s) \<and>
     (\<forall>i n. dict_get (gw_table s) i = Some n \<longrightarrow>
        n < length (gw_objects s) \<and> gs_name (object_of s n) = i \<and> gs_ended (object_of s n) = None \<and>
        n \<notin> fst ` set (gw_ending s)) \<and>
     (\<forall>n \<in> fst ` set (gw_ending s). n < length (gw_objects s))"

definition lines_inv :: "gateway \<Rightarrow> bool" where
  "lines_inv s \<longleftrightarrow>
     (\<forall>c n. busy_with s c = Some n \<longrightarrow> n < length (gw_objects s)) \<and>
     (\<forall>c n. n < length (gw_objects s) \<longrightarrow> busy_with s c = Some n \<longleftrightarrow> gs_connection (object_of s n) = Some c) \<and>
     (\<forall>c. dict_get (gw_phases s) c \<noteq> None \<longrightarrow> c < gw_accepted s)"

definition gate_inv :: "gateway \<Rightarrow> bool" where
  "gate_inv s \<longleftrightarrow> table_inv s \<and> lines_inv s"

text \<open>What does not touch the objects' names, the table and who is busy keeps it.\<close>

lemma gate_inv_same:
  assumes "gate_inv s" "gw_table t = gw_table s" "gw_ending t = gw_ending s"
    "length (gw_objects t) = length (gw_objects s)"
    "\<And>n. n < length (gw_objects s) \<Longrightarrow> gs_name (object_of t n) = gs_name (object_of s n) \<and>
       gs_ended (object_of t n) = gs_ended (object_of s n)"
    "lines_inv t"
  shows "gate_inv t"
  using assms unfolding gate_inv_def table_inv_def by auto

lemma lines_inv_same:
  assumes "lines_inv s" "length (gw_objects t) = length (gw_objects s)"
    "\<And>n. n < length (gw_objects s) \<Longrightarrow> gs_connection (object_of t n) = gs_connection (object_of s n)"
    "\<And>c. busy_with t c = busy_with s c"
    "\<And>c. dict_get (gw_phases t) c \<noteq> None \<Longrightarrow> c < gw_accepted t"
  shows "lines_inv t"
  using assms unfolding lines_inv_def by auto

lemma lines_known: "lines_inv s \<Longrightarrow> dict_get (gw_phases s) c = Some p \<Longrightarrow> c < gw_accepted s"
  by (auto simp: lines_inv_def)

lemma object_put [simp]:
  "length (gw_objects (put_object n g s)) = length (gw_objects s)"
  "n < length (gw_objects s) \<Longrightarrow> object_of (put_object n g s) k = (if k = n then g else object_of s k)"
  by (simp_all add: put_object_def nth_list_update)

lemma put_object_rest [simp]:
  "gw_table (put_object n g s) = gw_table s" "gw_ending (put_object n g s) = gw_ending s"
  "gw_phases (put_object n g s) = gw_phases s" "gw_accepted (put_object n g s) = gw_accepted s"
  "gw_media (put_object n g s) = gw_media s" "gw_listener (put_object n g s) = gw_listener s"
  "gw_stopping (put_object n g s) = gw_stopping s"
  by (simp_all add: put_object_def)

lemma phase_simps [simp]:
  "gw_table (set_phase c p s) = gw_table s" "gw_ending (set_phase c p s) = gw_ending s"
  "gw_objects (set_phase c p s) = gw_objects s" "gw_accepted (set_phase c p s) = gw_accepted s"
  "dict_get (gw_phases (set_phase c p s)) d = (if d = c then Some p else dict_get (gw_phases s) d)"
  "gw_table (hangs c s) = gw_table s" "gw_ending (hangs c s) = gw_ending s"
  "gw_objects (hangs c s) = gw_objects s" "gw_accepted (hangs c s) = gw_accepted s"
  "dict_get (gw_phases (hangs c s)) d = (if d = c then None else dict_get (gw_phases s) d)"
  "gw_media (set_phase c p s) = gw_media s" "gw_listener (set_phase c p s) = gw_listener s"
  "gw_stopping (set_phase c p s) = gw_stopping s"
  "gw_media (hangs c s) = gw_media s" "gw_listener (hangs c s) = gw_listener s"
  "gw_stopping (hangs c s) = gw_stopping s"
  by (simp_all add: set_phase_def hangs_def)

lemma refuse_simps [simp]:
  "gw_table (refuse_media y s) = gw_table s" "gw_ending (refuse_media y s) = gw_ending s"
  "gw_objects (refuse_media y s) = gw_objects s" "gw_accepted (refuse_media y s) = gw_accepted s"
  "gw_phases (refuse_media y s) = gw_phases s" "gw_media (refuse_media y s) = gw_media s"
  "gw_listener (refuse_media y s) = gw_listener s" "gw_stopping (refuse_media y s) = gw_stopping s"
  by (simp_all add: refuse_media_def)

lemma busy_simps [simp]:
  "busy_with (set_phase c p s) d = (if d = c then carried_by p else busy_with s d)"
  "busy_with (hangs c s) d = (if d = c then None else busy_with s d)"
  "busy_with (put_object n g s) d = busy_with s d"
  "busy_with (refuse_media y s) d = busy_with s d"
  by (simp_all add: busy_with_def)

lemma pop_names: "dict_get (fold (\<lambda>n. dict_pop (f n)) ns d) i = (if i \<in> f ` set ns then None else dict_get d i)"
  by (induction ns arbitrary: d) auto

lemma wf_pop_names: "wf_dict d \<Longrightarrow> wf_dict (fold (\<lambda>n. dict_pop (f n)) ns d)"
  by (induction ns arbitrary: d) auto

lemma tabled:
  assumes "table_inv s" "dict_get (gw_table s) i = Some n"
  shows "n < length (gw_objects s)" "gs_name (object_of s n) = i" "gs_ended (object_of s n) = None"
    "n \<notin> fst ` set (gw_ending s)"
  using assms unfolding table_inv_def by blast+

lemma in_table:
  assumes "table_inv s"
  shows "n \<in> set (dict_values (gw_table s)) \<longleftrightarrow> dict_get (gw_table s) (gs_name (object_of s n)) = Some n"
proof
  assume "n \<in> set (dict_values (gw_table s))"
  then obtain i where "(i, n) \<in> set (gw_table s)" by auto
  moreover have "wf_dict (gw_table s)" using assms by (simp add: table_inv_def)
  ultimately have i: "dict_get (gw_table s) i = Some n" by (rule dict_in_get [rotated])
  then show "dict_get (gw_table s) (gs_name (object_of s n)) = Some n" using tabled(2) [OF assms i] by simp
next
  assume "dict_get (gw_table s) (gs_name (object_of s n)) = Some n"
  from dict_get_in [OF this] show "n \<in> set (dict_values (gw_table s))" by force
qed

subsection \<open>Every step keeps it\<close>

lemma gate_inv_taken:
  assumes "gate_inv s" "wf_dict T"
    "\<And>i n. dict_get T i = Some n \<Longrightarrow> dict_get (gw_table s) i = Some n \<and> n \<notin> fst ` set E"
    "\<And>n. n \<in> fst ` set E \<Longrightarrow> n < length (gw_objects s)"
    "gw_objects t = gw_objects s" "gw_phases t = gw_phases s" "gw_accepted t = gw_accepted s"
    "gw_table t = T" "gw_ending t = E"
  shows "gate_inv t"
proof -
  have inv: "table_inv s" "lines_inv s" using assms(1) by (simp_all add: gate_inv_def)
  have "lines_inv t"
    by (rule lines_inv_same [OF inv(2)]) (simp_all add: assms busy_with_def, metis lines_known inv(2) option.exhaust)
  moreover have "n < length (gw_objects s) \<and> gs_name (object_of s n) = i \<and> gs_ended (object_of s n) = None \<and>
      n \<notin> fst ` set E" if "dict_get T i = Some n" for i n
    using assms(3) [OF that] tabled [OF inv(1), of i n] by simp
  then have "table_inv t" unfolding table_inv_def assms(5,8,9) using assms(2,4) by blast
  ultimately show ?thesis by (simp add: gate_inv_def)
qed

lemma gate_inv_take_out:
  assumes "gate_inv s" "set ns \<subseteq> set (dict_values (gw_table s))"
  shows "gate_inv (take_out ns y s)"
proof (rule gate_inv_taken [OF assms(1)])
  have t: "table_inv s" using assms(1) by (simp add: gate_inv_def)
  then show "wf_dict (gw_table (take_out ns y s))" by (simp add: take_out_def wf_pop_names table_inv_def)
  show "n < length (gw_objects s)" if "n \<in> fst ` set (gw_ending (take_out ns y s))" for n
  proof (cases "n \<in> set ns")
    case True
    with assms(2) have "n \<in> set (dict_values (gw_table s))" by blast
    then show ?thesis using tabled(1) [OF t] unfolding in_table [OF t] by blast
  next
    case False
    then have "n \<in> fst ` set (gw_ending s)" using that by (force simp: take_out_def)
    then show ?thesis using t unfolding table_inv_def by blast
  qed
  show "dict_get (gw_table s) i = Some n \<and> n \<notin> fst ` set (gw_ending (take_out ns y s))"
    if got: "dict_get (gw_table (take_out ns y s)) i = Some n" for i n
  proof -
    have i: "i \<notin> (\<lambda>n. gs_name (object_of s n)) ` set ns" "dict_get (gw_table s) i = Some n"
      using got by (simp_all add: take_out_def pop_names split: if_splits)
    with tabled [OF t i(2)] have "n \<notin> set ns" "n \<notin> fst ` set (gw_ending s)" by auto
    with i show ?thesis by (auto simp: take_out_def)
  qed
qed (simp_all add: take_out_def)

lemma gate_inv_close_ticket: "gate_inv s \<Longrightarrow> gate_inv (close_ticket i y s)"
proof (cases "dict_get (gw_table s) i")
  case (Some n)
  assume inv: "gate_inv s"
  show ?thesis
  proof (rule gate_inv_taken [OF inv])
    show "wf_dict (gw_table (close_ticket i y s))"
      using inv Some by (simp add: close_ticket_def gate_inv_def table_inv_def)
    show "m < length (gw_objects s)" if "m \<in> fst ` set (gw_ending (close_ticket i y s))" for m
      using that inv Some by (auto simp: close_ticket_def gate_inv_def table_inv_def)
    show "dict_get (gw_table s) j = Some m \<and> m \<notin> fst ` set (gw_ending (close_ticket i y s))"
      if "dict_get (gw_table (close_ticket i y s)) j = Some m" for j m
    proof -
      have "j \<noteq> i" "dict_get (gw_table s) j = Some m" using that Some by (auto simp: close_ticket_def split: if_splits)
      moreover from this have "m \<noteq> n" "m \<notin> fst ` set (gw_ending s)"
        using inv Some unfolding gate_inv_def table_inv_def by metis+
      ultimately show ?thesis using Some by (simp add: close_ticket_def)
    qed
  qed (simp_all add: close_ticket_def Some)
qed (simp add: close_ticket_def)

lemma gate_inv_kept:
  assumes "gate_inv s" "gw_table t = gw_table s" "gw_ending t = gw_ending s" "gw_objects t = gw_objects s"
    "gw_phases t = gw_phases s" "gw_accepted t = gw_accepted s"
  shows "gate_inv t"
proof -
  have busy: "busy_with t = busy_with s" using assms(5) by (simp add: busy_with_def fun_eq_iff)
  show ?thesis using assms(1) unfolding gate_inv_def table_inv_def lines_inv_def assms(2-6) busy .
qed

lemma gate_inv_put:
  assumes "gate_inv s" "n < length (gw_objects s)" "gs_name g = gs_name (object_of s n)"
    "gs_ended g = gs_ended (object_of s n)" "gs_connection g = gs_connection (object_of s n)"
  shows "gate_inv (put_object n g s)"
proof (rule gate_inv_same [OF assms(1)])
  have lines: "lines_inv s" using assms(1) by (simp add: gate_inv_def)
  show "lines_inv (put_object n g s)"
    by (rule lines_inv_same [OF lines]) (use assms lines_known [OF lines] in auto)
qed (use assms in auto)

lemma gate_inv_open: "gate_inv s \<Longrightarrow> gate_inv (snd (open_stream w node src tells secs kind name token now s))"
proof -
  assume inv: "gate_inv s"
  define t where "t = snd (open_stream w node src tells secs kind name token now s)"
  show ?thesis
  proof (cases "t = s")
    case False
    then obtain g where t: "t = s\<lparr>gw_objects := gw_objects s @ [g], gw_table := dict_set name (length (gw_objects s)) (gw_table s)\<rparr>"
      and g: "gs_name g = name" "gs_ended g = None" "gs_connection g = None"
      unfolding t_def open_stream_def Let_def by (simp split: if_splits)
    have inv': "table_inv s" "lines_inv s" using inv by (simp_all add: gate_inv_def)
    have busy: "busy_with t = busy_with s" by (simp add: t busy_with_def fun_eq_iff)
    have "n < length (gw_objects t) \<and> gs_name (object_of t n) = i \<and> gs_ended (object_of t n) = None \<and> n \<notin> fst ` set (gw_ending t)"
      if "dict_get (gw_table t) i = Some n" for i n
    proof (cases "i = name")
      case True
      with that have "n = length (gw_objects s)" by (simp add: t)
      moreover have "length (gw_objects s) \<notin> fst ` set (gw_ending s)" using inv'(1) unfolding table_inv_def by blast
      ultimately show ?thesis using g True by (simp add: t)
    next
      case False
      with that have i: "dict_get (gw_table s) i = Some n" by (simp add: t)
      then show ?thesis using tabled [OF inv'(1) i] by (simp add: t nth_append)
    qed
    moreover have "wf_dict (gw_table t)" "\<forall>n \<in> fst ` set (gw_ending t). n < length (gw_objects t)"
      using inv'(1) unfolding table_inv_def by (auto simp: t)
    ultimately have "table_inv t" unfolding table_inv_def by blast
    moreover have "lines_inv t" unfolding lines_inv_def busy
    proof (intro conjI allI impI)
      show "n < length (gw_objects t)" if "busy_with s c = Some n" for c n
        using that inv'(2) unfolding lines_inv_def by (fastforce simp: t)
      show "c < gw_accepted t" if "dict_get (gw_phases t) c \<noteq> None" for c
        using that inv'(2) unfolding lines_inv_def by (fastforce simp: t)
      show "busy_with s c = Some n \<longleftrightarrow> gs_connection (object_of t n) = Some c" if "n < length (gw_objects t)" for c n
      proof (cases "n = length (gw_objects s)")
        case True
        then show ?thesis using g inv'(2) unfolding lines_inv_def by (auto simp: t)
      next
        case False
        with that have "n < length (gw_objects s)" by (simp add: t)
        then show ?thesis using inv'(2) unfolding lines_inv_def by (simp add: t nth_append)
      qed
    qed
    ultimately show ?thesis by (simp add: gate_inv_def t_def)
  qed (simp add: inv flip: t_def)
qed

lemma gate_inv_renew: "gate_inv s \<Longrightarrow> gate_inv (snd (renew_ticket name secs now s))"
proof (cases "dict_get (gw_table s) name")
  case (Some n)
  assume inv: "gate_inv s"
  then have "n < length (gw_objects s)" using tabled(1) Some by (simp add: gate_inv_def)
  then show ?thesis using gate_inv_put [OF inv, of n] Some inv by (simp add: renew_ticket_def)
qed (simp add: renew_ticket_def)

lemma gate_inv_stop: "gate_inv s \<Longrightarrow> gate_inv (stop_gateway s)"
proof -
  assume inv: "gate_inv s"
  then have t: "table_inv s" by (simp add: gate_inv_def)
  show ?thesis
  proof (rule gate_inv_taken [OF inv])
    show "n < length (gw_objects s)" if "n \<in> fst ` set (gw_ending (stop_gateway s))" for n
    proof (cases "n \<in> set (dict_values (gw_table s))")
      case True
      then show ?thesis using tabled(1) [OF t] unfolding in_table [OF t] by blast
    next
      case False
      then have "n \<in> fst ` set (gw_ending s)" using that by (force simp: stop_gateway_def)
      then show ?thesis using t unfolding table_inv_def by blast
    qed
  qed (simp_all add: stop_gateway_def)
qed

lemma gate_inv_hang_up: "gate_inv s \<Longrightarrow> gate_inv (snd (hang_up_next k s))"
proof -
  assume inv: "gate_inv s"
  show ?thesis
  proof (cases "k < length (gw_ending s)")
    case True
    obtain n y where ny: "gw_ending s ! k = (n, y)" by fastforce
    define E where "E = take k (gw_ending s) @ drop (Suc k) (gw_ending s)"
    define t where "t = snd (hang_up n y (s\<lparr>gw_ending := E\<rparr>))"
    have ti: "table_inv s" "lines_inv s" using inv by (simp_all add: gate_inv_def)
    have "(n, y) \<in> set (gw_ending s)" using ny True nth_mem by metis
    then have n: "n < length (gw_objects s)" "n \<in> fst ` set (gw_ending s)" using ti(1) by (force simp: table_inv_def)+
    have fewer: "fst ` set E \<subseteq> fst ` set (gw_ending s)"
      by (auto simp: E_def dest: in_set_takeD in_set_dropD)
    have same: "gw_table t = gw_table s" "gw_ending t = E" "length (gw_objects t) = length (gw_objects s)"
      "gs_name (object_of t m) = gs_name (object_of s m)"
      "m \<noteq> n \<Longrightarrow> gs_ended (object_of t m) = gs_ended (object_of s m)"
      "gs_connection (object_of t m) = gs_connection (object_of s m)"
      "busy_with t c = busy_with s c" "gw_phases t = gw_phases s" "gw_accepted t = gw_accepted s" for m c
      using n(1) by (simp_all add: t_def hang_up_def Let_def busy_with_def)
    have "lines_inv t"
      by (rule lines_inv_same [OF ti(2)]) (use same lines_known [OF ti(2)] in auto)
    moreover have "m < length (gw_objects s) \<and> gs_name (object_of t m) = i \<and> gs_ended (object_of t m) = None \<and>
        m \<notin> fst ` set E" if "dict_get (gw_table s) i = Some m" for i m
    proof -
      have "m \<noteq> n" using tabled(4) [OF ti(1) that] n(2) by auto
      moreover have "m \<notin> fst ` set E" using tabled(4) [OF ti(1) that] fewer by blast
      ultimately show ?thesis using tabled(1-3) [OF ti(1) that] same(4,5) [of m] by simp
    qed
    moreover have "wf_dict (gw_table s)" "\<forall>m \<in> fst ` set E. m < length (gw_objects s)"
      using ti(1) fewer unfolding table_inv_def by blast+
    ultimately have "lines_inv t \<and> table_inv t" by (simp add: table_inv_def same(1-3))
    then show ?thesis using True ny by (simp add: hang_up_next_def gate_inv_def t_def E_def)
  qed (simp add: hang_up_next_def inv)
qed

lemma gate_inv_phase:
  assumes "gate_inv s" "c < gw_accepted s" "carried_by p = busy_with s c"
  shows "gate_inv (set_phase c p s)"
proof (rule gate_inv_same [OF assms(1)])
  have lines: "lines_inv s" using assms(1) by (simp add: gate_inv_def)
  show "lines_inv (set_phase c p s)"
    by (rule lines_inv_same [OF lines]) (use assms(2,3) lines_known [OF lines] in \<open>auto split: if_splits\<close>)
qed simp_all

lemma gate_inv_hangs:
  assumes "gate_inv s" "busy_with s c = None"
  shows "gate_inv (hangs c s)"
proof (rule gate_inv_same [OF assms(1)])
  have lines: "lines_inv s" using assms(1) by (simp add: gate_inv_def)
  show "lines_inv (hangs c s)"
    by (rule lines_inv_same [OF lines]) (use assms(2) lines_known [OF lines] in \<open>auto split: if_splits\<close>)
qed simp_all

lemma gate_inv_refuse: "gate_inv s \<Longrightarrow> gate_inv (refuse_media y s)"
  by (erule gate_inv_kept) simp_all

lemma gate_inv_turn_down: "gate_inv s \<Longrightarrow> busy_with s c = None \<Longrightarrow> gate_inv (snd (turn_down c y s))"
  by (simp add: turn_down_def gate_inv_refuse gate_inv_hangs)

lemma gate_inv_accept: "gate_inv s \<Longrightarrow> gate_inv (snd (accept_media s))"
proof -
  assume inv: "gate_inv s"
  let ?s = "s\<lparr>gw_accepted := Suc (gw_accepted s)\<rparr>"
  have lines: "lines_inv s" using inv by (simp add: gate_inv_def)
  have fresh: "busy_with s (gw_accepted s) = None"
    using lines by (fastforce simp: lines_inv_def busy_with_def split: option.split)
  have "gate_inv ?s"
  proof (rule gate_inv_same [OF inv])
    show "lines_inv ?s"
      by (rule lines_inv_same [OF lines]) (use lines_known [OF lines] in \<open>auto simp: busy_with_def intro: less_SucI\<close>)
  qed simp_all
  moreover have "busy_with ?s (gw_accepted s) = None" using fresh by (simp add: busy_with_def)
  ultimately have "gate_inv (set_phase (gw_accepted s) Greeting ?s)" by (intro gate_inv_phase) simp_all
  then show ?thesis using inv by (simp add: accept_media_def gate_inv_refuse)
qed

lemma gate_inv_let_in: "gate_inv s \<Longrightarrow> gate_inv (snd (let_in w c now later s))"
proof -
  assume inv: "gate_inv s"
  show ?thesis
  proof (cases "snd (let_in w c now later s) = s")
    case False
    then obtain node t where p: "dict_get (gw_phases s) c = Some (Recognised node t)"
      by (auto simp: let_in_def split: option.splits phase.splits)
    then have idle: "busy_with s c = None" by (simp add: busy_with_def)
    show ?thesis
    proof (cases "objection w node t now s")
      case None
      then obtain n where n: "stream_named t s = Some n" "gs_connection (object_of s n) = None"
        by (auto simp: objection_def Let_def split: option.splits if_splits)
      then obtain i where "dict_get (gw_table s) i = Some n"
        by (auto simp: stream_named_def split: option.splits document.splits json_value.splits)
      then have len: "n < length (gw_objects s)" using inv tabled(1) by (auto simp: gate_inv_def)
      define u where "u = snd (let_in w c now later s)"
      have u: "gw_table u = gw_table s" "gw_ending u = gw_ending s" "length (gw_objects u) = length (gw_objects s)"
        "gs_name (object_of u m) = gs_name (object_of s m)" "gs_ended (object_of u m) = gs_ended (object_of s m)"
        "gs_connection (object_of u m) = (if m = n then Some c else gs_connection (object_of s m))"
        "busy_with u d = (if d = c then Some n else busy_with s d)" "gw_accepted u = gw_accepted s"
        "dict_get (gw_phases u) d \<noteq> None \<longleftrightarrow> dict_get (gw_phases s) d \<noteq> None" for m d
        using len p None n by (auto simp: u_def let_in_def Let_def)
      have lines: "lines_inv s" using inv by (simp add: gate_inv_def)
      have free: "busy_with s d \<noteq> Some n" for d using lines len n(2) unfolding lines_inv_def by auto
      have "lines_inv u" unfolding lines_inv_def
      proof (intro conjI allI impI)
        show "m < length (gw_objects u)" if "busy_with u d = Some m" for d m
          using that lines len unfolding lines_inv_def by (auto simp: u split: if_splits)
        show "busy_with u d = Some m \<longleftrightarrow> gs_connection (object_of u m) = Some d" if "m < length (gw_objects u)" for d m
        proof -
          have "busy_with s d = Some m \<longleftrightarrow> gs_connection (object_of s m) = Some d"
            using that lines unfolding lines_inv_def by (simp add: u(3))
          then show ?thesis using idle free [of d] by (auto simp: u)
        qed
        show "d < gw_accepted u" if "dict_get (gw_phases u) d \<noteq> None" for d
          using that [unfolded u(9)] lines unfolding lines_inv_def u(8) by blast
      qed
      then show ?thesis using gate_inv_same [OF inv u(1-3)] u(4,5) by (simp add: u_def)
    next
      case (Some y)
      then show ?thesis using p idle gate_inv_turn_down [OF inv] by (simp add: let_in_def)
    qed
  qed (simp add: inv)
qed

lemma gate_inv_end_carry:
  assumes "gate_inv s" "busy_with s c = Some n"
  shows "gate_inv (snd (end_carry c n sink y s))"
proof -
  define u where "u = snd (end_carry c n sink y s)"
  have lines: "lines_inv s" using assms(1) by (simp add: gate_inv_def)
  then have len: "n < length (gw_objects s)" using assms(2) unfolding lines_inv_def by blast
  have u: "gw_table u = gw_table s" "gw_ending u = gw_ending s" "length (gw_objects u) = length (gw_objects s)"
    "gs_name (object_of u m) = gs_name (object_of s m)" "gs_ended (object_of u m) = gs_ended (object_of s m)"
    "gs_connection (object_of u m) = (if m = n then None else gs_connection (object_of s m))"
    "busy_with u d = (if d = c then None else busy_with s d)" "gw_accepted u = gw_accepted s"
    "dict_get (gw_phases u) d \<noteq> None \<longleftrightarrow> d \<noteq> c \<and> dict_get (gw_phases s) d \<noteq> None" for m d
    using len by (auto simp: u_def end_carry_def Let_def)
  have "gs_connection (object_of s n) = Some c" using lines len assms(2) unfolding lines_inv_def by blast
  have "lines_inv u" unfolding lines_inv_def
  proof (intro conjI allI impI)
    show "m < length (gw_objects u)" if "busy_with u d = Some m" for d m
      using that lines unfolding lines_inv_def by (auto simp: u split: if_splits)
    show "busy_with u d = Some m \<longleftrightarrow> gs_connection (object_of u m) = Some d" if "m < length (gw_objects u)" for d m
    proof -
      have "busy_with s e = Some m \<longleftrightarrow> gs_connection (object_of s m) = Some e" for e
        using that lines unfolding lines_inv_def by (simp add: u(3))
      from this [of d] this [of c] show ?thesis using assms(2) by (auto simp: u)
    qed
    show "d < gw_accepted u" if "dict_get (gw_phases u) d \<noteq> None" for d
      using that [unfolded u(9)] lines unfolding lines_inv_def u(8) by blast
  qed
  then show ?thesis using gate_inv_same [OF assms(1) u(1-3)] u(4,5) by (simp add: u_def)
qed

lemma busy_carrying: "dict_get (gw_phases s) c = Some p \<Longrightarrow> carried_by p = Some n \<Longrightarrow> busy_with s c = Some n"
  by (simp add: busy_with_def)

lemma gate_inv_go_on:
  assumes "gate_inv s" "dict_get (gw_phases s) c = Some p" "carried_by p = carried_by q"
  shows "gate_inv (set_phase c q s)"
  using assms lines_known [of s c p] by (intro gate_inv_phase) (auto simp: gate_inv_def busy_with_def)

lemma gate_inv_connect: "gate_inv s \<Longrightarrow> gate_inv (snd (connect_sink c e s))"
  by (auto simp: connect_sink_def intro!: gate_inv_end_carry busy_carrying gate_inv_go_on split: option.split phase.split)

lemma gate_inv_goes_on: "gate_inv s \<Longrightarrow> gate_inv (snd (goes_on c s))"
  by (auto simp: goes_on_def intro!: gate_inv_end_carry busy_carrying gate_inv_go_on split: option.split phase.split bool.split)

lemma gate_inv_count:
  assumes "gate_inv s" "busy_with s c = Some n"
  shows "gate_inv (count_bytes n k now s)"
proof -
  have "n < length (gw_objects s)" using assms unfolding gate_inv_def lines_inv_def by blast
  then show ?thesis unfolding count_bytes_def by (intro gate_inv_put [OF assms(1)]) simp_all
qed

lemma count_bytes_simps [simp]:
  "gw_phases (count_bytes n k now s) = gw_phases s" "busy_with (count_bytes n k now s) = busy_with s"
  "gw_table (count_bytes n k now s) = gw_table s" "gw_ending (count_bytes n k now s) = gw_ending s"
  by (simp_all add: count_bytes_def busy_with_def fun_eq_iff)

lemma gate_inv_take_bytes:
  assumes "gate_inv s" "dict_get (gw_phases s) c = Some (Carrying n held True)"
  shows "gate_inv (snd (take_bytes c n held bs now e s))"
proof -
  have busy: "busy_with s c = Some n" using assms(2) by (simp add: busy_with_def)
  then have inv: "gate_inv (count_bytes n (length bs) now s)" using assms(1) by (intro gate_inv_count)
  have "gate_inv (snd (end_carry c n True y (count_bytes n (length bs) now s)))" for y
    using busy by (intro gate_inv_end_carry inv) simp
  moreover have "gate_inv (set_phase c (Carrying n h b) (count_bytes n (length bs) now s))" for h b
    using assms(2) by (intro gate_inv_go_on [OF inv]) auto
  ultimately show ?thesis by (auto simp: take_bytes_def Let_def split: screened.split option.split)
qed

lemma gate_inv_receive: "gate_inv s \<Longrightarrow> gate_inv (snd (receive_media c r now e s))"
  by (auto simp: receive_media_def intro!: gate_inv_end_carry busy_carrying gate_inv_take_bytes
      split: option.split phase.split received.split bool.split)

lemma gate_inv_recognise: "gate_inv s \<Longrightarrow> gate_inv (snd (recognise w c incoming name f s))"
proof (cases "dict_get (gw_phases s) c = Some Greeting")
  case True
  assume inv: "gate_inv s"
  then have nodes: "gate_inv (s\<lparr>gw_nodes := r\<rparr>)" for r by (rule gate_inv_kept) simp_all
  have busy: "busy_with s c = None" "busy_with (s\<lparr>gw_nodes := r\<rparr>) c = None" for r
    using True by (simp_all add: busy_with_def)
  have here: "gate_inv (set_phase c (Recognised n t) (s\<lparr>gw_nodes := r\<rparr>))" for n t r
    using True by (intro gate_inv_go_on [OF nodes]) auto
  show ?thesis using True inv busy
    by (auto simp: recognise_def intro!: gate_inv_refuse gate_inv_hangs gate_inv_turn_down nodes here
        split: option.split document.split prod.split sum.split)
qed (simp add: recognise_def)

lemma gate_inv_fail_tls: "gate_inv s \<Longrightarrow> gate_inv (fail_tls c s)"
  by (auto simp: fail_tls_def busy_with_def intro!: gate_inv_refuse gate_inv_hangs)

lemma gate_inv_step: "gate_inv s \<Longrightarrow> gate_inv (snd (do_gateway w s x))"
proof (cases x)
  case (Opens node src tells secs kind name token now)
  assume "gate_inv s"
  from gate_inv_open [OF this, of w node src tells secs kind name token now] Opens show ?thesis
    by (auto split: prod.split sum.split)
next
  case (Renews name secs now)
  assume "gate_inv s"
  from gate_inv_renew [OF this, of name secs now] Renews show ?thesis by (auto split: prod.split)
next
  case (ClosesNode node y)
  assume "gate_inv s"
  then have "gate_inv (snd (close_node node y s))"
    unfolding close_node_def Let_def snd_conv by (intro gate_inv_take_out) auto
  with ClosesNode show ?thesis by (auto split: prod.split)
next
  case (Expires now)
  assume "gate_inv s"
  then have "gate_inv (expire_streams now s)" by (auto simp: expire_streams_def intro!: gate_inv_take_out)
  with Expires show ?thesis by simp
next
  case (StartsGateway p)
  assume "gate_inv s"
  then show ?thesis using StartsGateway by (auto simp: start_gateway_def split: option.split elim: gate_inv_kept)
next
  case (NodesStep fp y)
  assume "gate_inv s"
  then show ?thesis using NodesStep by (auto elim: gate_inv_kept)
qed (simp_all add: gate_inv_stop gate_inv_close_ticket gate_inv_hang_up gate_inv_accept gate_inv_fail_tls
    gate_inv_recognise gate_inv_let_in gate_inv_connect gate_inv_goes_on gate_inv_receive)

lemma gate_inv_new: "gate_inv (new_gateway m r)"
  by (simp add: gate_inv_def table_inv_def lines_inv_def new_gateway_def busy_with_def)

subsection \<open>The ticket office\<close>

text \<open>
  What the gateway promises, without objects, threads and hanging up: passes under their names,
  one holder at a time, each for the node, the source, the kind and the token it was issued for
  and until its time is over.
\<close>

record pass =
  ps_number :: nat
  ps_node :: string
  ps_source :: string
  ps_kind :: string
  ps_digest :: string
  ps_until :: seconds
  ps_busy :: bool

record office =
  of_most :: int
  of_next :: nat
  of_passes :: "string \<Rightarrow> pass option"

record claim =
  cl_name :: string
  cl_node :: string
  cl_source :: string
  cl_kind :: string
  cl_digest :: string

datatype office_event =
  Issue string string string string string seconds
| Extend string seconds
| WithdrawName string
| WithdrawNode string
| WithdrawDue seconds
| WithdrawAll
| Present claim seconds
| Leave nat

datatype office_answer = Issued bool | Extended bool | Entered nat

definition withdraw :: "(string \<Rightarrow> pass \<Rightarrow> bool) \<Rightarrow> office \<Rightarrow> office" where
  "withdraw P f = f\<lparr>of_passes := (\<lambda>i. case of_passes f i of Some p \<Rightarrow> if P i p then None else Some p | None \<Rightarrow> None)\<rparr>"

definition honours :: "pass \<Rightarrow> claim \<Rightarrow> seconds \<Rightarrow> bool" where
  "honours p cl now \<longleftrightarrow>
     ps_node p = cl_node cl \<and> ps_source p = cl_source cl \<and> ps_kind p = cl_kind cl \<and>
     ps_digest p = cl_digest cl \<and> now < ps_until p \<and> \<not> ps_busy p"

fun office_step :: "office \<Rightarrow> office_event \<Rightarrow> office_answer list \<times> office" where
  "office_step f (Issue name node src kind digest until) =
     (if int (card (dom (of_passes f))) \<ge> of_most f then ([Issued False], f)
      else ([Issued True],
            f\<lparr>of_next := Suc (of_next f),
              of_passes := (of_passes f)(name \<mapsto> \<lparr>ps_number = of_next f, ps_node = node, ps_source = src,
                ps_kind = kind, ps_digest = digest, ps_until = until, ps_busy = False\<rparr>)\<rparr>))"
| "office_step f (Extend name until) =
     (case of_passes f name of
        None \<Rightarrow> ([Extended False], f)
      | Some p \<Rightarrow> ([Extended True], f\<lparr>of_passes := (of_passes f)(name \<mapsto> p\<lparr>ps_until := until\<rparr>)\<rparr>))"
| "office_step f (WithdrawName name) = ([], withdraw (\<lambda>i p. i = name) f)"
| "office_step f (WithdrawNode node) = ([], withdraw (\<lambda>i p. ps_node p = node) f)"
| "office_step f (WithdrawDue now) = ([], withdraw (\<lambda>i p. ps_until p \<le> now) f)"
| "office_step f WithdrawAll = ([], withdraw (\<lambda>i p. True) f)"
| "office_step f (Present cl now) =
     (case of_passes f (cl_name cl) of
        None \<Rightarrow> ([], f)
      | Some p \<Rightarrow>
          if honours p cl now
          then ([Entered (ps_number p)], f\<lparr>of_passes := (of_passes f)(cl_name cl \<mapsto> p\<lparr>ps_busy := True\<rparr>)\<rparr>)
          else ([], f))"
| "office_step f (Leave k) =
     ([], f\<lparr>of_passes := (\<lambda>i. map_option (\<lambda>p. if ps_number p = k then p\<lparr>ps_busy := False\<rparr> else p) (of_passes f i))\<rparr>)"

text \<open>How the office is read off the gateway, and what the gateway's inputs mean to it.\<close>

definition pass_at :: "gateway \<Rightarrow> nat \<Rightarrow> pass" where
  "pass_at s n =
     (let g = object_of s n in
      \<lparr>ps_number = n, ps_node = gs_node g, ps_source = gs_source g, ps_kind = gs_kind g, ps_digest = gs_digest g,
       ps_until = gs_expires g, ps_busy = (gs_connection g \<noteq> None)\<rparr>)"

definition office_of :: "gateway \<Rightarrow> office" where
  "office_of s =
     \<lparr>of_most = max_streams (gw_media s), of_next = length (gw_objects s),
      of_passes = (\<lambda>i. map_option (pass_at s) (dict_get (gw_table s) i))\<rparr>"

definition claim_of :: "gateway_world \<Rightarrow> string \<Rightarrow> (string, document) dict \<Rightarrow> claim option" where
  "claim_of w node t =
     (case (dict_get t ''stream_id'', dict_get t ''source_id'', get_or (Text ''video'') t ''kind'', dict_get t ''token'') of
        (Some (Plain (JStr i)), Some (Plain (JStr src)), Plain (JStr kind), Some (Plain (JStr token))) \<Rightarrow>
          Some \<lparr>cl_name = i, cl_node = node, cl_source = src, cl_kind = kind, cl_digest = gw_sha w token\<rparr>
      | _ \<Rightarrow> None)"

definition lets_go :: "gateway_world \<Rightarrow> gateway \<Rightarrow> gateway_input \<Rightarrow> nat \<Rightarrow> office_event list" where
  "lets_go w s x c =
     (case busy_with s c of
        None \<Rightarrow> []
      | Some n \<Rightarrow> if busy_with (snd (do_gateway w s x)) c = None then [Leave n] else [])"

fun means :: "gateway_world \<Rightarrow> gateway \<Rightarrow> gateway_input \<Rightarrow> office_event list" where
  "means w s (Opens node src tells secs kind name token now) =
     (if kind \<in> set media_kinds \<and> gw_listener s \<and> \<not> gw_stopping s
      then [Issue name node src kind (gw_sha w token) (now + lasts_for secs s)] else [])"
| "means w s (Renews name secs now) = [Extend name (now + lasts_for secs s)]"
| "means w s (Closes name y) = [WithdrawName name]"
| "means w s (ClosesNode node y) = [WithdrawNode node]"
| "means w s (Expires now) = (if gw_stopping s \<or> \<not> gw_listener s then [] else [WithdrawDue now])"
| "means w s StopsGateway = [WithdrawAll]"
| "means w s (Enters c now later) =
     (case dict_get (gw_phases s) c of
        Some (Recognised node t) \<Rightarrow> (case claim_of w node t of Some cl \<Rightarrow> [Present cl now] | None \<Rightarrow> [])
      | _ \<Rightarrow> [])"
| "means w s (ConnectsSink c e) = lets_go w s (ConnectsSink c e) c"
| "means w s (GoesOn c) = lets_go w s (GoesOn c) c"
| "means w s (Receives c r now e) = lets_go w s (Receives c r now e) c"
| "means w s x = []"

fun as_answer :: "gateway_out \<Rightarrow> office_answer option" where
  "as_answer (Opened k) = Some (Issued True)"
| "as_answer (NotOpened (TooManyStreams k)) = Some (Issued False)"
| "as_answer (Renewed b) = Some (Extended b)"
| "as_answer (Takes c n) = Some (Entered n)"
| "as_answer _ = None"

text \<open>Every step is what it means.\<close>

lemma office_kept:
  assumes "table_inv s" "gw_media t = gw_media s" "length (gw_objects t) = length (gw_objects s)"
    "gw_table t = gw_table s" "\<And>n. n < length (gw_objects s) \<Longrightarrow> pass_at t n = pass_at s n"
  shows "office_of t = office_of s"
proof -
  have "map_option (pass_at t) (dict_get (gw_table s) i) = map_option (pass_at s) (dict_get (gw_table s) i)" for i
    using tabled(1) [OF assms(1)] assms(5) by (cases "dict_get (gw_table s) i") auto
  with assms show ?thesis by (simp add: office_of_def fun_eq_iff)
qed

lemma office_same:
  assumes "gw_media t = gw_media s" "gw_objects t = gw_objects s" "gw_table t = gw_table s"
  shows "office_of t = office_of s"
proof -
  have "pass_at t = pass_at s" using assms(2) by (simp add: pass_at_def fun_eq_iff)
  with assms show ?thesis by (simp add: office_of_def)
qed

lemma open_count: "table_inv s \<Longrightarrow> length (live_streams s) = card (dom (of_passes (office_of s)))"
proof -
  assume t: "table_inv s"
  have "gs_ended (object_of s n) = None" if "n \<in> set (dict_values (gw_table s))" for n
    using that tabled(3) [OF t] unfolding in_table [OF t] by blast
  then have "live_streams s = dict_values (gw_table s)" by (simp add: live_streams_def filter_id_conv)
  moreover have "dom (of_passes (office_of s)) = fst ` set (gw_table s)"
    by (auto simp: office_of_def dom_map_of_conv_image_fst [symmetric])
  moreover have "card (fst ` set (gw_table s)) = length (gw_table s)"
    using t distinct_card [of "map fst (gw_table s)"] by (simp add: table_inv_def)
  ultimately show ?thesis by simp
qed

lemma withdraw_office:
  assumes "gw_media t = gw_media s" "gw_objects t = gw_objects s"
    "\<And>i. dict_get (gw_table t) i = (case dict_get (gw_table s) i of Some n \<Rightarrow> if P i (pass_at s n) then None else Some n | None \<Rightarrow> None)"
  shows "withdraw P (office_of s) = office_of t"
proof -
  have "pass_at t = pass_at s" using assms(2) by (simp add: pass_at_def fun_eq_iff)
  then show ?thesis using assms by (auto simp: withdraw_def office_of_def fun_eq_iff split: option.split)
qed

lemma take_out_office:
  assumes "table_inv s" "\<And>n. Q n \<longleftrightarrow> P (pass_at s n)"
  shows "withdraw (\<lambda>i p. P p) (office_of s) = office_of (take_out (filter Q (dict_values (gw_table s))) y s)"
proof (rule withdraw_office)
  fix i
  have "i \<in> (\<lambda>n. gs_name (object_of s n)) ` set (filter Q (dict_values (gw_table s))) \<longleftrightarrow>
      (\<exists>n. dict_get (gw_table s) i = Some n \<and> Q n)"
    using in_table [OF assms(1)] tabled(2) [OF assms(1)] by (fastforce simp: image_iff)
  then show "dict_get (gw_table (take_out (filter Q (dict_values (gw_table s))) y s)) i =
      (case dict_get (gw_table s) i of Some n \<Rightarrow> if P (pass_at s n) then None else Some n | None \<Rightarrow> None)"
    using assms(2) by (auto simp: take_out_def pop_names split: option.split)
qed (simp_all add: take_out_def)

lemma filter_simps [simp]:
  "List.map_filter f [] = []"
  "List.map_filter f (x # xs) = (case f x of None \<Rightarrow> List.map_filter f xs | Some y \<Rightarrow> y # List.map_filter f xs)"
  "List.map_filter f (xs @ ys) = List.map_filter f xs @ List.map_filter f ys"
  by (simp_all add: map_filter_def split: option.split)

definition agrees :: "gateway_world \<Rightarrow> gateway \<Rightarrow> gateway_input \<Rightarrow> bool" where
  "agrees w s x \<longleftrightarrow>
     concat (fst (run office_step (office_of s) (means w s x))) = List.map_filter as_answer (fst (do_gateway w s x)) \<and>
     snd (run office_step (office_of s) (means w s x)) = office_of (snd (do_gateway w s x))"

lemma agrees_open: "gate_inv s \<Longrightarrow> agrees w s (Opens node src tells secs kind name token now)"
proof -
  assume inv: "gate_inv s"
  then have t: "table_inv s" by (simp add: gate_inv_def)
  define g where "g = \<lparr>gs_name = name, gs_node = node, gs_source = src, gs_digest = gw_sha w token,
    gs_expires = now + lasts_for secs s, gs_kind = kind, gs_tells = tells, gs_connection = None,
    gs_connections = 0, gs_bytes = 0, gs_last = None, gs_ended = None\<rparr>"
  define u where "u = s\<lparr>gw_objects := gw_objects s @ [g], gw_table := dict_set name (length (gw_objects s)) (gw_table s)\<rparr>"
  have "pass_at u n = pass_at s n" if "n < length (gw_objects s)" for n
    using that by (simp add: pass_at_def u_def nth_append)
  moreover have "pass_at u (length (gw_objects s)) =
      \<lparr>ps_number = length (gw_objects s), ps_node = node, ps_source = src, ps_kind = kind, ps_digest = gw_sha w token,
       ps_until = now + lasts_for secs s, ps_busy = False\<rparr>"
    by (simp add: pass_at_def u_def g_def)
  ultimately have "office_of u = (office_of s)\<lparr>of_next := Suc (length (gw_objects s)),
      of_passes := (of_passes (office_of s))(name \<mapsto> \<lparr>ps_number = length (gw_objects s), ps_node = node,
        ps_source = src, ps_kind = kind, ps_digest = gw_sha w token, ps_until = now + lasts_for secs s, ps_busy = False\<rparr>)\<rparr>"
    using tabled(1) [OF t] by (auto simp: office_of_def u_def fun_eq_iff map_option_case split: option.split)
  then show ?thesis
    unfolding u_def g_def using open_count [OF t]
    by (simp add: agrees_def open_stream_def Let_def office_of_def)
qed

lemma agrees_renew: "gate_inv s \<Longrightarrow> agrees w s (Renews name secs now)"
proof -
  assume inv: "gate_inv s"
  then have t: "table_inv s" by (simp add: gate_inv_def)
  show ?thesis
  proof (cases "dict_get (gw_table s) name")
    case None
    then show ?thesis by (simp add: agrees_def renew_ticket_def) (simp add: office_of_def)
  next
    case (Some n)
    let ?u = "put_object n ((object_of s n)\<lparr>gs_expires := now + lasts_for secs s\<rparr>) s"
    note n = tabled [OF t Some]
    have "pass_at ?u m = (if m = n then (pass_at s n)\<lparr>ps_until := now + lasts_for secs s\<rparr> else pass_at s m)" for m
      using n(1) by (simp add: pass_at_def Let_def)
    moreover have "m \<noteq> n" if "dict_get (gw_table s) i = Some m" "i \<noteq> name" for i m
      using tabled(2) [OF t that(1)] n(2) that(2) by auto
    ultimately have "office_of ?u = (office_of s)\<lparr>of_passes :=
        (of_passes (office_of s))(name \<mapsto> (pass_at s n)\<lparr>ps_until := now + lasts_for secs s\<rparr>)\<rparr>"
      using Some by (auto simp: office_of_def fun_eq_iff map_option_case split: option.split)
    then show ?thesis using Some n(3) by (simp add: agrees_def renew_ticket_def) (simp add: office_of_def)
  qed
qed

lemma agrees_close: "gate_inv s \<Longrightarrow> agrees w s (Closes name y)"
  using withdraw_office [of "close_ticket name y s" s "\<lambda>i p. i = name"]
  by (simp add: agrees_def close_ticket_def split: option.split)

lemma agrees_close_node: "gate_inv s \<Longrightarrow> agrees w s (ClosesNode node y)"
  using take_out_office [of s "\<lambda>n. gs_node (object_of s n) = node" "\<lambda>p. ps_node p = node" y]
  by (simp add: agrees_def close_node_def gate_inv_def pass_at_def Let_def)

lemma agrees_expire: "gate_inv s \<Longrightarrow> agrees w s (Expires now)"
  using take_out_office [of s "\<lambda>n. gs_expires (object_of s n) \<le> now" "\<lambda>p. ps_until p \<le> now"]
  by (simp add: agrees_def expire_streams_def gate_inv_def pass_at_def Let_def)

lemma agrees_stop: "agrees w s StopsGateway"
  using withdraw_office [of "stop_gateway s" s "\<lambda>i p. True"]
  by (simp add: agrees_def stop_gateway_def split: option.split)

lemma office_phase [simp]: "office_of (set_phase c p s) = office_of s" "office_of (hangs c s) = office_of s"
  "office_of (refuse_media y s) = office_of s" "office_of (s\<lparr>gw_nodes := r\<rparr>) = office_of s"
  by (rule office_same; simp)+

lemma objection_claim:
  assumes "gate_inv s" "claim_of w node t = Some cl"
  shows "stream_named t s = dict_get (gw_table s) (cl_name cl)"
    "objection w node t now s = None \<longleftrightarrow>
       (\<exists>n. dict_get (gw_table s) (cl_name cl) = Some n \<and> honours (pass_at s n) cl now)"
proof -
  from assms(2) obtain i src kind token where
    f: "dict_get t ''stream_id'' = Some (Text i)" "dict_get t ''source_id'' = Some (Text src)"
      "get_or (Text ''video'') t ''kind'' = Text kind" "dict_get t ''token'' = Some (Text token)"
    and cl: "cl = \<lparr>cl_name = i, cl_node = node, cl_source = src, cl_kind = kind, cl_digest = gw_sha w token\<rparr>"
    by (auto simp: claim_of_def split: option.splits document.splits json_value.splits)
  show "stream_named t s = dict_get (gw_table s) (cl_name cl)" using f cl by (simp add: stream_named_def)
  then have named: "stream_named t s = dict_get (gw_table s) i" by (simp add: cl)
  have ti: "table_inv s" using assms(1) by (simp add: gate_inv_def)
  show "objection w node t now s = None \<longleftrightarrow>
      (\<exists>n. dict_get (gw_table s) (cl_name cl) = Some n \<and> honours (pass_at s n) cl now)"
  proof (cases "dict_get (gw_table s) i")
    case None
    then show ?thesis by (simp add: objection_def named cl)
  next
    case (Some n)
    have fits: "token_fits w t digest \<longleftrightarrow> gw_sha w token = digest" for digest by (simp add: token_fits_def f)
    define g where "g = object_of s n"
    have "gs_ended g = None" using tabled(3) [OF ti Some] by (simp add: g_def)
    then have "objection w node t now s = None \<longleftrightarrow>
        gs_node g = node \<and> gs_source g = src \<and> gs_kind g = kind \<and> gs_digest g = gw_sha w token \<and>
        now < gs_expires g \<and> gs_connection g = None"
      unfolding objection_def named Some option.case Let_def f(2,3) fits g_def [symmetric] by auto
    moreover have "honours (pass_at s n) cl now \<longleftrightarrow>
        gs_node g = node \<and> gs_source g = src \<and> gs_kind g = kind \<and> gs_digest g = gw_sha w token \<and>
        now < gs_expires g \<and> gs_connection g = None"
      unfolding honours_def pass_at_def Let_def g_def [symmetric] cl by simp
    ultimately show ?thesis using Some by (simp add: cl)
  qed
qed

lemma objection_no_claim: "claim_of w node t = None \<Longrightarrow> objection w node t now s \<noteq> None"
  by (auto simp: claim_of_def objection_def Let_def stream_named_def token_fits_def get_or_def
      split: option.splits document.splits json_value.splits)

lemma agrees_enter: "gate_inv s \<Longrightarrow> agrees w s (Enters c now later)"
proof -
  assume inv: "gate_inv s"
  then have ti: "table_inv s" by (simp add: gate_inv_def)
  have refused: "List.map_filter as_answer (fst (turn_down c y s)) = [] \<and> office_of (snd (turn_down c y s)) = office_of s" for y
    by (simp add: turn_down_def)
  show ?thesis
  proof (cases "\<exists>node t. dict_get (gw_phases s) c = Some (Recognised node t)")
    case True
    then obtain node t where p: "dict_get (gw_phases s) c = Some (Recognised node t)" by blast
    show ?thesis
    proof (cases "claim_of w node t")
      case None
      with objection_no_claim [OF None, of now s] p refused show ?thesis by (auto simp: agrees_def let_in_def)
    next
      case (Some cl)
      note o' = objection_claim [OF inv Some]
      show ?thesis
      proof (cases "objection w node t now s")
        case None
        then obtain n where n: "dict_get (gw_table s) (cl_name cl) = Some n" "honours (pass_at s n) cl now"
          using o'(2) by blast
        let ?u = "set_phase c (Let_in n) (put_object n ((object_of s n)\<lparr>gs_connection := Some c,
          gs_connections := Suc (gs_connections (object_of s n)), gs_last := Some later\<rparr>) s)"
        note k = tabled [OF ti n(1)]
        have "pass_at ?u m = (if m = n then (pass_at s n)\<lparr>ps_busy := True\<rparr> else pass_at s m)" for m
          using k(1) by (simp add: pass_at_def Let_def)
        moreover have "m \<noteq> n" if "dict_get (gw_table s) i = Some m" "i \<noteq> cl_name cl" for i m
          using tabled(2) [OF ti that(1)] k(2) that(2) by auto
        ultimately have "office_of ?u = (office_of s)\<lparr>of_passes :=
            (of_passes (office_of s))(cl_name cl \<mapsto> (pass_at s n)\<lparr>ps_busy := True\<rparr>)\<rparr>"
          using n(1) by (auto simp: office_of_def fun_eq_iff map_option_case split: option.split)
        moreover have "of_passes (office_of s) (cl_name cl) = Some (pass_at s n)" "ps_number (pass_at s n) = n"
          using n(1) by (simp_all add: office_of_def pass_at_def Let_def)
        ultimately show ?thesis using p Some None n o'(1) by (simp add: agrees_def let_in_def Let_def)
      next
        case (Some y)
        have "\<not> honours q cl now" if "of_passes (office_of s) (cl_name cl) = Some q" for q
          using o'(2) [of now] Some that by (auto simp: office_of_def)
        then show ?thesis using p \<open>claim_of w node t = Some cl\<close> Some refused [of y]
          by (auto simp: agrees_def let_in_def split: option.split)
      qed
    qed
  next
    case False
    then show ?thesis by (auto simp: agrees_def let_in_def split: option.split phase.split)
  qed
qed

text \<open>The end of a connection is the only thing in its life that the office hears of.\<close>

lemma office_end_carry:
  assumes "gate_inv s" "busy_with s c = Some n"
  shows "List.map_filter as_answer (fst (end_carry c n sink y s)) = []"
    "office_of (snd (end_carry c n sink y s)) = snd (office_step (office_of s) (Leave n))"
    "busy_with (snd (end_carry c n sink y s)) c = None"
proof -
  have len: "n < length (gw_objects s)" using assms unfolding gate_inv_def lines_inv_def by blast
  show "List.map_filter as_answer (fst (end_carry c n sink y s)) = []" by (simp add: end_carry_def Let_def)
  show "busy_with (snd (end_carry c n sink y s)) c = None" by (simp add: end_carry_def Let_def)
  have "pass_at (snd (end_carry c n sink y s)) m = (if m = n then (pass_at s m)\<lparr>ps_busy := False\<rparr> else pass_at s m)" for m
    using len by (simp add: pass_at_def end_carry_def Let_def)
  moreover have "ps_number (pass_at s m) = m" for m by (simp add: pass_at_def Let_def)
  ultimately show "office_of (snd (end_carry c n sink y s)) = snd (office_step (office_of s) (Leave n))"
    using len by (auto simp: office_of_def fun_eq_iff map_option_case end_carry_def Let_def split: option.split)
qed

definition on_line :: "gateway \<Rightarrow> nat \<Rightarrow> gateway_out list \<Rightarrow> gateway \<Rightarrow> bool" where
  "on_line s c outs t \<longleftrightarrow>
     List.map_filter as_answer outs = [] \<and>
     (office_of t = office_of s \<and> busy_with t c = busy_with s c \<or>
      (\<exists>n. busy_with s c = Some n \<and> busy_with t c = None \<and> office_of t = snd (office_step (office_of s) (Leave n))))"

lemma agrees_line:
  assumes "means w s x = lets_go w s x c" "on_line s c (fst (do_gateway w s x)) (snd (do_gateway w s x))"
  shows "agrees w s x"
  using assms by (auto simp: agrees_def lets_go_def on_line_def split: option.split)

lemma on_line_stay:
  "List.map_filter as_answer outs = [] \<Longrightarrow> office_of t = office_of s \<Longrightarrow> busy_with t c = busy_with s c \<Longrightarrow> on_line s c outs t"
  by (simp add: on_line_def)

lemma on_line_nothing [simp]: "on_line s c [] s"
  by (rule on_line_stay) simp_all

lemma on_line_end:
  assumes "gate_inv u" "busy_with u c = Some n" "office_of u = office_of s" "busy_with s c = Some n"
  shows "on_line s c (fst (end_carry c n sink y u)) (snd (end_carry c n sink y u))"
  using office_end_carry [OF assms(1,2)] assms(3,4) by (simp add: on_line_def)

lemma office_count:
  assumes "gate_inv s" "busy_with s c = Some n"
  shows "office_of (count_bytes n k now s) = office_of s"
proof (rule office_kept)
  have len: "n < length (gw_objects s)" using assms unfolding gate_inv_def lines_inv_def by blast
  then show "pass_at (count_bytes n k now s) m = pass_at s m" for m
    by (simp add: pass_at_def count_bytes_def Let_def)
qed (use assms in \<open>simp_all add: gate_inv_def count_bytes_def\<close>)

lemma on_line_phase:
  assumes "office_of u = office_of s" "busy_with s c = carried_by p"
  shows "on_line s c [] (set_phase c p u)"
  using assms by (intro on_line_stay) simp_all

lemma agrees_connect: "gate_inv s \<Longrightarrow> agrees w s (ConnectsSink c e)"
  by (rule agrees_line) (auto simp: connect_sink_def busy_carrying
      intro!: on_line_end on_line_phase split: option.split phase.split)

lemma agrees_goes_on: "gate_inv s \<Longrightarrow> agrees w s (GoesOn c)"
  by (rule agrees_line) (auto simp: goes_on_def busy_carrying
      intro!: on_line_end on_line_phase split: option.split phase.split bool.split)

lemma on_line_feeds: "on_line s c outs t \<Longrightarrow> on_line s c (Feeds d n bs # outs) t"
  by (simp add: on_line_def)

lemma agrees_receive: "gate_inv s \<Longrightarrow> agrees w s (Receives c r now e)"
proof (rule agrees_line)
  assume inv: "gate_inv s"
  have bytes: "on_line s c (fst (take_bytes c n held bs now e s)) (snd (take_bytes c n held bs now e s))"
    if "dict_get (gw_phases s) c = Some (Carrying n held True)" for n held bs
  proof -
    have busy: "busy_with s c = Some n" using that by (simp add: busy_with_def)
    note count = gate_inv_count [OF inv busy, of "length bs" now] office_count [OF inv busy, of "length bs" now]
    show ?thesis unfolding take_bytes_def Let_def
      by (auto simp: busy count intro!: on_line_end on_line_phase on_line_feeds split: screened.split option.split)
  qed
  show "on_line s c (fst (do_gateway w s (Receives c r now e))) (snd (do_gateway w s (Receives c r now e)))"
    using bytes by (auto simp: receive_media_def intro!: on_line_end inv busy_carrying
        split: option.split phase.split bool.split received.split)
qed simp

lemma agrees_quiet:
  assumes "means w s x = []" "List.map_filter as_answer (fst (do_gateway w s x)) = []"
    "office_of (snd (do_gateway w s x)) = office_of s"
  shows "agrees w s x"
  using assms by (simp add: agrees_def)

lemma agrees_hang_up: "gate_inv s \<Longrightarrow> agrees w s (HangsUp k)"
proof (rule agrees_quiet)
  assume "gate_inv s"
  then have t: "table_inv s" by (simp add: gate_inv_def)
  have "office_of (snd (hang_up n y (s\<lparr>gw_ending := E\<rparr>))) = office_of s" for n y E
  proof (cases "n < length (gw_objects s)")
    case True
    then show ?thesis
      by (intro office_kept [OF t]) (auto simp: hang_up_def pass_at_def Let_def)
  next
    case False
    then show ?thesis by (intro office_same) (simp_all add: hang_up_def put_object_def Let_def list_update_beyond)
  qed
  then show "office_of (snd (do_gateway w s (HangsUp k))) = office_of s"
    by (simp add: hang_up_next_def split: prod.split)
  show "List.map_filter as_answer (fst (do_gateway w s (HangsUp k))) = []"
    by (auto simp: hang_up_next_def hang_up_def Let_def split: prod.split option.split)
qed simp

lemma agrees_greets: "agrees w s (Greets c incoming name f)"
proof (rule agrees_quiet)
  have "List.map_filter as_answer (fst (turn_down c y u)) = []" "office_of (snd (turn_down c y u)) = office_of u" for y u
    by (simp_all add: turn_down_def)
  then show "List.map_filter as_answer (fst (do_gateway w s (Greets c incoming name f))) = []"
    "office_of (snd (do_gateway w s (Greets c incoming name f))) = office_of s"
    by (auto simp: recognise_def split: option.split document.split prod.split sum.split)
qed simp

lemma agrees_step: "gate_inv s \<Longrightarrow> agrees w s x"
proof (cases x)
  case (StartsGateway p)
  then show ?thesis by (auto intro!: agrees_quiet office_same simp: start_gateway_def split: option.split)
next
  case Accepts
  then show ?thesis by (auto intro!: agrees_quiet office_same simp: accept_media_def)
next
  case (FailsTls c)
  then show ?thesis by (auto intro!: agrees_quiet simp: fail_tls_def)
next
  case (NodesStep fp y)
  then show ?thesis by (auto intro!: agrees_quiet)
qed (simp_all add: agrees_open agrees_renew agrees_close agrees_close_node agrees_expire agrees_stop agrees_enter
    agrees_connect agrees_goes_on agrees_receive agrees_hang_up agrees_greets)

interpretation door: simulation "do_gateway w" gate_inv office_step office_of "means w" as_answer
  for w :: gateway_world
proof
  show "gate_inv s \<Longrightarrow> gate_inv (snd (do_gateway w s e))" for s e by (rule gate_inv_step)
  show "concat qs = List.map_filter as_answer (fst (do_gateway w s e)) \<and> a = office_of (snd (do_gateway w s e))"
    if "gate_inv s" "run office_step (office_of s) (means w s e) = (qs, a)" for s e qs a
    using agrees_step [OF that(1), of w e] that(2) by (simp add: agrees_def)
qed

definition new_office :: "int \<Rightarrow> office" where
  "new_office most = \<lparr>of_most = most, of_next = 0, of_passes = (\<lambda>i. None)\<rparr>"

text \<open>
  C6. The gateway is the ticket office: whatever happens on its port, in its threads and in the
  registry, the streams it issues, extends and withdraws and the connections it lets in are those
  of the office for the events the inputs stand for; its streams are the office's passes at every
  moment.
\<close>

theorem gateway_is_the_ticket_office:
  "List.map_filter as_answer (concat (fst (run (do_gateway w) (new_gateway m r) xs))) =
     concat (fst (run office_step (new_office (max_streams m)) (door.story w (new_gateway m r) xs))) \<and>
   office_of (snd (run (do_gateway w) (new_gateway m r) xs)) =
     snd (run office_step (new_office (max_streams m)) (door.story w (new_gateway m r) xs))"
proof -
  have "office_of (new_gateway m r) = new_office (max_streams m)"
    by (simp add: office_of_def new_gateway_def new_office_def fun_eq_iff)
  then show ?thesis using door.run_agrees [OF gate_inv_new [of m r], of w xs] by simp
qed


end
