(* ===== verification/Carried.thy ===== *)
theory Carried
  imports Tickets
begin

section \<open>Where the pictures come from\<close>

text \<open>
  What a sink is fed goes back to a ticket of the hub, a header that names it and the registry's
  word for the node; a revoked node has no such word; and a decoder gets the stream from its
  first keyframe on, however it was cut.
\<close>

declare map_of_eq_Some_iff [simp del] Some_eq_map_of_iff [simp del]

subsection \<open>The way in\<close>

fun ticket_in :: "gateway_input \<times> gateway_out list \<Rightarrow> (string \<times> string \<times> string \<times> string) option" where
  "ticket_in (Opens node src tells secs kind name token now, [Opened k]) = Some (node, src, kind, token)"
| "ticket_in _ = None"

definition tickets :: "(gateway_input \<times> gateway_out list) list \<Rightarrow> (string \<times> string \<times> string \<times> string) list" where
  "tickets h = List.map_filter ticket_in h"

definition header_of :: "gateway_world \<Rightarrow> byte list \<Rightarrow> (string, document) dict option" where
  "header_of w incoming =
     (case header_line [] incoming of
        None \<Rightarrow> None
      | Some line \<Rightarrow> (case gw_json w line of Some (Table t) \<Rightarrow> Some t | _ \<Rightarrow> None))"

text \<open>The connection sent this header and the registry took it for the node.\<close>

definition vouched ::
  "gateway_world \<Rightarrow> (gateway_input \<times> gateway_out list) list \<Rightarrow> nat \<Rightarrow> string \<Rightarrow> (string, document) dict \<Rightarrow> bool" where
  "vouched w h c node t \<longleftrightarrow>
     (\<exists>incoming name f. (Greets c incoming name f, [Trusts c node]) \<in> set h \<and> header_of w incoming = Some t)"

text \<open>The connection may deliver the n-th stream the hub opened.\<close>

definition entitled :: "gateway_world \<Rightarrow> (gateway_input \<times> gateway_out list) list \<Rightarrow> nat \<Rightarrow> nat \<Rightarrow> bool" where
  "entitled w h c n \<longleftrightarrow>
     (\<exists>node src kind token t token'.
        n < length (tickets h) \<and> tickets h ! n = (node, src, kind, token) \<and> vouched w h c node t \<and>
        dict_get t ''source_id'' = Some (Text src) \<and> get_or (Text ''video'') t ''kind'' = Text kind \<and>
        dict_get t ''token'' = Some (Text token') \<and> gw_sha w token' = gw_sha w token \<and>
        (\<exists>now later. (Enters c now later, [Takes c n, Answers c None]) \<in> set h))"

definition identity_at :: "gateway \<Rightarrow> nat \<Rightarrow> string \<times> string \<times> string \<times> string" where
  "identity_at s n = (gs_node (object_of s n), gs_source (object_of s n), gs_kind (object_of s n), gs_digest (object_of s n))"

definition remembers :: "gateway_world \<Rightarrow> gateway \<Rightarrow> (gateway_input \<times> gateway_out list) list \<Rightarrow> bool" where
  "remembers w s h \<longleftrightarrow>
     gate_inv s \<and> length (gw_objects s) = length (tickets h) \<and>
     (\<forall>n < length (tickets h). \<forall>node src kind token.
        tickets h ! n = (node, src, kind, token) \<longrightarrow> identity_at s n = (node, src, kind, gw_sha w token)) \<and>
     (\<forall>c node t. dict_get (gw_phases s) c = Some (Recognised node t) \<longrightarrow> vouched w h c node t) \<and>
     (\<forall>c n. busy_with s c = Some n \<longrightarrow> entitled w h c n)"

lemma tickets_snoc: "tickets (h @ [z]) = tickets h @ (case ticket_in z of None \<Rightarrow> [] | Some k \<Rightarrow> [k])"
  by (simp add: tickets_def split: option.split)

lemma vouched_more: "vouched w h c node t \<Longrightarrow> vouched w (h @ [z]) c node t"
  by (auto simp: vouched_def)

lemma entitled_more: "entitled w h c n \<Longrightarrow> entitled w (h @ [z]) c n"
  unfolding entitled_def tickets_snoc
  by (auto simp: nth_append intro: vouched_more) (metis UnCI set_append vouched_more)+

text \<open>Nothing but a greeting, an entry and a new ticket adds to what there is to remember.\<close>

definition adds_nothing :: "gateway \<Rightarrow> gateway \<Rightarrow> bool" where
  "adds_nothing s t \<longleftrightarrow>
     length (gw_objects t) = length (gw_objects s) \<and>
     (\<forall>n < length (gw_objects s). identity_at t n = identity_at s n) \<and>
     (\<forall>c node t'. dict_get (gw_phases t) c = Some (Recognised node t') \<longrightarrow>
        dict_get (gw_phases s) c = Some (Recognised node t')) \<and>
     (\<forall>c n. busy_with t c = Some n \<longrightarrow> busy_with s c = Some n)"

lemma remembers_more:
  assumes "remembers w s h" "gate_inv t" "adds_nothing s t" "ticket_in z = None"
  shows "remembers w t (h @ [z])"
  using assms unfolding remembers_def adds_nothing_def tickets_snoc
  by (auto intro!: vouched_more entitled_more)

lemma adds_nothing_same:
  assumes "gw_objects t = gw_objects s" "gw_phases t = gw_phases s"
  shows "adds_nothing s t"
  using assms by (simp add: adds_nothing_def identity_at_def busy_with_def)

lemma adds_nothing_trans: "adds_nothing s t \<Longrightarrow> adds_nothing t u \<Longrightarrow> adds_nothing s u"
  unfolding adds_nothing_def by auto

lemma adds_nothing_put:
  assumes "gs_node g = gs_node (object_of s n)" "gs_source g = gs_source (object_of s n)"
    "gs_kind g = gs_kind (object_of s n)" "gs_digest g = gs_digest (object_of s n)"
  shows "adds_nothing s (put_object n g s)"
proof -
  have "identity_at (put_object n g s) m = identity_at s m" if "m < length (gw_objects s)" for m
    using that assms by (cases "m = n") (simp_all add: identity_at_def put_object_def)
  then show ?thesis by (simp add: adds_nothing_def)
qed

lemma adds_nothing_hangs: "adds_nothing s (hangs c s)"
  by (auto simp: adds_nothing_def identity_at_def split: if_splits)

lemma adds_nothing_phase:
  assumes "carried_by p = None \<or> carried_by p = busy_with s c" "\<And>node t. p \<noteq> Recognised node t"
  shows "adds_nothing s (set_phase c p s)"
  using assms by (auto simp: adds_nothing_def identity_at_def split: if_splits)

lemma adds_nothing_end: "adds_nothing s (snd (end_carry c n sink y s))"
  unfolding end_carry_def Let_def snd_conv
  by (rule adds_nothing_trans [OF adds_nothing_put adds_nothing_hangs]) simp_all

lemma adds_nothing_count: "adds_nothing s (count_bytes n k now s)"
  unfolding count_bytes_def by (rule adds_nothing_put) simp_all

lemma adds_nothing_refuse: "adds_nothing s (refuse_media y s)"
  by (rule adds_nothing_same) simp_all

lemma adds_nothing_turn_down: "adds_nothing s (snd (turn_down c y s))"
  unfolding turn_down_def snd_conv by (rule adds_nothing_trans [OF adds_nothing_hangs adds_nothing_refuse])

lemma adds_nothing_take:
  assumes "dict_get (gw_phases s) c = Some (Carrying n held True)"
  shows "adds_nothing s (snd (take_bytes c n held bs now e s))"
proof -
  have "adds_nothing (count_bytes n k now s) (set_phase c (Carrying n h b) (count_bytes n k now s))" for k h b
    using assms by (intro adds_nothing_phase) (auto simp: busy_with_def)
  then show ?thesis
    by (auto simp: take_bytes_def Let_def split: screened.split option.split
        intro: adds_nothing_trans [OF adds_nothing_count] adds_nothing_end)
qed

lemma adds_nothing_step:
  assumes "\<And>node src tells secs kind name token now. x \<noteq> Opens node src tells secs kind name token now"
    "\<And>c incoming name f. x \<noteq> Greets c incoming name f" "\<And>c now later. x \<noteq> Enters c now later"
  shows "adds_nothing s (snd (do_gateway w s x))"
proof (cases x)
  case (Renews name secs now)
  then show ?thesis
    by (auto simp: renew_ticket_def adds_nothing_same split: option.split intro!: adds_nothing_put)
next
  case (HangsUp k)
  have "adds_nothing s (snd (hang_up n y (s\<lparr>gw_ending := E\<rparr>)))" for n y E
    unfolding hang_up_def Let_def snd_conv
    by (rule adds_nothing_trans [OF adds_nothing_same adds_nothing_put]) simp_all
  with HangsUp show ?thesis by (auto simp: hang_up_next_def adds_nothing_same split: prod.split)
next
  case Accepts
  then show ?thesis
    by (auto simp: accept_media_def adds_nothing_same adds_nothing_refuse
        intro!: adds_nothing_trans [OF adds_nothing_same adds_nothing_phase])
next
  case (FailsTls c)
  then show ?thesis
    by (auto simp: fail_tls_def adds_nothing_same intro!: adds_nothing_trans [OF adds_nothing_hangs adds_nothing_refuse])
next
  case (ConnectsSink c e)
  then show ?thesis
    by (auto simp: connect_sink_def adds_nothing_same adds_nothing_end busy_with_def
        split: option.split phase.split intro!: adds_nothing_phase)
next
  case (GoesOn c)
  then show ?thesis
    by (auto simp: goes_on_def adds_nothing_same adds_nothing_end busy_with_def
        split: option.split phase.split bool.split intro!: adds_nothing_phase)
next
  case (Receives c r now e)
  then show ?thesis
    by (auto simp: receive_media_def adds_nothing_same adds_nothing_end adds_nothing_take
        split: option.split phase.split bool.split received.split)
qed (use assms in \<open>auto simp: start_gateway_def stop_gateway_def close_ticket_def close_node_def Let_def expire_streams_def
    take_out_def split: option.split intro!: adds_nothing_same\<close>)

lemma remembers_open:
  assumes "remembers w s h"
  shows "remembers w (snd (do_gateway w s (Opens node src tells secs kind name token now)))
    (h @ [(Opens node src tells secs kind name token now, fst (do_gateway w s (Opens node src tells secs kind name token now)))])"
proof (cases "fst (open_stream w node src tells secs kind name token now s)")
  case (Inl e)
  then have "snd (open_stream w node src tells secs kind name token now s) = s"
    by (auto simp: open_stream_def Let_def split: if_splits)
  with Inl show ?thesis using assms
    by (auto simp: remembers_def split_beta tickets_snoc intro: vouched_more entitled_more)
next
  case (Inr k)
  let ?x = "Opens node src tells secs kind name token now"
  define u where "u = snd (open_stream w node src tells secs kind name token now s)"
  have u: "length (gw_objects u) = Suc (length (gw_objects s))" "gw_phases u = gw_phases s"
    "identity_at u (length (gw_objects s)) = (node, src, kind, gw_sha w token)"
    "n < length (gw_objects s) \<Longrightarrow> identity_at u n = identity_at s n" for n
    using Inr by (auto simp: u_def open_stream_def Let_def identity_at_def nth_append split: if_splits)
  have inv: "gate_inv u" using assms gate_inv_open by (simp add: remembers_def u_def)
  have step: "do_gateway w s ?x = ([Opened k], u)" using Inr by (simp add: split_beta u_def)
  have "busy_with u = busy_with s" using u(2) by (simp add: busy_with_def fun_eq_iff)
  moreover have len: "length (gw_objects s) = length (tickets h)" using assms by (simp add: remembers_def)
  moreover have "identity_at u n = (a, b, c, gw_sha w d)"
    if "n < Suc (length (tickets h))" "(tickets h @ [(node, src, kind, token)]) ! n = (a, b, c, d)" for n a b c d
    using that assms u(3,4) len by (cases "n = length (tickets h)") (auto simp: remembers_def nth_append)
  ultimately show ?thesis using assms inv u(1,2) unfolding step remembers_def tickets_snoc
    by (auto intro: vouched_more entitled_more)
qed

lemma remembers_greet:
  assumes "remembers w s h"
  shows "remembers w (snd (do_gateway w s (Greets c incoming name f)))
    (h @ [(Greets c incoming name f, fst (do_gateway w s (Greets c incoming name f)))])"
proof -
  let ?x = "Greets c incoming name f"
  have inv: "gate_inv (snd (do_gateway w s ?x))" using assms gate_inv_step by (simp only: remembers_def)
  show ?thesis
  proof (cases "\<exists>node t r. do_gateway w s ?x = ([Trusts c node], set_phase c (Recognised node t) (s\<lparr>gw_nodes := r\<rparr>)) \<and>
      header_of w incoming = Some t")
    case True
    then obtain node t r where step: "do_gateway w s ?x = ([Trusts c node], set_phase c (Recognised node t) (s\<lparr>gw_nodes := r\<rparr>))"
      and t: "header_of w incoming = Some t" by blast
    have "vouched w (h @ [(?x, [Trusts c node])]) c node t" using t by (auto simp: vouched_def)
    then show ?thesis using assms inv unfolding step
      by (auto simp: remembers_def tickets_snoc identity_at_def busy_with_def
          intro: vouched_more entitled_more split: if_splits option.splits)
  next
    case False
    have "adds_nothing s (snd (recognise w c incoming name f s))"
      using False
      by (auto simp: recognise_def header_of_def adds_nothing_same
          intro!: adds_nothing_trans [OF adds_nothing_hangs adds_nothing_refuse]
            adds_nothing_trans [OF adds_nothing_same adds_nothing_turn_down] adds_nothing_turn_down
          split: option.split option.split_asm document.split document.split_asm prod.split prod.split_asm
            sum.split sum.split_asm) blast
    then show ?thesis using remembers_more [OF assms inv] by simp
  qed
qed

lemma remembers_enter:
  assumes "remembers w s h"
  shows "remembers w (snd (do_gateway w s (Enters c now later)))
    (h @ [(Enters c now later, fst (do_gateway w s (Enters c now later)))])"
proof -
  let ?x = "Enters c now later"
  have inv: "gate_inv s" "gate_inv (snd (do_gateway w s ?x))"
    using assms gate_inv_step by (simp_all only: remembers_def)
  show ?thesis
  proof (cases "\<exists>node t. dict_get (gw_phases s) c = Some (Recognised node t) \<and> objection w node t now s = None")
    case True
    then obtain node t where p: "dict_get (gw_phases s) c = Some (Recognised node t)" "objection w node t now s = None" by blast
    then obtain n where n: "stream_named t s = Some n" "gs_node (object_of s n) = node"
        "dict_get t ''source_id'' = Some (Text (gs_source (object_of s n)))"
        "get_or (Text ''video'') t ''kind'' = Text (gs_kind (object_of s n))" "token_fits w t (gs_digest (object_of s n))"
      by (auto simp: objection_def Let_def split: option.splits if_splits)
    then obtain token' where token': "dict_get t ''token'' = Some (Text token')" "gw_sha w token' = gs_digest (object_of s n)"
      by (auto simp: token_fits_def split: option.splits document.splits json_value.splits)
    obtain i where "dict_get (gw_table s) i = Some n"
      using n(1) by (auto simp: stream_named_def split: option.splits document.splits json_value.splits)
    then have len: "n < length (gw_objects s)" using inv(1) tabled(1) by (auto simp: gate_inv_def)
    obtain node' src kind token where tk: "tickets h ! n = (node', src, kind, token)" by (cases "tickets h ! n") auto
    with assms len have id: "identity_at s n = (node', src, kind, gw_sha w token)" "n < length (tickets h)"
      by (auto simp: remembers_def)
    let ?z = "(?x, [Takes c n, Answers c None])"
    have "vouched w (h @ [?z]) c node t" using assms p(1) by (auto simp: remembers_def intro: vouched_more)
    then have entitled: "entitled w (h @ [?z]) c n"
      unfolding entitled_def tickets_snoc using id tk n token' by (auto simp: identity_at_def nth_append)
    define u where "u = put_object n ((object_of s n)\<lparr>gs_connection := Some c,
      gs_connections := Suc (gs_connections (object_of s n)), gs_last := Some later\<rparr>) s"
    have step: "do_gateway w s ?x = ([Takes c n, Answers c None], set_phase c (Let_in n) u)"
      using p n(1) by (simp add: let_in_def Let_def u_def)
    have "adds_nothing s u" unfolding u_def by (rule adds_nothing_put) simp_all
    then show ?thesis using assms inv(2) entitled unfolding step
      by (auto simp: remembers_def adds_nothing_def tickets_snoc identity_at_def
          intro: vouched_more entitled_more split: if_splits)
  next
    case False
    have "adds_nothing s (snd (let_in w c now later s))" "ticket_in (?x, fst (let_in w c now later s)) = None"
      using False by (auto simp: let_in_def adds_nothing_same adds_nothing_turn_down split: option.split phase.split)
    then show ?thesis using remembers_more [OF assms inv(2)] by simp
  qed
qed

lemma remembers_step:
  assumes "remembers w s h"
  shows "remembers w (snd (do_gateway w s x)) (h @ [(x, fst (do_gateway w s x))])"
proof -
  have "gate_inv (snd (do_gateway w s x))" using assms gate_inv_step by (simp only: remembers_def)
  note more = remembers_more [OF assms this adds_nothing_step, of "(x, fst (do_gateway w s x))"]
  show ?thesis
    using remembers_open [OF assms] remembers_greet [OF assms] remembers_enter [OF assms] more
    by (cases x) (blast | simp)+
qed

lemma remembers_new: "remembers w (new_gateway m r) []"
  by (simp add: remembers_def gate_inv_new tickets_def) (simp add: new_gateway_def busy_with_def)

lemma feeds_busy: "Feeds c n bs \<in> set (fst (do_gateway w s x)) \<Longrightarrow> busy_with s c = Some n"
proof (cases x)
  case (Receives d r now e)
  assume "Feeds c n bs \<in> set (fst (do_gateway w s x))"
  with Receives show ?thesis
    by (auto simp: receive_media_def take_bytes_def end_carry_def Let_def busy_with_def
        split: option.splits phase.splits bool.splits received.splits if_splits screened.splits)
qed (auto simp: start_gateway_def hang_up_next_def hang_up_def accept_media_def recognise_def turn_down_def let_in_def
    connect_sink_def goes_on_def end_carry_def Let_def
    split: option.splits prod.splits sum.splits document.splits phase.splits bool.splits if_splits)

interpretation door: remembering "do_gateway w" "new_gateway m r" "remembers w"
    "\<lambda>h x out. \<forall>c n bs. Feeds c n bs \<in> set out \<longrightarrow> entitled w h c n"
  for w :: gateway_world and m :: media_settings and r :: node_registry
proof
  show "remembers w (new_gateway m r) []" by (rule remembers_new)
  show "remembers w (snd (do_gateway w s e)) (h @ [(e, fst (do_gateway w s e))])" if "remembers w s h" for s h e
    using that by (rule remembers_step)
  show "\<forall>c n bs. Feeds c n bs \<in> set (fst (do_gateway w s e)) \<longrightarrow> entitled w h c n" if "remembers w s h" for s h e
    using that feeds_busy unfolding remembers_def by blast
qed

text \<open>
  C7. Whatever a sink is fed comes from the holder of the ticket: for the n-th stream the hub
  opened, over a connection whose header named that stream's source, kind and token, whose
  certificate the registry took for the node the stream was opened for, and that was let in; and
  no two connections ever deliver one stream.
\<close>

theorem media_only_for_its_ticket:
  assumes "trace (do_gateway w) (new_gateway m r) xs = h @ (x, outs) # t" "Feeds c n bs \<in> set outs"
  shows "entitled w h c n \<and>
    (\<forall>d. busy_with (snd (run (do_gateway w) (new_gateway m r) (map fst h))) d = Some n \<longleftrightarrow> d = c)"
proof
  from door.trace_good [OF assms(1)] assms(2) show "entitled w h c n" by blast
  from assms(1) obtain ys zs where ys: "xs = ys @ x # zs" "h = trace (do_gateway w) (new_gateway m r) ys"
      "outs = fst (do_gateway w (snd (run (do_gateway w) (new_gateway m r) ys)) x)"
    by (rule trace_split)
  let ?s = "snd (run (do_gateway w) (new_gateway m r) ys)"
  have "gate_inv ?s" using door.run_knows [of w m r ys] by (simp add: remembers_def)
  moreover have "busy_with ?s c = Some n" using assms(2) ys(3) feeds_busy by blast
  ultimately have "busy_with ?s d = Some n \<longleftrightarrow> d = c" for d
    unfolding gate_inv_def lines_inv_def by (metis option.inject)
  then show "\<forall>d. busy_with (snd (run (do_gateway w) (new_gateway m r) (map fst h))) d = Some n \<longleftrightarrow> d = c"
    by (simp add: ys(2))
qed

subsection \<open>A revoked node stays outside\<close>

text \<open>From a revocation on, until somebody approves the node, the door never takes its certificate.\<close>

fun lets_approve :: "string \<Rightarrow> gateway_input \<Rightarrow> bool" where
  "lets_approve n (NodesStep fp e) = step_approves n e"
| "lets_approve n _ = False"

lemma barred_recognise:
  "barred n (gw_nodes s) \<Longrightarrow> barred n (gw_nodes (snd (recognise w c incoming name f s))) \<and>
     Trusts d n \<notin> set (fst (recognise w c incoming name f s))"
proof -
  assume bar: "barred n (gw_nodes s)"
  show ?thesis using barred_authenticate [OF bar]
    by (auto simp: recognise_def turn_down_def hangs_def refuse_media_def set_phase_def bar
        split: option.split document.split prod.split sum.split) (metis fst_conv snd_conv)+
qed

lemma nodes_steady:
  assumes "\<And>fp e. x \<noteq> NodesStep fp e" "\<And>c incoming name f. x \<noteq> Greets c incoming name f"
  shows "gw_nodes (snd (do_gateway w s x)) = gw_nodes s" "Trusts d n \<notin> set (fst (do_gateway w s x))"
  using assms by (cases x; auto simp: start_gateway_def stop_gateway_def open_stream_def renew_ticket_def close_ticket_def
      close_node_def take_out_def expire_streams_def hang_up_next_def hang_up_def accept_media_def fail_tls_def
      let_in_def turn_down_def connect_sink_def goes_on_def receive_media_def take_bytes_def count_bytes_def end_carry_def
      put_object_def set_phase_def hangs_def refuse_media_def Let_def
      split: option.splits prod.splits sum.splits phase.splits bool.splits received.splits screened.splits if_splits)+

interpretation outside: guarded_machine "do_gateway w" "\<lambda>s. barred n (gw_nodes s)" "\<lambda>x. \<not> lets_approve n x"
  for w :: gateway_world and n :: string
proof
  fix s :: gateway and x
  assume bar: "barred n (gw_nodes s)" "\<not> lets_approve n x"
  show "barred n (gw_nodes (snd (do_gateway w s x)))"
  proof (cases x)
    case (NodesStep fp e)
    then show ?thesis using permission.step_keeps [of n "gw_nodes s" e fp] bar by simp
  next
    case (Greets c incoming name f)
    then show ?thesis using barred_recognise [OF bar(1)] by simp
  qed (use bar(1) nodes_steady(1) [of x w s] in auto)
qed

lemma revoked_node_stays_outside:
  assumes "barred n (gw_nodes s)" "\<forall>x \<in> set xs. \<not> lets_approve n x"
  shows "Trusts c n \<notin> set (concat (fst (run (do_gateway w) s xs)))"
  using assms
proof (induction xs arbitrary: s)
  case (Cons x xs)
  have "Trusts c n \<notin> set (fst (do_gateway w s x))"
    using barred_recognise [OF Cons.prems(1)] nodes_steady(2) [of x] by (cases x) auto
  moreover have "barred n (gw_nodes (snd (do_gateway w s x)))"
    using outside.step_keeps [OF Cons.prems(1), of x] Cons.prems(2) by simp
  ultimately show ?case using Cons by simp
qed simp

subsection \<open>What a decoder gets\<close>

definition fed :: "nat \<Rightarrow> gateway_out list \<Rightarrow> byte list" where
  "fed c outs = concat (List.map_filter (\<lambda>x. case x of Feeds d n bs \<Rightarrow> if d = c then Some bs else None | _ \<Rightarrow> None) outs)"

definition arrives :: "nat \<Rightarrow> seconds \<Rightarrow> byte list \<Rightarrow> gateway_input list" where
  "arrives c now bs = [GoesOn c, Receives c (Bytes bs) now None]"

lemma fed_append: "fed c (xs @ ys) = fed c xs @ fed c ys"
  by (simp add: fed_def)

lemma arrives_step:
  assumes "dict_get (gw_phases s) c = Some (Carrying n held False)" "\<not> gw_stopping s" "bs \<noteq> []"
  shows "fed c (concat (fst (run (do_gateway w) s (arrives c now bs)))) =
      (case screen_bytes held bs of Goes out \<Rightarrow> out | _ \<Rightarrow> [])"
    "screen_bytes held bs = Goes out \<Longrightarrow>
      dict_get (gw_phases (snd (run (do_gateway w) s (arrives c now bs)))) c = Some (Carrying n None False)"
    "screen_bytes held bs = Waits v \<Longrightarrow>
      dict_get (gw_phases (snd (run (do_gateway w) s (arrives c now bs)))) c = Some (Carrying n (Some v) False)"
    "screen_bytes held bs \<noteq> GivesUp \<Longrightarrow> \<not> gw_stopping (snd (run (do_gateway w) s (arrives c now bs)))"
  using assms
  by (auto simp: arrives_def goes_on_def receive_media_def take_bytes_def Let_def fed_def end_carry_def count_bytes_def
      split: screened.split)

lemma all_goes_on:
  assumes "dict_get (gw_phases s) c = Some (Carrying n None False)" "\<not> gw_stopping s" "[] \<notin> set cs"
  shows "fed c (concat (fst (run (do_gateway w) s (concat (map (arrives c now) cs))))) = concat cs"
  using assms
proof (induction cs arbitrary: s)
  case Nil
  then show ?case by (simp add: fed_def)
next
  case (Cons b cs)
  have goes: "screen_bytes None b = Goes b" by (simp add: screen_bytes_def)
  have b: "b \<noteq> []" using Cons.prems(3) by auto
  let ?t = "snd (run (do_gateway w) s (arrives c now b))"
  note step = arrives_step [OF Cons.prems(1,2) b]
  have "fed c (concat (fst (run (do_gateway w) ?t (concat (map (arrives c now) cs))))) = concat cs"
    using Cons.prems step(2) [OF goes] step(4) goes by (intro Cons.IH) auto
  then show ?case using step(1) goes by (simp add: run_append fed_append)
qed

lemma screened_in_time:
  assumes "dict_get (gw_phases s) c = Some (Carrying n (Some v) False)" "\<not> gw_stopping s" "[] \<notin> set cs"
    "keyframe_offset v = None" "length (v @ concat cs) \<le> most_waiting"
  shows "fed c (concat (fst (run (do_gateway w) s (concat (map (arrives c now) cs))))) = from_keyframe (v @ concat cs)"
  using assms
proof (induction cs arbitrary: s v)
  case Nil
  then show ?case by (simp add: fed_def from_keyframe_def)
next
  case (Cons b cs)
  have b: "b \<noteq> []" "[] \<notin> set cs" using Cons.prems(3) by auto
  let ?t = "snd (run (do_gateway w) s (arrives c now b))"
  note step = arrives_step [OF Cons.prems(1,2) b(1)]
  show ?case
  proof (cases "keyframe_offset (v @ b)")
    case None
    then have waits: "screen_bytes (Some v) b = Waits (v @ b)" using Cons.prems(5) by (simp add: screen_bytes_def)
    have "fed c (concat (fst (run (do_gateway w) ?t (concat (map (arrives c now) cs))))) = from_keyframe ((v @ b) @ concat cs)"
      using Cons.prems(5) step(3) [OF waits] step(4) waits None b(2) by (intro Cons.IH) auto
    then show ?thesis using step(1) waits by (simp add: run_append fed_append)
  next
    case (Some k)
    then have goes: "screen_bytes (Some v) b = Goes (from_keyframe (v @ b))" by (simp add: screen_bytes_def from_keyframe_def)
    have "fed c (concat (fst (run (do_gateway w) ?t (concat (map (arrives c now) cs))))) = concat cs"
      using step(2) [OF goes] step(4) goes b(2) by (intro all_goes_on) auto
    then show ?thesis using step(1) goes from_keyframe_append [of "v @ b" "concat cs"] Some
      by (simp add: run_append fed_append)
  qed
qed


subsection \<open>The camera in the hall\<close>

definition hall_world :: gateway_world where
  "hall_world =
     \<lparr>gw_json = (\<lambda>line. Some (Table [(''schema_version'', Whole 1), (''stream_id'', Text ''s1''),
        (''source_id'', Text ''camera''), (''token'', Text ''k'')])),
      gw_sha = (\<lambda>x. x)\<rparr>"

definition hall_door :: gateway where
  "hall_door = new_gateway default_media (hub_registry [hall_node])"

definition hall_inputs :: "gateway_input list" where
  "hall_inputs =
     [StartsGateway (Some 8555), Opens ''hall'' ''camera'' True None ''video'' ''s1'' ''k'' 0, Accepts,
      Greets 0 [123, 125, 10] (Some ''hall'') (nd_fingerprint hall_node), Enters 0 1 1, ConnectsSink 0 None, GoesOn 0]"

lemma media_only_for_its_ticket_witness:
  "entitled hall_world (trace (do_gateway hall_world) hall_door hall_inputs) 0 0"
proof -
  have "fst (do_gateway hall_world (snd (run (do_gateway hall_world) hall_door hall_inputs))
      (Receives 0 (Bytes [9, 0, 0, 1, 103]) 2 None)) = [Feeds 0 0 [0, 0, 1, 103]]"
    by code_simp
  then have "trace (do_gateway hall_world) hall_door (hall_inputs @ [Receives 0 (Bytes [9, 0, 0, 1, 103]) 2 None]) =
      trace (do_gateway hall_world) hall_door hall_inputs @ (Receives 0 (Bytes [9, 0, 0, 1, 103]) 2 None, [Feeds 0 0 [0, 0, 1, 103]]) # []"
    by (simp add: trace_snoc)
  from media_only_for_its_ticket [OF this [unfolded hall_door_def], of 0 0 "[0, 0, 1, 103]"]
  show ?thesis by (simp add: hall_door_def)
qed


end
