(* ===== verification/Contract.thy ===== *)
theory Contract
  imports Sessions Gateway Commands
begin

section \<open>What the hub says and what a node answers\<close>

text \<open>
  \<open>src/sentry_mode/satellites/control.py\<close>: the contract of the commands and their answers, with
  every bound and every rule about which field belongs to which action; and the commands the
  service really sends (\<open>_command\<close> and its callers in \<open>service.py\<close>, \<open>as_command\<close> in \<open>sessions.py\<close>),
  as the documents they become. The identifier of a grant is the text of a UUID, whose syntax is
  not looked into; the state and health messages of the contract are not modelled.
\<close>

subsection \<open>The contract of a command\<close>

definition most_text :: nat where "most_text = 128"
definition most_id :: nat where "most_id = 64"
definition most_detail :: nat where "most_detail = 256"
definition most_stream_seconds :: rat where "most_stream_seconds = 600"

definition driver_name :: "string \<Rightarrow> bool" where
  "driver_name s \<longleftrightarrow>
     (case s of
        [] \<Rightarrow> False
      | c # cs \<Rightarrow> c \<in> set lower \<and> length cs \<le> 31 \<and> list_all (\<lambda>x. x \<in> set (lower @ digits @ ''_'')) cs)"

text \<open>A source of a \<open>configure\<close> command; what else it carries stands beside its name and kind.\<close>

record configured_source =
  cf_id :: string
  cf_kind :: string
  cf_extra :: "(string, document) dict"

definition plain_value :: "document \<Rightarrow> bool" where
  "plain_value d = (case d of Plain (JStr s) \<Rightarrow> length s \<le> most_text | Plain _ \<Rightarrow> True | _ \<Rightarrow> False)"

definition configured_ok :: "configured_source \<Rightarrow> bool" where
  "configured_ok c \<longleftrightarrow>
     valid_name (cf_id c) \<and> driver_name (cf_kind c) \<and> list_all plain_value (dict_values (cf_extra c)) \<and>
     dict_get (cf_extra c) ''id'' = None \<and> dict_get (cf_extra c) ''kind'' = None"

text \<open>\<open>hc_said\<close> are the fields that were given (\<open>model_fields_set\<close>); the others have their defaults.\<close>

record hub_command =
  hc_id :: string
  hc_action :: string
  hc_node :: string
  hc_epoch :: int
  hc_capability :: "string option"
  hc_grant :: "string option"
  hc_duration :: rat
  hc_sequence :: int
  hc_revision :: int
  hc_sources :: "configured_source list"
  hc_stream :: "string option"
  hc_source :: "string option"
  hc_port :: "int option"
  hc_token :: "string option"
  hc_said :: "string list"

definition says_any :: "hub_command \<Rightarrow> string list \<Rightarrow> bool" where
  "says_any c ks \<longleftrightarrow> list_ex (\<lambda>k. k \<in> set (hc_said c)) ks"

definition hub_defaults_ok :: "hub_command \<Rightarrow> bool" where
  "hub_defaults_ok c \<longleftrightarrow>
     (''capability'' \<notin> set (hc_said c) \<longrightarrow> hc_capability c = None) \<and>
     (''grant_id'' \<notin> set (hc_said c) \<longrightarrow> hc_grant c = None) \<and>
     (''duration_seconds'' \<notin> set (hc_said c) \<longrightarrow> hc_duration c = 0) \<and>
     (''sequence'' \<notin> set (hc_said c) \<longrightarrow> hc_sequence c = 0) \<and>
     (''revision'' \<notin> set (hc_said c) \<longrightarrow> hc_revision c = 0) \<and>
     (''sources'' \<notin> set (hc_said c) \<longrightarrow> hc_sources c = []) \<and>
     (''stream_id'' \<notin> set (hc_said c) \<longrightarrow> hc_stream c = None) \<and>
     (''source_id'' \<notin> set (hc_said c) \<longrightarrow> hc_source c = None) \<and>
     (''port'' \<notin> set (hc_said c) \<longrightarrow> hc_port c = None) \<and>
     (''token'' \<notin> set (hc_said c) \<longrightarrow> hc_token c = None)"

definition hub_fields_ok :: "hub_command \<Rightarrow> bool" where
  "hub_fields_ok c \<longleftrightarrow>
     1 \<le> length (hc_id c) \<and> length (hc_id c) \<le> most_id \<and> hc_action c \<in> set actions_known \<and>
     valid_name (hc_node c) \<and> 0 \<le> hc_epoch c \<and> pred_option (\<lambda>x. x \<in> set capability_names) (hc_capability c) \<and>
     0 \<le> hc_duration c \<and> 0 \<le> hc_sequence c \<and> 0 \<le> hc_revision c \<and>
     list_all configured_ok (hc_sources c) \<and> length (hc_sources c) \<le> most_sources \<and>
     pred_option stream_name (hc_stream c) \<and> pred_option valid_name (hc_source c) \<and>
     pred_option (\<lambda>p. 1024 \<le> p \<and> p \<le> 65535) (hc_port c) \<and> pred_option stream_token (hc_token c) \<and>
     set (hc_said c) \<subseteq> set command_fields \<and>
     {''command_id'', ''action'', ''node_id'', ''hub_epoch''} \<subseteq> set (hc_said c)"

text \<open>\<open>_stream\<close>: what a media command has to say of its stream, and what it may not.\<close>

definition hub_stream_ok :: "hub_command \<Rightarrow> bool" where
  "hub_stream_ok c \<longleftrightarrow>
     hc_stream c \<noteq> None \<and>
     (if ends_with ''_stop'' (hc_action c) then \<not> says_any c [''source_id'', ''port'', ''token'']
      else
        0 < hc_duration c \<and> hc_duration c \<le> most_stream_seconds \<and>
        (if ends_with ''_renew'' (hc_action c) then \<not> says_any c [''source_id'', ''port'', ''token'']
         else hc_source c \<noteq> None \<and> hc_port c \<noteq> None \<and> hc_token c \<noteq> None))"

definition hub_command_ok :: "hub_command \<Rightarrow> bool" where
  "hub_command_ok c \<longleftrightarrow>
     hub_defaults_ok c \<and> hub_fields_ok c \<and>
     (hc_action c \<in> {''grant'', ''renew'', ''revoke''} \<longrightarrow> hc_capability c \<noteq> None) \<and>
     (if hc_action c = ''configure'' then 1 \<le> hc_revision c else \<not> says_any c [''revision'', ''sources'']) \<and>
     (if hc_action c \<in> set media_actions then hub_stream_ok c else \<not> says_any c video_fields)"

text \<open>The document such a command is written as.\<close>

definition text_or :: "string option \<Rightarrow> document" where
  "text_or x = (case x of None \<Rightarrow> Documents.Nothing | Some s \<Rightarrow> Text s)"

definition source_document :: "configured_source \<Rightarrow> document" where
  "source_document c = Table ([(''id'', Text (cf_id c)), (''kind'', Text (cf_kind c))] @ cf_extra c)"

definition field_value :: "hub_command \<Rightarrow> string \<Rightarrow> document" where
  "field_value c k =
     (if k = ''command_id'' then Text (hc_id c)
      else if k = ''action'' then Text (hc_action c)
      else if k = ''node_id'' then Text (hc_node c)
      else if k = ''hub_epoch'' then Whole (hc_epoch c)
      else if k = ''capability'' then text_or (hc_capability c)
      else if k = ''grant_id'' then text_or (hc_grant c)
      else if k = ''duration_seconds'' then Plain (JFloat (hc_duration c))
      else if k = ''sequence'' then Whole (hc_sequence c)
      else if k = ''revision'' then Whole (hc_revision c)
      else if k = ''sources'' then Many (map source_document (hc_sources c))
      else if k = ''stream_id'' then text_or (hc_stream c)
      else if k = ''source_id'' then text_or (hc_source c)
      else if k = ''port'' then (case hc_port c of None \<Rightarrow> Documents.Nothing | Some p \<Rightarrow> Whole p)
      else text_or (hc_token c))"

definition written :: "hub_command \<Rightarrow> (string, document) dict" where
  "written c = map (\<lambda>k. (k, field_value c k)) (hc_said c)"

subsection \<open>The contract of an answer\<close>

definition outcome_words :: "string list" where
  "outcome_words = [''received'', ''applied'', ''failed'']"

record command_ack =
  ca_version :: int
  ca_command :: string
  ca_node :: string
  ca_outcome :: string
  ca_detail :: "string option"

definition ack_ok :: "command_ack \<Rightarrow> bool" where
  "ack_ok a \<longleftrightarrow>
     ca_version a = 1 \<and> 1 \<le> length (ca_command a) \<and> length (ca_command a) \<le> most_id \<and> valid_name (ca_node a) \<and>
     ca_outcome a \<in> set outcome_words \<and> pred_option (\<lambda>d. length d \<le> most_detail) (ca_detail a)"

subsection \<open>What the service sends\<close>

text \<open>\<open>round(x, 3)\<close>, to the even side of a tie.\<close>

definition thousandths :: "rat \<Rightarrow> rat" where
  "thousandths x =
     (let y = x * 1000; k = \<lfloor>y\<rfloor>; rest = y - of_int k
      in of_int (if rest < 1 / 2 then k else if 1 / 2 < rest then k + 1 else if even k then k else k + 1) / 1000)"

definition grant_fields :: "string \<Rightarrow> string \<Rightarrow> grant \<Rightarrow> (string, document) dict" where
  "grant_fields uuid action g =
     [(''command_id'', Text uuid), (''action'', Text action), (''node_id'', Text (gr_node g)),
      (''hub_epoch'', Whole (gr_epoch g)), (''capability'', Text (gr_capability g)), (''grant_id'', Text (gr_id g)),
      (''duration_seconds'', Plain (JFloat (thousandths (gr_expires g - gr_issued g)))),
      (''sequence'', Whole (gr_sequence g))]"

definition revoke_fields :: "(string, document) dict" where
  "revoke_fields = [(''action'', Text ''revoke''), (''capability'', Text ''events'')]"

definition configure_fields :: "string \<Rightarrow> int \<Rightarrow> int \<Rightarrow> document list \<Rightarrow> (string, document) dict" where
  "configure_fields uuid epoch revn sources =
     [(''command_id'', Text uuid), (''action'', Text ''configure''), (''hub_epoch'', Whole epoch),
      (''revision'', Whole revn), (''sources'', Many sources)]"

definition start_fields :: "media_settings \<Rightarrow> string \<Rightarrow> int \<Rightarrow> string \<Rightarrow> ticket \<Rightarrow> (string, document) dict" where
  "start_fields m kind epoch src k =
     [(''action'', Text (kind @ ''_start'')), (''hub_epoch'', Whole epoch), (''stream_id'', Text (tk_stream k)),
      (''source_id'', Text src), (''port'', Whole (tk_port k)), (''token'', Text (tk_token k)),
      (''duration_seconds'', Whole (stream_seconds m))]"

definition renew_fields :: "media_settings \<Rightarrow> string \<Rightarrow> int \<Rightarrow> string \<Rightarrow> (string, document) dict" where
  "renew_fields m kind epoch stream =
     [(''action'', Text (kind @ ''_renew'')), (''hub_epoch'', Whole epoch), (''stream_id'', Text stream),
      (''duration_seconds'', Whole (stream_seconds m))]"

definition stop_fields :: "string \<Rightarrow> int \<Rightarrow> string \<Rightarrow> (string, document) dict" where
  "stop_fields kind epoch stream =
     [(''action'', Text (kind @ ''_stop'')), (''hub_epoch'', Whole epoch), (''stream_id'', Text stream)]"

text \<open>\<open>_command\<close>: what every command carries, with a new identifier if the caller has none.\<close>

definition command_body :: "string \<Rightarrow> string \<Rightarrow> (string, document) dict \<Rightarrow> (string, document) dict" where
  "command_body uuid node says =
     (let body = dict_set ''node_id'' (Text node)
                   (fold (\<lambda>(k, v). dict_set k v) says
                     [(''command_id'', get_or Documents.Nothing says ''command_id''), (''node_id'', Text node), (''hub_epoch'', Whole 0)])
      in if get_or Documents.Nothing body ''command_id'' = Documents.Nothing then dict_set ''command_id'' (Text uuid) body else body)"

end
