(* ===== verification/Understood.thy ===== *)
theory Understood
  imports Contract
begin

section \<open>What the hub says is understood\<close>

text \<open>
  Every command of the contract is read by the node it is for as what it says, and every command
  the service sends is one of the contract.
\<close>

declare map_of_eq_Some_iff [simp del] Some_eq_map_of_iff [simp del]

subsection \<open>The contract is what the node reads\<close>

definition heard :: "hub_command \<Rightarrow> command" where
  "heard c =
     \<lparr>cm_id = hc_id c, cm_action = hc_action c, cm_node = hc_node c, cm_epoch = hc_epoch c,
      cm_capability = text_or (hc_capability c), cm_grant = text_or (hc_grant c), cm_duration = hc_duration c,
      cm_sequence = hc_sequence c, cm_revision = hc_revision c, cm_sources = map source_document (hc_sources c),
      cm_stream =
        (if hc_action c \<in> set media_actions
         then Some \<lparr>rq_stream = the (hc_stream c),
                rq_source = (if ends_with ''_start'' (hc_action c) then hc_source c else None),
                rq_port = (if ends_with ''_start'' (hc_action c) then the (hc_port c) else 0),
                rq_token = (if ends_with ''_start'' (hc_action c) then hc_token c else None)\<rparr>
         else None)\<rparr>"

lemma get_written: "dict_get (written c) k = (if k \<in> set (hc_said c) then Some (field_value c k) else None)"
  by (simp add: written_def map_of_map_restrict restrict_map_def)

lemma says_written: "has_any ks (written c) = says_any c ks"
  by (simp add: has_any_def says_any_def get_written)

lemma field_values:
  "field_value c ''command_id'' = Text (hc_id c)" "field_value c ''action'' = Text (hc_action c)"
  "field_value c ''node_id'' = Text (hc_node c)" "field_value c ''hub_epoch'' = Whole (hc_epoch c)"
  "field_value c ''capability'' = text_or (hc_capability c)" "field_value c ''grant_id'' = text_or (hc_grant c)"
  "field_value c ''duration_seconds'' = Plain (JFloat (hc_duration c))" "field_value c ''sequence'' = Whole (hc_sequence c)"
  "field_value c ''revision'' = Whole (hc_revision c)" "field_value c ''sources'' = Many (map source_document (hc_sources c))"
  "field_value c ''stream_id'' = text_or (hc_stream c)" "field_value c ''source_id'' = text_or (hc_source c)"
  "field_value c ''port'' = (case hc_port c of None \<Rightarrow> Documents.Nothing | Some p \<Rightarrow> Whole p)"
  "field_value c ''token'' = text_or (hc_token c)"
  by (simp_all add: field_value_def)

text \<open>A field that was not given reads as its default.\<close>

lemma written_fields:
  assumes "hub_command_ok c"
  shows "get_or d (written c) ''command_id'' = Text (hc_id c)" "get_or d (written c) ''action'' = Text (hc_action c)"
    "get_or d (written c) ''node_id'' = Text (hc_node c)" "get_or d (written c) ''hub_epoch'' = Whole (hc_epoch c)"
    "get_or Documents.Nothing (written c) ''capability'' = text_or (hc_capability c)"
    "get_or Documents.Nothing (written c) ''grant_id'' = text_or (hc_grant c)"
    "get_or (Whole 0) (written c) ''sequence'' = Whole (hc_sequence c)"
    "get_or (Whole 0) (written c) ''revision'' = Whole (hc_revision c)"
    "get_or (Many []) (written c) ''sources'' = Many (map source_document (hc_sources c))"
    "get_or Documents.Nothing (written c) ''stream_id'' = text_or (hc_stream c)"
    "get_or Documents.Nothing (written c) ''port'' = (case hc_port c of None \<Rightarrow> Documents.Nothing | Some p \<Rightarrow> Whole p)"
    "get_or Documents.Nothing (written c) ''token'' = text_or (hc_token c)"
  using assms unfolding hub_command_ok_def hub_defaults_ok_def hub_fields_ok_def
  by (simp_all add: get_or_def get_written field_values text_or_def)

lemma written_source:
  assumes "hub_command_ok c" "hc_source c = Some src"
  shows "get_or d (written c) ''source_id'' = Text src"
proof -
  have "''source_id'' \<in> set (hc_said c)" using assms by (auto simp: hub_command_ok_def hub_defaults_ok_def)
  then show ?thesis using assms(2) by (simp add: get_or_def get_written field_values text_or_def)
qed

lemma written_duration:
  assumes "hub_command_ok c"
  shows "\<exists>v. duration_in (get_or (Whole 0) (written c) ''duration_seconds'') = Inr v \<and>
    seconds_of v = hc_duration c \<and> as_float v = Inr (hc_duration c)"
  using assms unfolding hub_command_ok_def hub_defaults_ok_def hub_fields_ok_def
  by (cases "''duration_seconds'' \<in> set (hc_said c)")
    (simp_all add: get_or_def get_written field_values duration_in_def seconds_of_def as_float_def float_overflows_def)

lemma media_endings:
  assumes "a \<in> set media_actions"
  shows "ends_with ''_start'' a \<longleftrightarrow> \<not> ends_with ''_stop'' a \<and> \<not> ends_with ''_renew'' a"
  using assms by (auto simp: media_actions_def video_actions_def audio_actions_def ends_with_def)

lemma written_stream:
  assumes "hub_command_ok c" "hc_action c \<in> set media_actions" "seconds_of v = hc_duration c"
  shows "video_part (hc_action c) (written c) v = Inr (the (cm_stream (heard c)))"
proof -
  have ok: "hub_stream_ok c" "hub_fields_ok c" using assms(1,2) by (simp_all add: hub_command_ok_def)
  from ok(1) obtain i where i: "hc_stream c = Some i" by (auto simp: hub_stream_ok_def)
  with ok(2) have name: "stream_name i" by (simp add: hub_fields_ok_def)
  note fields = written_fields [OF assms(1)]
  have more: "has_any [''source_id'', ''port'', ''token''] (written c) = says_any c [''source_id'', ''port'', ''token'']"
    by (rule says_written)
  show ?thesis
  proof (cases "ends_with ''_start'' (hc_action c)")
    case False
    then have "ends_with ''_stop'' (hc_action c) \<or> ends_with ''_renew'' (hc_action c)"
      using media_endings [OF assms(2)] by blast
    then show ?thesis using ok(1) assms(2,3) False i name fields(10) more
      by (auto simp: video_part_def hub_stream_ok_def Let_def text_or_def heard_def most_video_seconds_def
          most_stream_seconds_def split: if_splits)
  next
    case True
    then have no: "\<not> ends_with ''_stop'' (hc_action c)" "\<not> ends_with ''_renew'' (hc_action c)"
      using media_endings [OF assms(2)] by simp_all
    with ok(1) obtain src p k where f: "hc_source c = Some src" "hc_port c = Some p" "hc_token c = Some k"
      by (auto simp: hub_stream_ok_def)
    then have "valid_name src" "1024 \<le> p" "p \<le> 65535" "stream_token k"
      using ok(2) by (simp_all add: hub_fields_ok_def)
    moreover have "0 < hc_duration c \<and> hc_duration c \<le> most_video_seconds"
      using ok(1) no by (simp add: hub_stream_ok_def most_video_seconds_def most_stream_seconds_def)
    ultimately show ?thesis using no True assms(2,3) i name f fields(10-12) written_source [OF assms(1) f(1)]
      by (simp add: video_part_def Let_def text_or_def heard_def name_in_def whole_from_def check_that_def)
  qed
qed

lemma contract_is_read:
  assumes "hub_command_ok c"
  shows "parse_command (hc_node c) (Table (written c)) = Inr (heard c)"
proof -
  have f: "hub_fields_ok c" using assms by (simp add: hub_command_ok_def)
  note fields = written_fields [OF assms]
  have known: "filter (\<lambda>k. k \<notin> set command_fields) (map fst (written c)) = []"
    using f by (auto simp: written_def hub_fields_ok_def filter_empty_conv o_def)
  have cap: "hc_action c \<in> {''grant'', ''renew'', ''revoke''} \<longrightarrow> is_text capability_names (text_or (hc_capability c))"
    using assms f by (auto simp: hub_command_ok_def hub_fields_ok_def is_text_def text_or_def)
  have sources: "list_all table_only (map source_document (hc_sources c))"
    by (simp add: list_all_iff source_document_def table_only_def)
  have conf: "configuration_part (hc_action c) (written c) = Inr (hc_revision c, map source_document (hc_sources c))"
  proof (cases "hc_action c = ''configure''")
    case True
    then have "1 \<le> hc_revision c" using assms by (simp add: hub_command_ok_def)
    then show ?thesis using True f fields(8,9) sources
      by (simp add: configuration_part_def whole_from_def hub_fields_ok_def not_less)
  next
    case False
    then have none: "\<not> says_any c [''revision'', ''sources'']" using assms by (simp add: hub_command_ok_def)
    then have "hc_revision c = 0" "hc_sources c = []"
      using assms by (auto simp: hub_command_ok_def hub_defaults_ok_def says_any_def)
    then show ?thesis using False none by (simp add: configuration_part_def says_written)
  qed
  obtain v where v: "duration_in (get_or (Whole 0) (written c) ''duration_seconds'') = Inr v"
      "seconds_of v = hc_duration c" "as_float v = Inr (hc_duration c)"
    using written_duration [OF assms] by blast
  have stream: "stream_part (hc_action c) (written c) v = Inr (cm_stream (heard c))"
  proof (cases "hc_action c \<in> set media_actions")
    case True
    then show ?thesis using written_stream [OF assms True v(2)] by (simp add: stream_part_def heard_def)
  next
    case False
    then show ?thesis using assms by (simp add: stream_part_def heard_def says_written hub_command_ok_def)
  qed
  show ?thesis
    using f cap v(1,3) conf stream fields
    by (simp add: parse_command_def known check_that_def hub_fields_ok_def name_in_def whole_from_def heard_def)
      (auto simp: length_greater_0_conv)
qed

subsection \<open>A document that says the same\<close>

text \<open>
  A document stands for a command of the contract if it has its fields, with a whole number of
  seconds for the same number as a float.
\<close>

definition stands_for :: "(string, document) dict \<Rightarrow> hub_command \<Rightarrow> bool" where
  "stands_for m c \<longleftrightarrow>
     (\<forall>k. k \<noteq> ''duration_seconds'' \<longrightarrow> dict_get m k = dict_get (written c) k) \<and>
     (dict_get m ''duration_seconds'' = dict_get (written c) ''duration_seconds'' \<or>
      (\<exists>i. dict_get m ''duration_seconds'' = Some (Whole i) \<and> hc_duration c = of_int i \<and>
         ''duration_seconds'' \<in> set (hc_said c) \<and> \<not> float_overflows i))"

lemma stands_for_fields:
  assumes "stands_for m c"
  shows "k \<noteq> ''duration_seconds'' \<Longrightarrow> get_or d m k = get_or d (written c) k"
    "''duration_seconds'' \<notin> set ks \<Longrightarrow> has_any ks m = has_any ks (written c)"
    "fst ` set m = set (hc_said c)"
proof -
  show "get_or d m k = get_or d (written c) k" if "k \<noteq> ''duration_seconds''"
    using assms that by (simp add: stands_for_def get_or_def)
  show "has_any ks m = has_any ks (written c)" if "''duration_seconds'' \<notin> set ks"
  proof -
    have "(dict_get m k \<noteq> None) = (dict_get (written c) k \<noteq> None)" if "k \<in> set ks" for k
      using assms that \<open>''duration_seconds'' \<notin> set ks\<close> by (metis stands_for_def)
    then show ?thesis by (auto simp: has_any_def list_ex_iff)
  qed
  have "k \<in> fst ` set m \<longleftrightarrow> k \<in> set (hc_said c)" for k
  proof -
    have "dict_get m k \<noteq> None \<longleftrightarrow> dict_get (written c) k \<noteq> None"
      using assms by (cases "k = ''duration_seconds''") (auto simp: stands_for_def get_written)
    then show ?thesis unfolding map_of_eq_None_iff by (simp add: written_def image_image)
  qed
  then show "fst ` set m = set (hc_said c)" by blast
qed

lemma stands_for_is_read:
  assumes "hub_command_ok c" "stands_for m c"
  shows "parse_command (hc_node c) (Table m) = Inr (heard c)"
proof -
  note same = stands_for_fields [OF assms(2)]
  have f: "hub_fields_ok c" using assms(1) by (simp add: hub_command_ok_def)
  then have known: "filter (\<lambda>k. k \<notin> set command_fields) (map fst m) = []"
    "filter (\<lambda>k. k \<notin> set command_fields) (map fst (written c)) = []"
    using same(3) by (auto simp: hub_fields_ok_def filter_empty_conv written_def)
  have parts: "configuration_part a m = configuration_part a (written c)" for a
    by (simp add: configuration_part_def same)
  obtain v where v: "duration_in (get_or (Whole 0) (written c) ''duration_seconds'') = Inr v"
      "seconds_of v = hc_duration c" "as_float v = Inr (hc_duration c)"
    using written_duration [OF assms(1)] by blast
  obtain u where u: "duration_in (get_or (Whole 0) m ''duration_seconds'') = Inr u"
      "seconds_of u = seconds_of v" "as_float u = as_float v"
  proof (cases "dict_get m ''duration_seconds'' = dict_get (written c) ''duration_seconds''")
    case True
    then show ?thesis using v that by (simp add: get_or_def)
  next
    case False
    then obtain i where i: "dict_get m ''duration_seconds'' = Some (Whole i)" "hc_duration c = of_int i" "\<not> float_overflows i"
      using assms(2) by (auto simp: stands_for_def)
    moreover have "0 \<le> i" using f i(2) by (simp add: hub_fields_ok_def)
    ultimately show ?thesis using that [of "JInt i"] v(2,3)
      by (simp add: get_or_def duration_in_def seconds_of_def as_float_def)
  qed
  have eqs: "get_or Documents.Nothing m ''stream_id'' = get_or Documents.Nothing (written c) ''stream_id''"
    "get_or Documents.Nothing m ''port'' = get_or Documents.Nothing (written c) ''port''"
    "get_or Documents.Nothing m ''token'' = get_or Documents.Nothing (written c) ''token''"
    "get_or (Text []) m ''source_id'' = get_or (Text []) (written c) ''source_id''"
    "has_any [''source_id'', ''port'', ''token''] m = has_any [''source_id'', ''port'', ''token''] (written c)"
    by (simp_all add: same)
  have "video_part a m u = video_part a (written c) v" for a
    unfolding video_part_def eqs u(2) ..
  then have stream: "stream_part a m u = stream_part a (written c) v" for a
    by (simp add: stream_part_def same video_fields_def)
  show ?thesis using contract_is_read [OF assms(1)]
    by (simp add: parse_command_def known check_that_def same parts u(1,3) v(1) stream)
qed

subsection \<open>What the service sends\<close>

definition understood :: "string \<Rightarrow> string \<Rightarrow> (string, document) dict \<Rightarrow> bool" where
  "understood node action m \<longleftrightarrow>
     (\<exists>c. hub_command_ok c \<and> hc_node c = node \<and> hc_action c = action \<and> stands_for m c \<and>
        parse_command node (Table m) = Inr (heard c))"

lemma understoodI: "hub_command_ok c \<Longrightarrow> hc_node c = node \<Longrightarrow> hc_action c = action \<Longrightarrow> stands_for m c \<Longrightarrow> understood node action m"
  unfolding understood_def using stands_for_is_read by blast

lemma thousandths_positive: "0 \<le> x \<Longrightarrow> 0 \<le> thousandths x"
proof -
  assume "0 \<le> x"
  then have "0 \<le> \<lfloor>x * 1000\<rfloor>" by simp
  then show ?thesis by (simp add: thousandths_def Let_def)
qed

definition no_command :: hub_command where
  "no_command =
     \<lparr>hc_id = '''', hc_action = '''', hc_node = '''', hc_epoch = 0, hc_capability = None, hc_grant = None,
      hc_duration = 0, hc_sequence = 0, hc_revision = 0, hc_sources = [], hc_stream = None, hc_source = None,
      hc_port = None, hc_token = None, hc_said = []\<rparr>"

abbreviation always_said :: "string list" where
  "always_said \<equiv> [''command_id'', ''action'', ''node_id'', ''hub_epoch'']"

lemmas contract_defs = hub_command_ok_def hub_defaults_ok_def hub_fields_ok_def hub_stream_ok_def says_any_def no_command_def
  command_fields_def video_fields_def actions_known_def media_actions_def video_actions_def audio_actions_def ends_with_def

lemma grant_understood:
  assumes "valid_name (gr_node g)" "1 \<le> length uuid" "length uuid \<le> most_id" "0 \<le> gr_epoch g"
    "gr_capability g \<in> set capability_names" "gr_issued g \<le> gr_expires g" "0 \<le> gr_sequence g"
    "action = ''grant'' \<or> action = ''renew''"
  shows "understood (gr_node g) action (command_body other (gr_node g) (grant_fields uuid action g))"
proof (rule understoodI)
  let ?c = "no_command\<lparr>hc_id := uuid, hc_action := action, hc_node := gr_node g, hc_epoch := gr_epoch g,
    hc_capability := Some (gr_capability g), hc_grant := Some (gr_id g),
    hc_duration := thousandths (gr_expires g - gr_issued g), hc_sequence := gr_sequence g,
    hc_said := always_said @ [''capability'', ''grant_id'', ''duration_seconds'', ''sequence'']\<rparr>"
  show "hub_command_ok ?c" using assms thousandths_positive [of "gr_expires g - gr_issued g"] by (auto simp: contract_defs)
  show "stands_for (command_body other (gr_node g) (grant_fields uuid action g)) ?c"
    by (simp add: stands_for_def get_written field_value_def command_body_def grant_fields_def get_or_def Let_def
        no_command_def text_or_def)
qed (simp_all add: no_command_def)

lemma revoke_understood:
  assumes "valid_name node" "1 \<le> length uuid" "length uuid \<le> most_id"
  shows "understood node ''revoke'' (command_body uuid node revoke_fields)"
proof (rule understoodI)
  let ?c = "no_command\<lparr>hc_id := uuid, hc_action := ''revoke'', hc_node := node, hc_capability := Some ''events'',
    hc_said := always_said @ [''capability'']\<rparr>"
  show "hub_command_ok ?c" using assms by (auto simp: contract_defs capability_names_def)
  show "stands_for (command_body uuid node revoke_fields) ?c"
    by (simp add: stands_for_def get_written field_value_def command_body_def revoke_fields_def get_or_def Let_def
        no_command_def text_or_def)
qed (simp_all add: no_command_def)

lemma configure_understood:
  assumes "valid_name node" "1 \<le> length uuid" "length uuid \<le> most_id" "0 \<le> epoch" "1 \<le> revn"
    "list_all configured_ok cs" "length cs \<le> most_sources"
  shows "understood node ''configure'' (command_body other node (configure_fields uuid epoch revn (map source_document cs)))"
proof (rule understoodI)
  let ?c = "no_command\<lparr>hc_id := uuid, hc_action := ''configure'', hc_node := node, hc_epoch := epoch,
    hc_revision := revn, hc_sources := cs, hc_said := always_said @ [''revision'', ''sources'']\<rparr>"
  show "hub_command_ok ?c" using assms by (auto simp: contract_defs)
  show "stands_for (command_body other node (configure_fields uuid epoch revn (map source_document cs))) ?c"
    by (simp add: stands_for_def get_written field_value_def command_body_def configure_fields_def get_or_def Let_def
        no_command_def text_or_def)
qed (simp_all add: no_command_def)

text \<open>The three commands of a stream.\<close>

lemma seconds_fit: "media_ok m \<Longrightarrow> 10 \<le> stream_seconds m \<and> stream_seconds m \<le> 600 \<and> \<not> float_overflows (stream_seconds m)"
  by (simp add: media_ok_def float_overflows_def)

lemma media_words:
  "''video_start'' \<in> set media_actions \<and> ''audio_start'' \<in> set media_actions"
  "''video_renew'' \<in> set media_actions \<and> ''audio_renew'' \<in> set media_actions"
  "''video_stop'' \<in> set media_actions \<and> ''audio_stop'' \<in> set media_actions"
  by (simp_all add: media_actions_def video_actions_def audio_actions_def)

lemma start_understood:
  assumes "valid_name node" "1 \<le> length uuid" "length uuid \<le> most_id" "kind \<in> {''video'', ''audio''}" "media_ok m"
    "0 \<le> epoch" "valid_name src" "stream_name (tk_stream k)" "stream_token (tk_token k)" "1024 \<le> tk_port k" "tk_port k \<le> 65535"
  shows "understood node (kind @ ''_start'') (command_body uuid node (start_fields m kind epoch src k))"
proof (rule understoodI)
  let ?c = "no_command\<lparr>hc_id := uuid, hc_action := kind @ ''_start'', hc_node := node, hc_epoch := epoch,
    hc_duration := of_int (stream_seconds m), hc_stream := Some (tk_stream k), hc_source := Some src,
    hc_port := Some (tk_port k), hc_token := Some (tk_token k),
    hc_said := always_said @ [''stream_id'', ''source_id'', ''port'', ''token'', ''duration_seconds'']\<rparr>"
  note fit = seconds_fit [OF assms(5)]
  show "hub_command_ok ?c" using assms fit by (auto simp: contract_defs most_stream_seconds_def)
  show "stands_for (command_body uuid node (start_fields m kind epoch src k)) ?c" using fit
    by (simp add: stands_for_def get_written field_value_def command_body_def start_fields_def get_or_def Let_def
        no_command_def text_or_def)
qed (simp_all add: no_command_def)

lemma renew_understood:
  assumes "valid_name node" "1 \<le> length uuid" "length uuid \<le> most_id" "kind \<in> {''video'', ''audio''}" "media_ok m"
    "0 \<le> epoch" "stream_name i"
  shows "understood node (kind @ ''_renew'') (command_body uuid node (renew_fields m kind epoch i))"
proof (rule understoodI)
  let ?c = "no_command\<lparr>hc_id := uuid, hc_action := kind @ ''_renew'', hc_node := node, hc_epoch := epoch,
    hc_duration := of_int (stream_seconds m), hc_stream := Some i, hc_said := always_said @ [''stream_id'', ''duration_seconds'']\<rparr>"
  note fit = seconds_fit [OF assms(5)]
  show "hub_command_ok ?c" using assms fit by (auto simp: contract_defs most_stream_seconds_def)
  show "stands_for (command_body uuid node (renew_fields m kind epoch i)) ?c" using fit
    by (simp add: stands_for_def get_written field_value_def command_body_def renew_fields_def get_or_def Let_def
        no_command_def text_or_def)
qed (simp_all add: no_command_def)

lemma stop_understood:
  assumes "valid_name node" "1 \<le> length uuid" "length uuid \<le> most_id" "kind \<in> {''video'', ''audio''}"
    "0 \<le> epoch" "stream_name i"
  shows "understood node (kind @ ''_stop'') (command_body uuid node (stop_fields kind epoch i))"
proof (rule understoodI)
  let ?c = "no_command\<lparr>hc_id := uuid, hc_action := kind @ ''_stop'', hc_node := node, hc_epoch := epoch,
    hc_stream := Some i, hc_said := always_said @ [''stream_id'']\<rparr>"
  show "hub_command_ok ?c" using assms by (auto simp: contract_defs)
  show "stands_for (command_body uuid node (stop_fields kind epoch i)) ?c"
    by (simp add: stands_for_def get_written field_value_def command_body_def stop_fields_def get_or_def Let_def
        no_command_def text_or_def)
qed (simp_all add: no_command_def)

text \<open>
  Everything the service publishes, with what it knows when it does: the node is a record of the
  registry, the identifiers are a UUID, the grant and the epoch are of the sessions, the sources
  passed the validation of their kinds and the ticket is of the gateway.
\<close>

inductive publishes :: "media_settings \<Rightarrow> string \<Rightarrow> string \<Rightarrow> (string, document) dict \<Rightarrow> bool" for m node where
  Granting: "valid_name node \<Longrightarrow> 1 \<le> length uuid \<Longrightarrow> length uuid \<le> most_id \<Longrightarrow> gr_node g = node \<Longrightarrow> 0 \<le> gr_epoch g \<Longrightarrow>
    gr_capability g \<in> set capability_names \<Longrightarrow> gr_issued g \<le> gr_expires g \<Longrightarrow> 0 \<le> gr_sequence g \<Longrightarrow>
    action = ''grant'' \<or> action = ''renew'' \<Longrightarrow> publishes m node action (command_body other node (grant_fields uuid action g))"
| Revoking: "valid_name node \<Longrightarrow> 1 \<le> length uuid \<Longrightarrow> length uuid \<le> most_id \<Longrightarrow>
    publishes m node ''revoke'' (command_body uuid node revoke_fields)"
| Configuring: "valid_name node \<Longrightarrow> 1 \<le> length uuid \<Longrightarrow> length uuid \<le> most_id \<Longrightarrow> 0 \<le> epoch \<Longrightarrow> 1 \<le> revn \<Longrightarrow>
    list_all configured_ok cs \<Longrightarrow> length cs \<le> most_sources \<Longrightarrow>
    publishes m node ''configure'' (command_body other node (configure_fields uuid epoch revn (map source_document cs)))"
| Starting: "valid_name node \<Longrightarrow> 1 \<le> length uuid \<Longrightarrow> length uuid \<le> most_id \<Longrightarrow> kind \<in> {''video'', ''audio''} \<Longrightarrow>
    0 \<le> epoch \<Longrightarrow> valid_name src \<Longrightarrow> stream_name (tk_stream k) \<Longrightarrow> stream_token (tk_token k) \<Longrightarrow> 1024 \<le> tk_port k \<Longrightarrow>
    tk_port k \<le> 65535 \<Longrightarrow> publishes m node (kind @ ''_start'') (command_body uuid node (start_fields m kind epoch src k))"
| Renewing: "valid_name node \<Longrightarrow> 1 \<le> length uuid \<Longrightarrow> length uuid \<le> most_id \<Longrightarrow> kind \<in> {''video'', ''audio''} \<Longrightarrow>
    0 \<le> epoch \<Longrightarrow> stream_name i \<Longrightarrow> publishes m node (kind @ ''_renew'') (command_body uuid node (renew_fields m kind epoch i))"
| Stopping: "valid_name node \<Longrightarrow> 1 \<le> length uuid \<Longrightarrow> length uuid \<le> most_id \<Longrightarrow> kind \<in> {''video'', ''audio''} \<Longrightarrow>
    0 \<le> epoch \<Longrightarrow> stream_name i \<Longrightarrow> publishes m node (kind @ ''_stop'') (command_body uuid node (stop_fields kind epoch i))"

text \<open>
  C9. Every command the service publishes -- the offer and the renewal of a grant, its
  revocation, a configuration, and the start, the renewal and the end of a stream of either kind
  -- is a command of the contract as \<open>HubCommand\<close> validates it (the syntax of a grant's UUID
  apart), and the agent it is addressed to reads it without an error as exactly that command.
\<close>

theorem the_hub_is_understood:
  assumes "media_ok m" "publishes m node action body"
  shows "understood node action body"
  using assms(2,1)
  by cases (auto intro!: grant_understood revoke_understood configure_understood start_understood renew_understood
      stop_understood simp del: conj_disj_distribL)

lemma a_renewal_is_published:
  "publishes default_media ''porch'' (''video'' @ ''_renew'')
     (command_body ''c-1'' ''porch'' (renew_fields default_media ''video'' 3 ''0123456789abcdef''))"
proof (rule publishes.Renewing)
  show "valid_name ''porch''" "stream_name ''0123456789abcdef''" by code_simp+
qed (simp_all add: most_id_def)

lemma the_hub_is_understood_witness:
  "understood ''porch'' (''video'' @ ''_renew'')
     (command_body ''c-1'' ''porch'' (renew_fields default_media ''video'' 3 ''0123456789abcdef''))"
  by (rule the_hub_is_understood [OF defaults_ok(4) a_renewal_is_published])

end
