(* ===== verification/Utf8.thy ===== *)
theory Utf8
  imports Prelude
begin

section \<open>Text as bytes\<close>

text \<open>
  \<open>str.encode()\<close> and \<open>bytes.decode()\<close> of Python, strict and with \<open>errors="replace"\<close>. A text is
  the list of its code points; a lone surrogate is one that cannot be encoded. A decoder that meets
  a sequence it cannot read gives up the longest part that could have begun one.
\<close>

type_synonym unicode = "nat list"

definition said :: "string \<Rightarrow> unicode" where "said s = map of_char s"

definition scalar :: "nat \<Rightarrow> bool" where
  "scalar c \<longleftrightarrow> c < 1114112 \<and> \<not> (55296 \<le> c \<and> c \<le> 57343)"

text \<open>Compared as integers, whose numerals the simplifier evaluates.\<close>

lemma scalar_code [code]: "scalar c \<longleftrightarrow> int c < 1114112 \<and> \<not> (55296 \<le> int c \<and> int c \<le> 57343)"
  by (auto simp: scalar_def)

subsection \<open>Encoding\<close>

definition utf8_char :: "nat \<Rightarrow> nat list" where
  "utf8_char c =
     (if c < 128 then [c]
      else if c < 2048 then [192 + c div 64, 128 + c mod 64]
      else if c < 65536 then [224 + c div 4096, 128 + c div 64 mod 64, 128 + c mod 64]
      else [240 + c div 262144, 128 + c div 4096 mod 64, 128 + c div 64 mod 64, 128 + c mod 64])"

definition utf8_encode :: "unicode \<Rightarrow> byte list option" where
  "utf8_encode t = (if list_all scalar t then Some (map word_of_nat (concat (map utf8_char t))) else None)"

subsection \<open>Decoding\<close>

text \<open>
  What a leading byte announces: how many bytes follow, between which bounds the first of them
  has to be, and its own bits.
\<close>

definition announced :: "nat \<Rightarrow> (nat \<times> nat \<times> nat \<times> nat) option" where
  "announced b =
     (if 194 \<le> b \<and> b \<le> 223 then Some (1, 128, 191, b - 192)
      else if 224 \<le> b \<and> b \<le> 239 then
        Some (2, if b = 224 then 160 else 128, if b = 237 then 159 else 191, b - 224)
      else if 240 \<le> b \<and> b \<le> 244 then
        Some (3, if b = 240 then 144 else 128, if b = 244 then 143 else 191, b - 240)
      else None)"

fun followed :: "nat \<Rightarrow> nat \<Rightarrow> nat \<Rightarrow> nat \<Rightarrow> nat list \<Rightarrow> nat option \<times> nat list" where
  "followed 0 low high so_far bs = (Some so_far, bs)"
| "followed (Suc n) low high so_far [] = (None, [])"
| "followed (Suc n) low high so_far (b # bs) =
     (if low \<le> b \<and> b \<le> high then followed n 128 191 (so_far * 64 + (b - 128)) bs else (None, b # bs))"

lemma followed_shorter: "length (snd (followed n low high so_far bs)) \<le> length bs"
proof (induction n low high so_far bs rule: followed.induct)
  case (3 n low high so_far b bs)
  then show ?case by (cases "low \<le> b \<and> b \<le> high") (auto simp: le_SucI)
qed simp_all

function utf8_read :: "nat list \<Rightarrow> nat option list" where
  "utf8_read [] = []"
| "utf8_read (b # bs) =
     (if b < 128 then Some b # utf8_read bs
      else case announced b of
        None \<Rightarrow> None # utf8_read bs
      | Some (n, low, high, bits) \<Rightarrow>
          fst (followed n low high bits bs) # utf8_read (snd (followed n low high bits bs)))"
  by pat_completeness auto
termination
  by (relation "measure length") (auto simp: followed_shorter less_Suc_eq_le)

definition utf8_strict :: "byte list \<Rightarrow> unicode option" where
  "utf8_strict bs =
     (let cs = utf8_read (map unat bs) in if None \<in> set cs then None else Some (map the cs))"

definition utf8_replace :: "byte list \<Rightarrow> unicode" where
  "utf8_replace bs = map (\<lambda>c. case c of None \<Rightarrow> 65533 | Some x \<Rightarrow> x) (utf8_read (map unat bs))"

subsection \<open>Back again\<close>

lemma base64_digits:
  fixes c :: nat
  shows "c div 64 * 64 + c mod 64 = c" "(c div 4096 * 64 + c div 64 mod 64) * 64 + c mod 64 = c"
    "((c div 262144 * 64 + c div 4096 mod 64) * 64 + c div 64 mod 64) * 64 + c mod 64 = c"
proof -
  have "c div 4096 = c div 64 div 64" "c div 262144 = c div 64 div 64 div 64"
    by (simp_all add: div_mult2_eq [symmetric])
  then show "c div 64 * 64 + c mod 64 = c" "(c div 4096 * 64 + c div 64 mod 64) * 64 + c mod 64 = c"
    "((c div 262144 * 64 + c div 4096 mod 64) * 64 + c div 64 mod 64) * 64 + c mod 64 = c"
    by (simp_all only: div_mult_mod_eq)
qed

lemma six_bits: "(c :: nat) mod 64 \<le> 63"
  using mod_less_divisor [of 64 c] by linarith

lemma utf8_read_char:
  assumes "scalar c"
  shows "utf8_read (utf8_char c @ bs) = Some c # utf8_read bs"
proof -
  consider "c < 128" | "128 \<le> c" "c < 2048" | "2048 \<le> c" "c < 65536" | "65536 \<le> c" "c < 1114112"
    using assms unfolding scalar_def by linarith
  then show ?thesis
  proof cases
    case 1
    then show ?thesis by (simp add: utf8_char_def)
  next
    case 2
    define x where "x = c div 64"
    define y where "y = c mod 64"
    have eqs: "c = x * 64 + y" using base64_digits(1) [of c] unfolding x_def y_def by simp
    have "y \<le> 63" unfolding y_def by (rule six_bits)
    then have x: "2 \<le> x" "x \<le> 31" "y \<le> 63" using 2 unfolding eqs by linarith+
    have "utf8_char c = [192 + x, 128 + y]" using 2 by (simp add: utf8_char_def x_def y_def)
    then show ?thesis using x eqs by (auto simp: announced_def)
  next
    case 3
    define x where "x = c div 4096"
    define y where "y = c div 64 mod 64"
    define z where "z = c mod 64"
    have eqs: "c = (x * 64 + y) * 64 + z" using base64_digits(2) [of c] unfolding x_def y_def z_def by simp
    have "y \<le> 63" "z \<le> 63" unfolding y_def z_def by (rule six_bits)+
    then have x: "x \<le> 15" "x = 0 \<Longrightarrow> 32 \<le> y" "y \<le> 63" "z \<le> 63"
      using 3 unfolding eqs by auto
    have s: "y \<le> 31" if "x = 13"
    proof (rule ccontr)
      assume "\<not> y \<le> 31"
      then have "55296 \<le> c" "c \<le> 57343" using x that unfolding eqs by simp_all
      then show False using assms by (simp add: scalar_def)
    qed
    have "utf8_char c = [224 + x, 128 + y, 128 + z]" using 3 by (simp add: utf8_char_def x_def y_def z_def)
    then show ?thesis using x s eqs by (auto simp: announced_def numeral_2_eq_2)
  next
    case 4
    define x where "x = c div 262144"
    define y where "y = c div 4096 mod 64"
    define z where "z = c div 64 mod 64"
    define u where "u = c mod 64"
    have eqs: "c = ((x * 64 + y) * 64 + z) * 64 + u" using base64_digits(3) [of c] unfolding x_def y_def z_def u_def by simp
    have "y \<le> 63" "z \<le> 63" "u \<le> 63" unfolding y_def z_def u_def by (rule six_bits)+
    then have x: "x \<le> 4" "x = 0 \<Longrightarrow> 16 \<le> y" "x = 4 \<Longrightarrow> y \<le> 15" "y \<le> 63" "z \<le> 63" "u \<le> 63"
      using 4 unfolding eqs by auto
    have "utf8_char c = [240 + x, 128 + y, 128 + z, 128 + u]" using 4 by (simp add: utf8_char_def x_def y_def z_def u_def)
    then show ?thesis using x eqs by (auto simp: announced_def numeral_3_eq_3)
  qed
qed

lemma utf8_char_bytes: "scalar c \<Longrightarrow> b \<in> set (utf8_char c) \<Longrightarrow> b < 256"
  by (auto simp: utf8_char_def scalar_def split: if_splits)

lemma utf8_read_back:
  assumes "utf8_encode t = Some bs"
  shows "utf8_read (map unat bs) = map Some t"
proof -
  from assms have t: "\<forall>c \<in> set t. scalar c" "bs = map word_of_nat (concat (map utf8_char t))"
    by (auto simp: utf8_encode_def list_all_iff split: if_splits)
  have "map unat bs = concat (map utf8_char t)"
    unfolding t(2) map_map using t(1) utf8_char_bytes
    by (intro map_idI) (auto simp: unat_of_nat)
  moreover have "utf8_read (concat (map utf8_char t)) = map Some t" using t(1)
    by (induction t) (auto simp: utf8_read_char)
  ultimately show ?thesis by simp
qed

lemma utf8_back [simp]:
  assumes "utf8_encode t = Some bs"
  shows "utf8_strict bs = Some t" "utf8_replace bs = t"
  by (simp_all add: utf8_strict_def utf8_replace_def utf8_read_back [OF assms] Let_def o_def)

lemma utf8_ascii: "\<forall>c \<in> set s. of_char c < (128 :: nat) \<Longrightarrow> utf8_encode (said s) = Some (map of_char s)"
proof (induction s)
  case Nil
  then show ?case by (simp add: utf8_encode_def said_def)
next
  case (Cons c s)
  then show ?case
    by (auto simp: utf8_encode_def said_def scalar_def utf8_char_def of_char_def of_nat_of_char split: if_splits)
qed

end
