(* ===== verification/DBus.thy ===== *)
theory DBus
  imports Utf8 Decoder
begin

section \<open>The wire of the Bluetooth daemon\<close>

text \<open>
  \<open>satellite/src/sentry_satellite/presence/dbus.py\<close>: signatures, writing and reading of values,
  messages, and the connection that cuts them out of what the socket delivers. A value is one of
  Python's; a double is its 64 bits. Exceptions other than \<open>DBusError\<close> are \<open>Python\<close>. Reading
  may not end, so it is a partial function: no answer is \<open>None\<close>. Python's limit on nested calls
  is not modelled, nor are signatures given as something else than text and whole numbers written
  as doubles.
\<close>

datatype dbus_value =
  Nil_value
| Num int
| Flag bool
| Real "64 word"
| Words unicode
| Raw "byte list"
| ListV "dbus_value list"
| TupleV "dbus_value list"
| DictV "(dbus_value \<times> dbus_value) list"
| VariantV unicode dbus_value

datatype dbus_error =
  SignatureEnds
| SignatureOpen
| NotSpoken
| NotAVariant
| NeedsValues nat
| MidValue
| ManyInVariant
| LongArray
| Overrun
| BigEndian
| Version nat
| WrongLength
| LongMessage nat
| Gone
| Closed
| NoAnswer string
| Told string dbus_value "dbus_value option"
| Python

abbreviation (input) also_ok :: "'e + 'a \<Rightarrow> ('a \<Rightarrow> 'e + 'b) \<Rightarrow> 'e + 'b" where
  "also_ok r f \<equiv> (case r of Inl e \<Rightarrow> Inl e | Inr x \<Rightarrow> f x)"

subsection \<open>Signatures\<close>

definition fixed_codes :: string where "fixed_codes = ''ybnqiuxtd''"

definition fixed_size :: "char \<Rightarrow> nat" where
  "fixed_size c =
     (if c = CHR ''y'' then 1 else if c \<in> set ''nq'' then 2 else if c \<in> set ''biu'' then 4 else 8)"

definition align_of :: "char \<Rightarrow> nat option" where
  "align_of c =
     (if c \<in> set ''ygv'' then Some 1
      else if c \<in> set ''nq'' then Some 2
      else if c \<in> set ''biusoa'' then Some 4
      else if c \<in> set ''xtd({'' then Some 8
      else None)"

text \<open>What is left of a signature after its first complete type; \<open>members\<close> is the loop of a struct.\<close>

function whole_type :: "string \<Rightarrow> dbus_error + string" and members :: "char \<Rightarrow> string \<Rightarrow> dbus_error + string" where
  "whole_type [] = Inl SignatureEnds"
| "whole_type (c # s) =
     (if c \<in> set fixed_codes \<or> c \<in> set ''sogv'' then Inr s
      else if c = CHR ''a'' then whole_type s
      else if c = CHR ''('' then members (CHR '')'') s
      else if c = CHR ''{'' then members (CHR ''}'') s
      else Inl NotSpoken)"
| "members close [] = Inl SignatureOpen"
| "members close (c # s) =
     (if c = close then Inr s
      else case whole_type (c # s) of Inl e \<Rightarrow> Inl e | Inr r \<Rightarrow> members close r)"
  by pat_completeness auto

lemma whole_shorter:
  "whole_type_members_dom (Inl s) \<Longrightarrow> whole_type s = Inr r \<Longrightarrow> length r < length s"
  "whole_type_members_dom (Inr (close, s)) \<Longrightarrow> members close s = Inr r \<Longrightarrow> length r < length s"
proof (induction s and close s arbitrary: r and r rule: whole_type_members.pinduct)
  case (2 c s)
  then show ?case by (fastforce simp: whole_type.psimps split: if_splits)
next
  case (4 close c s)
  then show ?case by (fastforce simp: members.psimps split: if_splits sum.splits)
qed (simp_all add: whole_type.psimps members.psimps)

termination whole_type
  by (relation "measure (case_sum (\<lambda>s. 2 * length s) (\<lambda>(close, s). 2 * length s + 1))")
    (auto dest: whole_shorter)

lemma whole_rest:
  "whole_type s = Inr r \<Longrightarrow> length r < length s"
  "members close s = Inr r \<Longrightarrow> length r < length s"
proof (induction s and close s arbitrary: r and r rule: whole_type_members.induct)
  case (2 c s)
  then show ?case by (fastforce split: if_splits)
next
  case (4 close c s)
  then show ?case by (fastforce split: if_splits sum.splits)
qed simp_all

function split_signature :: "string \<Rightarrow> dbus_error + string list" where
  "split_signature s =
     (if s = [] then Inr []
      else case whole_type s of
        Inl e \<Rightarrow> Inl e
      | Inr r \<Rightarrow>
          (case split_signature r of Inl e \<Rightarrow> Inl e | Inr ts \<Rightarrow> Inr (take (length s - length r) s # ts)))"
  by pat_completeness auto
termination
  by (relation "measure length") (auto dest: whole_rest)

declare split_signature.simps [simp del]

subsection \<open>Writing\<close>

definition padding :: "nat \<Rightarrow> nat \<Rightarrow> nat" where
  "padding k n = (if n mod k = 0 then 0 else k - n mod k)"

text \<open>A loop whose body may raise.\<close>

fun each :: "('a \<Rightarrow> 's \<Rightarrow> 'e + 's) \<Rightarrow> 'a list \<Rightarrow> 's \<Rightarrow> 'e + 's" where
  "each f [] s = Inr s"
| "each f (x # xs) s = (case f x s of Inl e \<Rightarrow> Inl e | Inr s' \<Rightarrow> each f xs s')"

lemma each_cong [fundef_cong]:
  "xs = ys \<Longrightarrow> s = t \<Longrightarrow> (\<And>x s. x \<in> set ys \<Longrightarrow> f x s = g x s) \<Longrightarrow> each f xs s = each g ys t"
proof (induction xs arbitrary: ys s t)
  case (Cons x xs)
  then show ?case by (auto split: sum.split)
qed simp

text \<open>\<open>struct.pack\<close> of a whole number: its range, and two's complement.\<close>

definition pack_number :: "char \<Rightarrow> int \<Rightarrow> dbus_error + byte list" where
  "pack_number c i =
     (let n = fixed_size c; top = 256 ^ n;
          low = (if c \<in> set ''nix'' then - (top div 2) else 0);
          high = (if c \<in> set ''nix'' then top div 2 else top)
      in if low \<le> i \<and> i < high then Inr (le_bytes n (nat (i mod top))) else Inl Python)"

text \<open>What Python takes as a number and as true, and what it walks through in a \<open>for\<close>.\<close>

definition as_number :: "dbus_value \<Rightarrow> int option" where
  "as_number v = (case v of Num i \<Rightarrow> Some i | Flag b \<Rightarrow> Some (if b then 1 else 0) | _ \<Rightarrow> None)"



definition truthy :: "dbus_value \<Rightarrow> bool" where
  "truthy v =
     (case v of Nil_value \<Rightarrow> False | Num i \<Rightarrow> i \<noteq> 0 | Flag b \<Rightarrow> b | Real w \<Rightarrow> w \<noteq> 0 \<and> w \<noteq> 0x8000000000000000 | Words t \<Rightarrow> t \<noteq> []
      | Raw bs \<Rightarrow> bs \<noteq> [] | ListV xs \<Rightarrow> xs \<noteq> [] | TupleV xs \<Rightarrow> xs \<noteq> [] | DictV kvs \<Rightarrow> kvs \<noteq> [] | VariantV _ _ \<Rightarrow> True)"

definition walked :: "dbus_value \<Rightarrow> dbus_value list option" where
  "walked v =
     (case v of
        ListV xs \<Rightarrow> Some xs
      | TupleV xs \<Rightarrow> Some xs
      | DictV kvs \<Rightarrow> Some (map fst kvs)
      | Raw bs \<Rightarrow> Some (map (\<lambda>b. Num (int (unat b))) bs)
      | Words t \<Rightarrow> Some (map (\<lambda>c. Words [c]) t)
      | _ \<Rightarrow> None)"

definition items_of :: "dbus_value \<Rightarrow> dbus_value list option" where
  "items_of v = (case v of DictV kvs \<Rightarrow> Some (map (\<lambda>(k, x). TupleV [k, x]) kvs) | _ \<Rightarrow> None)"

text \<open>The characters of a signature; no type of D-Bus lies beyond the first 256.\<close>

definition spelled :: "unicode \<Rightarrow> string" where
  "spelled t = map (\<lambda>c. if c < 256 then char_of c else CHR 0xFF) t"

fun weight :: "dbus_value \<Rightarrow> nat" where
  "weight (Words t) = 2"
| "weight (Raw bs) = 2"
| "weight (ListV xs) = Suc (sum_list (map weight xs))"
| "weight (TupleV xs) = Suc (sum_list (map weight xs))"
| "weight (DictV kvs) = 2 + sum_list (map (\<lambda>(k, v). 2 + weight k + weight v) kvs)"
| "weight (VariantV t v) = Suc (weight v)"
| "weight _ = 1"

lemma walked_lighter: "walked v = Some xs \<Longrightarrow> x \<in> set xs \<Longrightarrow> weight x \<le> weight v"
proof -
  assume a: "walked v = Some xs" "x \<in> set xs"
  have "weight x \<le> sum_list (map weight ys)" if "x \<in> set ys" for ys
    using that by (intro member_le_sum_list) auto
  moreover have "weight k \<le> sum_list (map (\<lambda>(k, v). 2 + weight k + weight v) kvs)" if "(k, y) \<in> set kvs" for k y kvs
    using member_le_sum_list [of "2 + weight k + weight y" "map (\<lambda>(k, v). 2 + weight k + weight v) kvs"] that
    by (force intro: le_trans)
  ultimately show ?thesis using a by (auto simp: walked_def le_SucI split: dbus_value.splits)
qed

lemma items_lighter: "items_of v = Some xs \<Longrightarrow> x \<in> set xs \<Longrightarrow> weight x \<le> weight v"
proof -
  assume a: "items_of v = Some xs" "x \<in> set xs"
  have "2 + weight k + weight y \<le> sum_list (map (\<lambda>(k, v). 2 + weight k + weight v) kvs)" if "(k, y) \<in> set kvs" for k y kvs
    using that by (intro member_le_sum_list) (auto simp: image_iff intro: bexI [of _ "(k, y)"])
  then show ?thesis using a by (fastforce simp: items_of_def split: dbus_value.splits)
qed

lemma split_parts: "split_signature s = Inr ts \<Longrightarrow> t \<in> set ts \<Longrightarrow> length t \<le> length s"
proof (induction s arbitrary: ts rule: split_signature.induct)
  case (1 s)
  show ?case
  proof (cases "s = []")
    case False
    with 1(2) obtain r us where r: "whole_type s = Inr r" "split_signature r = Inr us"
        "ts = take (length s - length r) s # us"
      by (subst (asm) split_signature.simps) (auto split: sum.splits)
    then show ?thesis using 1(1) [OF False r(1,2)] 1(3) whole_rest(1) [OF r(1)] by fastforce
  qed (use 1 in \<open>simp add: split_signature.simps\<close>)
qed

lemma zip_lighter:
  "(t, x) \<in> set (zip ts xs) \<Longrightarrow> split_signature s = Inr ts \<Longrightarrow> walked v = Some xs \<Longrightarrow>
     length t \<le> length s \<and> weight x \<le> weight v"
  by (blast dest: set_zip_leftD set_zip_rightD split_parts walked_lighter)

definition padded :: "nat \<Rightarrow> byte list \<Rightarrow> byte list" where
  "padded k d = d @ replicate (padding k (length d)) 0"

definition write_text :: "nat \<Rightarrow> dbus_value \<Rightarrow> byte list \<Rightarrow> dbus_error + byte list" where
  "write_text n v d =
     (case v of
        Words t \<Rightarrow>
          (case utf8_encode t of
             None \<Rightarrow> Inl Python
           | Some bs \<Rightarrow> if length bs < 256 ^ n then Inr (d @ le_bytes n (length bs) @ bs @ [0]) else Inl Python)
      | _ \<Rightarrow> Inl Python)"

definition write_fixed :: "char \<Rightarrow> dbus_value \<Rightarrow> byte list \<Rightarrow> dbus_error + byte list" where
  "write_fixed c v d =
     (if c = CHR ''d'' then (case v of Real w \<Rightarrow> Inr (d @ le_bytes 8 (unat w)) | _ \<Rightarrow> Inl Python)
      else case (if c = CHR ''b'' then Some (if truthy v then 1 else 0) else as_number v) of
        None \<Rightarrow> Inl Python
      | Some i \<Rightarrow> (case pack_number c i of Inl e \<Rightarrow> Inl e | Inr bs \<Rightarrow> Inr (d @ bs)))"

text \<open>\<open>_array\<close> around its loop: the room for the length, and the length once it is known.\<close>

definition put_length :: "nat \<Rightarrow> nat \<Rightarrow> byte list \<Rightarrow> dbus_error + byte list" where
  "put_length where start d =
     (if length d - start < 256 ^ 4 then Inr (take where d @ le_bytes 4 (length d - start) @ drop (where + 4) d)
      else Inl Python)"

lemma as_int_code [code]:
  "write_text n v d =
     (case v of
        Words t \<Rightarrow>
          (case utf8_encode t of
             None \<Rightarrow> Inl Python
           | Some bs \<Rightarrow> if int (length bs) < 256 ^ n then Inr (d @ le_bytes n (length bs) @ bs @ [0]) else Inl Python)
      | _ \<Rightarrow> Inl Python)"
  "put_length where start d =
     (if int (length d - start) < 256 ^ 4 then Inr (take where d @ le_bytes 4 (length d - start) @ drop (where + 4) d)
      else Inl Python)"
proof -
  have "(int x < 256 ^ m) = (x < 256 ^ m)" for x m :: nat
    using of_nat_less_iff [of x "256 ^ m", where ?'a = int] by simp
  then show "write_text n v d =
     (case v of
        Words t \<Rightarrow>
          (case utf8_encode t of
             None \<Rightarrow> Inl Python
           | Some bs \<Rightarrow> if int (length bs) < 256 ^ n then Inr (d @ le_bytes n (length bs) @ bs @ [0]) else Inl Python)
      | _ \<Rightarrow> Inl Python)"
    "put_length where start d =
     (if int (length d - start) < 256 ^ 4 then Inr (take where d @ le_bytes 4 (length d - start) @ drop (where + 4) d)
      else Inl Python)"
    by (simp_all only: write_text_def put_length_def)
qed

function write_value :: "string \<Rightarrow> dbus_value \<Rightarrow> byte list \<Rightarrow> dbus_error + byte list" where
  "write_value s v data =
     (case s of
        [] \<Rightarrow> Inl Python
      | c # r \<Rightarrow>
          (case align_of c of
             None \<Rightarrow> Inl Python
           | Some k \<Rightarrow>
               (let d = padded k data in
                if c \<in> set fixed_codes then write_fixed c v d
                else if c \<in> set ''so'' then write_text 4 v d
                else if c = CHR ''g'' then write_text 1 v d
                else if c = CHR ''v'' then
                  (case v of
                     VariantV t x \<Rightarrow>
                       (case write_text 1 (Words t) d of Inl e \<Rightarrow> Inl e | Inr d' \<Rightarrow> write_value (spelled t) x d')
                   | _ \<Rightarrow> Inl NotAVariant)
                else if c = CHR ''a'' then
                  (case r of
                     [] \<Rightarrow> Inl Python
                   | c' # _ \<Rightarrow>
                       (case (align_of c', if c' = CHR ''{'' then items_of v else walked v) of
                          (Some k', Some xs) \<Rightarrow>
                            (let d' = padded k' (d @ replicate 4 0) in
                             case each (\<lambda>x. write_value r x) xs d' of
                               Inl e \<Rightarrow> Inl e
                             | Inr d'' \<Rightarrow> put_length (length d) (length d') d'')
                        | _ \<Rightarrow> Inl Python))
                else
                  (case split_signature (butlast r) of
                     Inl e \<Rightarrow> Inl e
                   | Inr ts \<Rightarrow>
                       (case walked v of
                          None \<Rightarrow> Inl Python
                        | Some xs \<Rightarrow>
                            if length ts \<noteq> length xs then Inl (NeedsValues (length ts))
                            else each (\<lambda>(t, x). write_value t x) (zip ts xs) d)))))"
  by pat_completeness auto
termination
proof (relation "measures [\<lambda>(s, v, d). weight v, \<lambda>(s, v, d). length s]", goal_cases)
  case 1
  then show ?case by simp
next
  case (2 s v data c r)
  then show ?case by simp
next
  case (3 s v data c r)
  then show ?case by (auto simp: le_eq_less_or_eq split: if_splits
      dest!: walked_lighter [OF sym] items_lighter [OF sym])
next
  case (4 s v data c r)
  then show ?case
    by (auto dest!: zip_lighter simp: le_eq_less_or_eq split: if_splits)
qed

declare write_value.simps [simp del]

subsection \<open>Reading\<close>

definition max_message :: nat where "max_message = 2 ^ 20"

text \<open>\<open>take\<close>: so many bytes from where the reader stands.\<close>

definition bytes_at :: "byte list \<Rightarrow> nat \<Rightarrow> nat \<Rightarrow> dbus_error + byte list" where
  "bytes_at data p n = (if length data < p + n then Inl MidValue else Inr (take n (drop p data)))"

definition unpack_number :: "char \<Rightarrow> byte list \<Rightarrow> int" where
  "unpack_number c bs =
     (let x = le_nat bs; top = 256 ^ fixed_size c
      in if c \<in> set ''nix'' \<and> top div 2 \<le> x then int x - int top else int x)"

definition unpacked :: "char \<Rightarrow> byte list \<Rightarrow> dbus_value" where
  "unpacked c bs =
     (if c = CHR ''d'' then Real (word_of_nat (le_nat bs))
      else if c = CHR ''b'' then Flag (unpack_number c bs \<noteq> 0)
      else Num (unpack_number c bs))"

text \<open>A text with its length before it and a zero behind; how it is decoded is the caller's.\<close>

definition read_text ::
  "nat \<Rightarrow> (byte list \<Rightarrow> unicode option) \<Rightarrow> byte list \<Rightarrow> nat \<Rightarrow> dbus_error + unicode \<times> nat" where
  "read_text n f data p =
     (case bytes_at data p n of
        Inl e \<Rightarrow> Inl e
      | Inr bs \<Rightarrow>
          (case bytes_at data (p + n) (le_nat bs + 1) of
             Inl e \<Rightarrow> Inl e
           | Inr ts \<Rightarrow> (case f (butlast ts) of None \<Rightarrow> Inl Python | Some t \<Rightarrow> Inr (t, p + n + le_nat bs + 1))))"

text \<open>What may be the key of a dictionary.\<close>

fun hashable :: "dbus_value \<Rightarrow> bool" where
  "hashable (ListV xs) = False"
| "hashable (DictV kvs) = False"
| "hashable (TupleV xs) = list_all hashable xs"
| "hashable (VariantV t v) = hashable v"
| "hashable v = True"

definition as_dict :: "dbus_value list \<Rightarrow> dbus_error + dbus_value" where
  "as_dict xs =
     (case each (\<lambda>x m. case x of
          TupleV [k, v] \<Rightarrow> if hashable k then Inr (dict_set k v m) else Inl Python
        | _ \<Rightarrow> Inl Python) xs [] of
        Inl e \<Rightarrow> Inl e
      | Inr m \<Rightarrow> Inr (DictV m))"

text \<open>
  The three loops of \<open>_Reader\<close>: one value, one after another for the parts of a struct, and as
  long as the end of an array is not reached.
\<close>

datatype read_job = One string | Parts "string list" | Until string nat

partial_function (option) read_bus ::
  "byte list \<Rightarrow> read_job \<Rightarrow> nat \<Rightarrow> (dbus_error + dbus_value list \<times> nat) option" where
  "read_bus data job here =
     (case job of
        Parts ts \<Rightarrow>
          (case ts of
             [] \<Rightarrow> Some (Inr ([], here))
           | t # us \<Rightarrow>
               Option.bind (read_bus data (One t) here)
                 (\<lambda>z. case z of
                    Inl e \<Rightarrow> Some (Inl e)
                  | Inr (vs, p) \<Rightarrow>
                      Option.bind (read_bus data (Parts us) p)
                        (\<lambda>y. case y of Inl e \<Rightarrow> Some (Inl e) | Inr (ws, q) \<Rightarrow> Some (Inr (vs @ ws, q)))))
      | Until s end \<Rightarrow>
          (if here < end then
             Option.bind (read_bus data (One s) here)
               (\<lambda>z. case z of
                  Inl e \<Rightarrow> Some (Inl e)
                | Inr (vs, p) \<Rightarrow>
                    Option.bind (read_bus data (Until s end) p)
                      (\<lambda>y. case y of Inl e \<Rightarrow> Some (Inl e) | Inr (ws, q) \<Rightarrow> Some (Inr (vs @ ws, q))))
           else Some (Inr ([], here)))
      | One s \<Rightarrow>
          (case s of
             [] \<Rightarrow> Some (Inl Python)
           | c # r \<Rightarrow>
               (case align_of c of
                  None \<Rightarrow> Some (Inl Python)
                | Some k \<Rightarrow>
                    (let p = here + padding k here in
                     if c \<in> set fixed_codes then
                       Some (case bytes_at data p (fixed_size c) of
                               Inl e \<Rightarrow> Inl e
                             | Inr bs \<Rightarrow> Inr ([unpacked c bs], p + fixed_size c))
                     else if c \<in> set ''so'' then
                       Some (case read_text 4 (\<lambda>bs. Some (utf8_replace bs)) data p of
                               Inl e \<Rightarrow> Inl e
                             | Inr (t, q) \<Rightarrow> Inr ([Words t], q))
                     else if c = CHR ''g'' then
                       Some (case read_text 1 utf8_strict data p of Inl e \<Rightarrow> Inl e | Inr (t, q) \<Rightarrow> Inr ([Words t], q))
                     else if c = CHR ''v'' then
                       (case read_text 1 utf8_strict data p of
                          Inl e \<Rightarrow> Some (Inl e)
                        | Inr (t, q) \<Rightarrow>
                            (case split_signature (spelled t) of
                               Inl e \<Rightarrow> Some (Inl e)
                             | Inr ts \<Rightarrow>
                                 if length ts \<noteq> 1 then Some (Inl ManyInVariant)
                                 else Option.bind (read_bus data (One (spelled t)) q)
                                        (\<lambda>z. case z of
                                           Inl e \<Rightarrow> Some (Inl e)
                                         | Inr (vs, q') \<Rightarrow> Some (Inr ([VariantV t (hd vs)], q')))))
                     else if c = CHR ''a'' then
                       (case bytes_at data p 4 of
                          Inl e \<Rightarrow> Some (Inl e)
                        | Inr bs \<Rightarrow>
                            if le_nat bs > max_message then Some (Inl LongArray)
                            else
                              (case r of
                                 [] \<Rightarrow> Some (Inl Python)
                               | c' # _ \<Rightarrow>
                                   (case align_of c' of
                                      None \<Rightarrow> Some (Inl Python)
                                    | Some k' \<Rightarrow>
                                        (let q = p + 4 + padding k' (p + 4) in
                                         if r = ''y'' then
                                           Some (case bytes_at data q (le_nat bs) of
                                                   Inl e \<Rightarrow> Inl e
                                                 | Inr xs \<Rightarrow> Inr ([Raw xs], q + le_nat bs))
                                         else
                                           Option.bind (read_bus data (Until r (q + le_nat bs)) q)
                                             (\<lambda>z. case z of
                                                Inl e \<Rightarrow> Some (Inl e)
                                              | Inr (vs, q') \<Rightarrow>
                                                  if q' \<noteq> q + le_nat bs then Some (Inl Overrun)
                                                  else if c' = CHR ''{'' then
                                                    Some (case as_dict vs of Inl e \<Rightarrow> Inl e | Inr m \<Rightarrow> Inr ([m], q'))
                                                  else Some (Inr ([ListV vs], q')))))))
                     else
                       (case split_signature (butlast r) of
                          Inl e \<Rightarrow> Some (Inl e)
                        | Inr ts \<Rightarrow>
                            if c = CHR ''{'' \<and> length ts \<noteq> 2 then Some (Inl Python)
                            else Option.bind (read_bus data (Parts ts) p)
                                   (\<lambda>z. case z of
                                      Inl e \<Rightarrow> Some (Inl e)
                                    | Inr (vs, q) \<Rightarrow> Some (Inr ([TupleV vs], q))))))))"

declare read_bus.simps [code]

text \<open>A value read, and what is read after it.\<close>

definition read_more ::
  "(dbus_error + dbus_value list \<times> nat) option \<Rightarrow> (nat \<Rightarrow> (dbus_error + dbus_value list \<times> nat) option) \<Rightarrow>
     (dbus_error + dbus_value list \<times> nat) option" where
  "read_more r f =
     Option.bind r
       (\<lambda>z. case z of
          Inl e \<Rightarrow> Some (Inl e)
        | Inr (vs, p) \<Rightarrow>
            Option.bind (f p) (\<lambda>y. case y of Inl e \<Rightarrow> Some (Inl e) | Inr (ws, q) \<Rightarrow> Some (Inr (vs @ ws, q))))"

lemma read_more_simps [simp]:
  "read_more None f = None" "read_more (Some (Inl e)) f = Some (Inl e)"
  "f p = Some (Inr (ws, q)) \<Longrightarrow> read_more (Some (Inr (vs, p))) f = Some (Inr (vs @ ws, q))"
  by (simp_all add: read_more_def)

lemma read_loops:
  "read_bus data (Parts []) here = Some (Inr ([], here))"
  "read_bus data (Parts (t # us)) here = read_more (read_bus data (One t) here) (read_bus data (Parts us))"
  "here < end \<Longrightarrow> read_bus data (Until s end) here = read_more (read_bus data (One s) here) (read_bus data (Until s end))"
  "\<not> here < end \<Longrightarrow> read_bus data (Until s end) here = Some (Inr ([], here))"
  by (subst read_bus.simps, simp add: read_more_def)+

subsection \<open>Messages\<close>

record dbus_message =
  dm_type :: int
  dm_serial :: int
  dm_fields :: "(string, dbus_value) dict"
  dm_body :: "dbus_value list"
  dm_raw :: "byte list"

text \<open>\<open>FIELDS\<close> with the types of \<open>FIELD_TYPES\<close>.\<close>

definition header_fields :: "(string \<times> int \<times> string) list" where
  "header_fields =
     [(''path'', 1, ''o''), (''interface'', 2, ''s''), (''member'', 3, ''s''), (''error_name'', 4, ''s''),
      (''reply_serial'', 5, ''u''), (''destination'', 6, ''s''), (''sender'', 7, ''s''), (''signature'', 8, ''g'')]"

definition signature_of :: "(string, dbus_value) dict \<Rightarrow> dbus_error + string list" where
  "signature_of m =
     (case dict_get m ''signature'' of
        None \<Rightarrow> Inr []
      | Some (Words t) \<Rightarrow> split_signature (spelled t)
      | Some _ \<Rightarrow> Inl Python)"

definition write_body :: "(string, dbus_value) dict \<Rightarrow> dbus_value list \<Rightarrow> dbus_error + byte list" where
  "write_body m body =
     (case signature_of m of
        Inl e \<Rightarrow> Inl e
      | Inr ts \<Rightarrow>
          (case each (\<lambda>(t, x). write_value t x) (zip ts body) [] of
             Inl e \<Rightarrow> Inl e
           | Inr bs \<Rightarrow> if length ts = length body then Inr bs else Inl Python))"

text \<open>The fields of the header; \<open>_flags\<close> has been taken out by then.\<close>

definition field_value :: "string \<Rightarrow> dbus_value \<Rightarrow> dbus_error + dbus_value list" where
  "field_value name v =
     (if v = Nil_value \<or> name = ''signature'' \<and> \<not> truthy v then Inr []
      else case dict_get header_fields name of
        None \<Rightarrow> Inl Python
      | Some (code, t) \<Rightarrow> Inr [TupleV [Num code, VariantV (said t) v]])"

definition field_values :: "(string, dbus_value) dict \<Rightarrow> dbus_error + dbus_value list" where
  "field_values m =
     each (\<lambda>(name, v) xs. case field_value name v of Inl e \<Rightarrow> Inl e | Inr ys \<Rightarrow> Inr (xs @ ys)) m []"

definition encode :: "dbus_message \<Rightarrow> dbus_error + byte list" where
  "encode m =
     (case write_body (dm_fields m) (dm_body m) of
        Inl e \<Rightarrow> Inl e
      | Inr body \<Rightarrow>
          (let flags = (case dict_get (dm_fields m) ''_flags'' of None \<Rightarrow> Num 0 | Some v \<Rightarrow> v) in
           case each (\<lambda>(t, x). write_value t x)
               [(''y'', Num 108), (''y'', Num (dm_type m)), (''y'', flags), (''y'', Num 1), (''u'', Num (int (length body))),
                (''u'', Num (dm_serial m))] [] of
             Inl e \<Rightarrow> Inl e
           | Inr head \<Rightarrow>
               (case field_values (dict_pop ''_flags'' (dm_fields m)) of
                  Inl e \<Rightarrow> Inl e
                | Inr fs \<Rightarrow>
                    (case write_value ''a(yv)'' (ListV fs) head of
                       Inl e \<Rightarrow> Inl e
                     | Inr d \<Rightarrow> Inr (padded 8 d @ body)))))"

definition message_size :: "byte list \<Rightarrow> dbus_error + nat" where
  "message_size head =
     (if take 1 head \<noteq> [108] then Inl BigEndian
      else Inr (16 + field 12 4 head + padding 8 (field 12 4 head) + field 4 4 head))"

definition field_names :: "(int \<times> string) list" where
  "field_names = map (\<lambda>(name, code, t). (code, name)) header_fields"

definition read_fields :: "dbus_value list \<Rightarrow> (string, dbus_value) dict" where
  "read_fields vs =
     fold (\<lambda>v m. case v of
         TupleV [Num code, VariantV t x] \<Rightarrow>
           (case dict_get field_names code of None \<Rightarrow> m | Some name \<Rightarrow> dict_set name x m)
       | _ \<Rightarrow> m) vs []"

definition decode :: "byte list \<Rightarrow> (dbus_error + dbus_message) option" where
  "decode data =
     (if length data < 4 then Some (Inl MidValue)
      else if data ! 3 \<noteq> 1 then Some (Inl (Version (unat (data ! 3))))
      else Option.bind (read_bus data (Parts [''u'', ''u'', ''a(yv)'']) 4)
        (\<lambda>z. case z of
           Inr ([Num len, Num serial, ListV vs], p) \<Rightarrow>
             (let m = read_fields vs; start = p + padding 8 p in
              case signature_of m of
                Inl e \<Rightarrow> Some (Inl e)
              | Inr ts \<Rightarrow>
                  Option.bind (read_bus data (Parts ts) start)
                    (\<lambda>y. case y of
                       Inl e \<Rightarrow> Some (Inl e)
                     | Inr (body, q) \<Rightarrow>
                         Some (if int q - int start \<noteq> len then Inl WrongLength
                           else Inr \<lparr>dm_type = int (unat (data ! 1)), dm_serial = serial, dm_fields = m,
                             dm_body = body, dm_raw = []\<rparr>)))
         | Inl e \<Rightarrow> Some (Inl e)
         | Inr _ \<Rightarrow> Some (Inl Python)))"

fun plain :: "dbus_value \<Rightarrow> dbus_value" where
  "plain (VariantV t v) = plain v"
| "plain (DictV kvs) = DictV (map (\<lambda>(k, v). (k, plain v)) kvs)"
| "plain (ListV xs) = ListV (map plain xs)"
| "plain (TupleV xs) = TupleV (map plain xs)"
| "plain v = v"

subsection \<open>The connection\<close>

record connection =
  dc_serial :: int
  dc_buffer :: "byte list"
  dc_signals :: "dbus_message list"
  dc_skipped :: nat

text \<open>
  \<open>_take\<close>: one message out of what has come, or a wait. \<open>Refuse None\<close> is a message whose reading
  never ends.
\<close>

function take_message ::
  "(byte list \<Rightarrow> bool) option \<Rightarrow> connection \<Rightarrow> (dbus_message, dbus_error option) pulled \<times> connection" where
  "take_message keep c =
     (if length (dc_buffer c) < 16 then (Stall, c)
      else case message_size (take 16 (dc_buffer c)) of
        Inl e \<Rightarrow> (Refuse (Some e), c)
      | Inr n \<Rightarrow>
          if n > max_message then (Refuse (Some (LongMessage n)), c)
          else if length (dc_buffer c) < n then (Stall, c)
          else
            (let data = take n (dc_buffer c); c' = c\<lparr>dc_buffer := drop n (dc_buffer c)\<rparr> in
             if data ! 1 = 4 \<and> (case keep of None \<Rightarrow> False | Some f \<Rightarrow> \<not> f data)
             then take_message keep (c'\<lparr>dc_skipped := Suc (dc_skipped c)\<rparr>)
             else case decode data of
               None \<Rightarrow> (Refuse None, c')
             | Some (Inl e) \<Rightarrow> (Refuse (Some e), c')
             | Some (Inr m) \<Rightarrow> (Item (m\<lparr>dm_raw := data\<rparr>), c')))"
  by pat_completeness auto
termination
  by (relation "measure (\<lambda>(keep, c). length (dc_buffer c))") (auto simp: message_size_def split: if_splits)

declare take_message.simps [simp del]

text \<open>
  What \<open>select\<close> and \<open>recv\<close> say, one after another: bytes (none: the other end closed), nothing
  before the deadline, or an error. A call that has used up what is known is still waiting.
\<close>

datatype socket_says = Chunk "byte list" | Quiet | Broken

datatype 'a waited = Returns 'a | Raises dbus_error | Never | Waiting

fun receive ::
  "(byte list \<Rightarrow> bool) option \<Rightarrow> socket_says list \<Rightarrow> connection \<Rightarrow>
     dbus_message option waited \<times> socket_says list \<times> connection" where
  "receive keep says c =
     (case take_message keep c of
        (Item m, c') \<Rightarrow> (Returns (Some m), says, c')
      | (Refuse None, c') \<Rightarrow> (Never, says, c')
      | (Refuse (Some e), c') \<Rightarrow> (Raises e, says, c')
      | (Stall, c') \<Rightarrow>
          (case says of
             [] \<Rightarrow> (Waiting, [], c')
           | Quiet # r \<Rightarrow> (Returns None, r, c')
           | Broken # r \<Rightarrow> (Raises Gone, r, c')
           | Chunk [] # r \<Rightarrow> (Raises Closed, r, c')
           | Chunk bs # r \<Rightarrow> receive keep r (c'\<lparr>dc_buffer := dc_buffer c' @ bs\<rparr>)))"

declare receive.simps [simp del]

definition method_call ::
  "int \<Rightarrow> dbus_value \<Rightarrow> string \<Rightarrow> string \<Rightarrow> string \<Rightarrow> string \<Rightarrow> dbus_value list \<Rightarrow> bool \<Rightarrow> dbus_message" where
  "method_call serial destination path face member signature body reply =
     \<lparr>dm_type = 1, dm_serial = serial,
      dm_fields =
        [(''path'', Words (said path)), (''interface'', Words (said face)), (''member'', Words (said member)),
         (''destination'', destination), (''signature'', Words (said signature)),
         (''_flags'', Num (if reply then 0 else 1))],
      dm_body = body, dm_raw = []\<rparr>"

text \<open>\<open>send\<close>: what goes to the socket, which takes it or not.\<close>

definition send_call ::
  "dbus_value \<Rightarrow> string \<Rightarrow> string \<Rightarrow> string \<Rightarrow> string \<Rightarrow> dbus_value list \<Rightarrow> bool \<Rightarrow> bool \<Rightarrow> connection \<Rightarrow>
     (dbus_error + byte list) \<times> connection" where
  "send_call destination path face member signature body reply works c =
     (let c' = c\<lparr>dc_serial := dc_serial c + 1\<rparr> in
      case encode (method_call (dc_serial c') destination path face member signature body reply) of
        Inl e \<Rightarrow> (Inl e, c')
      | Inr bs \<Rightarrow> (if works then Inr bs else Inl Gone, c'))"

definition says_bytes :: "socket_says list \<Rightarrow> nat" where
  "says_bytes says = sum_list (map (\<lambda>x. case x of Chunk bs \<Rightarrow> length bs | _ \<Rightarrow> 0) says)"

lemma message_size_least: "message_size h = Inr n \<Longrightarrow> 16 \<le> n"
  by (auto simp: message_size_def split: if_splits)

text \<open>What \<open>_take\<close> does, apart from the signals it passes over.\<close>

lemma take_message_cases:
  obtains (waits) "take_message keep c = (Stall, c)"
  | (refuses) e where "take_message keep c = (Refuse e, c)"
  | (passes) n where "16 \<le> n" "n \<le> length (dc_buffer c)"
      "take_message keep c = take_message keep (c\<lparr>dc_buffer := drop n (dc_buffer c), dc_skipped := Suc (dc_skipped c)\<rparr>)"
  | (takes) n z where "16 \<le> n" "n \<le> length (dc_buffer c)" "z \<noteq> Stall"
      "take_message keep c = (z, c\<lparr>dc_buffer := drop n (dc_buffer c)\<rparr>)"
proof -
  note eq = take_message.simps [of keep c]
  let ?b = "dc_buffer c"
  show ?thesis
  proof (cases "length ?b < 16")
    case True
    then show ?thesis using eq waits by simp
  next
    case long: False
    show ?thesis
    proof (cases "message_size (take 16 ?b)")
      case (Inl e)
      then show ?thesis using eq long refuses by simp
    next
      case (Inr n)
      let ?skips = "take n ?b ! 1 = 4 \<and> (case keep of None \<Rightarrow> False | Some f \<Rightarrow> \<not> f (take n ?b))"
      consider "n > max_message" | "n \<le> max_message" "length ?b < n" | "n \<le> max_message" "n \<le> length ?b" ?skips
        | "n \<le> max_message" "n \<le> length ?b" "\<not> ?skips"
        by linarith
      then show ?thesis
      proof cases
        case 1
        then show ?thesis using eq long Inr refuses by simp
      next
        case 2
        then show ?thesis using eq long Inr waits by simp
      next
        case 3
        then have "take_message keep c = take_message keep (c\<lparr>dc_buffer := drop n ?b, dc_skipped := Suc (dc_skipped c)\<rparr>)"
          using eq long Inr by (simp add: Let_def)
        then show ?thesis using 3 passes message_size_least [OF Inr] by blast
      next
        case 4
        then have "fst (take_message keep c) \<noteq> Stall \<and> snd (take_message keep c) = c\<lparr>dc_buffer := drop n ?b\<rparr>"
          using eq long Inr by (cases "decode (take n ?b)") (auto simp: Let_def split: sum.splits)
        then show ?thesis using 4 takes [of n "fst (take_message keep c)"] message_size_least [OF Inr]
          by (simp add: prod_eq_iff)
      qed
    qed
  qed
qed

lemma take_message_shrinks:
  "length (dc_buffer (snd (take_message keep c))) \<le> length (dc_buffer c)"
  "fst (take_message keep c) = Item m \<Longrightarrow> length (dc_buffer (snd (take_message keep c))) < length (dc_buffer c)"
proof (induction "length (dc_buffer c)" arbitrary: c rule: less_induct)
  case less
  {
    case 1
    show ?case
    proof (cases rule: take_message_cases [of keep c])
      case (passes n)
      then show ?thesis using less(1) [of "c\<lparr>dc_buffer := drop n (dc_buffer c), dc_skipped := Suc (dc_skipped c)\<rparr>"] by fastforce
    qed simp_all
  next
    case 2
    then show ?case
    proof (cases rule: take_message_cases [of keep c])
      case (passes n)
      then show ?thesis using 2 less(2) [of "c\<lparr>dc_buffer := drop n (dc_buffer c), dc_skipped := Suc (dc_skipped c)\<rparr>"] by fastforce
    qed simp_all
  }
qed

lemma receive_shrinks:
  "receive keep says c = (Returns (Some m), says', c') \<Longrightarrow>
     length (dc_buffer c') + says_bytes says' < length (dc_buffer c) + says_bytes says"
proof (induction keep says c rule: receive.induct)
  case (1 keep says c)
  obtain z c1 where z: "take_message keep c = (z, c1)" by (cases "take_message keep c")
  then show ?case using 1 take_message_shrinks [where keep = keep and c = c]
    by (subst (asm) receive.simps [of keep says c])
      (fastforce simp: says_bytes_def split: pulled.splits list.splits socket_says.splits option.splits)
qed

text \<open>\<open>call\<close> after it has sent: the answer to this serial; signals are kept, other answers dropped.\<close>

function await_reply ::
  "int \<Rightarrow> string \<Rightarrow> socket_says list \<Rightarrow> connection \<Rightarrow> dbus_value list waited \<times> socket_says list \<times> connection" where
  "await_reply serial member says c =
     (case receive None says c of
        (Returns None, r, c') \<Rightarrow> (Raises (NoAnswer member), r, c')
      | (Raises e, r, c') \<Rightarrow> (Raises e, r, c')
      | (Never, r, c') \<Rightarrow> (Never, r, c')
      | (Waiting, r, c') \<Rightarrow> (Waiting, r, c')
      | (Returns (Some m), r, c') \<Rightarrow>
          if dm_type m = 4 then await_reply serial member r (c'\<lparr>dc_signals := dc_signals c' @ [m]\<rparr>)
          else if dict_get (dm_fields m) ''reply_serial'' \<noteq> Some (Num serial) then await_reply serial member r c'
          else if dm_type m = 3 then
            (let name = dict_get (dm_fields m) ''error_name'';
                 detail = (case dm_body m of x # _ \<Rightarrow> x | [] \<Rightarrow> (case name of None \<Rightarrow> Nil_value | Some v \<Rightarrow> v))
             in (Raises (Told member detail name), r, c'))
          else (Returns (map plain (dm_body m)), r, c'))"
  by pat_completeness auto
termination
  by (relation "measure (\<lambda>(serial, member, says, c). length (dc_buffer c) + says_bytes says)")
    (auto dest!: receive_shrinks [OF sym])

definition call_method ::
  "dbus_value \<Rightarrow> string \<Rightarrow> string \<Rightarrow> string \<Rightarrow> string \<Rightarrow> dbus_value list \<Rightarrow> bool \<Rightarrow> socket_says list \<Rightarrow> connection \<Rightarrow>
     dbus_value list waited \<times> socket_says list \<times> connection" where
  "call_method destination path face member signature body works says c =
     (case send_call destination path face member signature body True works c of
        (Inl e, c') \<Rightarrow> (Raises e, says, c')
      | (Inr bs, c') \<Rightarrow> await_reply (dc_serial c') member says c')"

text \<open>\<open>next_signal\<close>: one that was kept, or the next that comes; other messages are thrown away.\<close>

fun kept_signal ::
  "(byte list \<Rightarrow> bool) option \<Rightarrow> dbus_message list \<Rightarrow> dbus_message option \<times> dbus_message list" where
  "kept_signal keep [] = (None, [])"
| "kept_signal keep (m # ms) =
     (if (case keep of None \<Rightarrow> True | Some f \<Rightarrow> f (dm_raw m)) then (Some m, ms) else kept_signal keep ms)"

function past_others ::
  "(byte list \<Rightarrow> bool) option \<Rightarrow> socket_says list \<Rightarrow> connection \<Rightarrow>
     dbus_message option waited \<times> socket_says list \<times> connection" where
  "past_others keep says c =
     (case receive keep says c of
        (Returns (Some m), r, c') \<Rightarrow>
          if dm_type m = 4 then (Returns (Some m), r, c') else past_others keep r c'
      | other \<Rightarrow> other)"
  by pat_completeness auto
termination
  by (relation "measure (\<lambda>(keep, says, c). length (dc_buffer c) + says_bytes says)")
    (auto dest!: receive_shrinks [OF sym])

declare await_reply.simps [simp del] past_others.simps [simp del]

definition next_signal ::
  "(byte list \<Rightarrow> bool) option \<Rightarrow> socket_says list \<Rightarrow> connection \<Rightarrow>
     dbus_message option waited \<times> socket_says list \<times> connection" where
  "next_signal keep says c =
     (case kept_signal keep (dc_signals c) of
        (Some m, ms) \<Rightarrow> (Returns (Some m), says, c\<lparr>dc_signals := ms\<rparr>)
      | (None, ms) \<Rightarrow> past_others keep says (c\<lparr>dc_signals := ms\<rparr>))"

end
