(* ===== verification/Marshalled.thy ===== *)
theory Marshalled
  imports DBus
begin

section \<open>What is written is read\<close>

text \<open>
  Values with a type come back from the wire as they were, messages survive however the socket
  cuts them, and every message without an empty struct is read or refused in the end.
\<close>

subsection \<open>Types\<close>

datatype bus_type = Basic char | Variant_type | Array_of bus_type | Struct_of "bus_type list" | Entry_of bus_type bus_type

fun spelling :: "bus_type \<Rightarrow> string" where
  "spelling (Basic c) = [c]"
| "spelling Variant_type = ''v''"
| "spelling (Array_of t) = CHR ''a'' # spelling t"
| "spelling (Struct_of ts) = ''('' @ concat (map spelling ts) @ '')''"
| "spelling (Entry_of k v) = ''{'' @ spelling k @ spelling v @ ''}''"

fun sound_type :: "bus_type \<Rightarrow> bool" where
  "sound_type (Basic c) \<longleftrightarrow> c \<in> set fixed_codes \<or> c \<in> set ''sog''"
| "sound_type Variant_type \<longleftrightarrow> True"
| "sound_type (Array_of t) \<longleftrightarrow> sound_type t"
| "sound_type (Struct_of ts) \<longleftrightarrow> ts \<noteq> [] \<and> list_all sound_type ts"
| "sound_type (Entry_of k v) \<longleftrightarrow> sound_type k \<and> sound_type v"

lemma spelling_first: "sound_type t \<Longrightarrow> \<exists>c s. spelling t = c # s \<and> c \<notin> set '')}''"
  by (cases t) (auto simp: fixed_codes_def)

lemma whole_type_spelling: "sound_type t \<Longrightarrow> whole_type (spelling t @ r) = Inr r"
proof (induction t arbitrary: r)
  case (Basic c)
  then show ?case by auto
next
  case Variant_type
  then show ?case by simp
next
  case (Array_of t)
  then show ?case by (simp add: fixed_codes_def)
next
  case (Struct_of ts)
  have "members (CHR '')'') (concat (map spelling us) @ CHR '')'' # r) = Inr r" if "set us \<subseteq> set ts" for us
    using that
  proof (induction us)
    case (Cons u us)
    then have u: "sound_type u" "u \<in> set ts" using Struct_of(2) by (auto simp: list_all_iff)
    from spelling_first [OF u(1)] obtain c s where c: "spelling u = c # s" "c \<noteq> CHR '')''" by auto
    then show ?case using Struct_of(1) [OF u(2,1)] Cons by (simp del: whole_type.simps)
  qed simp
  then show ?case by (simp add: fixed_codes_def)
next
  case (Entry_of k v)
  from spelling_first [of k] spelling_first [of v] Entry_of(3) obtain c s d u where
    "spelling k = c # s" "c \<noteq> CHR ''}''" "spelling v = d # u" "d \<noteq> CHR ''}''" by auto
  then show ?case using Entry_of(1) [of "spelling v @ CHR ''}'' # r"] Entry_of(2) [of "CHR ''}'' # r"] Entry_of(3)
    by (simp add: fixed_codes_def del: whole_type.simps) (simp add: fixed_codes_def)
qed

lemma split_spellings: "list_all sound_type ts \<Longrightarrow> split_signature (concat (map spelling ts)) = Inr (map spelling ts)"
proof (induction ts)
  case (Cons t ts)
  from spelling_first [of t] Cons(2) have "spelling t \<noteq> []" by auto
  then show ?case using Cons whole_type_spelling [of t "concat (map spelling ts)"]
    by (subst split_signature.simps) simp
qed (simp add: split_signature.simps)

lemma spelled_said: "spelled (said s) = s"
  by (simp add: spelled_def said_def map_idI)

subsection \<open>Values of a type\<close>

inductive fits :: "bus_type \<Rightarrow> dbus_value \<Rightarrow> bool" where
  "c \<in> set ''ynqiuxt'' \<Longrightarrow> fits (Basic c) (Num i)"
| "fits (Basic (CHR ''b'')) (Flag b)"
| "fits (Basic (CHR ''d'')) (Real w)"
| "c \<in> set ''sog'' \<Longrightarrow> fits (Basic c) (Words t)"
| "fits t v \<Longrightarrow> fits Variant_type (VariantV (said (spelling t)) v)"
| "fits (Array_of (Basic (CHR ''y''))) (Raw bs)"
| "sound_type t \<Longrightarrow> t \<noteq> Basic (CHR ''y'') \<Longrightarrow> \<nexists>k v. t = Entry_of k v \<Longrightarrow> \<forall>x \<in> set xs. fits t x \<Longrightarrow>
     fits (Array_of t) (ListV xs)"
| "sound_type a \<Longrightarrow> sound_type b \<Longrightarrow> \<forall>(k, v) \<in> set kvs. fits a k \<and> hashable k \<and> fits b v \<Longrightarrow> distinct (map fst kvs) \<Longrightarrow>
     fits (Array_of (Entry_of a b)) (DictV kvs)"
| "ts \<noteq> [] \<Longrightarrow> list_all2 fits ts xs \<Longrightarrow> fits (Struct_of ts) (TupleV xs)"
| "fits a k \<Longrightarrow> fits b v \<Longrightarrow> fits (Entry_of a b) (TupleV [k, v])"
  monos list.rel_mono

lemma fits_sound: "fits t v \<Longrightarrow> sound_type t"
proof (induction rule: fits.induct)
  case (9 ts xs)
  then show ?case by (auto simp: list_all2_conv_all_nth list_all_length)
qed (auto simp: fixed_codes_def)

subsection \<open>Where a reader stands\<close>

text \<open>
  The bytes \<open>e\<close>, written from a position on, are read as these values from any position that is the
  same modulo eight; \<open>job\<close> may depend on where they end.
\<close>

definition reads_back :: "(nat \<Rightarrow> read_job) \<Rightarrow> dbus_value list \<Rightarrow> nat \<Rightarrow> byte list \<Rightarrow> bool" where
  "reads_back job vs n e \<longleftrightarrow>
     (\<forall>pre rest. length pre mod 8 = n mod 8 \<longrightarrow> length e \<le> max_message \<longrightarrow>
        read_bus (pre @ e @ rest) (job (length pre + length e)) (length pre) = Some (Inr (vs, length pre + length e)))"

definition carried_over :: "bus_type \<Rightarrow> dbus_value \<Rightarrow> bool" where
  "carried_over t v \<longleftrightarrow>
     (\<forall>d d'. write_value (spelling t) v d = Inr d' \<longrightarrow>
        (\<exists>e. d' = d @ e \<and> e \<noteq> [] \<and> reads_back (\<lambda>_. One (spelling t)) [v] (length d) e))"

lemma same_place: "(a :: nat) mod 8 = b mod 8 \<Longrightarrow> (a + n) mod 8 = (b + n) mod 8"
  by (rule mod_add_cong) simp_all

lemma padding_same:
  assumes "align_of c = Some k" "n mod 8 = m mod 8"
  shows "padding k n = padding k m"
proof -
  have "k dvd 8" using assms(1) by (auto simp: align_of_def split: if_splits)
  then have "n mod k = m mod k" using assms(2) by (metis mod_mod_cancel)
  then show ?thesis by (simp add: padding_def)
qed

lemma padded_split: "padded k d = d @ replicate (padding k (length d)) 0"
  by (rule padded_def)

lemma bytes_at_here [simp]:
  "length pre = p \<Longrightarrow> bytes_at (pre @ e @ rest) p (length e) = Inr e"
  by (simp add: bytes_at_def)

lemma bytes_at_past:
  "length e = n \<Longrightarrow> bytes_at (pre @ e @ rest) (length pre) n = Inr e"
  by (simp add: bytes_at_def)

lemmas reads_backI = reads_back_def [THEN iffD2, rule_format]

lemma reads_backD:
  "reads_back job vs n e \<Longrightarrow> length pre mod 8 = n mod 8 \<Longrightarrow> length e \<le> max_message \<Longrightarrow>
     read_bus (pre @ e @ rest) (job (length pre + length e)) (length pre) = Some (Inr (vs, length pre + length e))"
  by (simp add: reads_back_def)

lemma reads_back_parts:
  assumes "list_all2 carried_over ts xs" "each (\<lambda>(t, x). write_value t x) (zip (map spelling ts) xs) d = Inr d'"
  shows "\<exists>e. d' = d @ e \<and> (ts \<noteq> [] \<longrightarrow> e \<noteq> []) \<and> reads_back (\<lambda>_. Parts (map spelling ts)) xs (length d) e"
  using assms
proof (induction ts xs arbitrary: d rule: list_all2_induct)
  case Nil
  then show ?case by (simp add: reads_back_def read_loops)
next
  case (Cons t ts x xs)
  then obtain d1 where d1: "write_value (spelling t) x d = Inr d1"
      "each (\<lambda>(t, x). write_value t x) (zip (map spelling ts) xs) d1 = Inr d'"
    by (auto split: sum.splits)
  with Cons(1) obtain e1 where e1: "d1 = d @ e1" "e1 \<noteq> []" "reads_back (\<lambda>_. One (spelling t)) [x] (length d) e1"
    unfolding carried_over_def by blast
  from Cons(3) [OF d1(2)] obtain e2 where e2: "d' = d1 @ e2" "reads_back (\<lambda>_. Parts (map spelling ts)) xs (length d1) e2"
    by blast
  have "reads_back (\<lambda>_. Parts (map spelling (t # ts))) (x # xs) (length d) (e1 @ e2)"
  proof (rule reads_backI)
    fix pre rest :: "byte list"
    assume a: "length pre mod 8 = length d mod 8" "length (e1 @ e2) \<le> max_message"
    have "length (pre @ e1) mod 8 = length d1 mod 8" using same_place [OF a(1)] e1(1) by simp
    then have "read_bus ((pre @ e1) @ e2 @ rest) (Parts (map spelling ts)) (length (pre @ e1)) =
        Some (Inr (xs, length (pre @ e1) + length e2))"
      using reads_backD [OF e2(2), of "pre @ e1" rest] a(2) by simp
    moreover have "read_bus (pre @ e1 @ e2 @ rest) (One (spelling t)) (length pre) = Some (Inr ([x], length pre + length e1))"
      using reads_backD [OF e1(3) a(1), of "e2 @ rest"] a(2) by simp
    ultimately show "read_bus (pre @ (e1 @ e2) @ rest) (Parts (map spelling (t # ts))) (length pre) =
        Some (Inr (x # xs, length pre + length (e1 @ e2)))"
      by (simp add: read_loops add.assoc)
  qed
  then show ?case using e1 e2 by (intro exI [of _ "e1 @ e2"]) simp
qed

lemma reads_back_until:
  assumes "\<forall>x \<in> set xs. carried_over t x" "each (\<lambda>x. write_value (spelling t) x) xs d = Inr d'"
  shows "\<exists>e. d' = d @ e \<and> reads_back (Until (spelling t)) xs (length d) e"
  using assms
proof (induction xs arbitrary: d)
  case Nil
  then show ?case by (simp add: reads_back_def read_loops)
next
  case (Cons x xs)
  then obtain d1 where d1: "write_value (spelling t) x d = Inr d1" "each (\<lambda>x. write_value (spelling t) x) xs d1 = Inr d'"
    by (auto split: sum.splits)
  with Cons(2) obtain e1 where e1: "d1 = d @ e1" "e1 \<noteq> []" "reads_back (\<lambda>_. One (spelling t)) [x] (length d) e1"
    unfolding carried_over_def by force
  from Cons(1) [OF _ d1(2)] Cons(2) obtain e2 where e2: "d' = d1 @ e2" "reads_back (Until (spelling t)) xs (length d1) e2"
    by auto
  have "reads_back (Until (spelling t)) (x # xs) (length d) (e1 @ e2)"
  proof (rule reads_backI)
    fix pre rest :: "byte list"
    assume a: "length pre mod 8 = length d mod 8" "length (e1 @ e2) \<le> max_message"
    have "length (pre @ e1) mod 8 = length d1 mod 8" using same_place [OF a(1)] e1(1) by simp
    then have "read_bus ((pre @ e1) @ e2 @ rest) (Until (spelling t) (length (pre @ e1) + length e2)) (length (pre @ e1)) =
        Some (Inr (xs, length (pre @ e1) + length e2))"
      using reads_backD [OF e2(2), of "pre @ e1" rest] a(2) by simp
    moreover have "read_bus (pre @ e1 @ e2 @ rest) (One (spelling t)) (length pre) = Some (Inr ([x], length pre + length e1))"
      using reads_backD [OF e1(3) a(1), of "e2 @ rest"] a(2) by simp
    ultimately show "read_bus (pre @ (e1 @ e2) @ rest) (Until (spelling t) (length pre + length (e1 @ e2))) (length pre) =
        Some (Inr (x # xs, length pre + length (e1 @ e2)))"
      using e1(2) by (simp add: read_loops add.assoc)
  qed
  then show ?case using e1 e2 by (intro exI [of _ "e1 @ e2"]) simp
qed

subsection \<open>The simple types\<close>

lemma pack_unpack:
  assumes "pack_number c i = Inr bs"
  shows "length bs = fixed_size c" "unpack_number c bs = i"
proof -
  define n where "n = fixed_size c"
  let ?top = "256 ^ n :: int"
  let ?s = "c \<in> set ''nix''"
  have n: "0 < n" by (auto simp: n_def fixed_size_def)
  then have even: "2 * (?top div 2) = ?top" by (cases n) simp_all
  have pos: "0 < ?top" by simp
  from assms have b: "bs = le_bytes n (nat (i mod ?top))" "(if ?s then - (?top div 2) else 0) \<le> i"
      "i < (if ?s then ?top div 2 else ?top)"
    by (auto simp: pack_number_def Let_def n_def split: if_splits)
  from b(1) show "length bs = fixed_size c" by (simp add: n_def)
  have "nat (i mod ?top) < 256 ^ n" using pos_mod_bound [OF pos, of i] pos_mod_sign [OF pos, of i] by (simp add: nat_less_iff)
  then have x: "int (le_nat bs) = i mod ?top" using pos_mod_sign [OF pos, of i] by (simp add: b(1) le_nat_le_bytes)
  have half: "(256 ^ n div 2 \<le> le_nat bs) = (?top div 2 \<le> i mod ?top)"
  proof -
    have "int (256 ^ n div 2) = ?top div 2" by (simp add: zdiv_int)
    then show ?thesis using x by (metis of_nat_le_iff)
  qed
  show "unpack_number c bs = i"
  proof (cases "0 \<le> i")
    case True
    then have "i mod ?top = i" using b(3) even by (auto intro!: mod_pos_pos_trivial split: if_splits)
    then show ?thesis using x half b(3) by (auto simp: unpack_number_def Let_def n_def [symmetric])
  next
    case False
    then have s: ?s using b(2) by (auto split: if_splits)
    then have "- (?top div 2) \<le> i" using b(2) by simp
    then have "- ?top \<le> i" using even pos by linarith
    then have "i mod ?top = i + ?top"
      using False by (metis add.commute mod_add_self1 mod_pos_pos_trivial add_increasing2 le_add_same_cancel1 not_le
          add_less_same_cancel1 minus_le_iff diff_ge_0_iff_ge diff_minus_eq_add)
    then show ?thesis using x half s b(2) even by (simp add: unpack_number_def Let_def n_def [symmetric])
  qed
qed

text \<open>The parts of \<open>read\<close> and \<open>write\<close>, one for each kind of type.\<close>

lemma read_one:
  assumes "align_of c = Some k"
  shows
    "c \<in> set fixed_codes \<Longrightarrow> read_bus data (One (c # r)) here =
       Some (case bytes_at data (here + padding k here) (fixed_size c) of
          Inl e \<Rightarrow> Inl e
        | Inr bs \<Rightarrow> Inr ([unpacked c bs], here + padding k here + fixed_size c))"
    "c \<in> set ''so'' \<Longrightarrow> read_bus data (One (c # r)) here =
       Some (case read_text 4 (\<lambda>bs. Some (utf8_replace bs)) data (here + padding k here) of
          Inl e \<Rightarrow> Inl e
        | Inr (t, q) \<Rightarrow> Inr ([Words t], q))"
    "c = CHR ''g'' \<Longrightarrow> read_bus data (One (c # r)) here =
       Some (case read_text 1 utf8_strict data (here + padding k here) of Inl e \<Rightarrow> Inl e | Inr (t, q) \<Rightarrow> Inr ([Words t], q))"
  using assms by (subst read_bus.simps, auto simp: Let_def fixed_codes_def)+

lemma write_one:
  assumes "align_of c = Some k"
  shows
    "c \<in> set fixed_codes \<Longrightarrow> write_value (c # r) v d = write_fixed c v (padded k d)"
    "c \<in> set ''so'' \<Longrightarrow> write_value (c # r) v d = write_text 4 v (padded k d)"
    "c = CHR ''g'' \<Longrightarrow> write_value (c # r) v d = write_text 1 v (padded k d)"
  using assms by (subst write_value.simps, auto simp: Let_def fixed_codes_def)+

text \<open>Behind the padding everything stands where it was written.\<close>

lemma bytes_behind:
  assumes "align_of c = Some k" "length pre mod 8 = n mod 8" "length e = m"
  shows "bytes_at (pre @ replicate (padding k n) 0 @ e @ rest) (length pre + padding k (length pre)) m = Inr e"
  using assms(3) padding_same [OF assms(1,2)] by (simp add: bytes_at_def)

lemma carried_one:
  assumes k: "align_of c = Some k" and t: "spelling t = [c]"
    and w: "\<And>d d'. write_value [c] v d = Inr d' \<Longrightarrow> \<exists>e. d' = padded k d @ e \<and> e \<noteq> [] \<and>
       (\<forall>pre rest. padding k (length pre) = padding k (length d) \<longrightarrow>
          read_bus (pre @ replicate (padding k (length d)) 0 @ e @ rest) (One [c]) (length pre) =
          Some (Inr ([v], length pre + padding k (length d) + length e)))"
  shows "carried_over t v"
  unfolding carried_over_def t
proof (intro allI impI)
  fix d d'
  assume "write_value [c] v d = Inr d'"
  from w [OF this] obtain e where e: "d' = padded k d @ e" "e \<noteq> []"
    "\<forall>pre rest. padding k (length pre) = padding k (length d) \<longrightarrow>
       read_bus (pre @ replicate (padding k (length d)) 0 @ e @ rest) (One [c]) (length pre) =
       Some (Inr ([v], length pre + padding k (length d) + length e))" by blast
  have "reads_back (\<lambda>_. One [c]) [v] (length d) (replicate (padding k (length d)) 0 @ e)"
  proof (rule reads_backI)
    fix pre rest :: "byte list"
    assume "length pre mod 8 = length d mod 8"
    then have "padding k (length pre) = padding k (length d)" by (rule padding_same [OF k])
    with e(3) show "read_bus (pre @ (replicate (padding k (length d)) 0 @ e) @ rest) (One [c]) (length pre) =
        Some (Inr ([v], length pre + length (replicate (padding k (length d)) (0 :: byte) @ e)))"
      by (simp only: append_assoc length_append length_replicate add.assoc)
  qed
  with e(1,2) show "\<exists>e. d' = d @ e \<and> e \<noteq> [] \<and> reads_back (\<lambda>_. One [c]) [v] (length d) e"
    by (intro exI [of _ "replicate (padding k (length d)) 0 @ e"]) (simp add: padded_split)
qed

lemma carried_fixed:
  assumes c: "c \<in> set fixed_codes"
    and w: "\<And>d d'. write_fixed c v d = Inr d' \<Longrightarrow> \<exists>e. d' = d @ e \<and> length e = fixed_size c \<and> unpacked c e = v"
  shows "carried_over (Basic c) v"
proof -
  obtain k where k: "align_of c = Some k" using c by (auto simp: fixed_codes_def align_of_def)
  show ?thesis
  proof (rule carried_one [OF k])
    fix d d'
    assume "write_value [c] v d = Inr d'"
    then obtain e where e: "d' = padded k d @ e" "length e = fixed_size c" "unpacked c e = v"
      using w write_one(1) [OF k c] by metis
    moreover have "0 < fixed_size c" by (simp add: fixed_size_def)
    ultimately show "\<exists>e. d' = padded k d @ e \<and> e \<noteq> [] \<and>
       (\<forall>pre rest. padding k (length pre) = padding k (length d) \<longrightarrow>
          read_bus (pre @ replicate (padding k (length d)) 0 @ e @ rest) (One [c]) (length pre) =
          Some (Inr ([v], length pre + padding k (length d) + length e)))"
      by (intro exI [of _ e]) (auto simp: read_one(1) [OF k c] bytes_at_def)
  qed simp
qed

lemma carried_text:
  assumes "c \<in> set ''sog''"
  shows "carried_over (Basic c) (Words t)"
proof -
  define n :: nat where "n = (if c = CHR ''g'' then 1 else 4)"
  obtain k where k: "align_of c = Some k" using assms by (auto simp: align_of_def)
  show ?thesis
  proof (rule carried_one [OF k])
    fix d d'
    assume "write_value [c] (Words t) d = Inr d'"
    then have "write_text n (Words t) (padded k d) = Inr d'"
      using assms write_one [OF k] by (auto simp: n_def)
    then obtain bs where bs: "utf8_encode t = Some bs" "length bs < 256 ^ n"
        "d' = padded k d @ le_bytes n (length bs) @ bs @ [0]"
      by (auto simp: write_text_def split: option.splits if_splits)
    let ?e = "le_bytes n (length bs) @ bs @ [0]"
    have "read_text n f (pre @ replicate (padding k (length d)) 0 @ ?e @ rest) (length pre + padding k (length pre)) =
        Inr (t, length pre + padding k (length d) + length ?e)"
      if "padding k (length pre) = padding k (length d)" "f bs = Some t" for pre rest f
      using that bs(2) by (simp add: read_text_def bytes_at_def le_nat_le_bytes butlast_append)
    then show "\<exists>e. d' = padded k d @ e \<and> e \<noteq> [] \<and>
       (\<forall>pre rest. padding k (length pre) = padding k (length d) \<longrightarrow>
          read_bus (pre @ replicate (padding k (length d)) 0 @ e @ rest) (One [c]) (length pre) =
          Some (Inr ([Words t], length pre + padding k (length d) + length e)))"
      using bs assms read_one [OF k] utf8_back [OF bs(1)]
      by (intro exI [of _ ?e]) (auto simp: n_def)
  qed simp
qed

subsection \<open>The types with others inside\<close>

lemma padding_one [simp]: "padding 1 n = 0" "padding (Suc 0) n = 0"
  by (simp_all add: padding_def)

lemma aligned_simps [simp]:
  "align_of (CHR ''v'') = Some 1" "align_of (CHR ''a'') = Some 4" "align_of (CHR ''('') = Some 8" "align_of (CHR ''{'') = Some 8"
  by (simp_all add: align_of_def)

lemma variant_parts:
  "write_value ''v'' (VariantV t x) d =
     (case write_text 1 (Words t) d of Inl e \<Rightarrow> Inl e | Inr d' \<Rightarrow> write_value (spelled t) x d')"
  "split_signature (spelled t) = Inr [s] \<Longrightarrow> read_text 1 utf8_strict data here = Inr (t, q) \<Longrightarrow>
     read_bus data (One (spelled t)) q = Some (Inr ([x], q')) \<Longrightarrow>
     read_bus data (One ''v'') here = Some (Inr ([VariantV t x], q'))"
  by (subst write_value.simps, simp add: padded_split fixed_codes_def)
    (subst read_bus.simps, simp add: Let_def fixed_codes_def)

lemma written_text_read:
  assumes "utf8_encode t = Some bs" "length bs < 256 ^ n" "f bs = Some t"
  shows "read_text n f (pre @ (le_bytes n (length bs) @ bs @ [0]) @ rest) (length pre) =
    Inr (t, length pre + length (le_bytes n (length bs) @ bs @ [0 :: byte]))"
  using assms by (simp add: read_text_def bytes_at_def le_nat_le_bytes butlast_append)

lemma carried_variant:
  assumes "sound_type t" "carried_over t x"
  shows "carried_over Variant_type (VariantV (said (spelling t)) x)"
  unfolding carried_over_def
proof (intro allI impI)
  fix d d'
  let ?t = "said (spelling t)"
  have single: "split_signature (spelled ?t) = Inr [spelling t]"
    using split_spellings [of "[t]"] assms(1) by (simp add: spelled_said)
  assume "write_value (spelling Variant_type) (VariantV ?t x) d = Inr d'"
  then obtain bs where bs: "utf8_encode ?t = Some bs" "length bs < 256"
      and d': "write_value (spelling t) x (d @ le_bytes 1 (length bs) @ bs @ [0]) = Inr d'"
    by (auto simp: variant_parts write_text_def spelled_said simp del: le_bytes.simps split: option.splits if_splits)
  let ?h = "le_bytes 1 (length bs) @ bs @ [0 :: byte]"
  from assms(2) d' obtain e where e: "d' = (d @ ?h) @ e" "reads_back (\<lambda>_. One (spelling t)) [x] (length (d @ ?h)) e"
    unfolding carried_over_def by blast
  have "reads_back (\<lambda>_. One ''v'') [VariantV ?t x] (length d) (?h @ e)"
  proof (rule reads_backI)
    fix pre rest :: "byte list"
    assume a: "length pre mod 8 = length d mod 8" "length (?h @ e) \<le> max_message"
    have "length (pre @ ?h) mod 8 = length (d @ ?h) mod 8" using same_place [OF a(1)] unfolding length_append by blast
    from reads_backD [OF e(2) this, of rest] a(2)
    have x: "read_bus (pre @ (?h @ e) @ rest) (One (spelling t)) (length pre + length ?h) =
        Some (Inr ([x], length pre + length (?h @ e)))" by simp
    have "read_text 1 utf8_strict (pre @ ?h @ (e @ rest)) (length pre) = Inr (?t, length pre + length ?h)"
      using bs by (intro written_text_read) simp_all
    then show "read_bus (pre @ (?h @ e) @ rest) (One ''v'') (length pre) =
        Some (Inr ([VariantV ?t x], length pre + length (?h @ e)))"
      by (intro variant_parts(2) [OF single]) (use x in \<open>simp_all add: spelled_said\<close>)
  qed
  with e(1) show "\<exists>e. d' = d @ e \<and> e \<noteq> [] \<and> reads_back (\<lambda>_. One (spelling Variant_type)) [VariantV ?t x] (length d) e"
    by (intro exI [of _ "?h @ e"]) simp
qed

lemma struct_parts:
  assumes "list_all sound_type ts" "c = CHR ''('' \<or> c = CHR ''{'' \<and> length ts = 2"
  shows
    "write_value (c # concat (map spelling ts) @ [x]) (TupleV xs) d =
       (if length ts \<noteq> length xs then Inl (NeedsValues (length ts))
        else each (\<lambda>(t, x). write_value t x) (zip (map spelling ts) xs) (padded 8 d))"
    "read_bus data (Parts (map spelling ts)) (here + padding 8 here) = Some (Inr (xs, q)) \<Longrightarrow>
     read_bus data (One (c # concat (map spelling ts) @ [x])) here = Some (Inr ([TupleV xs], q))"
proof -
  note split = split_spellings [OF assms(1)]
  show "write_value (c # concat (map spelling ts) @ [x]) (TupleV xs) d =
       (if length ts \<noteq> length xs then Inl (NeedsValues (length ts))
        else each (\<lambda>(t, x). write_value t x) (zip (map spelling ts) xs) (padded 8 d))"
    using assms(2) split by (subst write_value.simps) (auto simp: fixed_codes_def walked_def)
  show "read_bus data (One (c # concat (map spelling ts) @ [x])) here = Some (Inr ([TupleV xs], q))"
    if "read_bus data (Parts (map spelling ts)) (here + padding 8 here) = Some (Inr (xs, q))"
    using assms(2) split that by (subst read_bus.simps) (auto simp: Let_def fixed_codes_def)
qed

lemma carried_members:
  assumes "list_all sound_type ts" "c = CHR ''('' \<or> c = CHR ''{'' \<and> length ts = 2" "list_all2 carried_over ts xs" "ts \<noteq> []"
    "spelling t = c # concat (map spelling ts) @ [x]"
  shows "carried_over t (TupleV xs)"
  unfolding carried_over_def assms(5)
proof (intro allI impI)
  fix d d'
  let ?s = "c # concat (map spelling ts) @ [x]"
  assume "write_value ?s (TupleV xs) d = Inr d'"
  then have "each (\<lambda>(t, x). write_value t x) (zip (map spelling ts) xs) (padded 8 d) = Inr d'"
    using struct_parts(1) [OF assms(1,2)] by (auto split: if_splits)
  from reads_back_parts [OF assms(3) this] obtain e where
    e: "d' = padded 8 d @ e" "e \<noteq> []" "reads_back (\<lambda>_. Parts (map spelling ts)) xs (length (padded 8 d)) e"
    using assms(4) by blast
  let ?z = "replicate (padding 8 (length d)) (0 :: byte)"
  have "reads_back (\<lambda>_. One ?s) [TupleV xs] (length d) (?z @ e)"
  proof (rule reads_backI)
    fix pre rest :: "byte list"
    assume a: "length pre mod 8 = length d mod 8" "length (?z @ e) \<le> max_message"
    have p: "padding 8 (length pre) = length ?z" using padding_same [OF aligned_simps(3) a(1)] by simp
    have "length (pre @ ?z) mod 8 = length (padded 8 d) mod 8" using same_place [OF a(1)] by (simp add: padded_split)
    from reads_backD [OF e(3) this, of rest] a(2)
    have "read_bus (pre @ (?z @ e) @ rest) (Parts (map spelling ts)) (length pre + padding 8 (length pre)) =
        Some (Inr (xs, length pre + length (?z @ e)))" by (simp add: p)
    then show "read_bus (pre @ (?z @ e) @ rest) (One ?s) (length pre) = Some (Inr ([TupleV xs], length pre + length (?z @ e)))"
      by (rule struct_parts(2) [OF assms(1,2)])
  qed
  with e(1,2) show "\<exists>e. d' = d @ e \<and> e \<noteq> [] \<and> reads_back (\<lambda>_. One ?s) [TupleV xs] (length d) e"
    by (intro exI [of _ "?z @ e"]) (simp add: padded_split)
qed

subsection \<open>Arrays\<close>

lemma spelling_aligned: "sound_type t \<Longrightarrow> \<exists>c r k. spelling t = c # r \<and> align_of c = Some k"
  by (cases t) (auto simp: align_of_def fixed_codes_def)

lemma write_array:
  assumes "spelling t = c # r" "align_of c = Some k" "(if c = CHR ''{'' then items_of v else walked v) = Some xs"
  shows "write_value (CHR ''a'' # spelling t) v d =
    (let d0 = padded 4 d; d1 = padded k (d0 @ replicate 4 0) in
     case each (\<lambda>x. write_value (spelling t) x) xs d1 of Inl e \<Rightarrow> Inl e | Inr d2 \<Rightarrow> put_length (length d0) (length d1) d2)"
  using assms by (subst write_value.simps) (simp add: fixed_codes_def Let_def)

lemma put_length_inside:
  assumes "put_length (length d0) (length (padded k (d0 @ replicate 4 0))) (padded k (d0 @ replicate 4 0) @ e) = Inr d'"
  shows "d' = d0 @ le_bytes 4 (length e) @ replicate (padding k (length d0 + 4)) 0 @ e" "length e < 256 ^ 4"
  using assms by (auto simp: put_length_def padded_split split: if_splits)

text \<open>What an array is read as, once its contents are.\<close>

definition array_value :: "bus_type \<Rightarrow> dbus_value list \<Rightarrow> dbus_error + dbus_value" where
  "array_value t xs = (case t of Entry_of a b \<Rightarrow> as_dict xs | _ \<Rightarrow> Inr (ListV xs))"

lemma read_array:
  assumes "spelling t = c # r" "align_of c = Some k" "sound_type t" "t \<noteq> Basic (CHR ''y'')"
    "bytes_at data (here + padding 4 here) 4 = Inr bs" "le_nat bs \<le> max_message"
    "q = here + padding 4 here + 4 + padding k (here + padding 4 here + 4)"
    "read_bus data (Until (spelling t) (q + le_nat bs)) q = Some (Inr (xs, q + le_nat bs))" "array_value t xs = Inr v"
  shows "read_bus data (One (CHR ''a'' # spelling t)) here = Some (Inr ([v], q + le_nat bs))"
proof -
  have ne: "c = CHR ''y'' \<longrightarrow> r \<noteq> []" using assms(1,4) by (cases t) auto
  have "c = CHR ''{'' \<longleftrightarrow> (\<exists>a b. t = Entry_of a b)" using assms(1,3) by (cases t) (auto simp: fixed_codes_def)
  then consider "c = CHR ''{''" "as_dict xs = Inr v" | "c \<noteq> CHR ''{''" "v = ListV xs"
    using assms(9) by (cases t) (auto simp: array_value_def)
  then show ?thesis
    by cases (subst read_bus.simps, use assms ne in \<open>auto simp: Let_def fixed_codes_def not_less\<close>)+
qed

lemma carried_array:
  assumes t: "sound_type t" "t \<noteq> Basic (CHR ''y'')"
    and w: "(if \<exists>a b. t = Entry_of a b then items_of v else walked v) = Some xs"
    and x: "\<forall>x \<in> set xs. carried_over t x" and v: "array_value t xs = Inr v"
  shows "carried_over (Array_of t) v"
  unfolding carried_over_def
proof (intro allI impI)
  fix d d'
  obtain c r k where c: "spelling t = c # r" "align_of c = Some k" using spelling_aligned [OF t(1)] by blast
  have entry: "c = CHR ''{'' \<longleftrightarrow> (\<exists>a b. t = Entry_of a b)" using c(1) t(1) by (cases t) (auto simp: fixed_codes_def)
  let ?s = "CHR ''a'' # spelling t" and ?d0 = "padded 4 d"
  let ?d1 = "padded k (?d0 @ replicate 4 0)"
  assume "write_value (spelling (Array_of t)) v d = Inr d'"
  then obtain d2 where d2: "each (\<lambda>x. write_value (spelling t) x) xs ?d1 = Inr d2"
      "put_length (length ?d0) (length ?d1) d2 = Inr d'"
    using write_array [OF c(1,2), of v xs d] w unfolding entry by (auto simp: Let_def split: sum.splits)
  from reads_back_until [OF x d2(1)] obtain e where
    e: "d2 = ?d1 @ e" "reads_back (Until (spelling t)) xs (length ?d1) e" by blast
  note p = put_length_inside [OF d2(2) [unfolded e(1)]]
  define z where "z = replicate (padding 4 (length d)) (0 :: byte)"
  define h where "h = z @ le_bytes 4 (length e) @ replicate (padding k (length ?d0 + 4)) 0"
  have d': "d' = d @ h @ e" using p(1) by (simp add: h_def z_def padded_split)
  have d1: "length ?d1 = length (d @ h)" by (simp add: h_def z_def padded_split add.assoc)
  have "reads_back (\<lambda>_. One ?s) [v] (length d) (h @ e)"
  proof (rule reads_backI)
    fix pre rest :: "byte list"
    assume a: "length pre mod 8 = length d mod 8" "length (h @ e) \<le> max_message"
    let ?data = "pre @ (h @ e) @ rest"
    have z: "padding 4 (length pre) = length z" using padding_same [OF aligned_simps(2) a(1)] by (simp add: z_def)
    have "(length (pre @ z) + 4) mod 8 = (length ?d0 + 4) mod 8"
      using same_place [OF same_place [OF a(1), of "length z"], of 4] by (simp add: padded_split z_def)
    from padding_same [OF c(2) this]
    have q: "length (pre @ h) = length pre + padding 4 (length pre) + 4 + padding k (length pre + padding 4 (length pre) + 4)"
      by (simp add: h_def z)
    have "length (pre @ h) mod 8 = length ?d1 mod 8" using same_place [OF a(1), of "length h"] by (simp add: d1)
    from reads_backD [OF e(2) this, of rest] a(2)
    have r: "read_bus ?data (Until (spelling t) (length (pre @ h) + length e)) (length (pre @ h)) =
        Some (Inr (xs, length (pre @ h) + length e))" by simp
    have "bytes_at ?data (length pre + padding 4 (length pre)) 4 = Inr (le_bytes 4 (length e))"
      unfolding z by (simp add: bytes_at_def h_def)
    moreover have "le_nat (le_bytes 4 (length e)) = length e" using p(2) by (rule le_nat_le_bytes)
    ultimately have "read_bus ?data (One ?s) (length pre) = Some (Inr ([v], length (pre @ h) + length e))"
      using read_array [OF c t _ _ q _ v, of ?data "le_bytes 4 (length e)"] r a(2) by simp
    then show "read_bus ?data (One ?s) (length pre) = Some (Inr ([v], length pre + length (h @ e)))" by (simp add: add.assoc)
  qed
  moreover have "4 \<le> length (h @ e)" by (simp add: h_def)
  then have "h @ e \<noteq> []" by force
  ultimately show "\<exists>e. d' = d @ e \<and> e \<noteq> [] \<and> reads_back (\<lambda>_. One (spelling (Array_of t))) [v] (length d) e"
    using d' by (intro exI [of _ "h @ e"]) simp
qed

lemma write_byte: "write_value ''y'' (Num (uint (b :: byte))) d = Inr (d @ [b])"
proof -
  have "uint b < 256" "unat b < 256"
    using unsigned_less [of b, where ?'a = int] unsigned_less [of b, where ?'a = nat] by simp_all
  then have "pack_number (CHR ''y'') (uint b) = Inr [b]" by (simp add: pack_number_def fixed_size_def)
  then show ?thesis
    by (simp add: write_one(1) [of _ 1] align_of_def fixed_codes_def padded_split write_fixed_def as_number_def)
qed

lemma write_bytes: "each (\<lambda>x. write_value ''y'' x) (map (\<lambda>b. Num (uint (b :: byte))) bs) d = Inr (d @ bs)"
  by (induction bs arbitrary: d) (simp_all add: write_byte)

lemma carried_bytes: "carried_over (Array_of (Basic (CHR ''y''))) (Raw bs)"
  unfolding carried_over_def
proof (intro allI impI)
  fix d d'
  let ?t = "Basic (CHR ''y'')" and ?d0 = "padded 4 d"
  have c: "spelling ?t = CHR ''y'' # []" "align_of (CHR ''y'') = Some 1" by (simp_all add: align_of_def)
  assume "write_value (spelling (Array_of ?t)) (Raw bs) d = Inr d'"
  then have "put_length (length ?d0) (length (padded 1 (?d0 @ replicate 4 0))) (padded 1 (?d0 @ replicate 4 0) @ bs) = Inr d'"
    using write_array [OF c, of "Raw bs" _ d] by (simp add: walked_def write_bytes Let_def)
  note p = put_length_inside [OF this]
  define z where "z = replicate (padding 4 (length d)) (0 :: byte)"
  have d': "d' = d @ z @ le_bytes 4 (length bs) @ bs" using p(1) by (simp add: z_def padded_split del: le_bytes.simps)
  have "reads_back (\<lambda>_. One ''ay'') [Raw bs] (length d) (z @ le_bytes 4 (length bs) @ bs)"
  proof (rule reads_backI)
    fix pre rest :: "byte list"
    let ?data = "pre @ (z @ le_bytes 4 (length bs) @ bs) @ rest"
    assume a: "length pre mod 8 = length d mod 8" "length (z @ le_bytes 4 (length bs) @ bs) \<le> max_message"
    have z: "padding 4 (length pre) = length z" using padding_same [OF aligned_simps(2) a(1)] by (simp add: z_def)
    have "bytes_at ?data (length pre + length z) 4 = Inr (le_bytes 4 (length bs))" by (simp add: bytes_at_def)
    moreover have "bytes_at ?data (length pre + length z + 4) (length bs) = Inr bs" by (simp add: bytes_at_def)
    moreover have "le_nat (le_bytes 4 (length bs)) = length bs" using p(2) by (rule le_nat_le_bytes)
    ultimately show "read_bus ?data (One ''ay'') (length pre) =
        Some (Inr ([Raw bs], length pre + length (z @ le_bytes 4 (length bs) @ bs)))"
      using a(2) c(2) by (subst read_bus.simps) (simp add: Let_def fixed_codes_def z not_less del: le_bytes.simps)
  qed
  moreover have "4 \<le> length (z @ le_bytes 4 (length bs) @ bs)" by simp
  then have "z @ le_bytes 4 (length bs) @ bs \<noteq> []" by (metis list.size(3) not_numeral_le_zero)
  ultimately show "\<exists>e. d' = d @ e \<and> e \<noteq> [] \<and> reads_back (\<lambda>_. One (spelling (Array_of ?t))) [Raw bs] (length d) e"
    using d' by (intro exI [of _ "z @ le_bytes 4 (length bs) @ bs"]) simp
qed

lemma dict_set_new: "k \<notin> fst ` set m \<Longrightarrow> dict_set k v m = m @ [(k, v)]"
  by (induction m) auto

lemma as_dict_entries:
  assumes "\<forall>(k, v) \<in> set kvs. hashable k" "distinct (map fst kvs)"
  shows "as_dict (map (\<lambda>(k, v). TupleV [k, v]) kvs) = Inr (DictV kvs)"
proof -
  let ?f = "\<lambda>x m. case x of TupleV [k, v] \<Rightarrow> if hashable k then Inr (dict_set k v m) else Inl Python | _ \<Rightarrow> Inl Python"
  have "each ?f (map (\<lambda>(k, v). TupleV [k, v]) kvs) m = Inr (m @ kvs)" if "fst ` set m \<inter> fst ` set kvs = {}" for m
    using assms that
  proof (induction kvs arbitrary: m)
    case (Cons x kvs)
    obtain k v where x: "x = (k, v)" by (cases x)
    with Cons(4) have new: "k \<notin> fst ` set m" by auto
    then show ?case using Cons x by (auto simp: dict_set_new)
  qed simp
  from this [of "[]"] show ?thesis by (simp add: as_dict_def)
qed

subsection \<open>Everything that has a type\<close>

lemma fits_carried: "fits t v \<Longrightarrow> carried_over t v"
proof (induction rule: fits.induct)
  case (1 c i)
  then have c: "c \<in> set fixed_codes" "c \<noteq> CHR ''d''" "c \<noteq> CHR ''b''" by (auto simp: fixed_codes_def)
  show ?case
  proof (rule carried_fixed [OF c(1)])
    fix d d'
    assume "write_fixed c (Num i) d = Inr d'"
    then obtain e where "pack_number c i = Inr e" "d' = d @ e"
      using c by (auto simp: write_fixed_def as_number_def split: sum.splits)
    then show "\<exists>e. d' = d @ e \<and> length e = fixed_size c \<and> unpacked c e = Num i"
      using pack_unpack [of c i e] c by (simp add: unpacked_def)
  qed
next
  case (2 b)
  show ?case
  proof (rule carried_fixed)
    fix d d'
    let ?i = "if b then 1 else 0 :: int"
    assume "write_fixed (CHR ''b'') (Flag b) d = Inr d'"
    then obtain e where "pack_number (CHR ''b'') ?i = Inr e" "d' = d @ e"
      by (auto simp: write_fixed_def truthy_def split: sum.splits)
    then show "\<exists>e. d' = d @ e \<and> length e = fixed_size (CHR ''b'') \<and> unpacked (CHR ''b'') e = Flag b"
      using pack_unpack [of "CHR ''b''" ?i e] by (cases b) (simp_all add: unpacked_def)
  qed (simp add: fixed_codes_def)
next
  case (3 w)
  have "le_nat (le_bytes 8 (unat w)) = unat w"
    using unsigned_less [of w, where ?'a = nat] by (intro le_nat_le_bytes) simp
  then show ?case
    by (intro carried_fixed) (auto simp: fixed_codes_def write_fixed_def unpacked_def fixed_size_def simp del: le_bytes.simps)
next
  case (4 c t)
  then show ?case by (rule carried_text)
next
  case (5 t v)
  then show ?case by (intro carried_variant) (auto dest: fits_sound)
next
  case (6 bs)
  then show ?case by (rule carried_bytes)
next
  case (7 t xs)
  then show ?case
    by (intro carried_array [of t "ListV xs" xs]) (auto simp: walked_def array_value_def split: bus_type.split)
next
  case (8 a b kvs)
  then have "carried_over (Entry_of a b) (TupleV [k, v])" if "(k, v) \<in> set kvs" for k v
    using that by (intro carried_members [of "[a, b]" "CHR ''{''" _ _ "CHR ''}''"]) (auto dest: fits_sound)
  then show ?case using 8
    by (intro carried_array [of _ _ "map (\<lambda>(k, v). TupleV [k, v]) kvs"])
      (auto simp: items_of_def array_value_def intro!: as_dict_entries)
next
  case (9 ts xs)
  then have "list_all sound_type ts" "list_all2 carried_over ts xs"
    by (auto simp: list_all2_conv_all_nth list_all_length dest: fits_sound)
  then show ?case using 9(1) by (intro carried_members [of ts "CHR ''(''" _ _ "CHR '')''"]) auto
next
  case (10 a k b v)
  then show ?case by (intro carried_members [of "[a, b]" "CHR ''{''" _ _ "CHR ''}''"]) (auto dest: fits_sound)
qed

subsection \<open>A message\<close>

definition left_out :: "string \<Rightarrow> dbus_value \<Rightarrow> bool" where
  "left_out name v \<longleftrightarrow> v = Nil_value \<or> name = ''signature'' \<and> \<not> truthy v"

definition kept_fields :: "(string, dbus_value) dict \<Rightarrow> (string, dbus_value) dict" where
  "kept_fields m = filter (\<lambda>(name, v). \<not> left_out name v) (dict_pop ''_flags'' m)"

text \<open>A message whose fields have the types of their names and whose body has that of its signature.\<close>

definition well_formed :: "bus_type list \<Rightarrow> dbus_message \<Rightarrow> bool" where
  "well_formed ts m \<longleftrightarrow>
     wf_dict (dm_fields m) \<and>
     (\<forall>(name, v) \<in> set (kept_fields (dm_fields m)).
        \<exists>code c. dict_get header_fields name = Some (code, [c]) \<and> fits (Basic c) v) \<and>
     signature_of (dm_fields m) = Inr (map spelling ts) \<and> list_all2 fits ts (dm_body m)"

definition as_received :: "dbus_message \<Rightarrow> byte list \<Rightarrow> dbus_message" where
  "as_received m bs = m\<lparr>dm_fields := kept_fields (dm_fields m), dm_raw := bs\<rparr>"

lemma field_code: "dict_get header_fields name = Some (code, t) \<Longrightarrow> dict_get field_names code = Some name"
  by (auto simp: header_fields_def field_names_def split: if_splits)

abbreviation field_entry :: "string \<times> dbus_value \<Rightarrow> dbus_value" where
  "field_entry p \<equiv> (case dict_get header_fields (fst p) of Some (code, t) \<Rightarrow> TupleV [Num code, VariantV (said t) (snd p)]
     | None \<Rightarrow> Nil_value)"

lemma field_values_all:
  assumes "\<forall>(name, v) \<in> set ps. left_out name v \<or> dict_get header_fields name \<noteq> None"
  shows "field_values ps = Inr (map field_entry (filter (\<lambda>(name, v). \<not> left_out name v) ps))"
proof -
  let ?f = "\<lambda>(name, v) xs. case field_value name v of Inl e \<Rightarrow> Inl e | Inr ys \<Rightarrow> Inr (xs @ ys)"
  have "each ?f ps xs = Inr (xs @ map field_entry (filter (\<lambda>(name, v). \<not> left_out name v) ps))" for xs
    using assms
  proof (induction ps arbitrary: xs)
    case (Cons p ps)
    obtain name v where p: "p = (name, v)" by (cases p)
    show ?case
    proof (cases "left_out name v")
      case True
      then have "field_value name v = Inr []" by (auto simp: left_out_def field_value_def)
      then show ?thesis using Cons p True by simp
    next
      case False
      then obtain code t where t: "dict_get header_fields name = Some (code, t)" using Cons(2) p by auto
      with False have "field_value name v = Inr [TupleV [Num code, VariantV (said t) v]]"
        by (auto simp: left_out_def field_value_def)
      then show ?thesis using Cons p False t by simp
    qed
  qed simp
  then show ?thesis by (simp add: field_values_def)
qed

lemma read_fields_back:
  assumes "distinct (map fst ps)" "\<forall>(name, v) \<in> set ps. dict_get header_fields name \<noteq> None"
  shows "read_fields (map field_entry ps) = ps"
proof -
  let ?f = "\<lambda>v m. case v of
      TupleV [Num code, VariantV t x] \<Rightarrow> (case dict_get field_names code of None \<Rightarrow> m | Some name \<Rightarrow> dict_set name x m)
    | _ \<Rightarrow> m"
  have "fold ?f (map field_entry ps) m = m @ ps" if "fst ` set m \<inter> fst ` set ps = {}" for m
    using assms that
  proof (induction ps arbitrary: m)
    case (Cons p ps)
    obtain name v where p: "p = (name, v)" by (cases p)
    then obtain code t where t: "dict_get header_fields name = Some (code, t)" using Cons(3) by auto
    have "name \<notin> fst ` set m" using Cons(4) p by auto
    then show ?case using Cons p t field_code [OF t] by (auto simp: dict_set_new)
  qed simp
  from this [of "[]"] show ?thesis by (simp add: read_fields_def)
qed

lemma write_u:
  assumes "write_value ''u'' (Num i) d = Inr d'" "length d mod 4 = 0"
  shows "d' = d @ le_bytes 4 (nat i)" "0 \<le> i" "i < 2 ^ 32"
proof -
  have "padded 4 d = d" using assms(2) by (simp add: padded_split padding_def)
  then have "write_fixed (CHR ''u'') (Num i) d = Inr d'"
    using assms(1) write_one(1) [of "CHR ''u''" 4 "[]"] by (simp add: align_of_def fixed_codes_def)
  then show "d' = d @ le_bytes 4 (nat i)" "0 \<le> i" "i < 2 ^ 32"
    by (auto simp: write_fixed_def as_number_def pack_number_def fixed_size_def Let_def
        simp del: le_bytes.simps split: if_splits sum.splits)
qed

lemma write_y:
  assumes "write_value ''y'' v d = Inr d'"
  shows "\<exists>b. d' = d @ [b] \<and> as_number v = Some (uint b)"
proof -
  have "write_fixed (CHR ''y'') v d = Inr d'"
    using assms write_one(1) [of "CHR ''y''" 1 "[]"] by (simp add: align_of_def fixed_codes_def padded_split)
  then obtain i where i: "as_number v = Some i" "0 \<le> i" "i < 256" "d' = d @ le_bytes 1 (nat i)"
    by (auto simp: write_fixed_def pack_number_def fixed_size_def Let_def
        simp del: le_bytes.simps split: if_splits sum.splits option.splits)
  have "uint (word_of_nat (nat i) :: byte) = i" using i(2,3) by (simp add: uint_word_of_int word_of_nat_eq_iff)
  then show ?thesis using i by (intro exI [of _ "word_of_nat (nat i)"]) simp
qed

definition entry_type :: bus_type where
  "entry_type = Struct_of [Basic (CHR ''y''), Variant_type]"

lemma entry_spelling: "spelling entry_type = ''(yv)''" "sound_type entry_type" "entry_type \<noteq> Basic (CHR ''y'')"
  by (simp_all add: entry_type_def fixed_codes_def)

lemma write_entries:
  assumes "write_value ''a(yv)'' (ListV fs) d = Inr d'" "length d = 12" "\<forall>x \<in> set fs. carried_over entry_type x"
  shows "\<exists>e. d' = d @ le_bytes 4 (length e) @ e \<and> length e < 2 ^ 32"
proof -
  have p: "padded 4 d = d" "padded 8 (d @ replicate 4 0) = d @ replicate 4 0"
    using assms(2) by (simp_all add: padded_split padding_def)
  have "write_value (CHR ''a'' # spelling entry_type) (ListV fs) d =
    (let d0 = padded 4 d; d1 = padded 8 (d0 @ replicate 4 0) in
     case each (\<lambda>x. write_value (spelling entry_type) x) fs d1 of Inl e \<Rightarrow> Inl e | Inr d2 \<Rightarrow> put_length (length d0) (length d1) d2)"
    by (rule write_array [of _ "CHR ''(''" "''yv)''"]) (simp_all add: entry_spelling walked_def)
  then obtain d2 where d2: "each (\<lambda>x. write_value (spelling entry_type) x) fs (d @ replicate 4 0) = Inr d2"
      "put_length (length d) (length (d @ replicate 4 0 :: byte list)) d2 = Inr d'"
    using assms(1) p by (auto simp: entry_spelling Let_def split: sum.splits)
  from reads_back_until [OF assms(3) d2(1)] obtain e where "d2 = (d @ replicate 4 0) @ e" by blast
  then have "put_length (length (padded 4 d)) (length (padded 8 (padded 4 d @ replicate 4 0)))
      (padded 8 (padded 4 d @ replicate 4 0) @ e) = Inr d'" using d2(2) p by simp
  from put_length_inside [OF this] show ?thesis
    using assms(2) p(1) by (intro exI [of _ e]) (simp add: padding_def del: le_bytes.simps)
qed

text \<open>How an encoded message is laid out.\<close>

lemma encode_layout:
  assumes "encode m = Inr bs" "well_formed ts m"
  obtains body b1 b2 e where
    "each (\<lambda>(t, x). write_value t x) (zip (map spelling ts) (dm_body m)) [] = Inr body" "length body < 2 ^ 32"
    "dm_type m = uint b1" "0 \<le> dm_serial m"
    "bs = padded 8 ([108, b1, b2, 1] @ le_bytes 4 (length body) @ le_bytes 4 (nat (dm_serial m)) @ le_bytes 4 (length e) @ e) @ body"
    "each (\<lambda>(t, x). write_value t x)
       (zip [''u'', ''u'', ''a(yv)'']
         [Num (int (length body)), Num (dm_serial m), ListV (map field_entry (kept_fields (dm_fields m)))]) [108, b1, b2, 1] =
       Inr ([108, b1, b2, 1] @ le_bytes 4 (length body) @ le_bytes 4 (nat (dm_serial m)) @ le_bytes 4 (length e) @ e)"
    "length e < 2 ^ 32" "\<forall>x \<in> set (map field_entry (kept_fields (dm_fields m))). carried_over entry_type x"
proof -
  let ?ps = "dict_pop ''_flags'' (dm_fields m)" and ?fs = "map field_entry (kept_fields (dm_fields m))"
  note ok = assms(2) [unfolded well_formed_def]
  have "\<forall>(name, v) \<in> set ?ps. left_out name v \<or> dict_get header_fields name \<noteq> None"
    using ok by (fastforce simp: kept_fields_def)
  from field_values_all [OF this] have fs: "field_values ?ps = Inr ?fs" by (simp add: kept_fields_def)
  from assms(1) obtain body head d where w:
      "write_body (dm_fields m) (dm_body m) = Inr body"
      "each (\<lambda>(t, x). write_value t x)
         [(''y'', Num 108), (''y'', Num (dm_type m)), (''y'', case dict_get (dm_fields m) ''_flags'' of None \<Rightarrow> Num 0 | Some v \<Rightarrow> v),
          (''y'', Num 1), (''u'', Num (int (length body))), (''u'', Num (dm_serial m))] [] = Inr head"
      "write_value ''a(yv)'' (ListV ?fs) head = Inr d" "bs = padded 8 d @ body"
    using fs by (auto simp: encode_def Let_def split: sum.splits)
  have body: "each (\<lambda>(t, x). write_value t x) (zip (map spelling ts) (dm_body m)) [] = Inr body"
    using w(1) ok by (auto simp: write_body_def split: sum.splits if_splits)
  from w(2) obtain a1 a2 a3 a4 a5 where
    y: "write_value ''y'' (Num 108) [] = Inr a1" "write_value ''y'' (Num (dm_type m)) a1 = Inr a2"
      "write_value ''y'' (case dict_get (dm_fields m) ''_flags'' of None \<Rightarrow> Num 0 | Some v \<Rightarrow> v) a2 = Inr a3"
      "write_value ''y'' (Num 1) a3 = Inr a4"
    and u: "write_value ''u'' (Num (int (length body))) a4 = Inr a5" "write_value ''u'' (Num (dm_serial m)) a5 = Inr head"
    by (auto split: sum.splits)
  obtain b0 b1 b2 b3 where b: "a1 = [b0]" "uint b0 = 108" "a2 = [b0, b1]" "uint b1 = dm_type m" "a3 = [b0, b1, b2]"
      "a4 = [b0, b1, b2, b3]" "uint b3 = 1"
    using write_y [OF y(1)] write_y [OF y(2)] write_y [OF y(3)] write_y [OF y(4)] by (auto simp: as_number_def)
  have "b0 = 108" "b3 = 1" using b(2,7) by (simp_all add: word_uint_eq_iff)
  with b have a4: "a4 = [108, b1, b2, 1]" by simp
  have a5: "a5 = a4 @ le_bytes 4 (length body)" "int (length body) < 2 ^ 32"
    using write_u [OF u(1)] a4 by (simp_all del: le_bytes.simps)
  have head: "head = a5 @ le_bytes 4 (nat (dm_serial m))" "0 \<le> dm_serial m"
    using write_u [OF u(2)] a4 a5(1) by (simp_all del: le_bytes.simps)
  have entry: "carried_over entry_type (field_entry p)" if "p \<in> set (kept_fields (dm_fields m))" for p
  proof -
    obtain name v where p: "p = (name, v)" by (cases p)
    with that ok obtain code c where c: "dict_get header_fields name = Some (code, [c])" "fits (Basic c) v" by blast
    then have "fits entry_type (field_entry p)"
      using fits.intros(5) [OF c(2)] unfolding entry_type_def p
      by (auto intro!: fits.intros(9) fits.intros(1))
    then show ?thesis by (rule fits_carried)
  qed
  have len: "length head = 12" using head(1) a5(1) a4 by (simp del: le_bytes.simps)
  from write_entries [OF w(3) len] entry obtain e where e: "d = head @ le_bytes 4 (length e) @ e" "length e < 2 ^ 32" by auto
  have "each (\<lambda>(t, x). write_value t x) (zip [''u'', ''u'', ''a(yv)''] [Num (int (length body)), Num (dm_serial m), ListV ?fs]) a4 = Inr d"
    using u w(3) by simp
  then show thesis
    using that [OF body _ b(4) [symmetric] head(2), of b2 e] w(4) e head(1) a5 a4 entry by (simp del: le_bytes.simps)
qed

lemma dict_get_filter:
  "wf_dict m \<Longrightarrow> dict_get (filter (\<lambda>(k, v). P k v) m) k = (case dict_get m k of None \<Rightarrow> None | Some v \<Rightarrow> if P k v then Some v else None)"
  by (induction m) (auto split: option.split simp: map_of_eq_None_iff [THEN iffD2])

lemma signature_kept:
  assumes "wf_dict m" "signature_of m = Inr ts"
  shows "signature_of (kept_fields m) = Inr ts"
proof -
  have g: "dict_get (kept_fields m) ''signature'' =
      (case dict_get m ''signature'' of None \<Rightarrow> None | Some v \<Rightarrow> if left_out ''signature'' v then None else Some v)"
    unfolding kept_fields_def using assms(1) by (subst dict_get_filter) (auto split: option.split)
  show ?thesis
  proof (cases "dict_get m ''signature''")
    case None
    then show ?thesis using assms(2) g by (simp add: signature_of_def)
  next
    case (Some v)
    with assms(2) obtain t where t: "v = Words t" "split_signature (spelled t) = Inr ts"
      by (auto simp: signature_of_def split: dbus_value.splits)
    then show ?thesis using g Some
      by (auto simp: signature_of_def left_out_def truthy_def spelled_def split_signature.simps)
  qed
qed

lemma decode_encode:
  assumes "encode m = Inr bs" "well_formed ts m" "length bs \<le> max_message"
  shows "decode bs = Some (Inr (as_received m []))" "message_size (take 16 bs) = Inr (length bs)" "16 \<le> length bs"
proof -
  note ok = assms(2) [unfolded well_formed_def]
  let ?fs = "map field_entry (kept_fields (dm_fields m))"
  obtain body b1 b2 e where l:
    "each (\<lambda>(t, x). write_value t x) (zip (map spelling ts) (dm_body m)) [] = Inr body" "length body < 2 ^ 32"
    "dm_type m = uint b1" "0 \<le> dm_serial m"
    "bs = padded 8 ([108, b1, b2, 1] @ le_bytes 4 (length body) @ le_bytes 4 (nat (dm_serial m)) @ le_bytes 4 (length e) @ e) @ body"
    "each (\<lambda>(t, x). write_value t x)
       (zip [''u'', ''u'', ''a(yv)''] [Num (int (length body)), Num (dm_serial m), ListV ?fs]) [108, b1, b2, 1] =
       Inr ([108, b1, b2, 1] @ le_bytes 4 (length body) @ le_bytes 4 (nat (dm_serial m)) @ le_bytes 4 (length e) @ e)"
    "length e < 2 ^ 32" "\<forall>x \<in> set ?fs. carried_over entry_type x"
    by (rule encode_layout [OF assms(1,2)])
  define h :: "byte list" where "h = [108, b1, b2, 1]"
  define r where "r = le_bytes 4 (length body) @ le_bytes 4 (nat (dm_serial m)) @ le_bytes 4 (length e) @ e"
  let ?z = "replicate (padding 8 (length (h @ r))) (0 :: byte)"
  have h: "length h = 4" by (simp add: h_def)
  have r: "length r = 12 + length e" by (simp add: r_def del: le_bytes.simps)
  have bs: "bs = (h @ r @ ?z) @ body" using l(5) by (simp add: padded_split h_def r_def del: le_bytes.simps)
  have pad: "padding 8 (length (h @ r)) = padding 8 (length e)"
  proof (rule padding_same [OF aligned_simps(3)])
    have "length (h @ r) = length e + 2 * 8" by (simp add: h r)
    then show "length (h @ r) mod 8 = length e mod 8" by (simp only: mod_mult_self1)
  qed
  have f: "take 1 (take 16 bs) = [108]" "field 4 4 (take 16 bs) = length body" "field 12 4 (take 16 bs) = length e"
    using l(2,7) by (simp_all add: bs h_def r_def field_def le_nat_le_bytes del: le_bytes.simps)
  show "message_size (take 16 bs) = Inr (length bs)" unfolding message_size_def f using h r pad by (simp add: bs)
  show "16 \<le> length bs" using h r by (simp add: bs)
  let ?types = "[Basic (CHR ''u''), Basic (CHR ''u''), Array_of entry_type]"
  have "list_all2 carried_over ?types [Num (int (length body)), Num (dm_serial m), ListV ?fs]"
  proof -
    have "carried_over (Array_of entry_type) (ListV ?fs)"
      using l(8) by (intro carried_array [OF entry_spelling(2,3)]) (auto simp: walked_def array_value_def entry_type_def)
    moreover have "carried_over (Basic (CHR ''u'')) (Num i)" for i
      by (rule fits_carried, rule fits.intros(1)) simp
    ultimately show ?thesis by simp
  qed
  from reads_back_parts [OF this, of h "h @ r"] l(6) obtain r' where
    r': "h @ r = h @ r'" "reads_back (\<lambda>_. Parts (map spelling ?types)) [Num (int (length body)), Num (dm_serial m), ListV ?fs] (length h) r'"
    by (auto simp: h_def r_def entry_spelling simp del: le_bytes.simps)
  from reads_backD [OF r'(2), of h "?z @ body"] assms(3)
  have head: "read_bus bs (Parts [''u'', ''u'', ''a(yv)'']) 4 =
      Some (Inr ([Num (int (length body)), Num (dm_serial m), ListV ?fs], length (h @ r)))"
    using r'(1) by (simp add: bs h entry_spelling)
  have "read_fields ?fs = kept_fields (dm_fields m)"
  proof (rule read_fields_back)
    show "distinct (map fst (kept_fields (dm_fields m)))"
      using ok unfolding kept_fields_def by (intro distinct_map_filter) (simp add: distinct_delete)
    show "\<forall>(name, v) \<in> set (kept_fields (dm_fields m)). dict_get header_fields name \<noteq> None" using ok by force
  qed
  moreover have "signature_of (kept_fields (dm_fields m)) = Inr (map spelling ts)" using ok by (intro signature_kept) auto
  moreover have "read_bus bs (Parts (map spelling ts)) (length (h @ r @ ?z)) =
      Some (Inr (dm_body m, length (h @ r @ ?z) + length body))"
  proof -
    have "list_all2 carried_over ts (dm_body m)" using ok by (auto elim: list_all2_mono intro: fits_carried)
    from reads_back_parts [OF this l(1)] have "reads_back (\<lambda>_. Parts (map spelling ts)) (dm_body m) 0 body" by auto
    moreover have "length (h @ r @ ?z) mod 8 = 0 mod 8"
    proof -
      have "(n + padding 8 n) mod 8 = 0" for n :: nat by (simp add: padding_def) presburger
      from this [of "length (h @ r)"] show ?thesis by (simp add: add.assoc)
    qed
    ultimately show ?thesis using reads_backD [of _ _ 0 body "h @ r @ ?z" "[]"] assms(3) by (simp add: bs)
  qed
  moreover have "length (h @ r) + padding 8 (length (h @ r)) = length (h @ r @ ?z)" by simp
  moreover have "bs ! 3 = 1" "bs ! 1 = b1" "4 \<le> length bs" by (simp_all add: bs h_def)
  ultimately show "decode bs = Some (Inr (as_received m []))"
    using head l(3) by (simp add: decode_def as_received_def Let_def not_less del: length_append)
qed

subsection \<open>However the socket cuts them\<close>

text \<open>A reader that has less than a whole message waits for more.\<close>

lemma waits_for_all:
  assumes "message_size (take 16 bs) = Inr (length bs)" "16 \<le> length bs" "length bs \<le> max_message"
    "dc_buffer c = take k bs" "k < length bs"
  shows "take_message keep c = (Stall, c)"
proof (cases "k < 16")
  case True
  then show ?thesis using assms by (subst take_message.simps) simp
next
  case False
  then have "take 16 (dc_buffer c) = take 16 bs" using assms(4) by (simp add: min_def)
  then show ?thesis using assms False by (subst take_message.simps) (simp add: min_def)
qed

lemma takes_all:
  assumes "message_size (take 16 bs) = Inr (length bs)" "16 \<le> length bs" "length bs \<le> max_message"
    "dc_buffer c = bs @ later" "decode bs = Some (Inr m)"
  shows "take_message None c = (Item (m\<lparr>dm_raw := bs\<rparr>), c\<lparr>dc_buffer := later\<rparr>)"
  using assms by (subst take_message.simps) (simp add: Let_def)

lemma receive_whole:
  assumes bs: "message_size (take 16 bs) = Inr (length bs)" "16 \<le> length bs" "length bs \<le> max_message"
      "decode bs = Some (Inr m)"
    and "[] \<notin> set ds" "dc_buffer c @ concat ds = bs @ later"
  shows "\<exists>es c'. receive None (map Chunk ds) c = (Returns (Some (m\<lparr>dm_raw := bs\<rparr>)), map Chunk es, c') \<and>
    [] \<notin> set es \<and> dc_buffer c' @ concat es = later \<and> dc_serial c' = dc_serial c"
  using assms(5,6)
proof (induction ds arbitrary: c)
  case Nil
  then show ?case using takes_all [OF bs(1-3) _ bs(4), of c later]
    by (subst receive.simps) (auto intro: exI [of _ "[]"])
next
  case (Cons d ds)
  show ?case
  proof (cases "length bs \<le> length (dc_buffer c)")
    case True
    have "take (length bs) (dc_buffer c @ concat (d # ds)) = bs" unfolding Cons(3) by simp
    with True have "take (length bs) (dc_buffer c) = bs" by simp
    then obtain rest where r: "dc_buffer c = bs @ rest" by (metis append_take_drop_id)
    with Cons(3) have "rest @ concat (d # ds) = later" by simp
    then show ?thesis using takes_all [OF bs(1-3) r bs(4)] Cons(2)
      by (subst receive.simps) (auto intro!: exI [of _ "d # ds"])
  next
    case False
    have "dc_buffer c = take (length (dc_buffer c)) (bs @ later)" using Cons(3) by (metis append_eq_conv_conj)
    then have "dc_buffer c = take (length (dc_buffer c)) bs" using False by simp
    from waits_for_all [OF bs(1-3) this] False
    have "receive None (map Chunk (d # ds)) c = receive None (map Chunk ds) (c\<lparr>dc_buffer := dc_buffer c @ d\<rparr>)"
      using Cons(2) by (subst receive.simps) (cases d; simp)
    then show ?thesis using Cons(1) [of "c\<lparr>dc_buffer := dc_buffer c @ d\<rparr>"] Cons(2,3) by simp
  qed
qed

text \<open>Asking for the next message a number of times.\<close>

fun receive_each ::
  "nat \<Rightarrow> socket_says list \<Rightarrow> connection \<Rightarrow> dbus_message option waited list \<times> socket_says list \<times> connection" where
  "receive_each 0 says c = ([], says, c)"
| "receive_each (Suc n) says c =
     (let (r, says', c') = receive None says c; (rs, end) = receive_each n says' c' in (r # rs, end))"

text \<open>
  C27. Whatever the agent encodes it reads back: for messages whose fields and bodies have the
  types of their signatures, sent one after another and cut by the socket in any way, each call of
  \<open>receive\<close> gives the next one, with every field that was written and the bytes it came in, and
  nothing is left over.
\<close>

theorem messages_survive_any_cut:
  assumes "map encode ms = map Inr parts" "list_all2 well_formed tss ms" "\<forall>p \<in> set parts. length p \<le> max_message"
    and "dc_buffer c @ concat pieces = concat parts" "[] \<notin> set pieces"
  shows "\<exists>c'. receive_each (length ms) (map Chunk pieces) c =
      (map2 (\<lambda>m p. Returns (Some (as_received m p))) ms parts, [], c') \<and> dc_buffer c' = []"
  using assms
proof (induction ms arbitrary: parts tss pieces c)
  case Nil
  then have "concat pieces = []" "dc_buffer c = []" by auto
  then have "pieces = []" using Nil(5) by (cases pieces) auto
  then show ?case using \<open>dc_buffer c = []\<close> by simp
next
  case (Cons m ms)
  then obtain p ps ts uss where p: "parts = p # ps" "encode m = Inr p" "map encode ms = map Inr ps" "tss = ts # uss"
      "well_formed ts m" "list_all2 well_formed uss ms" "length p \<le> max_message"
    by (cases parts; cases tss) auto
  note again = decode_encode [OF p(2,5,7)]
  from receive_whole [OF again(2,3) p(7) again(1) Cons(6), of c "concat ps"] Cons(5) p(1) obtain es c' where
    e: "receive None (map Chunk pieces) c = (Returns (Some (as_received m [] \<lparr>dm_raw := p\<rparr>)), map Chunk es, c')"
      "[] \<notin> set es" "dc_buffer c' @ concat es = concat ps" by auto
  from Cons(1) [OF p(3,6) _ e(3,2)] Cons(4) p(1) obtain c'' where
    "receive_each (length ms) (map Chunk es) c' = (map2 (\<lambda>m p. Returns (Some (as_received m p))) ms ps, [], c'')" "dc_buffer c'' = []"
    by auto
  then show ?case using e(1) p(1) by (auto simp: as_received_def)
qed

definition greeting :: dbus_message where
  "greeting = \<lparr>dm_type = 1, dm_serial = 7, dm_fields = [(''member'', Words (said ''Hi''))], dm_body = [], dm_raw = []\<rparr>"

definition greeting_bytes :: "byte list" where
  "greeting_bytes = [108, 1, 0, 1, 0, 0, 0, 0, 7, 0, 0, 0, 11, 0, 0, 0, 3, 1, 115, 0, 2, 0, 0, 0, 72, 105, 0, 0, 0, 0, 0, 0]"

lemma greeting_encoded: "encode greeting = Inr greeting_bytes"
  by code_simp

lemma messages_survive_any_cut_witness:
  "\<exists>c'. receive_each 2 (map Chunk [take 5 greeting_bytes, drop 5 greeting_bytes @ greeting_bytes])
      \<lparr>dc_serial = 0, dc_buffer = [], dc_signals = [], dc_skipped = 0\<rparr> =
      ([Returns (Some (as_received greeting greeting_bytes)), Returns (Some (as_received greeting greeting_bytes))], [], c') \<and>
    dc_buffer c' = []"
proof -
  have "fits (Basic (CHR ''s'')) (Words (said ''Hi''))" by (rule fits.intros(4)) simp
  then have "well_formed [] greeting"
    by (auto simp: well_formed_def greeting_def kept_fields_def header_fields_def signature_of_def AList.delete_eq)
  then have "list_all2 well_formed [[], []] [greeting, greeting]" by simp
  from messages_survive_any_cut [OF _ this, of "[greeting_bytes, greeting_bytes]"
      "\<lparr>dc_serial = 0, dc_buffer = [], dc_signals = [], dc_skipped = 0\<rparr>"
      "[take 5 greeting_bytes, drop 5 greeting_bytes @ greeting_bytes]"]
  moreover have "length greeting_bytes = 32" by (simp add: greeting_bytes_def)
  moreover from this have "take 5 greeting_bytes \<noteq> []" "drop 5 greeting_bytes \<noteq> []" by auto
  moreover have "length greeting_bytes \<le> max_message" by (simp add: max_message_def greeting_bytes_def)
  ultimately show ?thesis using greeting_encoded
    by (simp add: numeral_2_eq_2 [symmetric] del: receive_each.simps)
qed

end
