(* ===== verification/Ending.thy ===== *)
theory Ending
  imports Marshalled
begin

section \<open>Reading comes to an end\<close>

text \<open>
  A message in which no struct is empty is read or refused after finitely many steps, whatever
  else its bytes are; an array of empty structs is read for ever.
\<close>

subsection \<open>No empty struct\<close>

text \<open>The two brackets next to each other, as characters and as bytes.\<close>

definition meets :: "'a \<Rightarrow> 'a \<Rightarrow> 'a list \<Rightarrow> bool" where
  "meets a b xs \<longleftrightarrow> (\<exists>us vs. xs = us @ a # b # vs)"

abbreviation brackets_meet :: "string \<Rightarrow> bool" where "brackets_meet \<equiv> meets (CHR ''('') (CHR '')'')"

lemma meets_part: "meets a b ys \<Longrightarrow> meets a b (xs @ ys @ zs)"
  unfolding meets_def by (metis append.assoc append_Cons)

lemma meets_more: "meets a b ys \<Longrightarrow> meets a b (xs @ ys)" "meets a b ys \<Longrightarrow> meets a b (ys @ zs)"
  using meets_part [of a b ys xs "[]"] meets_part [of a b ys "[]" zs] by simp_all

lemma meets_Nil [simp]: "\<not> meets a b []"
  by (simp add: meets_def)

lemma meets_Cons: "meets a b (x # xs) \<longleftrightarrow> (x = a \<and> (\<exists>ys. xs = b # ys)) \<or> meets a b xs"
  unfolding meets_def by (auto simp: Cons_eq_append_conv)

lemma meets_take: "meets a b (take n xs) \<Longrightarrow> meets a b xs" "meets a b (drop n xs) \<Longrightarrow> meets a b xs"
  using meets_more(2) [of a b "take n xs" "drop n xs"] meets_more(1) [of a b "drop n xs" "take n xs"] by simp_all

lemma meets_butlast: "meets a b (butlast xs) \<Longrightarrow> meets a b xs"
  by (metis meets_take(1) butlast_conv_take)

lemma spelled_meets: "brackets_meet (spelled t) \<longleftrightarrow> meets 40 41 t"
proof -
  have c: "(if c < 256 then char_of c else CHR 0xFF) = CHR ''('' \<longleftrightarrow> c = 40"
    "(if c < 256 then char_of c else CHR 0xFF) = CHR '')'' \<longleftrightarrow> c = 41" for c :: nat
    by (auto simp: char_of_eq_iff take_bit_eq_mod)
  show ?thesis
  proof (induction t)
    case Nil
    then show ?case by (simp add: meets_def spelled_def)
  next
    case (Cons x t)
    then show ?case by (cases t) (auto simp: meets_Cons spelled_def c)
  qed
qed

text \<open>A character below 128 is a byte of its own.\<close>

lemma followed_least:
  "followed n low high so_far bs = (Some c, rest) \<Longrightarrow> 0 < n \<Longrightarrow> (so_far * 64 + (low - 128)) * 64 ^ (n - 1) \<le> c"
proof (induction n low high so_far bs rule: followed.induct)
  case (3 n low high so_far b bs)
  then have f: "followed n 128 191 (so_far * 64 + (b - 128)) bs = (Some c, rest)" "low \<le> b" "b \<le> high"
    by (auto split: if_splits)
  have "(so_far * 64 + (low - 128)) * 64 ^ n \<le> (so_far * 64 + (b - 128)) * 64 ^ n" using f(2) by (intro mult_right_mono) auto
  also have "\<dots> \<le> c"
  proof (cases n)
    case 0
    then show ?thesis using f(1) by simp
  next
    case (Suc k)
    then show ?thesis using 3(1) f by (simp add: algebra_simps)
  qed
  finally show ?case by simp
qed simp_all

lemma followed_large:
  assumes "announced b = Some (n, low, high, bits)" "followed n low high bits bs = (Some c, rest)"
  shows "128 \<le> c"
proof -
  have "0 < n \<and> 128 \<le> (bits * 64 + (low - 128)) * 64 ^ (n - 1)"
    using assms(1) by (auto simp: announced_def split: if_splits)
  then show ?thesis using followed_least [OF assms(2)] by linarith
qed

lemma followed_suffix: "\<exists>us. bs = us @ snd (followed n low high so_far bs)"
proof (induction n low high so_far bs rule: followed.induct)
  case (3 n low high so_far b bs)
  then show ?case by (cases "low \<le> b \<and> b \<le> high") (auto intro: exI [of _ "b # us" for us])
qed simp_all

lemma utf8_read_head: "utf8_read bs = Some c # cs \<Longrightarrow> c < 128 \<Longrightarrow> \<exists>ds. bs = c # ds \<and> utf8_read ds = cs"
proof (cases bs)
  case (Cons b ds)
  assume a: "utf8_read bs = Some c # cs" "c < 128"
  show ?thesis
  proof (cases "b < 128")
    case False
    then obtain n low high bits where n: "announced b = Some (n, low, high, bits)" "fst (followed n low high bits ds) = Some c"
      using a Cons by (auto split: option.splits)
    then have "128 \<le> c" by (intro followed_large [of b]) (auto simp: prod_eq_iff)
    with a(2) show ?thesis by simp
  qed (use a Cons in simp)
qed simp

lemma utf8_read_meets:
  assumes "meets (Some 40) (Some 41) (utf8_read bs)"
  shows "meets 40 41 bs"
  using assms
proof (induction bs rule: utf8_read.induct)
  case 1
  then show ?case by (simp add: meets_def)
next
  case (2 b bs)
  show ?case
  proof (cases "\<exists>cs. utf8_read (b # bs) = Some 40 # Some 41 # cs")
    case True
    then obtain cs where "utf8_read (b # bs) = Some 40 # Some 41 # cs" by blast
    from utf8_read_head [OF this] obtain ds where "b # bs = 40 # ds" "utf8_read ds = Some 41 # cs" by auto
    with utf8_read_head [OF this(2)] show ?thesis by (auto simp: meets_Cons)
  next
    case False
    show ?thesis
    proof (cases "b < 128")
      case True
      with 2 False have "meets (Some 40) (Some 41) (utf8_read bs)" by (auto simp: meets_Cons simp del: utf8_read.simps) (auto simp: meets_Cons)
      with 2(1) True show ?thesis by (simp add: meets_Cons)
    next
      case b: False
      show ?thesis
      proof (cases "announced b")
        case None
        with 2 b have "meets 40 41 bs" by (auto simp: meets_Cons)
        then show ?thesis by (simp add: meets_Cons)
      next
        case (Some z)
        obtain n low high bits where z: "z = (n, low, high, bits)" by (cases z)
        let ?f = "followed n low high bits bs"
        have "meets (Some 40) (Some 41) (utf8_read (snd ?f))" using 2(4) False b Some z by (auto simp: meets_Cons)
        with 2(3) b Some z have "meets 40 41 (snd ?f)" by blast
        then have "meets 40 41 bs" using followed_suffix [of bs n low high bits] meets_more(1) by metis
        then show ?thesis by (simp add: meets_Cons)
      qed
    qed
  qed
qed

lemma clean_text:
  assumes "\<not> meets 40 41 bs" "utf8_strict bs = Some t \<or> utf8_replace bs = t"
  shows "\<not> meets 40 41 t"
proof
  assume m: "meets 40 41 t"
  let ?cs = "utf8_read (map unat bs)"
  have "meets (Some 40) (Some 41) ?cs"
  proof (cases "utf8_replace bs = t")
    case True
    have "meets 40 41 (map (\<lambda>c. case c of None \<Rightarrow> 65533 | Some x \<Rightarrow> x) cs) \<Longrightarrow> meets (Some 40) (Some 41) cs" for cs :: "nat option list"
    proof (induction cs)
      case (Cons c cs)
      then show ?case by (cases cs) (auto simp: meets_Cons split: option.splits)
    qed (simp add: meets_def)
    then show ?thesis using m True by (simp add: utf8_replace_def)
  next
    case False
    then have s: "None \<notin> set ?cs" "t = map the ?cs" using assms(2) by (auto simp: utf8_strict_def Let_def split: if_splits)
    have "map Some t = ?cs" unfolding s(2) map_map using s(1) by (intro map_idI) (metis comp_apply option.collapse)
    moreover obtain us vs where "t = us @ 40 # 41 # vs" using m by (auto simp: meets_def)
    ultimately have "?cs = map Some us @ Some 40 # Some 41 # map Some vs" by simp
    then show ?thesis unfolding meets_def by blast
  qed
  then have "meets 40 41 (map unat bs)" by (rule utf8_read_meets)
  moreover have "meets 40 41 (map unat bs) \<Longrightarrow> meets 40 41 bs"
  proof (induction bs)
    case (Cons b bs)
    then show ?case by (cases bs) (auto simp: meets_Cons word_unat_eq_iff)
  qed (simp add: meets_def)
  ultimately show False using assms(1) by blast
qed

subsection \<open>Every step uses up something\<close>

definition whole :: "string \<Rightarrow> bool" where
  "whole s \<longleftrightarrow> whole_type s = Inr [] \<and> \<not> brackets_meet s"

fun cleanly :: "dbus_value \<Rightarrow> bool" where
  "cleanly (Words t) \<longleftrightarrow> \<not> meets 40 41 t"
| "cleanly (VariantV t v) \<longleftrightarrow> cleanly v"
| "cleanly (ListV vs) \<longleftrightarrow> list_all cleanly vs"
| "cleanly (TupleV vs) \<longleftrightarrow> list_all cleanly vs"
| "cleanly v \<longleftrightarrow> True"

fun sound_job :: "read_job \<Rightarrow> bool" where
  "sound_job (One s) \<longleftrightarrow> whole s"
| "sound_job (Parts ts) \<longleftrightarrow> list_all whole ts"
| "sound_job (Until s end) \<longleftrightarrow> whole s"

fun job_size :: "read_job \<Rightarrow> nat" where
  "job_size (One s) = 2 * length s"
| "job_size (Parts ts) = Suc (2 * length (concat ts))"
| "job_size (Until s end) = Suc (2 * length s)"

text \<open>
  The answer to a job: there is one, and if it is a value, the reader has moved on from inside the
  data, unless there was nothing to read.
\<close>

definition answered :: "byte list \<Rightarrow> read_job \<Rightarrow> nat \<Rightarrow> bool" where
  "answered data job here \<longleftrightarrow>
     (case read_bus data job here of
        None \<Rightarrow> False
      | Some (Inl e) \<Rightarrow> True
      | Some (Inr (vs, p)) \<Rightarrow>
          list_all cleanly vs \<and> (case job of One s \<Rightarrow> vs \<noteq> [] | _ \<Rightarrow> True) \<and>
          (here < p \<and> here < length data \<or> p = here \<and> (case job of One s \<Rightarrow> False | Parts ts \<Rightarrow> ts = [] | Until s end \<Rightarrow> \<not> here < end)))"

lemma answeredD:
  assumes "answered data job here"
  shows "\<exists>z. read_bus data job here = Some z"
    "read_bus data job here = Some (Inr (vs, p)) \<Longrightarrow> list_all cleanly vs"
    "read_bus data (One s) here = Some (Inr (vs, p)) \<Longrightarrow> job = One s \<Longrightarrow> here < p \<and> here < length data"
  using assms by (auto simp: answered_def split: option.splits sum.splits)

lemma bytes_at_some: "bytes_at data p n = Inr bs \<Longrightarrow> p + n \<le> length data \<and> bs = take n (drop p data)"
  by (auto simp: bytes_at_def split: if_splits)

lemma read_text_some:
  assumes "read_text n f data p = Inr (t, q)" "\<not> meets 40 41 data"
    "\<And>bs. f bs = Some t \<Longrightarrow> utf8_strict bs = Some t \<or> utf8_replace bs = t"
  shows "p < q" "q \<le> length data" "\<not> meets 40 41 t"
proof -
  from assms(1) obtain bs ts where r: "bytes_at data p n = Inr bs" "bytes_at data (p + n) (le_nat bs + 1) = Inr ts"
      "f (butlast ts) = Some t" "q = p + n + le_nat bs + 1"
    by (auto simp: read_text_def split: sum.splits option.splits)
  show "p < q" "q \<le> length data" using r(4) bytes_at_some [OF r(2)] by auto
  have "\<not> meets 40 41 (butlast ts)" using assms(2) bytes_at_some [OF r(2)] meets_take meets_butlast by metis
  then show "\<not> meets 40 41 t" using assms(3) [OF r(3)] by (rule clean_text)
qed

subsection \<open>Whole types\<close>

lemma whole_type_more:
  "whole_type s = Inr r \<Longrightarrow> whole_type (s @ q) = Inr (r @ q)"
  "members close s = Inr r \<Longrightarrow> members close (s @ q) = Inr (r @ q)"
proof (induction s and close s arbitrary: r and r rule: whole_type_members.induct)
  case (4 close c s)
  then show ?case by (auto simp del: whole_type.simps split: if_splits sum.splits)
next
  case (2 c s)
  consider "c \<in> set fixed_codes \<or> c \<in> set ''sogv''" | "c = CHR ''a''" | "c = CHR ''(''" | "c = CHR ''{''"
    using 2(4) by (auto split: if_splits)
  then show ?case
  proof cases
    case 1
    then show ?thesis using 2(4) by auto
  next
    case c: 2
    then show ?thesis using 2(1) [of r] 2(4) by (simp add: fixed_codes_def)
  next
    case 3
    then show ?thesis using 2(2) [of r] 2(4) by (simp add: fixed_codes_def)
  next
    case 4
    then show ?thesis using 2(3) [of r] 2(4) by (simp add: fixed_codes_def)
  qed
qed simp_all

lemma whole_first: "whole_type t = Inr r \<Longrightarrow> \<exists>c s. t = c # s \<and> c \<noteq> CHR '')'' \<and> c \<noteq> CHR ''}''"
  by (cases t) (auto simp: fixed_codes_def)

lemma members_join:
  assumes "close = CHR '')'' \<or> close = CHR ''}''" "\<forall>t \<in> set ts. whole_type t = Inr []"
  shows "members close (concat ts @ close # q) = Inr q"
  using assms(2)
proof (induction ts)
  case (Cons t ts)
  then have "whole_type t = Inr []" by simp
  from whole_first [OF this] obtain c s where c: "t = c # s" "c \<noteq> close" using assms(1) by blast
  have "whole_type (t @ concat ts @ close # q) = Inr (concat ts @ close # q)" using Cons(2) whole_type_more(1) [of t "[]"] by simp
  then show ?case using Cons c by (simp del: whole_type.simps)
qed simp

lemma whole_type_split:
  "whole_type s = Inr r \<Longrightarrow> \<exists>t. s = t @ r \<and> whole_type t = Inr []"
  "members close s = Inr r \<Longrightarrow> \<exists>ts. s = concat ts @ close # r \<and> (\<forall>t \<in> set ts. whole_type t = Inr [])"
proof (induction s and close s arbitrary: r and r rule: whole_type_members.induct)
  case (2 c s)
  consider "c \<in> set fixed_codes \<or> c \<in> set ''sogv''" | "c = CHR ''a''" | "c = CHR ''(''" | "c = CHR ''{''"
    using 2(4) by (auto split: if_splits)
  then show ?case
  proof cases
    case 1
    then show ?thesis using 2(4) by (intro exI [of _ "[c]"]) auto
  next
    case c: 2
    then obtain t where "s = t @ r" "whole_type t = Inr []" using 2(1,4) by (auto simp: fixed_codes_def)
    then show ?thesis using c by (intro exI [of _ "c # t"]) (simp add: fixed_codes_def)
  next
    case 3
    then obtain ts where ts: "s = concat ts @ CHR '')'' # r" "\<forall>t \<in> set ts. whole_type t = Inr []"
      using 2(2,4) by (auto simp: fixed_codes_def)
    then show ?thesis using 3 members_join [of "CHR '')''" ts "[]"]
      by (intro exI [of _ "c # concat ts @ '')''"]) (simp add: fixed_codes_def)
  next
    case 4
    then obtain ts where ts: "s = concat ts @ CHR ''}'' # r" "\<forall>t \<in> set ts. whole_type t = Inr []"
      using 2(3,4) by (auto simp: fixed_codes_def)
    then show ?thesis using 4 members_join [of "CHR ''}''" ts "[]"]
      by (intro exI [of _ "c # concat ts @ ''}''"]) (simp add: fixed_codes_def)
  qed
next
  case (4 close c s)
  show ?case
  proof (cases "c = close")
    case True
    then show ?thesis using 4(3) by (intro exI [of _ "[]"]) simp
  next
    case False
    then obtain q where q: "whole_type (c # s) = Inr q" "members close q = Inr r"
      using 4(3) by (auto simp del: whole_type.simps split: sum.splits)
    from 4(1) [OF False q(1)] obtain t where "c # s = t @ q" "whole_type t = Inr []" by blast
    moreover from 4(2) [OF False q] obtain ts where "q = concat ts @ close # r" "\<forall>t \<in> set ts. whole_type t = Inr []" by blast
    ultimately show ?thesis by (intro exI [of _ "t # ts"]) simp
  qed
qed simp_all

lemma split_whole: "split_signature s = Inr ts \<Longrightarrow> concat ts = s \<and> (\<forall>t \<in> set ts. whole_type t = Inr [])"
proof (induction s arbitrary: ts rule: split_signature.induct)
  case (1 s)
  show ?case
  proof (cases "s = []")
    case False
    with 1(2) obtain r us where r: "whole_type s = Inr r" "split_signature r = Inr us"
        "ts = take (length s - length r) s # us"
      by (subst (asm) split_signature.simps) (auto split: sum.splits)
    from whole_type_split(1) [OF r(1)] obtain t where "s = t @ r" "whole_type t = Inr []" by blast
    then show ?thesis using 1(1) [OF False r(1,2)] r(3) by simp
  qed (use 1 in \<open>simp add: split_signature.simps\<close>)
qed

lemma split_join: "\<forall>t \<in> set ts. whole_type t = Inr [] \<Longrightarrow> split_signature (concat ts) = Inr ts"
proof (induction ts)
  case (Cons t ts)
  then have "whole_type (t @ concat ts) = Inr (concat ts)" "t \<noteq> []"
    using whole_type_more(1) [of t "[]" "concat ts"] by auto
  then show ?case using Cons by (subst split_signature.simps) simp
qed (simp add: split_signature.simps)

lemma whole_parts:
  assumes "\<forall>t \<in> set ts. whole_type t = Inr []" "\<not> brackets_meet (concat ts)"
  shows "list_all whole ts"
proof -
  have "\<not> brackets_meet t" if t: "t \<in> set ts" for t
  proof -
    from split_list [OF t] obtain us vs where "ts = us @ t # vs" by blast
    then show ?thesis using assms(2) meets_part [of _ _ t "concat us" "concat vs"] by auto
  qed
  then show ?thesis using assms(1) by (simp add: list_all_iff whole_def)
qed

text \<open>The kinds of whole type.\<close>

lemma whole_cases:
  assumes "whole s"
  obtains (fixed) c where "s = [c]" "c \<in> set fixed_codes"
  | (worded) c where "s = [c]" "c \<in> set ''so''"
  | (signed) "s = ''g''"
  | (variant) "s = ''v''"
  | (array) r where "s = CHR ''a'' # r" "whole r"
  | (struct) c ts x where "s = c # concat ts @ [x]" "c = CHR ''('' \<or> c = CHR ''{''" "list_all whole ts"
      "split_signature (concat ts) = Inr ts" "c = CHR ''('' \<longrightarrow> ts \<noteq> []"
proof -
  from assms have w: "whole_type s = Inr []" "\<not> brackets_meet s" by (simp_all add: whole_def)
  then obtain c r where s: "s = c # r" by (cases s) auto
  have inner: thesis if "members close r = Inr []" "c = CHR ''('' \<and> close = CHR '')'' \<or> c = CHR ''{'' \<and> close = CHR ''}''" for close
  proof -
    from whole_type_split(2) [OF that(1)] obtain ts where ts: "r = concat ts @ [close]" "\<forall>t \<in> set ts. whole_type t = Inr []"
      by blast
    have "\<not> brackets_meet (concat ts)" using w(2) s ts(1) meets_part [of _ _ "concat ts" "[c]" "[close]"] by auto
    moreover have "ts \<noteq> []" if "c = CHR ''(''" using w(2) s ts(1) that \<open>_ \<or> _\<close> by (auto simp: meets_Cons)
    ultimately show thesis using struct [of c ts close] s ts whole_parts split_join [OF ts(2)] that(2) by blast
  qed
  consider "c \<in> set fixed_codes" | "c \<in> set ''so''" | "c = CHR ''g''" | "c = CHR ''v''" | "c = CHR ''a''"
    | "c = CHR ''(''" | "c = CHR ''{''"
    using w(1) s by (auto split: if_splits)
  then show thesis
  proof cases
    case 5
    then show thesis using array [of r] w s by (auto simp: whole_def fixed_codes_def meets_Cons)
  next
    case 6
    then show thesis using inner [of "CHR '')''"] w(1) s by (simp add: fixed_codes_def)
  next
    case 7
    then show thesis using inner [of "CHR ''}''"] w(1) s by (simp add: fixed_codes_def)
  qed (use w(1) s fixed worded signed variant in \<open>auto simp: fixed_codes_def\<close>)
qed

subsection \<open>The induction\<close>

definition rank :: "byte list \<Rightarrow> read_job \<Rightarrow> nat \<Rightarrow> nat" where
  "rank data job here = 2 * (length data - here) + job_size job"

text \<open>One value, then the rest of a loop from where it ended.\<close>

lemma answered_more:
  assumes "answered data (One s) here" "\<And>p. here < p \<Longrightarrow> here < length data \<Longrightarrow> answered data job p"
    "read_bus data job' here = read_more (read_bus data (One s) here) (read_bus data job)"
  shows "answered data job' here"
proof -
  obtain z where z: "read_bus data (One s) here = Some z" using answeredD(1) [OF assms(1)] by blast
  show ?thesis
  proof (cases z)
    case (Inl e)
    then show ?thesis using assms(3) z by (simp add: answered_def)
  next
    case (Inr vp)
    obtain vs p where vp: "vp = (vs, p)" by (cases vp)
    then have p: "here < p" "here < length data" "list_all cleanly vs" "vs \<noteq> []"
      using assms(1) z Inr by (auto simp: answered_def)
    from assms(2) [OF p(1,2)] show ?thesis using assms(3) z Inr vp p
      by (auto simp: answered_def read_more_def split: option.splits sum.splits read_job.split)
  qed
qed

text \<open>An answer wrapped into another value.\<close>

lemma each_result:
  "each (\<lambda>x m. case x of TupleV [k, v] \<Rightarrow> if hashable k then Inr (dict_set k v m) else Inl Python | _ \<Rightarrow> Inl Python) xs m = Inr n \<Longrightarrow>
     cleanly (DictV n)"
  by simp

lemma as_dict_clean: "as_dict xs = Inr m \<Longrightarrow> cleanly m"
  by (auto simp: as_dict_def split: sum.splits)

lemma utf8_read_shorter: "length (utf8_read bs) \<le> length bs"
proof (induction bs rule: utf8_read.induct)
  case (2 b bs)
  have "length (utf8_read (snd (followed n low high bits bs))) \<le> length bs"
    if "\<not> b < 128" "announced b = Some (n, low, high, bits)" for n low high bits
    using 2(3) [OF that(1,2) refl refl refl] followed_shorter [of n low high bits bs] by simp
  then show ?case using 2(1,2) by (auto split: option.split)
qed simp

lemma read_text_room: "read_text 1 utf8_strict data p = Inr (t, q) \<Longrightarrow> length t + p < q"
proof -
  assume "read_text 1 utf8_strict data p = Inr (t, q)"
  then obtain bs ts where r: "bytes_at data (p + 1) (le_nat bs + 1) = Inr ts" "utf8_strict (butlast ts) = Some t"
      "q = p + 1 + le_nat bs + 1"
    by (auto simp: read_text_def split: sum.splits option.splits)
  have "length t \<le> length (butlast ts)"
    using r(2) utf8_read_shorter [of "map unat (butlast ts)"] by (auto simp: utf8_strict_def Let_def split: if_splits)
  then show ?thesis using bytes_at_some [OF r(1)] r(3) by simp
qed

lemma padded_align: "align_of c = Some k \<Longrightarrow> 0 < k"
  by (auto simp: align_of_def split: if_splits)

lemma read_array_one:
  "read_bus data (One (CHR ''a'' # c' # r)) here =
     (let p = here + padding 4 here in
      case bytes_at data p 4 of
        Inl e \<Rightarrow> Some (Inl e)
      | Inr bs \<Rightarrow>
          if le_nat bs > max_message then Some (Inl LongArray)
          else case align_of c' of
            None \<Rightarrow> Some (Inl Python)
          | Some k \<Rightarrow>
              (let q = p + 4 + padding k (p + 4) in
               if c' # r = ''y'' then
                 Some (case bytes_at data q (le_nat bs) of Inl e \<Rightarrow> Inl e | Inr xs \<Rightarrow> Inr ([Raw xs], q + le_nat bs))
               else
                 Option.bind (read_bus data (Until (c' # r) (q + le_nat bs)) q)
                   (\<lambda>z. case z of
                      Inl e \<Rightarrow> Some (Inl e)
                    | Inr (vs, q') \<Rightarrow>
                        if q' \<noteq> q + le_nat bs then Some (Inl Overrun)
                        else if c' = CHR ''{'' then Some (case as_dict vs of Inl e \<Rightarrow> Inl e | Inr m \<Rightarrow> Inr ([m], q'))
                        else Some (Inr ([ListV vs], q')))))"
  by (subst read_bus.simps, cases "bytes_at data (here + padding 4 here) 4")
    (simp_all add: Let_def fixed_codes_def)

lemma answered_one:
  assumes data: "\<not> meets 40 41 data" and s: "whole s"
    and IH: "\<And>job p. rank data job p < rank data (One s) here \<Longrightarrow> sound_job job \<Longrightarrow> answered data job p"
  shows "answered data (One s) here"
  using s
proof (cases rule: whole_cases)
  case (fixed c)
  then obtain k where k: "align_of c = Some k" by (auto simp: fixed_codes_def align_of_def)
  have "0 < fixed_size c" by (simp add: fixed_size_def)
  then show ?thesis using read_one(1) [OF k fixed(2), of data "[]" here] fixed(1)
    by (auto simp: answered_def unpacked_def bytes_at_def split: if_splits)
next
  case (worded c)
  then obtain k where k: "align_of c = Some k" by (auto simp: align_of_def)
  show ?thesis
  proof (cases "read_text 4 (\<lambda>bs. Some (utf8_replace bs)) data (here + padding k here)")
    case (Inr z)
    obtain t q where z: "z = (t, q)" by (cases z)
    from read_text_some [OF Inr [unfolded z] data] have "here + padding k here < q" "q \<le> length data" "\<not> meets 40 41 t" by auto
    then show ?thesis using read_one(2) [OF k worded(2), of data "[]" here] worded(1) Inr z by (simp add: answered_def)
  qed (use read_one(2) [OF k worded(2), of data "[]" here] worded(1) in \<open>simp add: answered_def\<close>)
next
  case signed
  have k: "align_of (CHR ''g'') = Some 1" by (simp add: align_of_def)
  show ?thesis
  proof (cases "read_text 1 utf8_strict data here")
    case (Inr z)
    obtain t q where z: "z = (t, q)" by (cases z)
    from read_text_some [OF Inr [unfolded z] data] have "here < q" "q \<le> length data" "\<not> meets 40 41 t" by auto
    then show ?thesis using read_one(3) [OF k refl, of data "[]" here] signed Inr z by (simp add: answered_def)
  qed (use read_one(3) [OF k refl, of data "[]" here] signed in \<open>simp add: answered_def\<close>)
next
  case variant
  show ?thesis
  proof (cases "read_text 1 utf8_strict data here")
    case (Inl e)
    then show ?thesis using variant by (subst answered_def, subst read_bus.simps) (simp add: Let_def fixed_codes_def)
  next
    case (Inr z)
    obtain t q where z: "z = (t, q)" by (cases z)
    from read_text_some [OF Inr [unfolded z] data] have q: "here < q" "q \<le> length data" "\<not> meets 40 41 t" by auto
    show ?thesis
    proof (cases "\<exists>u. split_signature (spelled t) = Inr [u]")
      case True
      then obtain u where u: "split_signature (spelled t) = Inr [u]" by blast
      have w: "whole (spelled t)" using split_whole [OF u] q(3) by (auto simp: whole_def spelled_meets)
      have len: "length t + here < q" using Inr z read_text_room by blast
      have "answered data (One (spelled t)) q"
        using w len q variant by (intro IH) (auto simp: rank_def spelled_def)
      then show ?thesis using Inr z u q variant
        by (subst answered_def, subst read_bus.simps)
          (auto simp: Let_def fixed_codes_def answered_def list_all_iff split: option.splits sum.splits prod.splits)
    next
      case False
      then show ?thesis using Inr z variant
        by (subst answered_def, subst read_bus.simps)
          (auto simp: Let_def fixed_codes_def length_Suc_conv split: sum.splits)
    qed
  qed
next
  case (array r)
  then obtain c' r' where r: "r = c' # r'" by (cases r) (auto simp: whole_def)
  let ?p = "here + padding 4 here"
  note eq = read_array_one [of data c' r' here]
  show ?thesis
  proof (cases "bytes_at data ?p 4")
    case (Inl e)
    then show ?thesis using array(1) r eq by (simp add: answered_def Let_def)
  next
    case (Inr bs)
    let ?n = "le_nat bs"
    show ?thesis
    proof (cases "?n \<le> max_message \<and> align_of c' \<noteq> None")
      case False
      then show ?thesis using Inr array(1) r eq by (auto simp: answered_def Let_def)
    next
      case True
      then obtain k where k: "align_of c' = Some k" by blast
      let ?q = "?p + 4 + padding k (?p + 4)"
      have p: "?p + 4 \<le> length data" using bytes_at_some [OF Inr] by simp
      show ?thesis
      proof (cases "c' # r' = ''y''")
        case y: True
        then have eq': "read_bus data (One s) here =
            Some (case bytes_at data ?q ?n of Inl e \<Rightarrow> Inl e | Inr xs \<Rightarrow> Inr ([Raw xs], ?q + ?n))"
          using eq array(1) r Inr True k by (simp add: Let_def)
        show ?thesis
        proof (cases "bytes_at data ?q ?n")
          case (Inr xs)
          then show ?thesis using eq' bytes_at_some [OF Inr] by (simp add: answered_def)
        qed (use eq' in \<open>simp add: answered_def\<close>)
      next
        case no: False
        have u: "answered data (Until r (?q + ?n)) ?q"
        proof (rule IH)
          show "rank data (Until r (?q + ?n)) ?q < rank data (One s) here" using array p by (simp add: rank_def)
        qed (use array in simp)
        obtain z where z: "read_bus data (Until r (?q + ?n)) ?q = Some z" using answeredD(1) [OF u] by blast
        have eq': "read_bus data (One s) here =
            (case z of
               Inl e \<Rightarrow> Some (Inl e)
             | Inr (vs, q') \<Rightarrow>
                 if q' \<noteq> ?q + ?n then Some (Inl Overrun)
                 else if c' = CHR ''{'' then Some (case as_dict vs of Inl e \<Rightarrow> Inl e | Inr m \<Rightarrow> Inr ([m], q'))
                 else Some (Inr ([ListV vs], q')))"
          using eq array(1) r Inr True k no z by (auto simp: Let_def)
        show ?thesis using u z p as_dict_clean unfolding answered_def eq'
          by (auto split: option.splits sum.splits)
      qed
    qed
  qed
next
  case (struct c ts x)
  let ?p = "here + padding 8 here"
  note eq = read_bus.simps [of data "One (c # concat ts @ [x])" here]
  have c: "align_of c = Some 8" "c \<notin> set fixed_codes" "c \<notin> set ''so''" "c \<noteq> CHR ''g''" "c \<noteq> CHR ''v''" "c \<noteq> CHR ''a''"
    using struct(2) by (auto simp: fixed_codes_def)
  show ?thesis
  proof (cases "c = CHR ''{'' \<and> length ts \<noteq> 2")
    case True
    then show ?thesis using struct c eq by (simp add: answered_def Let_def)
  next
    case False
    then have ts: "ts \<noteq> []" using struct(2,5) by auto
    have "answered data (Parts ts) ?p"
      using struct by (intro IH) (auto simp: rank_def)
    then show ?thesis using struct(1,4) c eq False ts
      by (auto simp: answered_def Let_def split: option.splits sum.splits)
  qed
qed

lemma always_answered:
  assumes "\<not> meets 40 41 data"
  shows "sound_job job \<Longrightarrow> answered data job here"
proof (induction "rank data job here" arbitrary: job here rule: less_induct)
  case less
  show ?case
  proof (cases job)
    case (One s)
    then show ?thesis using answered_one [OF assms] less by auto
  next
    case (Parts ts)
    show ?thesis
    proof (cases ts)
      case Nil
      then show ?thesis using Parts by (simp add: answered_def read_loops)
    next
      case (Cons t us)
      have "t \<noteq> []" using less(2) Parts Cons by (auto simp: whole_def)
      show ?thesis unfolding Parts Cons
      proof (rule answered_more [of _ t _ "Parts us"])
        show "answered data (One t) here" using less Parts Cons by (intro less(1)) (auto simp: rank_def)
        show "answered data (Parts us) p" if "here < p" "here < length data" for p
          using less(2) Parts Cons that by (intro less(1)) (auto simp: rank_def)
      qed (simp add: read_loops)
    qed
  next
    case (Until s "end")
    show ?thesis
    proof (cases "here < end")
      case True
      show ?thesis unfolding Until
      proof (rule answered_more [of _ s _ "Until s end"])
        show "answered data (One s) here" using less Until by (intro less(1)) (auto simp: rank_def)
        show "answered data (Until s end) p" if "here < p" "here < length data" for p
          using less(2) Until that by (intro less(1)) (auto simp: rank_def)
      qed (simp add: read_loops True)
    next
      case False
      then show ?thesis using Until by (simp add: answered_def read_loops)
    qed
  qed
qed

subsection \<open>A message ends\<close>

lemma read_fields_clean: "list_all cleanly vs \<Longrightarrow> dict_get (read_fields vs) name = Some v \<Longrightarrow> cleanly v"
proof -
  let ?f = "\<lambda>v m. case v of
      TupleV [Num code, VariantV t x] \<Rightarrow> (case dict_get field_names code of None \<Rightarrow> m | Some name \<Rightarrow> dict_set name x m)
    | _ \<Rightarrow> m"
  have "dict_get (fold ?f vs m) name = Some v \<Longrightarrow> cleanly v"
    if "list_all cleanly vs" "\<forall>name v. dict_get m name = Some v \<longrightarrow> cleanly v" for m
    using that
  proof (induction vs arbitrary: m)
    case (Cons u us)
    have "\<forall>name v. dict_get (?f u m) name = Some v \<longrightarrow> cleanly v"
      using Cons(3,4) by (auto split: dbus_value.split list.split option.split)
    then show ?case using Cons by simp
  qed simp
  from this [of "[]"] show "list_all cleanly vs \<Longrightarrow> dict_get (read_fields vs) name = Some v \<Longrightarrow> cleanly v"
    by (simp add: read_fields_def)
qed

lemma header_whole: "list_all whole [''u'', ''u'', ''a(yv)'']"
  by (simp add: whole_def fixed_codes_def meets_Cons)

lemma decode_answers:
  assumes "\<not> meets 40 41 data"
  shows "decode data \<noteq> None"
proof -
  have h: "answered data (Parts [''u'', ''u'', ''a(yv)'']) 4"
    using always_answered [OF assms] header_whole by (metis sound_job.simps(2))
  have b: "\<exists>z. read_bus data (Parts ts) start = Some z"
    if clean: "list_all cleanly vs" and sig: "signature_of (read_fields vs) = Inr ts" for vs ts start
  proof -
    have "list_all whole ts"
    proof (cases "dict_get (read_fields vs) ''signature''")
      case None
      then show ?thesis using sig by (simp add: signature_of_def)
    next
      case (Some v)
      then obtain t where t: "v = Words t" "split_signature (spelled t) = Inr ts"
        using sig by (auto simp: signature_of_def split: dbus_value.splits)
      from read_fields_clean [OF clean Some] t(1) have "\<not> meets 40 41 t" by simp
      then show ?thesis using split_whole [OF t(2)] by (intro whole_parts) (simp_all add: spelled_meets)
    qed
    then show ?thesis using always_answered [OF assms, of "Parts ts"] by (auto intro: answeredD(1))
  qed
  show ?thesis
  proof (cases "length data < 4 \<or> data ! 3 \<noteq> 1")
    case False
    obtain z where z: "read_bus data (Parts [''u'', ''u'', ''a(yv)'']) 4 = Some z" using answeredD(1) [OF h] by blast
    show ?thesis
    proof (cases "\<exists>len serial vs p. z = Inr ([Num len, Num serial, ListV vs], p)")
      case True
      then obtain len serial vs p where zz: "z = Inr ([Num len, Num serial, ListV vs], p)" by blast
      with answeredD(2) [OF h] z have "list_all cleanly vs" by fastforce
      note answer = b [OF this]
      show ?thesis
      proof (cases "signature_of (read_fields vs)")
        case (Inl e)
        then show ?thesis using False z zz by (simp add: decode_def Let_def)
      next
        case (Inr ts)
        then obtain y where "read_bus data (Parts ts) (p + padding 8 p) = Some y" using answer by blast
        then show ?thesis using False z zz Inr by (cases y) (auto simp: decode_def Let_def)
      qed
    next
      case other: False
      then show ?thesis using False z by (auto simp: decode_def split: sum.splits list.splits dbus_value.splits)
    qed
  qed (auto simp: decode_def)
qed

text \<open>The array of empty structs: eight bytes of them are never used up.\<close>

lemma empty_structs:
  assumes "read_bus data job here = Some r"
  shows "(job = Parts [] \<longrightarrow> r = Inr ([], here)) \<and> (job = One ''()'' \<and> here mod 8 = 0 \<longrightarrow> r = Inr ([TupleV []], here)) \<and>
    (\<forall>e. job = Until ''()'' e \<longrightarrow> here < e \<longrightarrow> here mod 8 \<noteq> 0)"
proof -
  define P where "P = (\<lambda>(data :: byte list) job here (r :: dbus_error + dbus_value list \<times> nat).
    (job = Parts [] \<longrightarrow> r = Inr ([], here)) \<and> (job = One ''()'' \<and> here mod 8 = 0 \<longrightarrow> r = Inr ([TupleV []], here)) \<and>
    (\<forall>e. job = Until ''()'' e \<longrightarrow> here < e \<longrightarrow> here mod 8 \<noteq> 0))"
  have "P data job here r"
proof (rule read_bus.raw_induct [of P, OF _ assms], goal_cases)
  case (1 f data job here y)
  note IH = 1(1) [unfolded P_def] and eq = 1(2)
  have "y = Inr ([], here)" if "job = Parts []" using eq that by simp
  moreover have "y = Inr ([TupleV []], here)" if j: "job = One ''()''" and m: "here mod 8 = 0"
  proof -
    have "padding 8 here = 0" using m by (simp add: padding_def)
    then obtain z where z: "f data (Parts []) here = Some z"
      using eq j by (cases "f data (Parts []) here") (simp_all add: Let_def fixed_codes_def split_signature.simps)
    from IH [OF this] have "z = Inr ([], here)" by simp
    then show ?thesis using eq j z \<open>padding 8 here = 0\<close> by (simp add: Let_def fixed_codes_def split_signature.simps)
  qed
  moreover have False if j: "job = Until ''()'' e" and e: "here < e" and m: "here mod 8 = 0" for e
  proof -
    obtain z where z: "f data (One ''()'') here = Some z" using eq j e by (cases "f data (One ''()'') here") simp_all
    from IH [OF this] m have "z = Inr ([TupleV []], here)" by simp
    then obtain u where "f data (Until ''()'' e) here = Some u"
      using eq j e z by (cases "f data (Until ''()'' e) here") simp_all
    from IH [OF this] e m show False by simp
  qed
  ultimately show ?case unfolding P_def by blast
qed
  then show ?thesis by (simp add: P_def)
qed

definition endless :: "byte list" where
  "endless =
     [108, 4, 0, 1, 16, 0, 0, 0, 1, 0, 0, 0, 9, 0, 0, 0, 8, 1, 103, 0, 3, 97, 40, 41, 0, 0, 0, 0, 0, 0, 0, 0,
      8, 0, 0, 0, 0, 0, 0, 0, 0, 0, 0, 0, 0, 0, 0, 0]"

lemma endless_header:
  "read_bus endless (Parts [''u'', ''u'', ''a(yv)'']) 4 =
     Some (Inr ([Num 16, Num 1, ListV [TupleV [Num 8, VariantV (said ''g'') (Words (said ''a()''))]]], 25))"
proof -
  have k: "align_of (CHR ''u'') = Some 4" "align_of (CHR ''y'') = Some 1" "align_of (CHR ''g'') = Some 1"
    by (simp_all add: align_of_def)
  have f: "CHR ''u'' \<in> set fixed_codes" "CHR ''y'' \<in> set fixed_codes" by (simp_all add: fixed_codes_def)
  have b: "bytes_at endless 4 4 = Inr [16, 0, 0, 0]" "bytes_at endless 8 4 = Inr [1, 0, 0, 0]"
    "bytes_at endless 12 4 = Inr [9, 0, 0, 0]" "bytes_at endless 16 1 = Inr [8]"
    by (simp_all add: bytes_at_def endless_def)
  have e: "utf8_encode (said ''g'') = Some [103]" "utf8_encode (said ''a()'') = Some [97, 40, 41]"
    by (simp_all add: utf8_ascii)
  have len: "length endless = 48" by (simp add: endless_def)
  have parts: "take 17 endless @ [1, 103, 0] @ drop 20 endless = endless"
    "take 20 endless @ [3, 97, 40, 41, 0] @ drop 25 endless = endless"
    by code_simp+
  have "read_text 1 utf8_strict (take 17 endless @ [1, 103, 0] @ drop 20 endless) 17 = Inr (said ''g'', 20)"
    "read_text 1 utf8_strict (take 20 endless @ [3, 97, 40, 41, 0] @ drop 25 endless) 20 = Inr (said ''a()'', 25)"
    using written_text_read [OF e(1), of 1 utf8_strict "take 17 endless" "drop 20 endless"]
      written_text_read [OF e(2), of 1 utf8_strict "take 20 endless" "drop 25 endless"] e
    by (simp_all add: len)
  then have t: "read_text 1 utf8_strict endless 17 = Inr (said ''g'', 20)" "read_text 1 utf8_strict endless 20 = Inr (said ''a()'', 25)"
    unfolding parts by blast+
  have u: "unpacked (CHR ''u'') [16, 0, 0, 0] = Num 16" "unpacked (CHR ''u'') [1, 0, 0, 0] = Num 1"
    "unpacked (CHR ''y'') [8] = Num 8" "split_signature (spelled (said ''g'')) = Inr [''g'']"
    "split_signature ''yv'' = Inr [''y'', ''v'']"
    using split_spellings [of "[Basic (CHR ''g'')]"] split_spellings [of "[Basic (CHR ''y''), Variant_type]"] f
    by (simp_all add: unpacked_def unpack_number_def fixed_size_def spelled_said)
  have "read_bus endless (One ''u'') 4 = Some (Inr ([Num 16], 8))" "read_bus endless (One ''u'') 8 = Some (Inr ([Num 1], 12))"
    using b(1,2) u by (simp_all add: read_one(1) [OF k(1) f(1)] padding_def fixed_size_def)
  moreover have "read_bus endless (One ''a(yv)'') 12 =
      Some (Inr ([ListV [TupleV [Num 8, VariantV (said ''g'') (Words (said ''a()''))]]], 25))"
  proof -
    have y: "read_bus endless (One ''y'') 16 = Some (Inr ([Num 8], 17))"
      using b(4) u by (simp add: read_one(1) [OF k(2) f(2)] fixed_size_def)
    have g: "read_bus endless (One ''g'') 20 = Some (Inr ([Words (said ''a()'')], 25))"
      using t(2) by (simp add: read_one(3) [OF k(3)])
    have v: "read_bus endless (One ''v'') 17 = Some (Inr ([VariantV (said ''g'') (Words (said ''a()''))], 25))"
      using t(1) g u by (intro variant_parts(2) [of _ "''g''"]) (simp_all add: spelled_said)
    have "read_bus endless (Parts [''y'', ''v'']) 16 =
        Some (Inr ([Num 8, VariantV (said ''g'') (Words (said ''a()''))], 25))"
      using y v by (simp add: read_loops)
    then have "read_bus endless (One ''(yv)'') 16 =
        Some (Inr ([TupleV [Num 8, VariantV (said ''g'') (Words (said ''a()''))]], 25))"
      using u(5) by (subst read_bus.simps) (simp add: fixed_codes_def padding_def)
    then have "read_bus endless (Until ''(yv)'' 25) 16 =
        Some (Inr ([TupleV [Num 8, VariantV (said ''g'') (Words (said ''a()''))]], 25))"
      by (simp add: read_loops)
    then show ?thesis using b(3) by (simp add: read_array_one padding_def max_message_def)
  qed
  ultimately show ?thesis by (simp add: read_loops)
qed

text \<open>
  C28. A message in which the bytes of the two brackets of an empty struct do not stand next to each
  other is read or refused after finitely many steps, whatever else it holds; and that is needed:
  48 bytes that announce an array of empty structs are read for ever.
\<close>

theorem decoding_ends:
  "(\<not> meets 40 41 data \<longrightarrow> decode data \<noteq> None) \<and> decode endless = None"
proof -
  have "read_bus endless (Until ''()'' 48) 40 = None"
    using empty_structs [of endless "Until ''()'' 48" 40] by (cases "read_bus endless (Until ''()'' 48) 40") auto
  moreover have "bytes_at endless 32 4 = Inr [8, 0, 0, 0]" by (simp add: bytes_at_def endless_def numeral_eq_Suc)
  ultimately have "read_bus endless (One ''a()'') 32 = None"
    by (simp add: read_array_one padding_def max_message_def)
  then have "read_bus endless (Parts [''a()'']) 32 = None" by (simp add: read_loops)
  moreover have "signature_of (read_fields [TupleV [Num 8, VariantV (said ''g'') (Words (said ''a()''))]]) = Inr [''a()'']"
    by code_simp
  ultimately have "decode endless = None"
    using endless_header by (simp add: decode_def endless_def [symmetric] Let_def padding_def) (simp add: endless_def)
  with decode_answers show ?thesis by blast
qed

lemma decoding_ends_witness: "decode [108, 1, 0, 1] \<noteq> None"
  using decoding_ends [of "[108, 1, 0, 1]"] by (simp add: meets_Cons)

end
