(* ===== verification/Tracker.thy ===== *)
theory Tracker
  imports Agent "HOL-Library.Sublist"
begin

section \<open>Whether a device is here\<close>

text \<open>
  \<open>satellite/src/sentry_satellite/presence/service.py\<close>: the tracker of one device and the driver
  around it. What the scanner says comes in order; every turn of the driver's loop takes one piece
  of news or none, with the reading of the clock and of the calendar. The page of the tracker is
  left out.
\<close>

subsection \<open>The tracker\<close>

datatype whereabouts = UnknownPlace | Here | Away

record tracker =
  tr_sightings_needed :: int
  tr_window :: seconds
  tr_absent_after :: seconds
  tr_weakest :: int
  tr_state :: whereabouts
  tr_covered :: "seconds option"
  tr_last_seen :: "seconds option"
  tr_rssi :: "rat option"
  tr_sightings :: nat
  tr_weak :: nat
  tr_hits :: "seconds list"

definition new_tracker :: "int \<Rightarrow> seconds \<Rightarrow> seconds \<Rightarrow> int \<Rightarrow> tracker" where
  "new_tracker needed window absent weakest =
     \<lparr>tr_sightings_needed = needed, tr_window = window, tr_absent_after = absent, tr_weakest = weakest,
      tr_state = UnknownPlace, tr_covered = None, tr_last_seen = None, tr_rssi = None, tr_sightings = 0, tr_weak = 0,
      tr_hits = []\<rparr>"

definition min_gap :: seconds where "min_gap = 1"
definition smoothing :: rat where "smoothing = 3 / 10"

definition become :: "whereabouts \<Rightarrow> tracker \<Rightarrow> whereabouts option \<times> tracker" where
  "become w t = (if w = tr_state t then (None, t) else (Some w, t\<lparr>tr_state := w\<rparr>))"

definition coverage :: "bool \<Rightarrow> seconds \<Rightarrow> tracker \<Rightarrow> whereabouts option \<times> tracker" where
  "coverage scanning at_time t =
     (if scanning then (None, if tr_covered t = None then t\<lparr>tr_covered := Some at_time\<rparr> else t)
      else become UnknownPlace (t\<lparr>tr_covered := None, tr_hits := []\<rparr>))"

definition smoothed :: "int \<Rightarrow> rat option \<Rightarrow> rat" where
  "smoothed r old = (case old of None \<Rightarrow> of_int r | Some x \<Rightarrow> x + smoothing * (of_int r - x))"

definition too_weak :: "int option \<Rightarrow> tracker \<Rightarrow> bool" where
  "too_weak rssi t \<longleftrightarrow> (case rssi of None \<Rightarrow> False | Some r \<Rightarrow> r < tr_weakest t)"

definition sighted :: "seconds \<Rightarrow> int option \<Rightarrow> tracker \<Rightarrow> tracker" where
  "sighted at_time rssi t =
     t\<lparr>tr_sightings := Suc (tr_sightings t), tr_last_seen := Some at_time,
       tr_rssi := (case rssi of None \<Rightarrow> tr_rssi t | Some r \<Rightarrow> Some (smoothed r (tr_rssi t)))\<rparr>"

definition seen_at :: "seconds \<Rightarrow> int option \<Rightarrow> tracker \<Rightarrow> whereabouts option \<times> tracker" where
  "seen_at at_time rssi t =
     (if tr_covered t = None then (None, t)
      else if too_weak rssi t then (None, t\<lparr>tr_weak := Suc (tr_weak t)\<rparr>)
      else
        (let u = sighted at_time rssi t in
         if tr_hits u \<noteq> [] \<and> at_time - last (tr_hits u) < min_gap then (None, u)
         else
           (let hits = dropWhile (\<lambda>h. at_time - h > tr_window u) (tr_hits u @ [at_time]);
                v = u\<lparr>tr_hits := hits\<rparr>
            in if tr_state v \<noteq> Here \<and> int (length hits) \<ge> tr_sightings_needed v then become Here v else (None, v))))"

definition quiet_since :: "seconds \<Rightarrow> tracker \<Rightarrow> seconds" where
  "quiet_since c t = max c (case tr_last_seen t of None \<Rightarrow> c | Some s \<Rightarrow> if s = 0 then c else s)"

definition tick :: "seconds \<Rightarrow> tracker \<Rightarrow> whereabouts option \<times> tracker" where
  "tick now t =
     (case tr_covered t of
        None \<Rightarrow> (None, t)
      | Some c \<Rightarrow>
          if tr_state t = Away then (None, t)
          else if now - quiet_since c t \<ge> tr_absent_after t then become Away (t\<lparr>tr_hits := []\<rparr>)
          else (None, t))"

subsection \<open>The driver\<close>

datatype news = Sighting seconds "int option" | Covered seconds bool "string option"

record ble_driver =
  bd_source :: string
  bd_kind :: string
  bd_tracker :: tracker
  bd_stopped :: bool
  bd_error :: "string option"

definition place_word :: "whereabouts \<Rightarrow> string" where
  "place_word w = (case w of UnknownPlace \<Rightarrow> ''unknown'' | Here \<Rightarrow> ''present'' | Away \<Rightarrow> ''absent'')"

definition place_reading :: "ble_driver \<Rightarrow> whereabouts \<Rightarrow> bool \<Rightarrow> moment \<Rightarrow> reading" where
  "place_reading b w initial now =
     \<lparr>rd_source = bd_source b, rd_kind = bd_kind b,
      rd_value = Reads (if w = UnknownPlace then JNull else JStr (place_word w)), rd_occurred = Some now, rd_unit = None,
      rd_quality = (if w = UnknownPlace then ''unknown'' else ''valid''), rd_initial = (w \<noteq> UnknownPlace \<and> initial)\<rparr>"

text \<open>What one piece of news does to the tracker, and the tick after it when it changed nothing.\<close>

definition told :: "news option \<Rightarrow> tracker \<Rightarrow> whereabouts option \<times> tracker" where
  "told n t =
     (case n of
        None \<Rightarrow> (None, t)
      | Some (Sighting s rssi) \<Rightarrow> seen_at s rssi t
      | Some (Covered s scanning why) \<Rightarrow> coverage scanning s t)"

definition told_and_ticked :: "news option \<Rightarrow> seconds \<Rightarrow> tracker \<Rightarrow> whereabouts option \<times> tracker" where
  "told_and_ticked n clock t =
     (case told n t of (Some w, u) \<Rightarrow> (Some w, u) | (None, u) \<Rightarrow> tick clock u)"

text \<open>A turn of \<open>read\<close>, with whether \<open>stop\<close> was called in it, and \<open>stop\<close> between two turns.\<close>

datatype ble_input = Turn "news option" seconds moment bool | StopsDriver

fun do_ble :: "ble_driver \<Rightarrow> ble_input \<Rightarrow> reading option \<times> ble_driver" where
  "do_ble b StopsDriver = (None, b\<lparr>bd_stopped := True\<rparr>)"
| "do_ble b (Turn n clock now stops) =
     (if bd_stopped b then (None, b)
      else
        (case told_and_ticked n clock (bd_tracker b) of
           (changed, t) \<Rightarrow>
             let b' = b\<lparr>bd_tracker := t, bd_stopped := stops,
                        bd_error := (case n of Some (Covered s scanning why) \<Rightarrow> if scanning then None else why | _ \<Rightarrow> bd_error b)\<rparr>
             in (case changed of
                   Some w \<Rightarrow> if stops then None else Some (place_reading b w (tr_state (bd_tracker b) = UnknownPlace) now)
                 | None \<Rightarrow> None, b')))"

definition new_ble :: "string \<Rightarrow> string \<Rightarrow> tracker \<Rightarrow> ble_driver" where
  "new_ble source kind t = \<lparr>bd_source = source, bd_kind = kind, bd_tracker = t, bd_stopped = False, bd_error = None\<rparr>"

subsection \<open>What the news is evidence for\<close>

text \<open>
  The \<open>stretch\<close> of the news is what came since the scanner last began to scan: nothing after it
  stopped. The device was \<open>heard\<close> at the sightings in the stretch that are strong enough.
\<close>

fun goes_up :: "news \<Rightarrow> bool" where
  "goes_up (Covered s scanning why) = scanning"
| "goes_up (Sighting s rssi) = False"

fun goes_down :: "news \<Rightarrow> bool" where
  "goes_down (Covered s scanning why) = (\<not> scanning)"
| "goes_down (Sighting s rssi) = False"

fun news_time :: "news \<Rightarrow> seconds" where
  "news_time (Covered s scanning why) = s"
| "news_time (Sighting s rssi) = s"

fun strong :: "int \<Rightarrow> news \<Rightarrow> bool" where
  "strong weakest (Sighting s rssi) = (case rssi of None \<Rightarrow> True | Some r \<Rightarrow> weakest \<le> r)"
| "strong weakest (Covered s scanning why) = False"

definition stretch :: "news list \<Rightarrow> news list" where
  "stretch ns = dropWhile (\<lambda>n. \<not> goes_up n) (rev (takeWhile (\<lambda>n. \<not> goes_down n) (rev ns)))"

definition hearing_since :: "news list \<Rightarrow> seconds option" where
  "hearing_since ns = (case stretch ns of [] \<Rightarrow> None | n # _ \<Rightarrow> Some (news_time n))"

definition heard :: "int \<Rightarrow> news list \<Rightarrow> seconds list" where
  "heard weakest ns = map news_time (filter (strong weakest) (stretch ns))"

definition spaced :: "seconds list \<Rightarrow> bool" where
  "spaced = sorted_wrt (\<lambda>a b. a + min_gap \<le> b)"

definition news_of :: "ble_input list \<Rightarrow> news list" where
  "news_of es = List.map_filter (\<lambda>e. case e of Turn n clock now stops \<Rightarrow> n | StopsDriver \<Rightarrow> None) es"

definition last_word :: "reading option list \<Rightarrow> read_value" where
  "last_word outs = (case rev (List.map_filter id outs) of [] \<Rightarrow> Reads JNull | r # _ \<Rightarrow> rd_value r)"

lemma stretch_nil [simp]: "stretch [] = []"
  by (simp add: stretch_def)

lemma stretch_snoc: "stretch (ns @ [n]) =
    (if goes_down n then [] else if goes_up n \<or> stretch ns \<noteq> [] then stretch ns @ [n] else [])"
  by (auto simp: stretch_def dropWhile_append dropWhile_eq_Nil_conv)

lemma hearing_since_none: "hearing_since ns = None \<longleftrightarrow> stretch ns = []"
  by (simp add: hearing_since_def split: list.splits)

lemma hearing_since_snoc: "hearing_since (ns @ [n]) =
    (if goes_down n then None
     else case hearing_since ns of None \<Rightarrow> if goes_up n then Some (news_time n) else None | Some s \<Rightarrow> Some s)"
  by (auto simp: hearing_since_def stretch_snoc split: list.splits)

lemma not_hearing: "hearing_since ns = None \<Longrightarrow> heard weakest ns = []"
  by (simp add: hearing_since_none heard_def)

lemma heard_snoc: "heard weakest (ns @ [n]) =
    (if goes_down n then [] else if goes_up n then heard weakest ns
     else if hearing_since ns \<noteq> None \<and> strong weakest n then heard weakest ns @ [news_time n]
     else heard weakest ns)"
  by (cases n) (auto simp: heard_def stretch_snoc hearing_since_none)

lemma hearing_news: "hearing_since ns = Some s \<Longrightarrow> \<exists>n\<in>set ns. goes_up n \<and> news_time n = s"
proof (induction ns rule: rev_induct)
  case Nil
  then show ?case by (simp add: hearing_since_def)
next
  case (snoc n ns)
  then show ?case by (auto simp: hearing_since_snoc split: if_splits option.splits)
qed

lemma spaced_snoc [simp]: "spaced (hs @ [h]) \<longleftrightarrow> spaced hs \<and> (\<forall>x\<in>set hs. x + min_gap \<le> h)"
  by (simp add: spaced_def sorted_wrt_append)

lemma spaced_last: "spaced hs \<Longrightarrow> hs \<noteq> [] \<Longrightarrow> x \<in> set hs \<Longrightarrow> x \<le> last hs"
  by (cases hs rule: rev_cases) (auto simp: min_gap_def intro: order_trans [of _ "_ + 1"])

lemma spaced_grows: "spaced hs \<Longrightarrow> hs \<noteq> [] \<longrightarrow> last hs + min_gap \<le> s \<Longrightarrow> spaced (hs @ [s])"
  using spaced_last [of hs] by (cases "hs = []") (auto simp: spaced_def sorted_wrt_append intro: order_trans [OF add_right_mono])

lemma spaced_drop: "spaced hs \<Longrightarrow> spaced (dropWhile P hs)"
  by (metis spaced_def sorted_wrt_append takeWhile_dropWhile_id)

lemma spaced_recent: "spaced hs \<Longrightarrow> h \<in> set (dropWhile (\<lambda>h. s - h > w) hs) \<Longrightarrow> s - h \<le> w"
proof (induction hs)
  case (Cons x hs)
  show ?case
  proof (cases "s - x > w")
    case False
    have "x \<le> h" if "h \<in> set hs" using Cons.prems that by (auto simp: spaced_def min_gap_def)
    then show ?thesis using Cons.prems False by (auto simp: not_less)
  qed (use Cons in \<open>simp add: spaced_def\<close>)
qed simp

lemma subseq_drop: "subseq hs ks \<Longrightarrow> subseq (dropWhile P hs) ks"
  using suffix_dropWhile [of P hs] by (meson subseq_order.trans suffix_imp_subseq)

definition recalls :: "tracker \<Rightarrow> news list \<Rightarrow> bool" where
  "recalls t ns \<longleftrightarrow> tr_covered t = hearing_since ns
     \<and> (heard (tr_weakest t) ns \<noteq> [] \<longrightarrow> tr_last_seen t = Some (last (heard (tr_weakest t) ns)))
     \<and> subseq (tr_hits t) (heard (tr_weakest t) ns) \<and> spaced (tr_hits t)"

definition news_list :: "news option \<Rightarrow> news list" where
  "news_list n = (case n of None \<Rightarrow> [] | Some x \<Rightarrow> [x])"

definition same_settings :: "tracker \<Rightarrow> tracker \<Rightarrow> bool" where
  "same_settings t u \<longleftrightarrow> tr_sightings_needed t = tr_sightings_needed u \<and> tr_window t = tr_window u
     \<and> tr_absent_after t = tr_absent_after u \<and> tr_weakest t = tr_weakest u"

text \<open>Enough sightings of one stretch, a second apart and within the window, the last one now.\<close>

definition arrived :: "tracker \<Rightarrow> news list \<Rightarrow> bool" where
  "arrived t ns \<longleftrightarrow>
     (\<exists>hs. tr_sightings_needed t \<le> int (length hs) \<and> subseq hs (heard (tr_weakest t) ns) \<and> spaced hs
        \<and> (\<forall>h\<in>set hs. news_time (last ns) - h \<le> tr_window t))"

text \<open>A scanner that listened all the time, for long enough, and heard nothing strong enough.\<close>

definition gone :: "tracker \<Rightarrow> news list \<Rightarrow> seconds \<Rightarrow> bool" where
  "gone t ns clock \<longleftrightarrow>
     (\<exists>s. hearing_since ns = Some s \<and> clock - s \<ge> tr_absent_after t)
     \<and> (heard (tr_weakest t) ns \<noteq> [] \<longrightarrow> clock - last (heard (tr_weakest t) ns) \<ge> tr_absent_after t)"

lemma become_cases [simp]:
  "fst (become w t) = (if w = tr_state t then None else Some w)"
  "tr_state (snd (become w t)) = w"
  "recalls (snd (become w t)) ns = recalls t ns"
  "same_settings t0 (snd (become w t)) = same_settings t0 t"
  by (simp_all add: become_def recalls_def same_settings_def)

lemma coverage_recalls:
  "recalls t ns \<Longrightarrow> recalls (snd (coverage scanning s t)) (ns @ [Covered s scanning why])"
  by (auto simp: coverage_def recalls_def heard_snoc hearing_since_snoc spaced_def become_def dest: not_hearing split: option.splits)

lemma weak_strong: "strong (tr_weakest t) (Sighting s rssi) \<longleftrightarrow> \<not> too_weak rssi t"
  by (auto simp: too_weak_def split: option.splits)

lemma hits_grow:
  fixes w :: seconds
  assumes "recalls t ns" and "tr_covered t \<noteq> None" and "\<not> too_weak rssi t"
    and "tr_hits t = [] \<or> \<not> s - last (tr_hits t) < min_gap"
  defines "hs \<equiv> dropWhile (\<lambda>h. s - h > w) (tr_hits t @ [s])"
  shows "subseq hs (heard (tr_weakest t) (ns @ [Sighting s rssi]))" and "spaced hs"
    and "\<forall>h\<in>set hs. s - h \<le> w"
proof -
  have *: "spaced (tr_hits t @ [s])"
    using assms by (intro spaced_grows) (auto simp: recalls_def algebra_simps not_less)
  then show "spaced hs" and "\<forall>h\<in>set hs. s - h \<le> w"
    unfolding hs_def by (blast intro: spaced_drop, blast intro: spaced_recent)
  have "heard (tr_weakest t) (ns @ [Sighting s rssi]) = heard (tr_weakest t) ns @ [s]"
    using assms(1-3) weak_strong [of t s rssi] by (auto simp: heard_snoc recalls_def)
  then show "subseq hs (heard (tr_weakest t) (ns @ [Sighting s rssi]))"
    unfolding hs_def using assms(1) by (auto intro!: subseq_drop list_emb_append_mono simp: recalls_def)
qed

lemma seen_recalls: "recalls t ns \<Longrightarrow> recalls (snd (seen_at s rssi t)) (ns @ [Sighting s rssi])"
proof -
  assume r: "recalls t ns"
  consider (deaf) "tr_covered t = None" | (weak) "tr_covered t \<noteq> None" "too_weak rssi t"
    | (soon) "tr_covered t \<noteq> None" "\<not> too_weak rssi t" "tr_hits t \<noteq> [] \<and> s - last (tr_hits t) < min_gap"
    | (counts) "tr_covered t \<noteq> None" "\<not> too_weak rssi t" "tr_hits t = [] \<or> \<not> s - last (tr_hits t) < min_gap"
    by blast
  then show ?thesis
  proof cases
    case deaf
    then show ?thesis using r by (simp add: seen_at_def recalls_def heard_snoc hearing_since_snoc)
  next
    case weak
    then show ?thesis using r weak_strong [of t s rssi]
      by (auto simp: seen_at_def recalls_def heard_snoc hearing_since_snoc split: option.splits)
  next
    case soon
    then show ?thesis using r weak_strong [of t s rssi]
      by (auto simp: seen_at_def sighted_def recalls_def heard_snoc hearing_since_snoc Let_def
          intro: subseq_order.trans split: option.splits)
  next
    case counts
    with hits_grow [OF r counts, of "tr_window t"] show ?thesis using r weak_strong [of t s rssi]
      by (auto simp: seen_at_def sighted_def recalls_def heard_snoc hearing_since_snoc Let_def become_def split: option.splits)
  qed
qed

lemma seen_here:
  assumes "recalls t ns" and "fst (seen_at s rssi t) = Some w"
  shows "w = Here \<and> arrived t (ns @ [Sighting s rssi])"
proof -
  from assms(2) have c: "tr_covered t \<noteq> None" "\<not> too_weak rssi t"
      "tr_hits t = [] \<or> \<not> s - last (tr_hits t) < min_gap"
    and h: "w = Here" "tr_sightings_needed t \<le> int (length (dropWhile (\<lambda>h. s - h > tr_window t) (tr_hits t @ [s])))"
    by (auto simp: seen_at_def sighted_def Let_def split: if_splits)
  from hits_grow [OF assms(1) c, of "tr_window t"] h show ?thesis by (auto simp: arrived_def)
qed

lemma told_recalls: "recalls t ns \<Longrightarrow> recalls (snd (told n t)) (ns @ news_list n)"
  by (auto simp: told_def news_list_def coverage_recalls seen_recalls split: option.splits news.splits)

lemma tick_recalls: "recalls t ns \<Longrightarrow> recalls (snd (tick clock t)) ns"
  by (auto simp: tick_def recalls_def become_def spaced_def split: option.splits)

lemma told_and_ticked_recalls:
  "recalls t ns \<Longrightarrow> recalls (snd (told_and_ticked n clock t)) (ns @ news_list n)"
  using told_recalls [of t ns n] by (auto simp: told_and_ticked_def tick_recalls split: prod.splits option.splits)

lemma settings_kept:
  "same_settings t0 t \<Longrightarrow> same_settings t0 (snd (told n t))"
  "same_settings t0 t \<Longrightarrow> same_settings t0 (snd (tick clock t))"
  by (auto simp: told_def coverage_def seen_at_def tick_def sighted_def become_def same_settings_def Let_def
      split: option.splits news.splits)

lemma settings_kept_by_turn: "same_settings t0 t \<Longrightarrow> same_settings t0 (snd (told_and_ticked n clock t))"
  using settings_kept(1) [of t0 t n] settings_kept(2) [of t0 "snd (told n t)" clock]
  by (auto simp: told_and_ticked_def split: prod.splits option.splits)

text \<open>The state is what was answered last, and an answer is a change.\<close>

definition changes_to :: "tracker \<Rightarrow> whereabouts option \<times> tracker \<Rightarrow> bool" where
  "changes_to t x \<longleftrightarrow> (case fst x of None \<Rightarrow> tr_state (snd x) = tr_state t
      | Some w \<Rightarrow> w \<noteq> tr_state t \<and> tr_state (snd x) = w)"

lemma told_changes: "changes_to t (told n t)" and tick_changes: "changes_to t (tick clock t)"
  by (auto simp: changes_to_def told_def coverage_def seen_at_def tick_def sighted_def become_def Let_def
      split: option.splits news.splits)

lemma turn_changes: "changes_to t (told_and_ticked n clock t)"
  using told_changes [of t n] tick_changes [of "snd (told n t)" clock]
  by (auto simp: told_and_ticked_def changes_to_def split: prod.splits option.splits)

lemma told_word:
  assumes "recalls t ns" and "fst (told n t) = Some w"
  shows "w = Here \<and> arrived t (ns @ news_list n) \<or> w = UnknownPlace \<and> (\<exists>s why. n = Some (Covered s False why))"
  using assms seen_here [OF assms(1)]
  by (auto simp: told_def news_list_def coverage_def split: option.splits news.splits if_splits)

lemma tick_word:
  assumes "recalls t ns" and "\<forall>n\<in>set ns. 0 \<le> news_time n" and "fst (tick clock t) = Some w"
  shows "w = Away \<and> gone t ns clock"
proof -
  from assms(3) obtain c where c: "tr_covered t = Some c" "w = Away" "clock - quiet_since c t \<ge> tr_absent_after t"
    by (auto simp: tick_def split: option.splits if_splits)
  with assms(1,2) hearing_news [of ns c] have "hearing_since ns = Some c" and "0 \<le> c"
    by (auto simp: recalls_def)
  with c assms(1) show ?thesis
    by (auto simp: gone_def recalls_def quiet_since_def max_def split: if_splits option.splits)
qed

lemma turn_word:
  assumes "recalls t ns" and "\<forall>n\<in>set (ns @ news_list n). 0 \<le> news_time n"
    and "fst (told_and_ticked n clock t) = Some w"
  shows "w = Here \<and> arrived t (ns @ news_list n) \<or> w = Away \<and> gone t (ns @ news_list n) clock
    \<or> w = UnknownPlace \<and> (\<exists>s why. n = Some (Covered s False why))"
proof (cases "fst (told n t)")
  case None
  then have "fst (tick clock (snd (told n t))) = Some w"
    using assms(3) by (auto simp: told_and_ticked_def split: prod.splits)
  from tick_word [OF told_recalls [OF assms(1)] assms(2) this] settings_kept(1) [of t t n]
  show ?thesis by (simp add: gone_def same_settings_def)
next
  case (Some v)
  then have "v = w" using assms(3) by (auto simp: told_and_ticked_def split: prod.splits)
  with told_word [OF assms(1) Some] show ?thesis by blast
qed

lemma unheard: "tr_state (snd (told_and_ticked (Some (Covered s False why)) clock t)) = UnknownPlace"
  by (simp add: told_and_ticked_def told_def coverage_def become_def tick_def)

subsection \<open>What the driver reports\<close>

definition stops_in :: "ble_input list \<Rightarrow> bool" where
  "stops_in = list_ex (\<lambda>e. case e of StopsDriver \<Rightarrow> True | Turn n clock now stops \<Rightarrow> stops)"

definition place_value :: "whereabouts \<Rightarrow> read_value" where
  "place_value w = Reads (if w = UnknownPlace then JNull else JStr (place_word w))"

definition place_known :: "tracker \<Rightarrow> ble_driver \<Rightarrow> (ble_input \<times> reading option) list \<Rightarrow> bool" where
  "place_known t0 b h \<longleftrightarrow> bd_stopped b = stops_in (map fst h) \<and> same_settings t0 (bd_tracker b)
     \<and> (\<not> bd_stopped b \<longrightarrow> recalls (bd_tracker b) (news_of (map fst h))
          \<and> place_value (tr_state (bd_tracker b)) = last_word (map snd h))"

text \<open>
  What a turn may answer after a history: a word that differs from the last one, with the evidence
  for it, marked as where things stand when the last word was that nothing is known; and after the
  news that the scanner has stopped nothing is known.
\<close>

definition well_founded_word :: "tracker \<Rightarrow> news list \<Rightarrow> news option \<Rightarrow> seconds \<Rightarrow> read_value \<Rightarrow> bool" where
  "well_founded_word t0 ns n clock v \<longleftrightarrow>
     v = Reads (JStr ''present'') \<and> arrived t0 ns \<or> v = Reads (JStr ''absent'') \<and> gone t0 ns clock
     \<or> v = Reads JNull \<and> (\<exists>s why. n = Some (Covered s False why))"

definition report_sound :: "tracker \<Rightarrow> (ble_input \<times> reading option) list \<Rightarrow> ble_input \<Rightarrow> reading option \<Rightarrow> bool" where
  "report_sound t0 h e out \<longleftrightarrow> (case e of StopsDriver \<Rightarrow> out = None | Turn n clock now stops \<Rightarrow>
     (case out of None \<Rightarrow> True
      | Some r \<Rightarrow> \<not> stops_in (map fst h @ [e])
          \<and> well_founded_word t0 (news_of (map fst h @ [e])) n clock (rd_value r)
          \<and> rd_value r \<noteq> last_word (map snd h)
          \<and> (rd_initial r \<longleftrightarrow> rd_value r \<noteq> Reads JNull \<and> last_word (map snd h) = Reads JNull))
     \<and> (case n of Some (Covered s False why) \<Rightarrow>
            stops_in (map fst h @ [e]) \<or> last_word (map snd h @ [out]) = Reads JNull
        | _ \<Rightarrow> True))"

lemma news_of_simps [simp]:
  "news_of [] = []" "news_of (es @ [StopsDriver]) = news_of es"
  "news_of (es @ [Turn n clock now stops]) = news_of es @ news_list n"
  by (simp_all add: news_of_def news_list_def List.map_filter_def split: option.splits)

lemma last_word_simps [simp]:
  "last_word [] = Reads JNull" "last_word (os @ [None]) = last_word os" "last_word (os @ [Some r]) = rd_value r"
  by (simp_all add: last_word_def List.map_filter_def)

lemma stops_in_simps [simp]:
  "\<not> stops_in []" "stops_in (es @ [StopsDriver])"
  "stops_in (es @ [Turn n clock now stops]) \<longleftrightarrow> stops_in es \<or> stops"
  by (auto simp: stops_in_def)

lemma place_value_inj [simp]: "place_value v = place_value w \<longleftrightarrow> v = w"
  "place_value w = Reads JNull \<longleftrightarrow> w = UnknownPlace"
  by (cases v; cases w; simp add: place_value_def place_word_def) (simp add: place_value_def)

lemma reading_fields [simp]:
  "rd_value (place_reading b w initial now) = place_value w"
  "rd_initial (place_reading b w initial now) \<longleftrightarrow> w \<noteq> UnknownPlace \<and> initial"
  by (simp_all add: place_reading_def place_value_def)

lemma turn_state: "tr_state (snd (told_and_ticked n clock t)) =
    (case fst (told_and_ticked n clock t) of None \<Rightarrow> tr_state t | Some w \<Rightarrow> w)"
  using turn_changes [of t n clock] by (auto simp: changes_to_def split: option.splits)

lemma place_known_step:
  assumes "place_known t0 b h"
  shows "place_known t0 (snd (do_ble b e)) (h @ [(e, fst (do_ble b e))])"
proof (cases e)
  case StopsDriver
  then show ?thesis using assms by (simp add: place_known_def)
next
  case (Turn n clock now stops)
  then show ?thesis
    using assms told_and_ticked_recalls [of "bd_tracker b" "news_of (map fst h)" n clock]
      settings_kept_by_turn [of t0 "bd_tracker b" n clock] turn_state [of n clock "bd_tracker b"]
    by (cases "bd_stopped b")
      (auto simp: place_known_def Let_def split: prod.splits option.splits)
qed

definition since_boot :: "ble_input list \<Rightarrow> bool" where
  "since_boot es = list_all (\<lambda>n. 0 \<le> news_time n) (news_of es)"

lemma arrived_settings: "same_settings t0 t \<Longrightarrow> arrived t ns = arrived t0 ns"
  and gone_settings: "same_settings t0 t \<Longrightarrow> gone t ns clock = gone t0 ns clock"
  by (simp_all add: arrived_def gone_def same_settings_def)

lemma place_known_word:
  assumes k: "place_known t0 b h" and s: "since_boot (map fst h @ [e])"
  shows "report_sound t0 h e (fst (do_ble b e))"
proof (cases e)
  case StopsDriver
  then show ?thesis by (simp add: report_sound_def)
next
  case (Turn n clock now stops)
  let ?out = "fst (told_and_ticked n clock (bd_tracker b))"
  show ?thesis
  proof (cases "bd_stopped b")
    case True
    then show ?thesis using Turn k
      by (auto simp: report_sound_def place_known_def split: option.splits news.splits bool.splits)
  next
    case False
    then have r: "recalls (bd_tracker b) (news_of (map fst h))" and h: "\<not> stops_in (map fst h)"
      and l: "last_word (map snd h) = place_value (tr_state (bd_tracker b))" and t: "same_settings t0 (bd_tracker b)"
      using k by (simp_all add: place_known_def)
    have w: "well_founded_word t0 (news_of (map fst h @ [e])) n clock (place_value w)
        \<and> w \<noteq> tr_state (bd_tracker b)" if "?out = Some w" for w
      using turn_word [OF r _ that] that s Turn turn_changes [of "bd_tracker b" n clock] arrived_settings [OF t] gone_settings [OF t]
      by (auto simp: since_boot_def list_all_iff well_founded_word_def place_value_def place_word_def changes_to_def)
    have u: "case ?out of None \<Rightarrow> tr_state (bd_tracker b) = UnknownPlace | Some w \<Rightarrow> w = UnknownPlace"
      if "n = Some (Covered s False why)" for s why
      using unheard [of s why clock "bd_tracker b"] turn_state [of n clock "bd_tracker b"] that by (auto split: option.splits)
    show ?thesis using Turn False h l w u
      by (cases ?out) (auto simp: report_sound_def Let_def split: prod.splits option.splits news.splits bool.splits)
  qed
qed

lemma new_tracker_recalls: "recalls (new_tracker needed window absent weakest) []"
  and new_tracker_state: "tr_state (new_tracker needed window absent weakest) = UnknownPlace"
  by (simp_all add: recalls_def new_tracker_def hearing_since_def heard_def spaced_def)

interpretation place_history: remembering do_ble
    "new_ble source kind (new_tracker needed window absent weakest)"
    "place_known (new_tracker needed window absent weakest)"
    "\<lambda>h e out. since_boot (map fst h @ [e]) \<longrightarrow> report_sound (new_tracker needed window absent weakest) h e out"
  for source kind needed window absent weakest
proof unfold_locales
  show "place_known (new_tracker needed window absent weakest)
      (new_ble source kind (new_tracker needed window absent weakest)) []"
    using new_tracker_recalls by (simp add: place_known_def new_ble_def same_settings_def new_tracker_state)
qed (simp_all add: place_known_step place_known_word)

lemma since_boot_start: "since_boot (es @ fs) \<Longrightarrow> since_boot es"
  by (simp add: since_boot_def news_of_def List.map_filter_def)

text \<open>
  C26. Presence is only concluded from what the scanner heard. In every run of a presence source,
  whatever the news, its order and its pauses, a reading "present" has its evidence: as many
  sightings as the settings ask for, strong enough, each at least a second after the one before, all
  within the window and all since the scanner last began to scan. A reading "absent" has its
  evidence: the scanner has been scanning without a break for the whole time of absence, and the
  last strong sighting in it is as long ago. Nothing is reported twice in a row; a reading is marked
  as where things stand exactly when the word before was that nothing is known; once the scanner has
  stopped the last word is that nothing is known; and a driver that was told to stop says nothing.
\<close>

theorem presence_needs_evidence:
  assumes "since_boot es"
    and "trace do_ble (new_ble source kind (new_tracker needed window absent weakest)) es = h @ (e, out) # t"
  shows "report_sound (new_tracker needed window absent weakest) h e out"
proof -
  have "es = map fst h @ e # map fst t"
    using arg_cong [OF assms(2), of "map fst"] by simp
  then have "since_boot (map fst h @ [e])"
    using assms(1) since_boot_start [of "map fst h @ [e]" "map fst t"] by simp
  with place_history.trace_good [OF assms(2)] show ?thesis by blast
qed

text \<open>
  A phone is heard three times a second apart and once in between; the scanner breaks, comes back
  and hears nothing for two minutes.
\<close>

lemma run_shared [code]:
  "run step s [] = ([], s)"
  "run step s (e # es) = (case step s e of (out, s') \<Rightarrow> case run step s' es of (outs, s'') \<Rightarrow> (out # outs, s''))"
  by (simp_all split: prod.splits)

definition noon :: moment where "noon = \<lparr>mom_us = 0, mom_offset = 0\<rparr>"

definition evening :: "ble_input list" where
  "evening = [Turn (Some (Covered 10 True None)) 10 noon False, Turn (Some (Sighting 11 (Some (- 60)))) 11 noon False,
     Turn (Some (Sighting (23/2) None)) 12 noon False, Turn (Some (Sighting 13 (Some (- 101)))) 13 noon False,
     Turn (Some (Sighting 14 (Some (- 70)))) 14 noon False, Turn (Some (Sighting 15 (Some (- 70)))) 15 noon False,
     Turn (Some (Covered 20 False None)) 20 noon False, Turn None 200 noon False,
     Turn (Some (Covered 300 True None)) 300 noon False, Turn None 419 noon False, Turn None 420 noon False,
     Turn (Some (Sighting 421 None)) 421 noon False]"

lemma presence_needs_evidence_witness:
  "map (map_option (\<lambda>r. (rd_value r, rd_initial r)))
       (fst (run do_ble (new_ble ''ble:phone'' ''presence.state'' (new_tracker 3 10 120 (- 100))) evening))
     = [None, None, None, None, None, Some (Reads (JStr ''present''), True), Some (Reads JNull, False), None, None,
        None, Some (Reads (JStr ''absent''), True), None]
   \<and> (\<exists>h e r t. trace do_ble (new_ble ''ble:phone'' ''presence.state'' (new_tracker 3 10 120 (- 100))) evening
           = h @ (e, Some r) # t
         \<and> rd_value r = Reads (JStr ''present'') \<and> report_sound (new_tracker 3 10 120 (- 100)) h e (Some r))"
proof -
  let ?b = "new_ble ''ble:phone'' ''presence.state'' (new_tracker 3 10 120 (- 100))"
  have o: "fst (run do_ble ?b evening) = [None, None, None, None, None,
      Some (place_reading ?b Here True noon), Some (place_reading ?b UnknownPlace False noon), None, None,
      None, Some (place_reading ?b Away True noon), None]"
    by code_simp
  define tr where "tr = trace do_ble ?b evening"
  have split: "tr = take 5 tr @ (evening ! 5, Some (place_reading ?b Here True noon)) # drop 6 tr"
    unfolding tr_def trace_def o by (simp add: evening_def)
  have "since_boot evening" by (simp add: since_boot_def news_of_def List.map_filter_def evening_def)
  from presence_needs_evidence [OF this split [unfolded tr_def]] o split show ?thesis
    unfolding tr_def by (force simp: place_value_def place_word_def)
qed

end
