(* ===== verification/Spec2Isabelle.thy ===== *)
theory Spec2Isabelle
  imports Registry Leases Journal Rates Ingress Platforms Nodes Sessions Health Link Blocks Migration
    Correlation Planner Faults Saving Simulation Hearing Wiring Arriving Turns Carried Understood Ending Tracker
begin

text \<open>
  A verification development of Sentry Mode: a hub that watches a room with cameras, a microphone and
  satellites, and the satellites' own agent. The hub is \<open>src/sentry_mode\<close>, the agent is
  \<open>satellite/src/sentry_satellite\<close>; both are Python.

  \<^bold>\<open>How the parts work together.\<close> A satellite's drivers read their sensors; the agent
  numbers each reading, keeps it in a bounded spool and, while the hub grants it the permission,
  sends it over MQTT. The hub's satellite service takes every message: the node registry says who
  may speak, the sessions say which connection counts and what it may do, the ingress decides
  whether an event is well formed, new, fresh and in order, and the journal remembers it before it
  is acknowledged. What is eligible goes into a queue the rule engine reads. The engine is armed
  with rules that the planner has checked; its triggers watch events, pictures and sounds, and a rule
  that goes off puts jobs into a queue that a worker carries out in time. Pictures of a camera reach
  a trigger through one inference scheduler; pictures of a satellite reach the hub through the media
  gateway, against a ticket that the hub sent to the node in a command.

  \<^bold>\<open>Conventions.\<close> A class that keeps state is a record and each of its operations a
  function from the state to the new state with what it answers; a lock makes an operation one step.
  Exceptions and early returns are values (\<open>Inl\<close> an error of the component's own datatype). A
  \<open>dict\<close> is an association list in insertion order with unique keys (\<open>Prelude\<close>). Floats are
  rationals and clocks are inputs; what a component asks of the world (the disk, the broker, a
  fresh identifier, a thread's turn) is an input of the step, so a theorem about all runs is a theorem
  about all such worlds. What is not in the repository (Pydantic, JSON, SHA-256, X.509) is a parameter.
  English sentences meant for logs and pages are constructors or left out.

  \<^bold>\<open>The theories.\<close>

  \<^item> \<open>Prelude\<close>: dictionaries, little-endian numbers, the generic machine (\<open>run\<close>, \<open>trace\<close>)
    and its locales, whose invariants every component proves once and uses through an
    \<open>interpretation\<close>. \<open>Refining\<close>: the locale of a machine that implements another.
  \<^item> \<open>Names\<close> (\<open>sources/models.py\<close>, \<open>names.py\<close>), \<open>Registry\<close> (\<open>sources/registry.py\<close>,
    \<open>legacy.py\<close>), \<open>Leases\<close> (\<open>sources/manager.py\<close>), \<open>Settings\<close> (\<open>satellites/config.py\<close>),
    \<open>Documents\<close> (what a JSON or TOML reader returns): the data everything shares.
  \<^item> \<open>Events\<close>, \<open>Journal\<close> (\<open>satellites/store.py\<close>), \<open>Rates\<close> and \<open>Ingress\<close>
    (\<open>satellites/ingress.py\<close>, \<open>protocol.py\<close>): the door of the hub. The theorems say exactly when an
    event is eligible, that it is so at most once and in order, that the rates hold, what every
    answer means, and which settings and numbers break this.
  \<^item> \<open>Platforms\<close>, \<open>Nodes\<close> (\<open>satellites/identity.py\<close>), \<open>Sessions\<close>, \<open>Health\<close>, \<open>Service\<close>
    (\<open>satellites/service.py\<close>) and \<open>Hearing\<close>: who is heard. \<open>Service\<close> composes all of the above;
    \<open>Hearing\<close> shows that nothing reaches the rules past any of them.
  \<^item> \<open>Decoder\<close>, \<open>Link\<close> (\<open>satellites/link.py\<close>), \<open>Blocks\<close> (\<open>audio/blocks.py\<close> on both
    sides), \<open>Keyframes\<close> (\<open>vision/network.py\<close>): streams of bytes cut anywhere. \<open>Decoder\<close> holds
    the locale of such a reader; CRC-32 is computed bit by bit.
  \<^item> \<open>Gateway\<close> (\<open>vision/media_gateway.py\<close>) as interleaved steps of its threads; \<open>Tickets\<close>
    refines it to an abstract ticket office; \<open>Carried\<close> traces what a decoder is fed back to the
    ticket, the header and the registry, together with the registry's own guarantee.
  \<^item> \<open>Contract\<close> (\<open>satellites/control.py\<close> and the commands of \<open>service.py\<close>) and
    \<open>Understood\<close>: what the hub sends is the written contract and the agent's parser reads it so.
  \<^item> \<open>Rules\<close>, \<open>Migration\<close> (\<open>sentry/config.py\<close>, \<open>migration.py\<close>), \<open>Triggers\<close>,
    \<open>Correlation\<close>, \<open>Planner\<close> (\<open>sentry/resources.py\<close>), \<open>Engine\<close> (\<open>sentry/engine.py\<close>) with
    \<open>Saving\<close>, \<open>Faults\<close> and \<open>Simulation\<close>: the rules. \<open>Engine\<close> has one input for every turn
    of every thread; its theorems say that actions belong to the running arming, that a sequence is
    queued whole or not at all, that a failure stops only what needs it, that a restart loses no
    rule, and that the simulation in the editor tells the truth.
  \<^item> \<open>Scheduler\<close> (\<open>vision/scheduler.py\<close>) and \<open>Turns\<close>: fairness, distance and the frame a
    result belongs to.
  \<^item> \<open>SatConfig\<close>, \<open>Wiring\<close> (the agent's configuration and its overlay), \<open>Spool\<close>,
    \<open>Commands\<close>, \<open>Agent\<close> (\<open>agent.py\<close>) with \<open>Sending\<close>, \<open>Ordered\<close> and \<open>Arriving\<close>: the
    satellite. Every reading is accounted for; in undisturbed runs it goes out in order and the
    hub's door takes it as news.
  \<^item> \<open>Tracker\<close> (\<open>presence/service.py\<close>): a presence source. Whatever the scanner tells it,
    it says present or absent only on the evidence of one unbroken stretch of scanning.
  \<^item> \<open>Utf8\<close> (what Python's codec does), \<open>DBus\<close> (\<open>presence/dbus.py\<close>), \<open>Marshalled\<close> and
    \<open>Ending\<close>: the wire format of the Bluetooth daemon. What is written is read back however the
    socket cuts it; reading ends for every message without empty structs, and not for one with.

  \<^bold>\<open>Loops.\<close> Every loop over data but one is a terminating recursion; no definition takes fuel.
  The exception is the reader of \<open>DBus\<close>, whose loop need not end: it is a partial function, its value
  \<open>None\<close> is a call that never returns, and \<open>Ending\<close> says when it returns. The loops that run for as
  long as the program does (the engine's worker, the scheduler, the agent's threads, the gateway's
  listener, the driver of a presence source) are step functions, and the theorems quantify over all
  sequences of steps. Liveness theorems give the number of steps they need.

  \<^bold>\<open>Not modelled.\<close> HTTP and pages (\<open>web.py\<close>, \<open>api.py\<close>, \<open>cli.py\<close>, \<open>app.py\<close>); the
  threads around OpenCV, ffmpeg, sound programs, the Bluetooth scanner, MQTT, sockets and files, which are I/O;
  status pages and log lines; the scripts of the administrator; the firmware, which is C++. JSON's
  \<open>NaN\<close> and \<open>Infinity\<close>, rounding of floats and the memory of the process are outside the model.
\<close>

end
